(* ===== verification/Prelude.thy ===== *)
theory Prelude
  imports Main "HOL-Library.Word" "HOL-Library.Monad_Syntax"
begin

text \<open>
  The vocabulary every component of the development shares: the C integer types at their
  width, pointers, the error codes the library returns, undefined behaviour as
  \<open>None\<close>, and generic lemmas about byte lists, sub-ranges of a buffer and linked lists
  threaded through a \<open>next\<close> field.
\<close>

unbundle bit_operations_syntax

section \<open>Types\<close>

type_synonym u8 = "8 word"
type_synonym u16 = "16 word"
type_synonym u32 = "32 word"
type_synonym u64 = "64 word"

text \<open>\<open>size_t\<close> is 64 bits wide on the platforms the Makefile builds for.\<close>

type_synonym bytes = "u8 list"

text \<open>
  An address is a natural number and a pointer is an optional address (\<open>None\<close> is
  \<open>NULL\<close>).
\<close>

type_synonym addr = nat
type_synonym ptr = "addr option"

text \<open>
  Return codes: \<open>EOK\<close> is zero, the others are the \<open>errno\<close> constants the library
  uses; a code made by a user's packet interface is \<open>EOTHER\<close>.
\<close>

datatype errno = EOK | EINVAL | ENOMEM | ENOSPC | ETIME | ECOMM | EBUSY | ENOTCONN
  | ESHUTDOWN | EWOULDBLOCK | EHOSTDOWN | EINTR | EOTHER int

definition NPOS :: u64 where
  "NPOS = - 1"

text \<open>
  A C expression that reads or writes outside an object, follows a null pointer or fetches
  a variadic argument of the wrong type has no meaning. The model of such a step is
  \<open>None\<close>; everything else is \<open>Some\<close>. Memory safety of a routine is the statement
  that it is never \<open>None\<close>.
\<close>

text \<open>A signed computation that leaves the range of \<open>int\<close> has no meaning either.\<close>

definition cint :: "int \<Rightarrow> int option" where
  "cint x = (if - 2147483648 \<le> x \<and> x \<le> 2147483647 then Some x else None)"

definition INT_MAX :: nat where
  "INT_MAX = 2147483647"

lemma cint_nat: "cint (int n) = (if n \<le> INT_MAX then Some (int n) else None)"
  by (simp add: cint_def INT_MAX_def)

lemma cint_Suc: "cint (int n + 1) = (if n < INT_MAX then Some (int n + 1) else None)"
  by (simp add: cint_def INT_MAX_def)

named_theorems word_bytes \<open>facts about words taken apart into octets and put together\<close>

section \<open>Sub-ranges of a buffer\<close>

definition read_at :: "nat \<Rightarrow> nat \<Rightarrow> 'a list \<Rightarrow> 'a list option" where
  "read_at pos n xs = (if pos + n \<le> length xs then Some (take n (drop pos xs)) else None)"

definition write_at :: "nat \<Rightarrow> 'a list \<Rightarrow> 'a list \<Rightarrow> 'a list option" where
  "write_at pos ys xs =
     (if pos + length ys \<le> length xs
      then Some (take pos xs @ ys @ drop (pos + length ys) xs) else None)"

lemma read_at_Some [simp]: "pos + n \<le> length xs \<Longrightarrow> read_at pos n xs = Some (take n (drop pos xs))"
  by (simp add: read_at_def)

lemma read_at_0 [simp]: "pos \<le> length xs \<Longrightarrow> read_at pos 0 xs = Some []"
  by (simp add: read_at_def)

lemma read_at_append [simp]: "read_at (length xs) (length ys) (xs @ ys @ zs) = Some ys"
  by (simp add: read_at_def)

lemma read_at_appendI: "pos = length xs \<Longrightarrow> n = length ys \<Longrightarrow> read_at pos n (xs @ ys @ zs) = Some ys"
  by simp

lemma write_at_Some [simp]:
  "pos + length ys \<le> length xs \<Longrightarrow>
     write_at pos ys xs = Some (take pos xs @ ys @ drop (pos + length ys) xs)"
  by (simp add: write_at_def)

lemma write_at_None_iff: "write_at pos ys xs = None \<longleftrightarrow> length xs < pos + length ys"
  by (auto simp: write_at_def)

lemma write_at_length: "write_at pos ys xs = Some zs \<Longrightarrow> length zs = length xs"
  by (auto simp: write_at_def split: if_splits)

lemma write_at_SomeD:
  assumes "write_at pos ys xs = Some zs"
  shows "pos + length ys \<le> length xs" and "zs = take pos xs @ ys @ drop (pos + length ys) xs"
  using assms by (auto simp: write_at_def split: if_splits)

lemma take_write_at: "write_at pos ys xs = Some zs \<Longrightarrow> n \<le> pos \<Longrightarrow> take n zs = take n xs"
  by (auto simp: write_at_def min_def split: if_splits)

lemma drop_write_at: "write_at pos ys xs = Some zs \<Longrightarrow> pos + length ys \<le> n \<Longrightarrow> drop n zs = drop n xs"
  by (auto simp: write_at_def split: if_splits)

lemma take_write_at_end:
  "write_at pos ys xs = Some zs \<Longrightarrow> take (pos + length ys) zs = take pos xs @ ys"
  by (auto simp: write_at_def split: if_splits)

section \<open>Words\<close>

lemma unat_exp: "k < LENGTH('a) \<Longrightarrow> unat (2 ^ k :: 'a::len word) = 2 ^ k"
proof -
  assume "k < LENGTH('a)"
  then have "(2::nat) ^ k < 2 ^ LENGTH('a)" by simp
  moreover have "(2 ^ k :: 'a word) = of_nat (2 ^ k)" by simp
  ultimately show ?thesis by (simp only: unsigned_of_nat take_bit_nat_eq_self of_nat_id)
qed

lemma unat_less_exp: "unat (w :: 'a::len word) < 2 ^ LENGTH('a)"
  by (rule unsigned_less)

lemma unat_ucast_up:
  assumes "LENGTH('a) \<le> LENGTH('b)"
  shows "unat (ucast (x :: 'a::len word) :: 'b::len word) = unat x"
proof -
  have "unat x < 2 ^ LENGTH('b)"
    using unat_less_exp [of x] assms by (meson less_le_trans one_le_numeral power_increasing)
  then show ?thesis by (simp add: unsigned_ucast_eq take_bit_nat_eq_self)
qed

lemma unat_ucast_32_64 [simp, word_bytes]: "unat (ucast (x :: u32) :: u64) = unat x"
  by (rule unat_ucast_up) simp

lemma unat_ucast_8_64 [simp, word_bytes]: "unat (ucast (x :: u8) :: u64) = unat x"
  by (rule unat_ucast_up) simp

lemma unat_sub_le: "y \<le> x \<Longrightarrow> unat (x - y) = unat x - unat (y :: 'a::len word)"
  by (simp add: unat_sub)

lemma unat_add_le: "unat x + unat y < 2 ^ LENGTH('a) \<Longrightarrow> unat (x + y) = unat x + unat (y :: 'a::len word)"
  by (simp add: unat_word_ariths)

lemma unat_add_of_nat:
  "unat x + n < 2 ^ LENGTH('a) \<Longrightarrow> unat (x + of_nat n) = unat (x :: 'a::len word) + n"
  by (simp add: unat_word_ariths unsigned_of_nat take_bit_nat_def mod_add_right_eq)

end
