(* ===== verification/Util.thy ===== *)
theory Util
  imports Prelude "HOL-Library.While_Combinator"
begin

text \<open>
  The helpers of \<open>src/util.c\<close>: conditional free, binary duplicate, the two roundings to a
  power of two and the test for an all-zero buffer, with what each of them computes.
\<close>

section \<open>Memory helpers\<close>

text \<open>
  A pointer to an octet array that the library only copies is modelled by the octets it
  points to (\<open>None\<close> is \<open>NULL\<close>). \<open>ok\<close> is the outcome of the allocation.
\<close>

definition tripm_cfree :: "'a option \<Rightarrow> 'a option" where
  "tripm_cfree p = None"

definition tripm_bdup :: "bool \<Rightarrow> nat \<Rightarrow> bytes option \<Rightarrow> bytes option option" where
  "tripm_bdup ok len buf =
     (if len \<noteq> 0
      then (if ok then (case buf of None \<Rightarrow> None | Some b \<Rightarrow> map_option Some (read_at 0 len b))
            else Some None)
      else Some None)"

section \<open>Rounding to a power of two\<close>

text \<open>\<open>MAX_SIZE\<close> is \<open>1 << ((sizeof(int) * 8) - 2)\<close> with a 4-octet \<open>int\<close>.\<close>

definition MAX_SIZE :: int where
  "MAX_SIZE = push_bit (4 * 8 - 2) 1"

definition near_pwr2 :: "int \<Rightarrow> int" where
  "near_pwr2 n =
     (if n < 1 then 1
      else if (n AND (n - 1)) = 0 then n
      else if n > MAX_SIZE then MAX_SIZE
      else while (\<lambda>p. p < n) (\<lambda>p. push_bit 1 p) 1)"

definition near_pwr2_64 :: "u64 \<Rightarrow> u64" where
  "near_pwr2_64 n0 =
     (let n = n0 - 1;
          n = n OR drop_bit 1 n;
          n = n OR drop_bit 2 n;
          n = n OR drop_bit 4 n;
          n = n OR drop_bit 8 n;
          n = n OR drop_bit 16 n;
          n = n OR drop_bit 32 n
      in n + 1)"

fun are_zeros :: "nat \<Rightarrow> bytes \<Rightarrow> bool option" where
  "are_zeros 0 buf = Some True"
| "are_zeros (Suc len) [] = None"
| "are_zeros (Suc len) (b # buf) = (if b \<noteq> 0 then Some False else are_zeros len buf)"

section \<open>What they compute\<close>

lemma are_zeros_eq:
  "n \<le> length buf \<Longrightarrow> are_zeros n buf = Some (\<forall>b \<in> set (take n buf). b = 0)"
  by (induction n buf rule: are_zeros.induct) auto

lemma are_zeros_replicate [simp]: "are_zeros n (replicate n 0) = Some True"
  by (simp add: are_zeros_eq)

text \<open>
  One round of the smear: if a bit of \<open>y\<close> says that \<open>x\<close> has a bit in the window of
  width \<open>w\<close> above it, then a bit of \<open>y OR (y >> w)\<close> says so for the window of
  width \<open>2 w\<close>.
\<close>

lemma smear_step:
  fixes x y :: "'a::len word"
  assumes "\<And>i. bit y i \<longleftrightarrow> (\<exists>d<w. bit x (i + d))"
  shows "bit (y OR drop_bit w y) i \<longleftrightarrow> (\<exists>d<2 * w. bit x (i + d))"
proof -
  have "bit (y OR drop_bit w y) i \<longleftrightarrow> (\<exists>d<w. bit x (i + d)) \<or> (\<exists>d<w. bit x (i + (w + d)))"
    by (simp add: bit_or_iff bit_drop_bit_eq assms ac_simps)
  also have "\<dots> \<longleftrightarrow> (\<exists>d<2 * w. bit x (i + d))" (is "?l \<longleftrightarrow> ?r")
  proof
    assume ?r
    then obtain d where d: "d < 2 * w" "bit x (i + d)" by blast
    show ?l
    proof (cases "d < w")
      case False
      with d have "d - w < w" "bit x (i + (w + (d - w)))" by auto
      then show ?thesis by blast
    qed (use d in blast)
  next
    assume ?l
    then obtain d e where "bit x (i + e)" "e = d \<or> e = w + d" "d < w" by blast
    then have "e < 2 * w" by auto
    with \<open>bit x (i + e)\<close> show ?r by blast
  qed
  finally show ?thesis .
qed

lemma smear_bits:
  fixes x :: u64
  defines "a1 \<equiv> x OR drop_bit 1 x"
  defines "a2 \<equiv> a1 OR drop_bit 2 a1"
  defines "a3 \<equiv> a2 OR drop_bit 4 a2"
  defines "a4 \<equiv> a3 OR drop_bit 8 a3"
  defines "a5 \<equiv> a4 OR drop_bit 16 a4"
  defines "a6 \<equiv> a5 OR drop_bit 32 a5"
  shows "bit a6 i \<longleftrightarrow> (\<exists>d<64. bit x (i + d))"
proof -
  have "bit x i \<longleftrightarrow> (\<exists>d<1. bit x (i + d))" for i by simp
  from smear_step [OF this] have 1: "bit a1 i \<longleftrightarrow> (\<exists>d<2. bit x (i + d))" for i
    unfolding a1_def by simp
  from smear_step [OF 1] have 2: "bit a2 i \<longleftrightarrow> (\<exists>d<4. bit x (i + d))" for i
    unfolding a2_def by simp
  from smear_step [OF 2] have 3: "bit a3 i \<longleftrightarrow> (\<exists>d<8. bit x (i + d))" for i
    unfolding a3_def by simp
  from smear_step [OF 3] have 4: "bit a4 i \<longleftrightarrow> (\<exists>d<16. bit x (i + d))" for i
    unfolding a4_def by simp
  from smear_step [OF 4] have 5: "bit a5 i \<longleftrightarrow> (\<exists>d<32. bit x (i + d))" for i
    unfolding a5_def by simp
  from smear_step [OF 5] show "bit a6 i \<longleftrightarrow> (\<exists>d<64. bit x (i + d))"
    unfolding a6_def by simp
qed

lemma word_top_bit:
  fixes x :: "'a::len word"
  assumes "x \<noteq> 0"
  obtains m where "m < LENGTH('a)" "bit x m" "\<And>j. bit x j \<Longrightarrow> j \<le> m"
    "2 ^ m \<le> unat x" "unat x < 2 ^ Suc m"
proof -
  let ?S = "{j. bit x j}"
  have fin: "finite ?S"
    by (rule finite_subset [of _ "{..<LENGTH('a)}"]) (auto dest: bit_imp_le_length)
  have ne: "?S \<noteq> {}"
    using assms bit_word_eqI [of x 0] by auto
  define m where "m = Max ?S"
  have m: "bit x m" "\<And>j. bit x j \<Longrightarrow> j \<le> m"
    using Max_in [OF fin ne] Max_ge [OF fin] unfolding m_def by auto
  have "2 ^ m \<le> unat x"
  proof -
    have "odd (unat x div 2 ^ m)"
      using m(1) by (simp add: bit_unsigned_iff flip: bit_iff_odd)
    then have "unat x div 2 ^ m \<noteq> 0" by (cases "unat x div 2 ^ m = 0") auto
    then show ?thesis by (simp add: div_eq_0_iff)
  qed
  moreover have "unat x < 2 ^ Suc m"
  proof -
    have "take_bit (Suc m) (unat x) = unat x"
      by (rule bit_eqI) (use m(2) in \<open>auto simp: bit_take_bit_iff bit_unsigned_iff less_Suc_eq_le\<close>)
    then show ?thesis by (metis take_bit_nat_less_exp)
  qed
  ultimately show ?thesis using m bit_imp_le_length that by blast
qed

lemma smear_mask:
  fixes x s :: u64
  assumes s: "\<And>i. bit s i \<longleftrightarrow> (\<exists>d<64. bit x (i + d))"
    and m: "m < 64" "bit x m" "\<And>j. bit x j \<Longrightarrow> j \<le> m"
  shows "s = mask (Suc m)"
proof (rule bit_word_eqI)
  fix n
  assume "n < LENGTH(64)"
  have "bit s n \<longleftrightarrow> n \<le> m"
  proof
    assume "bit s n"
    then obtain d where "bit x (n + d)" using s by blast
    then show "n \<le> m" using m(3) by fastforce
  next
    assume "n \<le> m"
    then have "m - n < 64" "bit x (n + (m - n))" using m by auto
    then show "bit s n" using s by blast
  qed
  then show "bit s n \<longleftrightarrow> bit (mask (Suc m) :: u64) n"
    using \<open>n < LENGTH(64)\<close> by (simp add: bit_mask_iff less_Suc_eq_le)
qed

lemma near_pwr2_64_mask:
  assumes "n \<noteq> 1" "n \<noteq> 0"
  obtains m where "m < 64" "near_pwr2_64 n = mask (Suc m) + 1"
    "2 ^ m < unat n" "unat n \<le> 2 ^ Suc m"
proof -
  from assms(1) have "n - 1 \<noteq> 0" by simp
  then obtain m where m: "m < LENGTH(64)" "bit (n - 1) m" "\<And>j. bit (n - 1) j \<Longrightarrow> j \<le> m"
    "2 ^ m \<le> unat (n - 1)" "unat (n - 1) < 2 ^ Suc m"
    by (rule word_top_bit) blast
  have "near_pwr2_64 n = mask (Suc m) + 1"
    unfolding near_pwr2_64_def Let_def
    using smear_mask [OF smear_bits [of "n - 1"] _ m(2,3)] m(1) by simp
  moreover have "unat n = unat (n - 1) + 1"
  proof -
    have "unat n \<noteq> 0" using assms(2) by (simp add: unsigned_eq_0_iff)
    then have "1 \<le> n" by (simp add: word_le_nat_alt)
    with \<open>unat n \<noteq> 0\<close> show ?thesis by (simp add: unat_sub_le)
  qed
  ultimately show ?thesis using m that by simp
qed

text \<open>\<open>near_pwr2_64\<close> is the least power of two at or above a value up to \<open>2^63\<close>.\<close>

lemma near_pwr2_64_least:
  assumes "0 < unat n" "unat n \<le> 2 ^ 63"
  obtains k where "k \<le> 63" "unat (near_pwr2_64 n) = 2 ^ k" "unat n \<le> 2 ^ k"
    "k = 0 \<or> 2 ^ (k - 1) < unat n"
proof (cases "n = 1")
  case True
  then have "unat (near_pwr2_64 n) = 2 ^ 0" by (simp add: near_pwr2_64_def)
  with True that [of 0] show ?thesis by simp
next
  case False
  from assms(1) have "n \<noteq> 0" by auto
  with False obtain m where m: "m < 64" "near_pwr2_64 n = mask (Suc m) + 1"
    "2 ^ m < unat n" "unat n \<le> 2 ^ Suc m"
    by (rule near_pwr2_64_mask)
  have "(2::nat) ^ m < 2 ^ 63" using m(3) assms(2) by (rule less_le_trans)
  then have "Suc m \<le> 63" by (simp only: power_strict_increasing_iff Suc_le_eq)
  have "near_pwr2_64 n = 2 ^ Suc m"
    using m(2) by (simp add: mask_eq_exp_minus_1)
  then have "unat (near_pwr2_64 n) = 2 ^ Suc m"
    using \<open>Suc m \<le> 63\<close> by (simp add: unat_exp del: power_Suc)
  with m \<open>Suc m \<le> 63\<close> that [of "Suc m"] show ?thesis by simp
qed

lemma near_pwr2_64_power:
  assumes "k \<le> 63"
  shows "near_pwr2_64 (2 ^ k) = 2 ^ k"
proof -
  have u: "unat (2 ^ k :: u64) = 2 ^ k"
    using assms by (simp add: unat_exp)
  moreover have "(2::nat) ^ k \<le> 2 ^ 63"
    using assms by (intro power_increasing) auto
  ultimately have "0 < unat (2 ^ k :: u64)" "unat (2 ^ k :: u64) \<le> 2 ^ 63" by auto
  then obtain j where j: "j \<le> 63" "unat (near_pwr2_64 (2 ^ k)) = 2 ^ j"
    "unat (2 ^ k :: u64) \<le> 2 ^ j" "j = 0 \<or> 2 ^ (j - 1) < unat (2 ^ k :: u64)"
    by (rule near_pwr2_64_least)
  then have "k \<le> j" "j = 0 \<or> j - 1 < k" using u by auto
  then have "j = k" by auto
  with j(2) u show ?thesis by (simp add: word_unat_eq_iff)
qed

section \<open>The two roundings agree\<close>

text \<open>A number that shares no bit with its predecessor is a power of two.\<close>

lemma pred_disjoint_power:
  fixes n :: int
  assumes "1 \<le> n" "n AND (n - 1) = 0"
  shows "\<exists>k. n = 2 ^ k"
  using assms
proof (induction "nat n" arbitrary: n rule: less_induct)
  case less
  show ?case
  proof (cases "even n")
    case True
    then obtain m where m: "n = 2 * m" by (rule evenE)
    have "2 * i AND (1 + 2 * j) = 2 * (i AND j)" for i j :: int
      by (rule bit_eqI) (auto simp: bit_and_iff bit_double_iff even_bit_succ_iff)
    from this [of m "m - 1"] have "2 * m AND (1 + 2 * (m - 1)) = 2 * (m AND (m - 1))" .
    moreover have "1 + 2 * (m - 1) = n - 1" using m by simp
    ultimately have "n AND (n - 1) = 2 * (m AND (m - 1))" using m by simp
    then have "m AND (m - 1) = 0" using less.prems by simp
    moreover have "1 \<le> m" "nat m < nat n" using less.prems m by simp_all
    ultimately obtain k where "m = 2 ^ k" using less.hyps by blast
    then show ?thesis using m by (intro exI [of _ "Suc k"]) simp
  next
    case False
    then obtain m where m: "n = 2 * m + 1" by (rule oddE)
    have "(1 + 2 * m) AND (2 * m) = 2 * m"
      by (rule bit_eqI) (auto simp: bit_and_iff bit_double_iff even_bit_succ_iff)
    then have "n AND (n - 1) = n - 1" using m by (simp add: add.commute)
    then have "n = 2 ^ 0" using less.prems by simp
    then show ?thesis by blast
  qed
qed

text \<open>The loop of \<open>near_pwr2\<close> ends at the first power that is large enough.\<close>

lemma near_pwr2_loop:
  assumes "1 < n"
  obtains k where "while (\<lambda>p. p < n) (\<lambda>p. push_bit 1 p) (1::int) = 2 ^ Suc k" "2 ^ k < n" "n \<le> 2 ^ Suc k"
proof -
  let ?P = "\<lambda>p. p = 1 \<or> (\<exists>k. p = 2 ^ Suc k \<and> 2 ^ k < n)"
  have "?P (while (\<lambda>p. p < n) (\<lambda>p. push_bit 1 p) (1::int)) \<and> \<not> while (\<lambda>p. p < n) (\<lambda>p. push_bit 1 p) (1::int) < n"
  proof (rule while_rule [where P = ?P and r = "measure (\<lambda>p. nat (n - p)) \<inter> {(q, p). 0 < p \<and> p < n}"])
    show "?P (push_bit 1 p)" if "?P p" "p < n" for p
      using that assms by (auto simp: push_bit_eq_mult intro: exI [of _ 0] exI [of _ "Suc _"])
    show "wf (measure (\<lambda>p. nat (n - p)) \<inter> {(q, p). 0 < p \<and> p < n})" by (rule wf_subset [OF wf_measure]) blast
    show "(push_bit 1 p, p) \<in> measure (\<lambda>p. nat (n - p)) \<inter> {(q, p). 0 < p \<and> p < n}" if "?P p" "p < n" for p
      using that by (auto simp: push_bit_eq_mult)
  qed auto
  with assms that show thesis by fastforce
qed

lemma least_power_unique:
  assumes "(2::nat) ^ k < n" "n \<le> 2 ^ Suc k" "n \<le> 2 ^ j" "j = 0 \<or> 2 ^ (j - 1) < n"
  shows "j = Suc k"
proof -
  have "(2::nat) ^ k < 2 ^ j" using assms(1,3) by (rule less_le_trans)
  then have "k < j" by simp
  then have "(2::nat) ^ (j - 1) < n" using assms(4) by simp
  then have "(2::nat) ^ (j - 1) < 2 ^ Suc k" using assms(2) by (rule less_le_trans)
  then have "j - 1 < Suc k" by (simp only: power_strict_increasing_iff)
  with \<open>k < j\<close> show ?thesis by simp
qed

text \<open>C40: The two roundings to a power of two agree. From 1 up to \<open>MAX_SIZE\<close> the loop of
  \<open>near_pwr2\<close> and the bit smearing of \<open>near_pwr2_64\<close> give the same number, the least power
  of two that is not below the argument; beyond it \<open>near_pwr2\<close> gives a number below its
  argument.\<close>

theorem near_pwr2_agree:
  assumes "1 \<le> n"
  shows "(n \<le> MAX_SIZE \<longrightarrow> near_pwr2 n = uint (near_pwr2_64 (of_int n))) \<and>
    (MAX_SIZE < n \<longrightarrow> n < 2 ^ 31 \<longrightarrow> near_pwr2 n < n)"
proof -
  have MAX: "MAX_SIZE = 2 ^ 30" by (simp add: MAX_SIZE_def push_bit_eq_mult)
  have "near_pwr2 n = uint (near_pwr2_64 (of_int n))" if le: "n \<le> 2 ^ 30"
  proof (cases "n AND (n - 1) = 0")
    case True
    then obtain k where k: "n = 2 ^ k" using pred_disjoint_power assms by blast
    then have "(2::int) ^ k \<le> 2 ^ 30" using le by simp
    then have "k \<le> 30" by (simp only: power_increasing_iff)
    then have "near_pwr2_64 (of_int n) = 2 ^ k" using k near_pwr2_64_power [of k] by simp
    moreover have "uint (2 ^ k :: u64) = 2 ^ k"
      using \<open>k \<le> 30\<close> unat_exp [of k, where 'a = 64] by (simp add: uint_nat)
    moreover have "near_pwr2 n = n" using True assms by (simp add: near_pwr2_def)
    ultimately show ?thesis using k by simp
  next
    case False
    then have "1 < n" using assms by (cases "n = 1") auto
    then obtain k where k: "near_pwr2 n = 2 ^ Suc k" "2 ^ k < n" "n \<le> 2 ^ Suc k"
      using near_pwr2_loop [of n] False le MAX assms by (metis near_pwr2_def not_less)
    have "(of_int n :: u64) = of_nat (nat n)" using assms by simp
    moreover have "nat n < 2 ^ 64" using le by simp
    ultimately have u: "unat (of_int n :: u64) = nat n"
      by (simp only: unsigned_of_nat) (simp add: take_bit_nat_eq_self)
    obtain j where j: "j \<le> 63" "unat (near_pwr2_64 (of_int n)) = 2 ^ j" "nat n \<le> 2 ^ j" "j = 0 \<or> 2 ^ (j - 1) < nat n"
      by (rule near_pwr2_64_least [of "of_int n"]) (use u assms le in \<open>auto\<close>)
    have "2 ^ k < nat n" "nat n \<le> 2 ^ Suc k" using k by (simp_all add: nat_le_iff zless_nat_eq_int_zless)
    then have "j = Suc k" using j(3,4) by (rule least_power_unique)
    with j(2) have "int (unat (near_pwr2_64 (of_int n))) = 2 ^ Suc k" by (simp only: of_nat_power of_nat_numeral)
    with k(1) show ?thesis by (simp only: uint_nat)
  qed
  moreover have "near_pwr2 n < n" if n: "2 ^ 30 < n" "n < 2 ^ 31"
  proof -
    have "n AND (n - 1) \<noteq> 0"
    proof
      assume "n AND (n - 1) = 0"
      then obtain k where "n = 2 ^ k" using pred_disjoint_power assms by blast
      with n have "(2::int) ^ 30 < 2 ^ k" "(2::int) ^ k < 2 ^ 31" by simp_all
      then have "30 < k" "k < 31" by (simp_all only: power_strict_increasing_iff)
      then show False by simp
    qed
    with n assms MAX show ?thesis by (simp add: near_pwr2_def)
  qed
  ultimately show ?thesis unfolding MAX by blast
qed

theorem near_pwr2_agree_witness: "near_pwr2 100 = uint (near_pwr2_64 100)"
  using near_pwr2_agree [of 100] by (simp add: MAX_SIZE_def push_bit_eq_mult)

end
