(* ===== verification/Trip_Time.thy ===== *)
theory Trip_Time
  imports Prelude
begin

text \<open>
  The time functions of \<open>src/time.c\<close>: a reading of the clock in milliseconds, the deadline
  a number of milliseconds from it and the time left before a deadline, clamped.
\<close>

section \<open>The functions\<close>

definition TRIPTIME_END :: u64 where
  "TRIPTIME_END = - 1"

definition TRIP_MIN_TIMEOUT :: int where
  "TRIP_MIN_TIMEOUT = 1"

definition TRIP_MAX_TIMEOUT :: int where
  "TRIP_MAX_TIMEOUT = 10000"

text \<open>
  \<open>clock_gettime\<close> is the operating system's: its reading (seconds and nanoseconds, or
  \<open>None\<close> when it fails) is an argument.
\<close>

definition triptime_now :: "(u64 \<times> nat) option \<Rightarrow> u64" where
  "triptime_now t =
     (case t of None \<Rightarrow> 0
      | Some (tv_sec, tv_nsec) \<Rightarrow> tv_sec * 1000 + of_nat (tv_nsec div 1000000))"

text \<open>The \<open>int\<close> is converted to 64 bits, so a negative one moves the deadline back.\<close>

definition triptime_deadline :: "u64 \<Rightarrow> int \<Rightarrow> u64" where
  "triptime_deadline n timeout_ms = n + of_int timeout_ms"

text \<open>\<open>(int)(deadline - now)\<close> keeps the low 32 bits and reads them as two's complement.\<close>

definition triptime_timeout :: "u64 \<Rightarrow> u64 \<Rightarrow> int" where
  "triptime_timeout deadline now =
     (let timeout = sint (ucast (deadline - now) :: u32)
      in if timeout > TRIP_MAX_TIMEOUT then TRIP_MAX_TIMEOUT
         else if timeout < 0 then TRIP_MIN_TIMEOUT
         else timeout)"

section \<open>What they compute\<close>

lemma triptime_deadline_0 [simp]: "triptime_deadline n 0 = n"
  by (simp add: triptime_deadline_def)

lemma unat_triptime_deadline:
  assumes "0 \<le> ms" "unat n + nat ms < 2 ^ 64"
  shows "unat (triptime_deadline n ms) = unat n + nat ms"
proof -
  have "triptime_deadline n ms = n + of_nat (nat ms)"
    using assms(1) by (simp add: triptime_deadline_def)
  with assms(2) show ?thesis by (simp add: unat_add_of_nat)
qed

lemma sint_low32:
  fixes x :: u64
  assumes "unat x < 2 ^ 31"
  shows "sint (ucast x :: u32) = int (unat x)"
proof -
  have x: "0 \<le> uint x" "uint x < 2 ^ 31"
  proof -
    have "int (unat x) < int (2 ^ 31)" using assms by (simp only: of_nat_less_iff)
    then show "uint x < 2 ^ 31" by simp
  qed simp
  have "uint x < 2 ^ 32" using x(2) by (rule less_trans) simp
  then have "take_bit 32 (uint x) = uint x"
    by (rule take_bit_int_eq_self [OF x(1)])
  moreover have "uint (ucast x :: u32) = take_bit 32 (uint x)"
    by (simp add: unsigned_ucast_eq)
  ultimately have "uint (ucast x :: u32) = uint x" by (simp only:)
  then have "sint (ucast x :: u32) = signed_take_bit 31 (uint x)"
    by (simp add: sint_uint)
  also have "\<dots> = uint x"
    by (rule signed_take_bit_int_eq_self [OF _ x(2)]) (rule order_trans [OF _ x(1)], simp)
  finally show ?thesis by simp
qed

lemma triptime_timeout_range: "0 \<le> triptime_timeout d n \<and> triptime_timeout d n \<le> TRIP_MAX_TIMEOUT"
  by (simp add: triptime_timeout_def Let_def TRIP_MAX_TIMEOUT_def TRIP_MIN_TIMEOUT_def)

lemma triptime_timeout_near:
  assumes "unat now \<le> unat deadline" "unat deadline < unat now + 2 ^ 31"
  shows "triptime_timeout deadline now = min (int (unat deadline - unat now)) TRIP_MAX_TIMEOUT"
proof -
  have "unat (deadline - now) = unat deadline - unat now"
    using assms(1) by (simp add: unat_sub word_le_nat_alt)
  then have "sint (ucast (deadline - now) :: u32) = int (unat deadline - unat now)"
    using assms sint_low32 [of "deadline - now"] by simp
  then show ?thesis
    unfolding triptime_timeout_def Let_def TRIP_MAX_TIMEOUT_def TRIP_MIN_TIMEOUT_def
    by (simp only: min_def) arith
qed

end
