(* ===== verification/Octets.thy ===== *)
theory Octets
  imports Prelude
begin

text \<open>
  The integer encoders and decoders at the bottom of \<open>src/pack.c\<close>: big-endian octets of
  16, 32 and 64-bit integers, the number of significant octets of an integer, and the two
  loops that write and read the octets of a variable-length integer.
\<close>

section \<open>Fixed-width integers\<close>

text \<open>
  Each assignment \<open>*buf++ = i >> k\<close> stores the low octet of the shifted value. The signed
  and unsigned format specifiers share these writers.
\<close>

definition packi16 :: "u32 \<Rightarrow> bytes" where
  "packi16 i = [ucast (drop_bit 8 i), ucast i]"

definition packi32 :: "u32 \<Rightarrow> bytes" where
  "packi32 i = [ucast (drop_bit 24 i), ucast (drop_bit 16 i), ucast (drop_bit 8 i), ucast i]"

definition packi64 :: "u64 \<Rightarrow> bytes" where
  "packi64 i =
     [ucast (drop_bit 56 i), ucast (drop_bit 48 i), ucast (drop_bit 40 i), ucast (drop_bit 32 i),
      ucast (drop_bit 24 i), ucast (drop_bit 16 i), ucast (drop_bit 8 i), ucast i]"

text \<open>
  The readers take the octets at the buffer position; \<open>None\<close> is a read past the end of the
  buffer. The signed readers restore the sign with unsigned subtraction, as the code does.
\<close>

fun unpacku16 :: "bytes \<Rightarrow> u16 option" where
  "unpacku16 (b0 # b1 # _) = Some (push_bit 8 (ucast b0) OR ucast b1)"
| "unpacku16 _ = None"

fun unpacki16 :: "bytes \<Rightarrow> u16 option" where
  "unpacki16 (b0 # b1 # _) =
     (let i2 = push_bit 8 (ucast b0) OR (ucast b1 :: u32);
          i = (if i2 \<le> 0x7fff then i2 else - 1 - (0xffff - i2))
      in Some (ucast i))"
| "unpacki16 _ = None"

fun unpacku32 :: "bytes \<Rightarrow> u32 option" where
  "unpacku32 (b0 # b1 # b2 # b3 # _) =
     Some (push_bit 24 (ucast b0) OR push_bit 16 (ucast b1) OR push_bit 8 (ucast b2) OR ucast b3)"
| "unpacku32 _ = None"

fun unpacki32 :: "bytes \<Rightarrow> u32 option" where
  "unpacki32 (b0 # b1 # b2 # b3 # _) =
     (let i2 = push_bit 24 (ucast b0) OR push_bit 16 (ucast b1) OR push_bit 8 (ucast b2) OR ucast b3
      in Some (if i2 \<le> 0x7fffffff then i2 else - 1 - (0xffffffff - i2)))"
| "unpacki32 _ = None"

fun unpacku64 :: "bytes \<Rightarrow> u64 option" where
  "unpacku64 (b0 # b1 # b2 # b3 # b4 # b5 # b6 # b7 # _) =
     Some (push_bit 56 (ucast b0) OR push_bit 48 (ucast b1) OR push_bit 40 (ucast b2)
           OR push_bit 32 (ucast b3) OR push_bit 24 (ucast b4) OR push_bit 16 (ucast b5)
           OR push_bit 8 (ucast b6) OR ucast b7)"
| "unpacku64 _ = None"

fun unpacki64 :: "bytes \<Rightarrow> u64 option" where
  "unpacki64 (b0 # b1 # b2 # b3 # b4 # b5 # b6 # b7 # _) =
     (let i2 = push_bit 56 (ucast b0) OR push_bit 48 (ucast b1) OR push_bit 40 (ucast b2)
           OR push_bit 32 (ucast b3) OR push_bit 24 (ucast b4) OR push_bit 16 (ucast b5)
           OR push_bit 8 (ucast b6) OR ucast b7
      in Some (if i2 \<le> 0x7fffffffffffffff then i2 else - 1 - (0xffffffffffffffff - i2)))"
| "unpacki64 _ = None"

section \<open>Variable-length integers\<close>

function trip_uvar_len :: "u64 \<Rightarrow> nat" where
  "trip_uvar_len n = (if n \<noteq> 0 then Suc (trip_uvar_len (drop_bit 8 n)) else 0)"
  by pat_completeness auto
termination
proof (relation "measure unat")
  fix n :: u64
  assume "n \<noteq> 0"
  then have "unat n \<noteq> 0" by (simp add: unsigned_eq_0_iff)
  then have "unat n div 2 ^ 8 < unat n" by (intro div_less_dividend) simp_all
  then show "(drop_bit 8 n, n) \<in> measure unat"
    by (simp only: in_measure unat_drop_bit_eq) (simp only: drop_bit_eq_div)
qed simp

declare trip_uvar_len.simps [simp del]

text \<open>
  The writer stores the low octet and shifts right, \<open>i\<close> times; the reader shifts left and
  merges the next octet.
\<close>

fun put_uvar :: "nat \<Rightarrow> 'a::len word \<Rightarrow> bytes" where
  "put_uvar 0 n = []"
| "put_uvar (Suc i) n = ucast (0xFF AND n) # put_uvar i (drop_bit 8 n)"

fun get_uvar :: "bytes \<Rightarrow> 'a::len word \<Rightarrow> 'a word" where
  "get_uvar [] n = n"
| "get_uvar (b # bs) n = get_uvar bs (push_bit 8 n XOR ucast b)"

section \<open>Laws\<close>

lemma length_pack [simp, word_bytes]:
  "length (packi16 i) = 2" "length (packi32 i) = 4" "length (packi64 j) = 8"
  by (simp_all add: packi16_def packi32_def packi64_def)

lemma restore_sign16: "ucast (- 1 - (0xffff - x) :: u32) = (ucast x :: u16)"
proof -
  have "- 1 - (0xffff - x) = x - 0x10000" by simp
  moreover have "(ucast (x - 0x10000 :: u32) :: u16) = ucast x"
    by transfer (simp add: take_bit_eq_mod mod_mod_cancel)
  ultimately show ?thesis by simp
qed

lemma octet_bit:
  "bit (push_bit k (ucast (ucast (drop_bit k i) :: u8)) :: 'a::len word) n \<longleftrightarrow>
     k \<le> n \<and> n < k + 8 \<and> bit (i :: 'a word) n"
  by (auto simp: bit_simps dest: bit_imp_le_length)

lemmas octet_bit0 = octet_bit [of 0, simplified]

lemma unpacki32_eq: "unpacki32 bs = unpacku32 bs"
  by (cases bs rule: unpacku32.cases) (simp_all add: Let_def)

lemma unpacki64_eq: "unpacki64 bs = unpacku64 bs"
  by (cases bs rule: unpacku64.cases) (simp_all add: Let_def)

lemma unpacku32_pack [word_bytes]: "unpacku32 (packi32 i @ rest) = Some i"
proof -
  have "push_bit 24 (ucast (ucast (drop_bit 24 i) :: u8)) OR push_bit 16 (ucast (ucast (drop_bit 16 i) :: u8))
    OR push_bit 8 (ucast (ucast (drop_bit 8 i) :: u8)) OR ucast (ucast i :: u8) = i" (is "?l = i")
  proof (rule bit_word_eqI)
    fix n assume "n < LENGTH(32)"
    then show "bit ?l n \<longleftrightarrow> bit i n"
      by (simp only: bit_or_iff octet_bit octet_bit0 len_of_numeral_defs) (cases "bit i n"; simp; arith)
  qed
  then show ?thesis by (simp add: packi32_def)
qed

lemma unpacku64_pack [word_bytes]: "unpacku64 (packi64 i @ rest) = Some i"
proof -
  have "push_bit 56 (ucast (ucast (drop_bit 56 i) :: u8)) OR push_bit 48 (ucast (ucast (drop_bit 48 i) :: u8))
    OR push_bit 40 (ucast (ucast (drop_bit 40 i) :: u8)) OR push_bit 32 (ucast (ucast (drop_bit 32 i) :: u8))
    OR push_bit 24 (ucast (ucast (drop_bit 24 i) :: u8)) OR push_bit 16 (ucast (ucast (drop_bit 16 i) :: u8))
    OR push_bit 8 (ucast (ucast (drop_bit 8 i) :: u8)) OR ucast (ucast i :: u8) = i" (is "?l = i")
  proof (rule bit_word_eqI)
    fix n assume "n < LENGTH(64)"
    then show "bit ?l n \<longleftrightarrow> bit i n"
      by (simp only: bit_or_iff octet_bit octet_bit0 len_of_numeral_defs) (cases "bit i n"; simp; arith)
  qed
  then show ?thesis by (simp add: packi64_def)
qed

lemma unpacku16_pack [word_bytes]: "unpacku16 (packi16 i @ rest) = Some (ucast i)"
proof -
  have "push_bit 8 (ucast (ucast (drop_bit 8 i) :: u8)) OR ucast (ucast i :: u8) = (ucast i :: u16)" (is "?l = ?r")
  proof (rule bit_word_eqI)
    fix n assume "n < LENGTH(16)"
    then show "bit ?l n \<longleftrightarrow> bit ?r n"
      by (cases "n < 8") (auto simp: bit_simps)
  qed
  then show ?thesis by (simp add: packi16_def)
qed

lemma unpacki16_eq: "unpacki16 bs = unpacku16 bs"
proof (cases bs rule: unpacku16.cases)
  case (1 b0 b1 rest)
  have "(ucast (push_bit 8 (ucast b0) OR (ucast b1 :: u32)) :: u16) = push_bit 8 (ucast b0) OR ucast b1"
    by (rule bit_word_eqI) (auto simp: bit_simps)
  then show ?thesis
    by (simp only: 1 unpacki16.simps unpacku16.simps Let_def if_distrib [of ucast] restore_sign16 if_cancel)
qed simp_all

subsection \<open>Variable-length integers\<close>

lemma length_put_uvar [simp]: "length (put_uvar i n) = i"
  by (induction i arbitrary: n) auto

lemma get_uvar_snoc: "get_uvar (bs @ [b]) n = push_bit 8 (get_uvar bs n) XOR ucast b"
  by (induction bs arbitrary: n) auto

lemma bit_0xFF: "bit (0xFF :: 'a::len word) k \<longleftrightarrow> k < LENGTH('a) \<and> k < 8"
proof -
  have "(0xFF :: 'a word) = mask 8" by (simp add: mask_eq_exp_minus_1)
  then show ?thesis by (simp only: bit_mask_iff) (auto simp: possible_bit_def)
qed

lemma uvar_join:
  fixes n :: "'a::len word"
  shows "push_bit 8 (take_bit (8 * i) (drop_bit 8 n)) XOR ucast (ucast (0xFF AND n) :: u8)
    = take_bit (8 * Suc i) n" (is "?l = ?r")
proof (rule bit_word_eqI)
  fix k assume "k < LENGTH('a)"
  then show "bit ?l k \<longleftrightarrow> bit ?r k"
    by (simp only: bit_xor_iff bit_push_bit_iff bit_unsigned_iff bit_and_iff bit_0xFF
          bit_take_bit_iff bit_drop_bit_eq comp_def)
       (cases "k < 8"; auto dest: bit_imp_le_length simp: possible_bit_def)
qed

lemma get_uvar_rev_put: "get_uvar (rev (put_uvar i n)) 0 = take_bit (8 * i) (n :: 'a::len word)"
proof (induction i arbitrary: n)
  case (Suc i)
  then show ?case
    using uvar_join [of i n] by (simp only: put_uvar.simps rev.simps get_uvar_snoc)
qed simp

lemma trip_uvar_len_bound: "n < 2 ^ (8 * k) \<Longrightarrow> k < 8 \<Longrightarrow> trip_uvar_len n \<le> k"
  for n :: u64
proof (induction n arbitrary: k rule: trip_uvar_len.induct)
  case (1 n)
  show ?case
  proof (cases "n = 0")
    case True
    then show ?thesis by (simp add: trip_uvar_len.simps)
  next
    case False
    have u: "unat n < 2 ^ (8 * k)"
      using "1.prems" by (simp add: word_less_nat_alt unat_exp)
    have "k \<noteq> 0"
    proof
      assume "k = 0"
      with u have "unat n = 0" by simp
      with False show False by (simp only: unsigned_eq_0_iff)
    qed
    then obtain j where k: "k = Suc j" using not0_implies_Suc by blast
    have "unat (drop_bit 8 n) < 2 ^ (8 * j)"
      using u by (simp only: unat_drop_bit_eq) (simp add: k drop_bit_eq_div less_mult_imp_div_less power_add)
    then have "drop_bit 8 n < 2 ^ (8 * j)"
      using "1.prems" k by (simp add: word_less_nat_alt unat_exp)
    with "1.IH" [OF False] "1.prems" k False have "trip_uvar_len (drop_bit 8 n) \<le> j" by simp
    with False show ?thesis by (subst trip_uvar_len.simps) (simp add: k)
  qed
qed

lemma trip_uvar_len_le8: "trip_uvar_len n \<le> 8"
proof (cases "n = 0")
  case False
  have "unat (drop_bit 8 n) < 2 ^ 56"
  proof -
    have "unat n < 2 ^ 64" using unat_less_exp [of n] by simp
    then have "unat n < 2 ^ 56 * 2 ^ 8" by simp
    then have "unat n div 2 ^ 8 < 2 ^ 56" by (rule less_mult_imp_div_less)
    then show ?thesis by (simp only: unat_drop_bit_eq drop_bit_nat_def)
  qed
  then have "drop_bit 8 n < 2 ^ (8 * 7)"
    by (simp only: word_less_nat_alt) (simp add: unat_exp)
  then have "trip_uvar_len (drop_bit 8 n) \<le> 7" by (rule trip_uvar_len_bound) simp
  with False show ?thesis by (subst trip_uvar_len.simps) simp
qed (simp add: trip_uvar_len.simps)

lemma trip_uvar_len_covers: "unat n < 2 ^ (8 * trip_uvar_len n)"
proof (induction n rule: trip_uvar_len.induct)
  case (1 n)
  show ?case
  proof (cases "n = 0")
    case False
    then have "unat (drop_bit 8 n) < 2 ^ (8 * trip_uvar_len (drop_bit 8 n))" by (rule "1.IH")
    then have "unat n div 256 < 2 ^ (8 * trip_uvar_len (drop_bit 8 n))"
      by (simp only: unat_drop_bit_eq) (simp add: drop_bit_eq_div)
    then have "unat n < 256 * 2 ^ (8 * trip_uvar_len (drop_bit 8 n))"
      by (simp add: div_less_iff_less_mult mult.commute)
    with False show ?thesis by (subst trip_uvar_len.simps) (simp add: power_add)
  qed (simp add: trip_uvar_len.simps)
qed

text \<open>
  Read in the order they were written reversed, the octets give the integer back; a single
  octet is its own reversal, so integers below 256 survive in either order.
\<close>

lemma get_uvar_rev: "get_uvar (rev (put_uvar (trip_uvar_len n) n)) 0 = n"
proof -
  have "take_bit (8 * trip_uvar_len n) n = n"
    using trip_uvar_len_covers [of n]
    by (simp only: word_unat_eq_iff unsigned_take_bit_eq take_bit_nat_eq_self)
  then show ?thesis by (simp add: get_uvar_rev_put)
qed

lemma unpacku16_defined: "2 \<le> length bs \<Longrightarrow> \<exists>v. unpacku16 bs = Some v"
  by (cases bs rule: unpacku16.cases) simp_all

lemma unpacku32_defined: "4 \<le> length bs \<Longrightarrow> \<exists>v. unpacku32 bs = Some v"
  by (cases bs rule: unpacku32.cases) simp_all

lemma unpacku64_defined: "8 \<le> length bs \<Longrightarrow> \<exists>v. unpacku64 bs = Some v"
  by (cases bs rule: unpacku64.cases) simp_all

lemmas unpacku_defined = unpacku16_defined unpacku32_defined unpacku64_defined

end
