(* ===== verification/Pack.thy ===== *)
theory Pack
  imports Octets
begin

text \<open>
  The format-driven encoder \<open>trip_pack\<close>, its length estimate \<open>trip_pack_len\<close> and the
  signature check \<open>trip_unsign\<close> of \<open>src/pack.c\<close>. The buffer is the list of its octets,
  the moving pointer an offset into it, the variadic arguments a list of typed values and
  every case of the switch a definition of its own. A write outside the buffer, a copy from
  \<open>NULL\<close> or from too short an object, and a \<open>va_arg\<close> of the wrong type are
  \<open>None\<close>.
\<close>

section \<open>The cryptography library\<close>

text \<open>
  libsodium is not part of the repository: its sizes and its two signature functions are a
  parameter. \<open>sodium_laws\<close> states what its documentation promises and the encoder relies
  on: a detached signature fills exactly \<open>crypto_sign_BYTES\<close> octets and all sizes are
  small.
\<close>

record crypto =
  sealbytes :: nat    \<comment> \<open>\<open>crypto_box_SEALBYTES\<close>\<close>
  macbytes :: nat     \<comment> \<open>\<open>crypto_box_MACBYTES\<close>\<close>
  signbytes :: nat    \<comment> \<open>\<open>crypto_sign_BYTES\<close>, \<open>_TRIP_SIGN\<close>\<close>
  noncebytes :: nat   \<comment> \<open>\<open>crypto_box_NONCEBYTES\<close>, \<open>_TRIP_NONCE\<close>\<close>
  pkbytes :: nat      \<comment> \<open>\<open>crypto_box_PUBLICKEYBYTES\<close>, \<open>TRIP_KEY_PUB\<close>\<close>
  skbytes :: nat      \<comment> \<open>\<open>crypto_box_SECRETKEYBYTES\<close>, \<open>TRIP_KEY_SEC\<close>\<close>
  sign_detached :: "bytes \<Rightarrow> bytes \<Rightarrow> bytes"             \<comment> \<open>message, secret key\<close>
  verify_detached :: "bytes \<Rightarrow> bytes \<Rightarrow> bytes \<Rightarrow> bool"   \<comment> \<open>signature, message, public key\<close>

definition sodium_laws :: "crypto \<Rightarrow> bool" where
  "sodium_laws cr \<longleftrightarrow>
     (\<forall>m k. length (sign_detached cr m k) = signbytes cr) \<and>
     sealbytes cr < 1024 \<and> macbytes cr < 1024 \<and> signbytes cr < 1024 \<and>
     9 \<le> noncebytes cr \<and> noncebytes cr < 1024 \<and> pkbytes cr < 1024"

text \<open>The sizes of the released library, with a stub signature, for concrete runs.\<close>

definition sodium :: crypto where
  "sodium = \<lparr>sealbytes = 48, macbytes = 16, signbytes = 64, noncebytes = 24, pkbytes = 32,
     skbytes = 32, sign_detached = (\<lambda>m k. replicate 64 0), verify_detached = (\<lambda>s m k. True)\<rparr>"

lemma sodium_ok: "sodium_laws sodium"
  by (simp add: sodium_laws_def sodium_def)

section \<open>The length estimate\<close>

definition TRIPPACK_MAX_VAR :: nat where
  "TRIPPACK_MAX_VAR = 4"

definition TRIPPACK_MAX_DVAR :: nat where
  "TRIPPACK_MAX_DVAR = 8"

definition pack_len_of :: "crypto \<Rightarrow> char \<Rightarrow> nat" where
  "pack_len_of cr ch =
     (if ch = CHR ''o'' then sealbytes cr
      else if ch = CHR ''e'' then macbytes cr
      else if ch = CHR ''s'' then signbytes cr
      else if ch = CHR ''n'' then noncebytes cr
      else if ch = CHR ''k'' then pkbytes cr
      else if ch = CHR ''c'' \<or> ch = CHR ''C'' then 1
      else if ch = CHR ''h'' \<or> ch = CHR ''H'' then 2
      else if ch = CHR ''i'' \<or> ch = CHR ''I'' then 4
      else if ch = CHR ''q'' \<or> ch = CHR ''Q'' then 8
      else if ch = CHR ''V'' then 1 + TRIPPACK_MAX_VAR
      else if ch = CHR ''W'' then 1 + TRIPPACK_MAX_DVAR
      else 0)"

text \<open>The total is kept in an \<open>unsigned int\<close> and widened on return.\<close>

fun pack_len_loop :: "crypto \<Rightarrow> string \<Rightarrow> u32 \<Rightarrow> u32" where
  "pack_len_loop cr [] len = len"
| "pack_len_loop cr (ch # format) len = pack_len_loop cr format (len + of_nat (pack_len_of cr ch))"

definition trip_pack_len :: "crypto \<Rightarrow> string \<Rightarrow> u64" where
  "trip_pack_len cr format = ucast (pack_len_loop cr format 0)"

section \<open>The state of the encoder\<close>

text \<open>A variadic argument: an \<open>int\<close>-sized value, a 64-bit value or an octet pointer.\<close>

datatype varg = AInt u32 | ALong u64 | APtr "bytes option"

record packst =
  pk_size :: u64               \<comment> \<open>\<open>size\<close>\<close>
  pk_pos :: nat                \<comment> \<open>\<open>buf\<close>\<close>
  pk_mem :: bytes              \<comment> \<open>the octets the buffer consists of\<close>
  pk_sigstart :: nat
  pk_cryptstart :: nat
  pk_key :: "bytes option"
  pk_args :: "varg list"

text \<open>A case ends by going on to the next specifier or by jumping to the end label.\<close>

datatype 'a flow = Next 'a | Stop 'a

definition va_int :: "packst \<Rightarrow> (u32 \<times> packst) option" where
  "va_int st = (case pk_args st of AInt x # as \<Rightarrow> Some (x, st\<lparr>pk_args := as\<rparr>) | _ \<Rightarrow> None)"

definition va_long :: "packst \<Rightarrow> (u64 \<times> packst) option" where
  "va_long st = (case pk_args st of ALong x # as \<Rightarrow> Some (x, st\<lparr>pk_args := as\<rparr>) | _ \<Rightarrow> None)"

definition va_ptr :: "packst \<Rightarrow> (bytes option \<times> packst) option" where
  "va_ptr st = (case pk_args st of APtr x # as \<Rightarrow> Some (x, st\<lparr>pk_args := as\<rparr>) | _ \<Rightarrow> None)"

text \<open>\<open>size += n; if (size > cap) { size = NPOS; goto _trip_pack_end; }\<close>, then the rest.\<close>

definition pk_fail :: "packst \<Rightarrow> packst flow option" where
  "pk_fail st = Some (Stop (st\<lparr>pk_size := NPOS\<rparr>))"

definition pk_room :: "u64 \<Rightarrow> u64 \<Rightarrow> packst \<Rightarrow> (packst \<Rightarrow> packst flow option) \<Rightarrow> packst flow option" where
  "pk_room cap n st rest =
     (let size = pk_size st + n
      in if size > cap then pk_fail st else rest (st\<lparr>pk_size := size\<rparr>))"

text \<open>Store octets at the pointer and move it past them.\<close>

definition pk_emit :: "bytes \<Rightarrow> packst \<Rightarrow> packst option" where
  "pk_emit bs st =
     do { m \<leftarrow> write_at (pk_pos st) bs (pk_mem st);
          Some (st\<lparr>pk_mem := m, pk_pos := pk_pos st + length bs\<rparr>) }"

section \<open>The cases of the switch\<close>

definition pack_o :: "crypto \<Rightarrow> u64 \<Rightarrow> packst \<Rightarrow> packst flow option" where
  "pack_o cr cap st = pk_room cap (of_nat (sealbytes cr)) st (\<lambda>st.
     do { (key, st) \<leftarrow> va_ptr (st\<lparr>pk_cryptstart := pk_pos st\<rparr>);
          Some (Next (st\<lparr>pk_key := key, pk_pos := pk_pos st + sealbytes cr\<rparr>)) })"

definition pack_O :: "crypto \<Rightarrow> packst \<Rightarrow> packst flow option" where
  "pack_O cr st =
     (if pk_key st \<noteq> None
      then do { m \<leftarrow> write_at (pk_cryptstart st) (replicate (sealbytes cr) 0) (pk_mem st);
                Some (Next (st\<lparr>pk_mem := m\<rparr>)) }
      else do { m \<leftarrow> write_at (pk_cryptstart st) (replicate (sealbytes cr) 0) (pk_mem st);
                Some (Next (st\<lparr>pk_mem := m\<rparr>)) })"

definition pack_S :: "crypto \<Rightarrow> u64 \<Rightarrow> packst \<Rightarrow> packst flow option" where
  "pack_S cr cap st = pk_room cap (of_nat (signbytes cr)) st (\<lambda>st.
     do { (sigkey, st) \<leftarrow> va_ptr st;
          st \<leftarrow> (case sigkey of
              Some k \<Rightarrow>
                do { msg \<leftarrow> read_at (pk_sigstart st) (pk_pos st - pk_sigstart st) (pk_mem st);
                     m \<leftarrow> write_at (pk_pos st) (sign_detached cr msg k) (pk_mem st);
                     Some (st\<lparr>pk_mem := m\<rparr>) }
            | None \<Rightarrow>
                do { m \<leftarrow> write_at (pk_pos st) (replicate (signbytes cr) 0) (pk_mem st);
                     Some (st\<lparr>pk_mem := m\<rparr>) });
          Some (Next (st\<lparr>pk_pos := pk_pos st + signbytes cr\<rparr>)) })"

text \<open>\<open>memcpy\<close> of \<open>n\<close> octets from a pointer, or \<open>memset\<close> to zero when it is \<open>NULL\<close>.\<close>

definition copy_or_zero :: "nat \<Rightarrow> bytes option \<Rightarrow> bytes option" where
  "copy_or_zero n p = (case p of Some b \<Rightarrow> read_at 0 n b | None \<Rightarrow> Some (replicate n 0))"

definition pack_n :: "crypto \<Rightarrow> u64 \<Rightarrow> packst \<Rightarrow> packst flow option" where
  "pack_n cr cap st = pk_room cap (of_nat (noncebytes cr)) st (\<lambda>st.
     do { (nonce, st) \<leftarrow> va_ptr st;
          bs \<leftarrow> copy_or_zero (noncebytes cr) nonce;
          st \<leftarrow> pk_emit bs st;
          Some (Next st) })"

definition pack_k :: "crypto \<Rightarrow> u64 \<Rightarrow> packst \<Rightarrow> packst flow option" where
  "pack_k cr cap st = pk_room cap (of_nat (pkbytes cr)) st (\<lambda>st.
     do { (key, st) \<leftarrow> va_ptr st;
          bs \<leftarrow> copy_or_zero (pkbytes cr) key;
          st \<leftarrow> pk_emit bs (st\<lparr>pk_key := key\<rparr>);
          Some (Next st) })"

text \<open>
  The length added for a binary string is computed in 32 bits: \<open>i + 1 + rlen\<close> has type
  \<open>uint32_t\<close>.
\<close>

definition pack_b :: "u64 \<Rightarrow> packst \<Rightarrow> packst flow option" where
  "pack_b cap st =
     do { (rlen, st) \<leftarrow> va_int st;
          (raw, st) \<leftarrow> va_ptr st;
          let i = trip_uvar_len (ucast rlen);
          pk_room cap (ucast (of_nat i + 1 + rlen :: u32)) st (\<lambda>st.
            do { st \<leftarrow> pk_emit [of_nat i] st;
                 st \<leftarrow> pk_emit (put_uvar i (ucast rlen :: u64)) st;
                 st \<leftarrow> (if rlen \<noteq> 0
                        then do { r \<leftarrow> raw; bs \<leftarrow> read_at 0 (unat rlen) r; pk_emit bs st }
                        else Some st);
                 Some (Next st) }) }"

definition pack_c :: "u64 \<Rightarrow> packst \<Rightarrow> packst flow option" where
  "pack_c cap st = pk_room cap 1 st (\<lambda>st.
     do { (c, st) \<leftarrow> va_int st; st \<leftarrow> pk_emit [ucast c] st; Some (Next st) })"

definition pack_h :: "u64 \<Rightarrow> packst \<Rightarrow> packst flow option" where
  "pack_h cap st = pk_room cap 2 st (\<lambda>st.
     do { (h, st) \<leftarrow> va_int st; st \<leftarrow> pk_emit (packi16 h) st; Some (Next st) })"

definition pack_i :: "u64 \<Rightarrow> packst \<Rightarrow> packst flow option" where
  "pack_i cap st = pk_room cap 4 st (\<lambda>st.
     do { (i, st) \<leftarrow> va_int st; st \<leftarrow> pk_emit (packi32 i) st; Some (Next st) })"

definition pack_q :: "u64 \<Rightarrow> packst \<Rightarrow> packst flow option" where
  "pack_q cap st = pk_room cap 8 st (\<lambda>st.
     do { (q, st) \<leftarrow> va_long st; st \<leftarrow> pk_emit (packi64 q) st; Some (Next st) })"

definition pack_V :: "u64 \<Rightarrow> packst \<Rightarrow> packst flow option" where
  "pack_V cap st =
     do { (I, st) \<leftarrow> va_int st;
          let i = trip_uvar_len (ucast I);
          pk_room cap (of_nat (i + 1)) st (\<lambda>st.
            do { st \<leftarrow> pk_emit [of_nat i] st; st \<leftarrow> pk_emit (put_uvar i I) st; Some (Next st) }) }"

definition pack_W :: "u64 \<Rightarrow> packst \<Rightarrow> packst flow option" where
  "pack_W cap st =
     do { (Q, st) \<leftarrow> va_long st;
          let i = trip_uvar_len Q;
          pk_room cap (of_nat (i + 1)) st (\<lambda>st.
            do { st \<leftarrow> pk_emit [of_nat i] st; st \<leftarrow> pk_emit (put_uvar i Q) st; Some (Next st) }) }"

section \<open>The loop over the format\<close>

definition pack_step :: "crypto \<Rightarrow> u64 \<Rightarrow> char \<Rightarrow> packst \<Rightarrow> packst flow option" where
  "pack_step cr cap ch st =
     (if ch = CHR ''o'' then pack_o cr cap st
      else if ch = CHR ''O'' then pack_O cr st
      else if ch = CHR ''e'' then Some (Next (st\<lparr>pk_cryptstart := pk_pos st\<rparr>))
      else if ch = CHR ''E'' then Some (Next st)
      else if ch = CHR ''s'' then Some (Next (st\<lparr>pk_sigstart := pk_pos st\<rparr>))
      else if ch = CHR ''S'' then pack_S cr cap st
      else if ch = CHR ''n'' then pack_n cr cap st
      else if ch = CHR ''k'' then pack_k cr cap st
      else if ch = CHR ''b'' then pack_b cap st
      else if ch = CHR ''c'' \<or> ch = CHR ''C'' then pack_c cap st
      else if ch = CHR ''h'' \<or> ch = CHR ''H'' then pack_h cap st
      else if ch = CHR ''i'' \<or> ch = CHR ''I'' then pack_i cap st
      else if ch = CHR ''q'' \<or> ch = CHR ''Q'' then pack_q cap st
      else if ch = CHR ''V'' then pack_V cap st
      else if ch = CHR ''W'' then pack_W cap st
      else pk_fail st)"

fun pack_loop :: "crypto \<Rightarrow> u64 \<Rightarrow> string \<Rightarrow> packst \<Rightarrow> packst option" where
  "pack_loop cr cap [] st = Some st"
| "pack_loop cr cap (ch # format) st =
     (case pack_step cr cap ch st of
        None \<Rightarrow> None
      | Some (Stop st) \<Rightarrow> Some st
      | Some (Next st) \<Rightarrow> pack_loop cr cap format st)"

definition trip_pack :: "crypto \<Rightarrow> u64 \<Rightarrow> bytes \<Rightarrow> string \<Rightarrow> varg list \<Rightarrow> (u64 \<times> bytes) option" where
  "trip_pack cr cap buf format args =
     map_option (\<lambda>st. (pk_size st, pk_mem st))
       (pack_loop cr cap format
          \<lparr>pk_size = 0, pk_pos = 0, pk_mem = buf, pk_sigstart = 0, pk_cryptstart = 0,
           pk_key = None, pk_args = args\<rparr>)"

section \<open>Checking a signature\<close>

text \<open>Zero on success; \<open>crypto_sign_verify_detached\<close> returns \<open>-1\<close> on a bad signature.\<close>

definition trip_unsign :: "crypto \<Rightarrow> u64 \<Rightarrow> bytes \<Rightarrow> bytes option \<Rightarrow> errno option" where
  "trip_unsign cr len buf pk =
     (case pk of
        None \<Rightarrow> Some EINVAL
      | Some key \<Rightarrow>
          (if len \<le> of_nat (signbytes cr) then Some EINVAL
           else do { let len = len - of_nat (signbytes cr);
                     sig \<leftarrow> read_at (unat len) (signbytes cr) buf;
                     msg \<leftarrow> read_at 0 (unat len) buf;
                     Some (if verify_detached cr sig msg key then EOK else EOTHER (- 1)) }))"

end
