(* ===== verification/Pack_Safety.thy ===== *)
theory Pack_Safety
  imports Pack
begin

text \<open>
  Memory safety of \<open>trip_pack\<close>: under the caller's contract \<open>pack_ok\<close> (arguments of the
  types the format asks for, objects as long as it says, every \<open>O\<close> closing an \<open>o\<close>) the
  encoder never leaves the first \<open>cap\<close> octets of the buffer, whatever the format, and
  reports a size within the capacity or \<open>NPOS\<close>. The one quantity the contract has to bound
  is the length of a binary string, whose sum is computed in 32 bits.
\<close>

section \<open>The caller's contract\<close>

definition copy_ok :: "nat \<Rightarrow> bytes option \<Rightarrow> bool" where
  "copy_ok n p \<longleftrightarrow> (case p of None \<Rightarrow> True | Some b \<Rightarrow> n \<le> length b)"

definition blob_ok :: "u32 \<Rightarrow> bytes option \<Rightarrow> bool" where
  "blob_ok rlen raw \<longleftrightarrow> unat rlen + 5 < 2 ^ 32 \<and>
     (rlen = 0 \<or> (case raw of None \<Rightarrow> False | Some r \<Rightarrow> unat rlen \<le> length r))"

fun pack_ok :: "crypto \<Rightarrow> bool \<Rightarrow> string \<Rightarrow> varg list \<Rightarrow> bool" where
  "pack_ok cr sealed [] args = True"
| "pack_ok cr sealed (ch # format) args =
     (if ch = CHR ''o'' then (case args of APtr _ # as \<Rightarrow> pack_ok cr True format as | _ \<Rightarrow> False)
      else if ch = CHR ''O'' then sealed \<and> pack_ok cr sealed format args
      else if ch = CHR ''e'' then pack_ok cr False format args
      else if ch = CHR ''E'' \<or> ch = CHR ''s'' then pack_ok cr sealed format args
      else if ch = CHR ''S'' then (case args of APtr _ # as \<Rightarrow> pack_ok cr sealed format as | _ \<Rightarrow> False)
      else if ch = CHR ''n'' then
        (case args of APtr p # as \<Rightarrow> copy_ok (noncebytes cr) p \<and> pack_ok cr sealed format as | _ \<Rightarrow> False)
      else if ch = CHR ''k'' then
        (case args of APtr p # as \<Rightarrow> copy_ok (pkbytes cr) p \<and> pack_ok cr sealed format as | _ \<Rightarrow> False)
      else if ch = CHR ''b'' then
        (case args of AInt l # APtr p # as \<Rightarrow> blob_ok l p \<and> pack_ok cr sealed format as | _ \<Rightarrow> False)
      else if ch \<in> set ''cChHiIV'' then
        (case args of AInt _ # as \<Rightarrow> pack_ok cr sealed format as | _ \<Rightarrow> False)
      else if ch \<in> set ''qQW'' then
        (case args of ALong _ # as \<Rightarrow> pack_ok cr sealed format as | _ \<Rightarrow> False)
      else True)"

section \<open>The invariant of the loop\<close>

definition pk_frame :: "u64 \<Rightarrow> bytes \<Rightarrow> packst \<Rightarrow> bool" where
  "pk_frame cap buf st \<longleftrightarrow>
     length (pk_mem st) = length buf \<and> drop (unat cap) (pk_mem st) = drop (unat cap) buf"

definition pk_inv :: "crypto \<Rightarrow> u64 \<Rightarrow> bytes \<Rightarrow> bool \<Rightarrow> packst \<Rightarrow> bool" where
  "pk_inv cr cap buf sealed st \<longleftrightarrow> pk_frame cap buf st \<and>
     unat (pk_size st) = pk_pos st \<and> pk_pos st \<le> unat cap \<and> pk_sigstart st \<le> pk_pos st \<and>
     (sealed \<longrightarrow> pk_cryptstart st + sealbytes cr \<le> pk_pos st)"

fun pk_good :: "crypto \<Rightarrow> u64 \<Rightarrow> bytes \<Rightarrow> bool \<Rightarrow> varg list \<Rightarrow> packst flow option \<Rightarrow> bool" where
  "pk_good cr cap buf sealed as None = False"
| "pk_good cr cap buf sealed as (Some (Stop st)) = (pk_size st = NPOS \<and> pk_frame cap buf st)"
| "pk_good cr cap buf sealed as (Some (Next st)) = (pk_inv cr cap buf sealed st \<and> pk_args st = as)"

definition pk_put :: "bytes \<Rightarrow> packst \<Rightarrow> packst" where
  "pk_put bs st = st\<lparr>pk_mem := take (pk_pos st) (pk_mem st) @ bs @ drop (pk_pos st + length bs) (pk_mem st),
     pk_pos := pk_pos st + length bs\<rparr>"

lemma pk_emit_eq: "pk_pos st + length bs \<le> length (pk_mem st) \<Longrightarrow> pk_emit bs st = Some (pk_put bs st)"
  by (simp add: pk_emit_def pk_put_def)

lemma pk_put_simps [simp]:
  "pk_size (pk_put bs st) = pk_size st" "pk_sigstart (pk_put bs st) = pk_sigstart st"
  "pk_cryptstart (pk_put bs st) = pk_cryptstart st" "pk_key (pk_put bs st) = pk_key st"
  "pk_args (pk_put bs st) = pk_args st" "pk_pos (pk_put bs st) = pk_pos st + length bs"
  by (simp_all add: pk_put_def)

lemma length_pk_put [simp]:
  "pk_pos st + length bs \<le> length (pk_mem st) \<Longrightarrow> length (pk_mem (pk_put bs st)) = length (pk_mem st)"
  by (simp add: pk_put_def)

lemma write_frame:
  assumes "pos + length bs \<le> unat cap" "unat cap \<le> length mem"
    "length mem = length buf" "drop (unat cap) mem = drop (unat cap) buf"
  shows "length (take pos mem @ bs @ drop (pos + length bs) mem) = length buf"
    and "drop (unat cap) (take pos mem @ bs @ drop (pos + length bs) mem) = drop (unat cap) buf"
  using assms by auto

lemma pk_put_frame:
  assumes "pk_frame cap buf st" "pk_pos st + length bs \<le> unat cap" "unat cap \<le> length buf"
  shows "pk_frame cap buf (pk_put bs st)"
  using assms write_frame [of "pk_pos st" bs cap "pk_mem st" buf]
  by (simp add: pk_frame_def pk_put_def)

lemma pk_room_eq:
  assumes "unat (pk_size st) = pk_pos st" "pk_pos st \<le> unat cap" "unat cap < 2 ^ 63" "n < 2 ^ 33"
  shows "pk_room cap (of_nat n) st rest =
    (if pk_pos st + n \<le> unat cap then rest (st\<lparr>pk_size := of_nat (pk_pos st + n)\<rparr>) else pk_fail st)"
proof -
  have sz: "pk_size st = of_nat (pk_pos st)" using assms(1) by (simp flip: assms(1))
  have "pk_pos st + n < 2 ^ 64" using assms(2-4) by simp
  then have "unat (of_nat (pk_pos st + n) :: u64) = pk_pos st + n"
    by (simp add: unsigned_of_nat take_bit_nat_eq_self del: of_nat_add)
  moreover have "pk_size st + of_nat n = of_nat (pk_pos st + n)" by (simp add: sz)
  ultimately show ?thesis
    by (simp add: pk_room_def Let_def word_less_nat_alt not_less del: of_nat_add)
qed

lemma unat_of_nat_small: "n < 2 ^ 63 \<Longrightarrow> unat (of_nat n :: u64) = n"
  by (simp add: unsigned_of_nat take_bit_nat_eq_self)

lemma pk_fail_good: "pk_frame cap buf st \<Longrightarrow> pk_good cr cap buf sealed as (pk_fail st)"
  by (simp add: pk_fail_def pk_frame_def)

section \<open>Every case keeps the invariant\<close>

lemma pk_inv_put:
  assumes "pk_inv cr cap buf sealed st0" "pk_pos st0 + length bs \<le> unat cap"
    "unat cap \<le> length buf" "unat cap < 2 ^ 63"
    "pk_mem st = pk_mem st0" "pk_pos st = pk_pos st0" "pk_sigstart st = pk_sigstart st0"
    "pk_cryptstart st = pk_cryptstart st0" "pk_size st = of_nat (pk_pos st0 + length bs)"
  shows "pk_inv cr cap buf sealed (pk_put bs st)"
proof -
  have "pk_frame cap buf st" using assms(1,5) by (simp add: pk_inv_def pk_frame_def)
  then have "pk_frame cap buf (pk_put bs st)"
    using assms(2,3,6) by (intro pk_put_frame) simp_all
  moreover have "unat (pk_size st) = pk_pos st0 + length bs"
    using assms(2,4,9) by (simp only: unat_of_nat_small)
  ultimately show ?thesis
    using assms by (auto simp: pk_inv_def)
qed

text \<open>A case that makes room for the octets it emits, after fetching its argument.\<close>

lemma pk_room_emit_good:
  assumes inv: "pk_inv cr cap buf sealed st" and cap: "unat cap \<le> length buf" "unat cap < 2 ^ 63"
    and n: "k = of_nat n" "n < 2 ^ 33" "length bs = n"
    and upd: "\<And>s. pk_mem (upd s) = pk_mem s" "\<And>s. pk_pos (upd s) = pk_pos s"
      "\<And>s. pk_sigstart (upd s) = pk_sigstart s" "\<And>s. pk_cryptstart (upd s) = pk_cryptstart s"
      "\<And>s. pk_size (upd s) = pk_size s"
    and rest: "pk_pos st + n \<le> unat cap \<Longrightarrow> pk_pos st + n \<le> length (pk_mem st) \<Longrightarrow>
      rest (st\<lparr>pk_size := of_nat (pk_pos st + n)\<rparr>) =
        Some (Next (pk_put bs (upd (st\<lparr>pk_size := of_nat (pk_pos st + n)\<rparr>))))"
      "pk_args (upd (st\<lparr>pk_size := of_nat (pk_pos st + n)\<rparr>)) = as"
  shows "pk_good cr cap buf sealed as (pk_room cap k st rest)"
proof -
  have st: "unat (pk_size st) = pk_pos st" "pk_pos st \<le> unat cap" "pk_frame cap buf st"
    using inv by (simp_all add: pk_inv_def)
  show ?thesis
  proof (cases "pk_pos st + n \<le> unat cap")
    case True
    let ?s = "upd (st\<lparr>pk_size := of_nat (pk_pos st + n)\<rparr>)"
    have "pk_inv cr cap buf sealed (pk_put bs ?s)"
      by (rule pk_inv_put [OF inv _ cap]) (simp_all add: upd n True)
    moreover have "pk_pos st + n \<le> length (pk_mem st)"
      using True cap(1) st(3) by (simp add: pk_frame_def)
    ultimately show ?thesis
      using rest True by (simp add: pk_room_eq [OF st(1,2) cap(2) n(2)] n(1) del: of_nat_add)
  next
    case False
    then show ?thesis
      by (simp add: pk_room_eq [OF st(1,2) cap(2) n(2)] n(1) pk_fail_good st(3))
  qed
qed

lemma pack_c_good:
  assumes "pk_inv cr cap buf sealed st" "unat cap \<le> length buf" "unat cap < 2 ^ 63" "pk_args st = AInt x # as"
  shows "pk_good cr cap buf sealed as (pack_c cap st)"
  unfolding pack_c_def
  by (rule pk_room_emit_good [OF assms(1-3), where n = 1 and bs = "[ucast x]" and upd = "\<lambda>s. s\<lparr>pk_args := as\<rparr>"])
    (use assms(4) in \<open>simp_all add: va_int_def pk_emit_eq\<close>)

lemma pack_h_good:
  assumes "pk_inv cr cap buf sealed st" "unat cap \<le> length buf" "unat cap < 2 ^ 63" "pk_args st = AInt x # as"
  shows "pk_good cr cap buf sealed as (pack_h cap st)"
  unfolding pack_h_def
  by (rule pk_room_emit_good [OF assms(1-3), where n = 2 and bs = "packi16 x" and upd = "\<lambda>s. s\<lparr>pk_args := as\<rparr>"])
    (use assms(4) in \<open>simp_all add: va_int_def pk_emit_eq\<close>)

lemma pack_i_good:
  assumes "pk_inv cr cap buf sealed st" "unat cap \<le> length buf" "unat cap < 2 ^ 63" "pk_args st = AInt x # as"
  shows "pk_good cr cap buf sealed as (pack_i cap st)"
  unfolding pack_i_def
  by (rule pk_room_emit_good [OF assms(1-3), where n = 4 and bs = "packi32 x" and upd = "\<lambda>s. s\<lparr>pk_args := as\<rparr>"])
    (use assms(4) in \<open>simp_all add: va_int_def pk_emit_eq\<close>)

lemma pack_q_good:
  assumes "pk_inv cr cap buf sealed st" "unat cap \<le> length buf" "unat cap < 2 ^ 63" "pk_args st = ALong x # as"
  shows "pk_good cr cap buf sealed as (pack_q cap st)"
  unfolding pack_q_def
  by (rule pk_room_emit_good [OF assms(1-3), where n = 8 and bs = "packi64 x" and upd = "\<lambda>s. s\<lparr>pk_args := as\<rparr>"])
    (use assms(4) in \<open>simp_all add: va_long_def pk_emit_eq\<close>)

lemma copy_or_zero_ok:
  "copy_ok n p \<Longrightarrow> \<exists>bs. copy_or_zero n p = Some bs \<and> length bs = n"
  by (auto simp: copy_ok_def copy_or_zero_def split: option.splits)

lemma pack_n_good:
  assumes "pk_inv cr cap buf sealed st" "unat cap \<le> length buf" "unat cap < 2 ^ 63"
    "pk_args st = APtr p # as" "copy_ok (noncebytes cr) p" "sodium_laws cr"
  shows "pk_good cr cap buf sealed as (pack_n cr cap st)"
proof -
  obtain bs where "copy_or_zero (noncebytes cr) p = Some bs" "length bs = noncebytes cr"
    using copy_or_zero_ok assms(5) by blast
  then show ?thesis
    unfolding pack_n_def
    by (intro pk_room_emit_good [OF assms(1-3), where n = "noncebytes cr" and bs = bs
          and upd = "\<lambda>s. s\<lparr>pk_args := as\<rparr>"])
      (use assms(4,6) in \<open>simp_all add: va_ptr_def pk_emit_eq sodium_laws_def\<close>)
qed

lemma pack_k_good:
  assumes "pk_inv cr cap buf sealed st" "unat cap \<le> length buf" "unat cap < 2 ^ 63"
    "pk_args st = APtr p # as" "copy_ok (pkbytes cr) p" "sodium_laws cr"
  shows "pk_good cr cap buf sealed as (pack_k cr cap st)"
proof -
  obtain bs where "copy_or_zero (pkbytes cr) p = Some bs" "length bs = pkbytes cr"
    using copy_or_zero_ok assms(5) by blast
  then show ?thesis
    unfolding pack_k_def
    by (intro pk_room_emit_good [OF assms(1-3), where n = "pkbytes cr" and bs = bs
          and upd = "\<lambda>s. s\<lparr>pk_args := as, pk_key := p\<rparr>"])
      (use assms(4,6) in \<open>simp_all add: va_ptr_def pk_emit_eq sodium_laws_def\<close>)
qed

lemma pk_put_put:
  assumes "pk_pos st + length xs + length ys \<le> length (pk_mem st)"
  shows "pk_put ys (pk_put xs st) = pk_put (xs @ ys) st"
  using assms by (simp add: pk_put_def ac_simps)

lemma pk_emit_emit:
  assumes "pk_pos st + length xs + length ys \<le> length (pk_mem st)"
  shows "Option.bind (pk_emit xs st) (\<lambda>st. Option.bind (pk_emit ys st) f) = f (pk_put (xs @ ys) st)"
  using assms by (simp add: pk_emit_eq pk_put_put)

lemma pk_inv_args [simp]: "pk_inv cr cap buf sealed (st\<lparr>pk_args := as\<rparr>) = pk_inv cr cap buf sealed st"
  by (simp add: pk_inv_def pk_frame_def)

lemma pack_V_good:
  assumes "pk_inv cr cap buf sealed st" "unat cap \<le> length buf" "unat cap < 2 ^ 63" "pk_args st = AInt x # as"
  shows "pk_good cr cap buf sealed as (pack_V cap st)"
proof -
  let ?i = "trip_uvar_len (ucast x)" and ?st = "st\<lparr>pk_args := as\<rparr>"
  have "pk_good cr cap buf sealed as (pk_room cap (of_nat (?i + 1)) ?st (\<lambda>st.
    do { st \<leftarrow> pk_emit [of_nat ?i] st; st \<leftarrow> pk_emit (put_uvar ?i x) st; Some (Next st) }))"
    by (rule pk_room_emit_good [OF _ assms(2,3), where n = "?i + 1"
          and bs = "[of_nat ?i] @ put_uvar ?i x" and upd = id])
      (use assms(1) trip_uvar_len_le8 [of "ucast x"] in \<open>simp_all add: pk_emit_emit\<close>)
  then show ?thesis by (simp add: pack_V_def va_int_def assms(4) Let_def)
qed

lemma pack_W_good:
  assumes "pk_inv cr cap buf sealed st" "unat cap \<le> length buf" "unat cap < 2 ^ 63" "pk_args st = ALong x # as"
  shows "pk_good cr cap buf sealed as (pack_W cap st)"
proof -
  let ?i = "trip_uvar_len x" and ?st = "st\<lparr>pk_args := as\<rparr>"
  have "pk_good cr cap buf sealed as (pk_room cap (of_nat (?i + 1)) ?st (\<lambda>st.
    do { st \<leftarrow> pk_emit [of_nat ?i] st; st \<leftarrow> pk_emit (put_uvar ?i x) st; Some (Next st) }))"
    by (rule pk_room_emit_good [OF _ assms(2,3), where n = "?i + 1"
          and bs = "[of_nat ?i] @ put_uvar ?i x" and upd = id])
      (use assms(1) trip_uvar_len_le8 [of x] in \<open>simp_all add: pk_emit_emit\<close>)
  then show ?thesis by (simp add: pack_W_def va_long_def assms(4) Let_def)
qed

lemma trip_uvar_len_u32: "trip_uvar_len (ucast (x :: u32)) \<le> 4"
proof (rule trip_uvar_len_bound)
  show "(ucast x :: u64) < 2 ^ (8 * 4)"
    using unat_less_exp [of x] by (simp add: word_less_nat_alt)
qed simp

text \<open>With the bound of \<open>blob_ok\<close> the 32-bit sum is exact.\<close>

lemma blob_sum:
  assumes "blob_ok rlen raw"
  shows "(ucast (of_nat (trip_uvar_len (ucast rlen)) + 1 + rlen :: u32) :: u64)
    = of_nat (trip_uvar_len (ucast rlen) + 1 + unat rlen)" (is "ucast ?s = of_nat ?n")
proof -
  have n: "?n < 2 ^ 32" using assms trip_uvar_len_u32 [of rlen] by (simp add: blob_ok_def)
  have "?s = of_nat ?n" by simp
  then have "of_nat ?n = ?s" by (rule sym)
  then have "unat ?s = ?n" using n by (intro of_nat_inverse) simp_all
  then have "of_nat (unat ?s) = (of_nat ?n :: u64)" by (simp only:)
  then show ?thesis by (simp only: of_nat_unat)
qed

lemma pack_b_good:
  assumes inv: "pk_inv cr cap buf sealed st" and cap: "unat cap \<le> length buf" "unat cap < 2 ^ 63"
    and args: "pk_args st = AInt rlen # APtr raw # as" and blob: "blob_ok rlen raw"
  shows "pk_good cr cap buf sealed as (pack_b cap st)"
proof -
  let ?i = "trip_uvar_len (ucast rlen)" and ?st = "st\<lparr>pk_args := as\<rparr>"
  let ?n = "?i + 1 + unat rlen"
  obtain r where r: "(rlen = 0 \<and> r = []) \<or> (\<exists>b. raw = Some b \<and> read_at 0 (unat rlen) b = Some r)"
    "length r = unat rlen"
    using blob by (cases "rlen = 0"; cases raw) (auto simp: blob_ok_def)
  let ?bs = "[of_nat ?i] @ put_uvar ?i (ucast rlen :: u64) @ r"
  have "pk_good cr cap buf sealed as
    (pk_room cap (ucast (of_nat ?i + 1 + rlen :: u32)) ?st (\<lambda>st.
            do { st \<leftarrow> pk_emit [of_nat ?i] st;
                 st \<leftarrow> pk_emit (put_uvar ?i (ucast rlen :: u64)) st;
                 st \<leftarrow> (if rlen \<noteq> 0
                        then do { r \<leftarrow> raw; bs \<leftarrow> read_at 0 (unat rlen) r; pk_emit bs st }
                        else Some st);
                 Some (Next st) }))"
  proof (rule pk_room_emit_good [OF _ cap, where n = ?n and bs = ?bs and upd = id])
    show "ucast (of_nat ?i + 1 + rlen :: u32) = (of_nat ?n :: u64)"
      using blob by (rule blob_sum)
    show "?n < 2 ^ 33"
      using blob trip_uvar_len_u32 [of rlen] by (simp add: blob_ok_def)
    show "length ?bs = ?n" using r(2) by simp
  qed (use inv r in \<open>auto simp: pk_emit_emit pk_emit_eq pk_put_put\<close>)
  then show ?thesis by (simp add: pack_b_def va_int_def va_ptr_def args Let_def)
qed

lemma pack_o_good:
  assumes inv: "pk_inv cr cap buf sealed st" and cap: "unat cap < 2 ^ 63"
    and args: "pk_args st = APtr k # as" and cr: "sodium_laws cr"
  shows "pk_good cr cap buf True as (pack_o cr cap st)"
proof -
  have st: "unat (pk_size st) = pk_pos st" "pk_pos st \<le> unat cap" "pk_frame cap buf st"
    "pk_sigstart st \<le> pk_pos st"
    using inv by (simp_all add: pk_inv_def)
  have n: "sealbytes cr < 2 ^ 33" using cr by (simp add: sodium_laws_def)
  have sz: "pk_pos st + sealbytes cr \<le> unat cap \<Longrightarrow>
      unat (of_nat (pk_pos st + sealbytes cr) :: u64) = pk_pos st + sealbytes cr"
    using cap by (intro unat_of_nat_small) simp
  show ?thesis
    unfolding pack_o_def pk_room_eq [OF st(1,2) cap n]
    using sz st args pk_fail_good [OF st(3)]
    by (auto simp: va_ptr_def pk_inv_def pk_frame_def simp del: of_nat_add)
qed

lemma pack_O_good:
  assumes "pk_inv cr cap buf True st" "unat cap \<le> length buf"
  shows "pk_good cr cap buf True (pk_args st) (pack_O cr st)"
proof -
  have st: "pk_cryptstart st + sealbytes cr \<le> unat cap" "length (pk_mem st) = length buf"
    "drop (unat cap) (pk_mem st) = drop (unat cap) buf"
    using assms(1) by (auto simp: pk_inv_def pk_frame_def)
  show ?thesis
    using assms st write_frame [of "pk_cryptstart st" "replicate (sealbytes cr) 0" cap "pk_mem st" buf]
    by (simp add: pack_O_def pk_inv_def pk_frame_def)
qed

lemma pack_S_good:
  assumes inv: "pk_inv cr cap buf sealed st" and cap: "unat cap \<le> length buf" "unat cap < 2 ^ 63"
    and args: "pk_args st = APtr k # as" and cr: "sodium_laws cr"
  shows "pk_good cr cap buf sealed as (pack_S cr cap st)"
proof -
  have len: "length (sign_detached cr m s) = signbytes cr" for m s
    using cr by (simp add: sodium_laws_def)
  have mem: "pk_pos st \<le> length (pk_mem st)" "pk_sigstart st \<le> pk_pos st"
    using inv cap by (auto simp: pk_inv_def pk_frame_def)
  let ?bs = "case k of Some s \<Rightarrow>
      sign_detached cr (take (pk_pos st - pk_sigstart st) (drop (pk_sigstart st) (pk_mem st))) s
    | None \<Rightarrow> replicate (signbytes cr) 0"
  show ?thesis
    unfolding pack_S_def
    by (rule pk_room_emit_good [OF inv cap, where n = "signbytes cr" and bs = ?bs
          and upd = "\<lambda>s. s\<lparr>pk_args := as\<rparr>"])
      (use cr mem in \<open>auto simp: va_ptr_def args len pk_put_def sodium_laws_def split: option.splits\<close>)
qed

section \<open>The whole format\<close>

lemma pk_inv_sealed: "pk_inv cr cap buf True st \<Longrightarrow> pk_inv cr cap buf sealed st"
  by (simp add: pk_inv_def)

lemmas pack_case_good = pack_c_good pack_h_good pack_i_good pack_q_good pack_n_good pack_k_good
  pack_V_good pack_W_good pack_b_good pack_S_good

text \<open>What a step may do: stop with \<open>NPOS\<close>, or go on with the invariant and the contract.\<close>

fun pk_cont :: "crypto \<Rightarrow> u64 \<Rightarrow> bytes \<Rightarrow> string \<Rightarrow> packst flow option \<Rightarrow> bool" where
  "pk_cont cr cap buf format None = False"
| "pk_cont cr cap buf format (Some (Stop st)) = (pk_size st = NPOS \<and> pk_frame cap buf st)"
| "pk_cont cr cap buf format (Some (Next st)) =
     (\<exists>sealed. pk_inv cr cap buf sealed st \<and> pack_ok cr sealed format (pk_args st))"

lemma pk_contI: "pk_good cr cap buf sealed as r \<Longrightarrow> pack_ok cr sealed format as \<Longrightarrow> pk_cont cr cap buf format r"
  by (cases "(cr, cap, buf, format, r)" rule: pk_cont.cases) auto

lemmas pack_cont = pack_case_good [THEN pk_contI] pack_o_good [THEN pk_contI]

lemma pack_ok_b:
  assumes "pack_ok cr sealed (CHR ''b'' # format) args"
  obtains l p as where "args = AInt l # APtr p # as" "blob_ok l p" "pack_ok cr sealed format as"
proof (cases args)
  case (Cons a rest)
  show ?thesis
  proof (cases rest)
    case Nil
    with Cons assms show ?thesis by (cases a) simp_all
  next
    case (Cons b as)
    with \<open>args = a # rest\<close> assms that show ?thesis by (cases a; cases b) simp_all
  qed
qed (use assms in simp)

lemma pack_step_cont:
  assumes inv: "pk_inv cr cap buf sealed st" and cap: "unat cap \<le> length buf" "unat cap < 2 ^ 63"
    and cr: "sodium_laws cr" and ok: "pack_ok cr sealed (ch # format) (pk_args st)"
  shows "pk_cont cr cap buf format (pack_step cr cap ch st)"
proof -
  have fr: "pk_frame cap buf st" using inv by (simp add: pk_inv_def)
  have O: "sealed \<Longrightarrow> pack_ok cr sealed format (pk_args st) \<Longrightarrow> pk_cont cr cap buf format (pack_O cr st)"
    using inv cap by (intro pk_contI [OF pack_O_good]) auto
  have e: "pk_inv cr cap buf False (st\<lparr>pk_cryptstart := pk_pos st\<rparr>)"
    using inv by (simp add: pk_inv_def pk_frame_def)
  have s: "pk_inv cr cap buf sealed (st\<lparr>pk_sigstart := pk_pos st\<rparr>)"
    using inv by (simp add: pk_inv_def pk_frame_def)
  have E: "pack_ok cr sealed format (pk_args st) \<Longrightarrow> pk_cont cr cap buf format (Some (Next st))"
    using inv by auto
  have F: "pk_cont cr cap buf format (pk_fail st)"
    using fr by (simp add: pk_fail_def pk_frame_def)
  consider (1) "ch = CHR ''o''"
    | (2) "ch = CHR ''O''"
    | (3) "ch = CHR ''e''"
    | (4) "ch = CHR ''E''"
    | (5) "ch = CHR ''s''"
    | (6) "ch = CHR ''S''"
    | (7) "ch = CHR ''n''"
    | (8) "ch = CHR ''k''"
    | (9) "ch = CHR ''b''"
    | (10) "ch \<in> set ''cChHiIV''"
    | (11) "ch \<in> set ''qQW''"
    | (12) "ch \<notin> set ''oOeEsSnkbcChHiIqQVW''"
    by auto
  then show ?thesis
  proof cases
    case 1
    then show ?thesis
      using ok inv cap cr
      by (auto simp: pack_step_def intro: pack_cont split: list.split_asm varg.split_asm)
  next
    case 2
    then show ?thesis
      using ok inv cap cr
      by (auto simp: pack_step_def intro: O split: list.split_asm varg.split_asm)
  next
    case 3
    then show ?thesis
      using ok inv cap cr
      by (auto simp: pack_step_def intro: exI [of _ False] e split: list.split_asm varg.split_asm)
  next
    case 4
    then show ?thesis
      using ok inv cap cr
      by (auto simp: pack_step_def intro: E split: list.split_asm varg.split_asm)
  next
    case 5
    then show ?thesis
      using ok inv cap cr
      by (auto simp: pack_step_def intro: exI [of _ sealed] s split: list.split_asm varg.split_asm)
  next
    case 6
    then show ?thesis
      using ok inv cap cr
      by (auto simp: pack_step_def intro: pack_cont split: list.split_asm varg.split_asm)
  next
    case 7
    then show ?thesis
      using ok inv cap cr
      by (auto simp: pack_step_def intro: pack_cont split: list.split_asm varg.split_asm)
  next
    case 8
    then show ?thesis
      using ok inv cap cr
      by (auto simp: pack_step_def intro: pack_cont split: list.split_asm varg.split_asm)
  next
    case 9
    with ok obtain l p as where "pk_args st = AInt l # APtr p # as" "blob_ok l p"
      "pack_ok cr sealed format as"
      using pack_ok_b by blast
    with 9 show ?thesis
      using inv cap by (auto simp: pack_step_def intro: pack_cont)
  next
    case 10
    then have set: "ch = CHR ''c'' \<or> ch = CHR ''C'' \<or> ch = CHR ''h'' \<or> ch = CHR ''H'' \<or>
      ch = CHR ''i'' \<or> ch = CHR ''I'' \<or> ch = CHR ''V''" by simp
    then obtain x as where as: "pk_args st = AInt x # as" "pack_ok cr sealed format as"
      using ok by (elim disjE; simp split: list.split_asm varg.split_asm)
    have "pk_cont cr cap buf format (pack_c cap st)" "pk_cont cr cap buf format (pack_h cap st)"
      "pk_cont cr cap buf format (pack_i cap st)" "pk_cont cr cap buf format (pack_V cap st)"
      using as inv cap by (auto intro: pack_cont)
    with set show ?thesis by (elim disjE; simp add: pack_step_def)
  next
    case 11
    then have set: "ch = CHR ''q'' \<or> ch = CHR ''Q'' \<or> ch = CHR ''W''" by simp
    then obtain x as where as: "pk_args st = ALong x # as" "pack_ok cr sealed format as"
      using ok by (elim disjE; simp split: list.split_asm varg.split_asm)
    have "pk_cont cr cap buf format (pack_q cap st)" "pk_cont cr cap buf format (pack_W cap st)"
      using as inv cap by (auto intro: pack_cont)
    with set show ?thesis by (elim disjE; simp add: pack_step_def)
  next
    case 12
    then have "pack_step cr cap ch st = pk_fail st" by (simp add: pack_step_def)
    with F show ?thesis by simp
  qed
qed

lemma pack_loop_safe:
  assumes "pk_inv cr cap buf sealed st" "pack_ok cr sealed format (pk_args st)"
    "unat cap \<le> length buf" "unat cap < 2 ^ 63" "sodium_laws cr"
  shows "\<exists>st'. pack_loop cr cap format st = Some st' \<and> pk_frame cap buf st' \<and>
    (pk_size st' = NPOS \<or> unat (pk_size st') \<le> unat cap)"
  using assms(1,2)
proof (induction format arbitrary: st sealed)
  case Nil
  then show ?case by (auto simp: pk_inv_def)
next
  case (Cons ch format)
  then have "pk_cont cr cap buf format (pack_step cr cap ch st)"
    using pack_step_cont assms(3-5) by blast
  then show ?case
    using Cons.IH by (auto elim: pk_cont.elims)
qed

end
