(* ===== verification/Unpack.thy ===== *)
theory Unpack
  imports Pack
begin

text \<open>
  The decoder \<open>trip_unpack\<close> of \<open>src/pack.c\<close> and its memory safety: whatever the format
  and whatever octets arrive, no read leaves the first \<open>blen\<close> octets of the buffer, and
  everything handed to the caller lies inside it.
\<close>

section \<open>The state of the decoder\<close>

text \<open>
  What the decoder stores through the pointers of the call, in order: octets, integers at
  their width, copied blocks and, for a binary string, the offset of its first octet.
\<close>

datatype uout = O8 u8 | O16 u16 | O32 u32 | O64 u64 | OBlock bytes | OPtr nat

record unpackst =
  up_len :: u64
  up_pos :: nat
  up_out :: "uout list"

definition up_fail :: "unpackst \<Rightarrow> unpackst flow option" where
  "up_fail st = Some (Stop (st\<lparr>up_len := NPOS\<rparr>))"

text \<open>\<open>len += n; if (len > blen) { len = NPOS; goto _trip_unpack_end; }\<close>, then the rest.\<close>

definition up_need :: "u64 \<Rightarrow> u64 \<Rightarrow> unpackst \<Rightarrow> (unpackst \<Rightarrow> unpackst flow option) \<Rightarrow> unpackst flow option" where
  "up_need blen n st rest =
     (let len = up_len st + n
      in if len > blen then up_fail st else rest (st\<lparr>up_len := len\<rparr>))"

definition up_give :: "uout \<Rightarrow> nat \<Rightarrow> unpackst \<Rightarrow> unpackst flow option" where
  "up_give out n st = Some (Next (st\<lparr>up_out := up_out st @ [out], up_pos := up_pos st + n\<rparr>))"

section \<open>The cases of the switch\<close>

text \<open>The key argument of \<open>o\<close> is fetched and not used.\<close>

definition unpack_o :: "crypto \<Rightarrow> u64 \<Rightarrow> unpackst \<Rightarrow> unpackst flow option" where
  "unpack_o cr blen st = up_need blen (of_nat (sealbytes cr)) st (\<lambda>st.
     Some (Next (st\<lparr>up_pos := up_pos st + sealbytes cr\<rparr>)))"

definition unpack_n :: "crypto \<Rightarrow> u64 \<Rightarrow> bytes \<Rightarrow> unpackst \<Rightarrow> unpackst flow option" where
  "unpack_n cr blen buf st = up_need blen (of_nat (noncebytes cr)) st (\<lambda>st.
     do { raw \<leftarrow> read_at (up_pos st) (noncebytes cr) buf; up_give (OBlock raw) (noncebytes cr) st })"

definition unpack_k :: "crypto \<Rightarrow> u64 \<Rightarrow> bytes \<Rightarrow> unpackst \<Rightarrow> unpackst flow option" where
  "unpack_k cr blen buf st = up_need blen (of_nat (pkbytes cr)) st (\<lambda>st.
     do { raw \<leftarrow> read_at (up_pos st) (pkbytes cr) buf; up_give (OBlock raw) (pkbytes cr) st })"

text \<open>The loop that reads \<open>l\<close> octets most significant first.\<close>

definition read_uvar :: "nat \<Rightarrow> nat \<Rightarrow> bytes \<Rightarrow> 'a::len word option" where
  "read_uvar pos l buf = do { bs \<leftarrow> read_at pos l buf; Some (get_uvar bs 0) }"

text \<open>
  A binary string: after its length the pointer stays at the first octet of the string, only
  \<open>len\<close> moves past it.
\<close>

definition unpack_b :: "u64 \<Rightarrow> bytes \<Rightarrow> unpackst \<Rightarrow> unpackst flow option" where
  "unpack_b blen buf st = up_need blen 1 st (\<lambda>st.
     do { hd \<leftarrow> read_at (up_pos st) 1 buf;
          let l = unat (hd ! 0);
          let len = up_len st + of_nat l;
          if l > TRIPPACK_MAX_VAR \<or> len > blen then up_fail st
          else do {
            let st = st\<lparr>up_len := len, up_pos := up_pos st + 1\<rparr>;
            n \<leftarrow> read_uvar (up_pos st) l buf :: u32 option;
            let st = st\<lparr>up_pos := up_pos st + l, up_out := up_out st @ [O32 n]\<rparr>;
            up_need blen (ucast n) st (\<lambda>st. up_give (OPtr (up_pos st)) 0 st) } })"

definition unpack_c :: "u64 \<Rightarrow> bytes \<Rightarrow> unpackst \<Rightarrow> unpackst flow option" where
  "unpack_c blen buf st = up_need blen 1 st (\<lambda>st.
     do { bs \<leftarrow> read_at (up_pos st) 1 buf; up_give (O8 (bs ! 0)) 1 st })"

definition unpack_h :: "u64 \<Rightarrow> bytes \<Rightarrow> unpackst \<Rightarrow> unpackst flow option" where
  "unpack_h blen buf st = up_need blen 2 st (\<lambda>st.
     do { h \<leftarrow> unpacki16 (drop (up_pos st) buf); up_give (O16 h) 2 st })"

definition unpack_H :: "u64 \<Rightarrow> bytes \<Rightarrow> unpackst \<Rightarrow> unpackst flow option" where
  "unpack_H blen buf st = up_need blen 2 st (\<lambda>st.
     do { h \<leftarrow> unpacku16 (drop (up_pos st) buf); up_give (O16 h) 2 st })"

definition unpack_i :: "u64 \<Rightarrow> bytes \<Rightarrow> unpackst \<Rightarrow> unpackst flow option" where
  "unpack_i blen buf st = up_need blen 4 st (\<lambda>st.
     do { i \<leftarrow> unpacki32 (drop (up_pos st) buf); up_give (O32 i) 4 st })"

definition unpack_I :: "u64 \<Rightarrow> bytes \<Rightarrow> unpackst \<Rightarrow> unpackst flow option" where
  "unpack_I blen buf st = up_need blen 4 st (\<lambda>st.
     do { i \<leftarrow> unpacku32 (drop (up_pos st) buf); up_give (O32 i) 4 st })"

definition unpack_q :: "u64 \<Rightarrow> bytes \<Rightarrow> unpackst \<Rightarrow> unpackst flow option" where
  "unpack_q blen buf st = up_need blen 8 st (\<lambda>st.
     do { q \<leftarrow> unpacki64 (drop (up_pos st) buf); up_give (O64 q) 8 st })"

definition unpack_Q :: "u64 \<Rightarrow> bytes \<Rightarrow> unpackst \<Rightarrow> unpackst flow option" where
  "unpack_Q blen buf st = up_need blen 8 st (\<lambda>st.
     do { q \<leftarrow> unpacku64 (drop (up_pos st) buf); up_give (O64 q) 8 st })"

definition unpack_V :: "u64 \<Rightarrow> bytes \<Rightarrow> unpackst \<Rightarrow> unpackst flow option" where
  "unpack_V blen buf st =
     (if up_len st + 1 > blen then up_fail st
      else do { hd \<leftarrow> read_at (up_pos st) 1 buf;
          let l = unat (hd ! 0);
          let len = up_len st + of_nat (1 + l);
          if l > TRIPPACK_MAX_VAR \<or> len > blen then up_fail st
          else do {
            let st = st\<lparr>up_len := len, up_pos := up_pos st + 1\<rparr>;
            n \<leftarrow> read_uvar (up_pos st) l buf;
            up_give (O32 n) l st } })"

definition unpack_W :: "u64 \<Rightarrow> bytes \<Rightarrow> unpackst \<Rightarrow> unpackst flow option" where
  "unpack_W blen buf st = up_need blen 1 st (\<lambda>st.
     do { hd \<leftarrow> read_at (up_pos st) 1 buf;
          let l = unat (hd ! 0);
          let st = st\<lparr>up_pos := up_pos st + 1\<rparr>;
          let len = up_len st + of_nat l;
          if l > TRIPPACK_MAX_DVAR \<or> len > blen then up_fail st
          else do {
            n \<leftarrow> read_uvar (up_pos st) l buf;
            up_give (O64 n) l (st\<lparr>up_len := len\<rparr>) } })"

section \<open>The loop over the format\<close>

definition unpack_step :: "crypto \<Rightarrow> u64 \<Rightarrow> bytes \<Rightarrow> char \<Rightarrow> unpackst \<Rightarrow> unpackst flow option" where
  "unpack_step cr blen buf ch st =
     (if ch = CHR ''o'' then unpack_o cr blen st
      else if ch = CHR ''O'' then Some (Next st)
      else if ch = CHR ''n'' then unpack_n cr blen buf st
      else if ch = CHR ''k'' then unpack_k cr blen buf st
      else if ch = CHR ''b'' then unpack_b blen buf st
      else if ch = CHR ''c'' \<or> ch = CHR ''C'' then unpack_c blen buf st
      else if ch = CHR ''h'' then unpack_h blen buf st
      else if ch = CHR ''H'' then unpack_H blen buf st
      else if ch = CHR ''i'' then unpack_i blen buf st
      else if ch = CHR ''I'' then unpack_I blen buf st
      else if ch = CHR ''q'' then unpack_q blen buf st
      else if ch = CHR ''Q'' then unpack_Q blen buf st
      else if ch = CHR ''V'' then unpack_V blen buf st
      else if ch = CHR ''W'' then unpack_W blen buf st
      else up_fail st)"

fun unpack_loop :: "crypto \<Rightarrow> u64 \<Rightarrow> bytes \<Rightarrow> string \<Rightarrow> unpackst \<Rightarrow> unpackst option" where
  "unpack_loop cr blen buf [] st = Some st"
| "unpack_loop cr blen buf (ch # format) st =
     (case unpack_step cr blen buf ch st of
        None \<Rightarrow> None
      | Some (Stop st) \<Rightarrow> Some st
      | Some (Next st) \<Rightarrow> unpack_loop cr blen buf format st)"

definition trip_unpack :: "crypto \<Rightarrow> u64 \<Rightarrow> bytes \<Rightarrow> string \<Rightarrow> (u64 \<times> uout list) option" where
  "trip_unpack cr blen buf format =
     map_option (\<lambda>st. (up_len st, up_out st))
       (unpack_loop cr blen buf format \<lparr>up_len = 0, up_pos = 0, up_out = []\<rparr>)"

section \<open>Memory safety\<close>

text \<open>An offset given to the caller lies in the buffer, whatever is copied was in it.\<close>

definition up_inv :: "u64 \<Rightarrow> unpackst \<Rightarrow> bool" where
  "up_inv blen st \<longleftrightarrow> up_pos st \<le> unat (up_len st) \<and> unat (up_len st) \<le> unat blen \<and>
     (\<forall>p. OPtr p \<in> set (up_out st) \<longrightarrow> p \<le> unat blen)"

fun up_good :: "u64 \<Rightarrow> unpackst flow option \<Rightarrow> bool" where
  "up_good blen None = False"
| "up_good blen (Some (Stop st)) =
     (up_len st = NPOS \<and> (\<forall>p. OPtr p \<in> set (up_out st) \<longrightarrow> p \<le> unat blen))"
| "up_good blen (Some (Next st)) = up_inv blen st"

lemma up_fail_good: "up_inv blen st \<Longrightarrow> up_good blen (up_fail st)"
  by (simp add: up_fail_def up_inv_def)

lemma up_add_le:
  assumes "up_inv blen st" "unat blen < 2 ^ 63" "n < 2 ^ 33"
  shows "up_len st + of_nat n \<le> blen \<longleftrightarrow> unat (up_len st) + n \<le> unat blen"
    and "unat (up_len st) + n \<le> unat blen \<Longrightarrow> unat (up_len st + of_nat n) = unat (up_len st) + n"
proof -
  have "unat (up_len st) + n < 2 ^ LENGTH(64)"
    using assms by (simp add: up_inv_def)
  then have "unat (up_len st + of_nat n) = unat (up_len st) + n" by (rule unat_add_of_nat)
  then show "up_len st + of_nat n \<le> blen \<longleftrightarrow> unat (up_len st) + n \<le> unat blen"
    and "unat (up_len st + of_nat n) = unat (up_len st) + n"
    by (simp_all add: word_le_nat_alt)
qed

text \<open>
  Every case asks for its octets first: the rest runs with the length advanced and the octets
  present.
\<close>

lemma up_need_good:
  assumes inv: "up_inv blen st" and blen: "unat blen < 2 ^ 63" and k: "k = of_nat n" "n < 2 ^ 33"
    and rest: "unat (up_len st) + n \<le> unat blen \<Longrightarrow> unat (up_len st + k) = unat (up_len st) + n \<Longrightarrow>
      up_good blen (rest (st\<lparr>up_len := up_len st + k\<rparr>))"
  shows "up_good blen (up_need blen k st rest)"
  using up_add_le [OF inv blen k(2)] rest up_fail_good [OF inv]
  by (auto simp: up_need_def Let_def k(1) not_less)

lemma up_give_good:
  assumes "up_inv blen st" "unat (up_len st) + n \<le> unat blen"
    "unat (up_len st + k) = unat (up_len st) + n" "\<forall>p. out \<noteq> OPtr p"
  shows "up_good blen (up_give out n (st\<lparr>up_len := up_len st + k\<rparr>))"
  using assms by (auto simp: up_give_def up_inv_def)

text \<open>A case that asks for \<open>n\<close> octets, reads them and stores one value.\<close>

lemma up_need_give_good:
  assumes inv: "up_inv blen st" and blen: "unat blen < 2 ^ 63" "unat blen \<le> length buf"
    and k: "k = of_nat n" "n < 2 ^ 33"
    and f: "up_pos st + n \<le> length buf \<Longrightarrow> \<exists>v. f = Some v"
    and out: "\<And>v p. out v \<noteq> OPtr p"
    and rest: "\<And>s. up_pos s = up_pos st \<Longrightarrow> rest s = do { v \<leftarrow> f; up_give (out v) n s }"
  shows "up_good blen (up_need blen k st rest)"
proof (rule up_need_good [OF inv blen(1) k])
  assume le: "unat (up_len st) + n \<le> unat blen" "unat (up_len st + k) = unat (up_len st) + n"
  moreover have "up_pos st + n \<le> length buf"
    using le(1) inv blen(2) by (simp add: up_inv_def)
  then obtain v where "f = Some v" using f by blast
  ultimately show "up_good blen (rest (st\<lparr>up_len := up_len st + k\<rparr>))"
    using up_give_good [OF inv le, of "out v"] by (simp add: rest out)
qed

lemma unpack_n_good:
  assumes "up_inv blen st" "unat blen < 2 ^ 63" "unat blen \<le> length buf" "sodium_laws cr"
  shows "up_good blen (unpack_n cr blen buf st)"
  unfolding unpack_n_def
  by (rule up_need_give_good [OF assms(1-3), where n = "noncebytes cr" and f = "read_at (up_pos st) (noncebytes cr) buf" and out = "OBlock"])
    (use assms(4) in \<open>simp_all add: unpacki16_eq unpacki32_eq unpacki64_eq unpacku_defined sodium_laws_def bind_assoc\<close>)

lemma unpack_k_good:
  assumes "up_inv blen st" "unat blen < 2 ^ 63" "unat blen \<le> length buf" "sodium_laws cr"
  shows "up_good blen (unpack_k cr blen buf st)"
  unfolding unpack_k_def
  by (rule up_need_give_good [OF assms(1-3), where n = "pkbytes cr" and f = "read_at (up_pos st) (pkbytes cr) buf" and out = "OBlock"])
    (use assms(4) in \<open>simp_all add: unpacki16_eq unpacki32_eq unpacki64_eq unpacku_defined sodium_laws_def bind_assoc\<close>)

lemma unpack_c_good:
  assumes "up_inv blen st" "unat blen < 2 ^ 63" "unat blen \<le> length buf"
  shows "up_good blen (unpack_c blen buf st)"
  unfolding unpack_c_def
  by (rule up_need_give_good [OF assms(1-3), where n = "1" and f = "read_at (up_pos st) 1 buf" and out = "\<lambda>bs. O8 (bs ! 0)"])
    (use assms(1) in \<open>simp_all add: unpacki16_eq unpacki32_eq unpacki64_eq unpacku_defined sodium_laws_def bind_assoc\<close>)

lemma unpack_h_good:
  assumes "up_inv blen st" "unat blen < 2 ^ 63" "unat blen \<le> length buf"
  shows "up_good blen (unpack_h blen buf st)"
  unfolding unpack_h_def
  by (rule up_need_give_good [OF assms(1-3), where n = "2" and f = "unpacki16 (drop (up_pos st) buf)" and out = "O16"])
    (use assms(1) in \<open>simp_all add: unpacki16_eq unpacki32_eq unpacki64_eq unpacku_defined sodium_laws_def bind_assoc\<close>)

lemma unpack_H_good:
  assumes "up_inv blen st" "unat blen < 2 ^ 63" "unat blen \<le> length buf"
  shows "up_good blen (unpack_H blen buf st)"
  unfolding unpack_H_def
  by (rule up_need_give_good [OF assms(1-3), where n = "2" and f = "unpacku16 (drop (up_pos st) buf)" and out = "O16"])
    (use assms(1) in \<open>simp_all add: unpacki16_eq unpacki32_eq unpacki64_eq unpacku_defined sodium_laws_def bind_assoc\<close>)

lemma unpack_i_good:
  assumes "up_inv blen st" "unat blen < 2 ^ 63" "unat blen \<le> length buf"
  shows "up_good blen (unpack_i blen buf st)"
  unfolding unpack_i_def
  by (rule up_need_give_good [OF assms(1-3), where n = "4" and f = "unpacki32 (drop (up_pos st) buf)" and out = "O32"])
    (use assms(1) in \<open>simp_all add: unpacki16_eq unpacki32_eq unpacki64_eq unpacku_defined sodium_laws_def bind_assoc\<close>)

lemma unpack_I_good:
  assumes "up_inv blen st" "unat blen < 2 ^ 63" "unat blen \<le> length buf"
  shows "up_good blen (unpack_I blen buf st)"
  unfolding unpack_I_def
  by (rule up_need_give_good [OF assms(1-3), where n = "4" and f = "unpacku32 (drop (up_pos st) buf)" and out = "O32"])
    (use assms(1) in \<open>simp_all add: unpacki16_eq unpacki32_eq unpacki64_eq unpacku_defined sodium_laws_def bind_assoc\<close>)

lemma unpack_q_good:
  assumes "up_inv blen st" "unat blen < 2 ^ 63" "unat blen \<le> length buf"
  shows "up_good blen (unpack_q blen buf st)"
  unfolding unpack_q_def
  by (rule up_need_give_good [OF assms(1-3), where n = "8" and f = "unpacki64 (drop (up_pos st) buf)" and out = "O64"])
    (use assms(1) in \<open>simp_all add: unpacki16_eq unpacki32_eq unpacki64_eq unpacku_defined sodium_laws_def bind_assoc\<close>)

lemma unpack_Q_good:
  assumes "up_inv blen st" "unat blen < 2 ^ 63" "unat blen \<le> length buf"
  shows "up_good blen (unpack_Q blen buf st)"
  unfolding unpack_Q_def
  by (rule up_need_give_good [OF assms(1-3), where n = "8" and f = "unpacku64 (drop (up_pos st) buf)" and out = "O64"])
    (use assms(1) in \<open>simp_all add: unpacki16_eq unpacki32_eq unpacki64_eq unpacku_defined sodium_laws_def bind_assoc\<close>)

lemma unpack_o_good:
  assumes "up_inv blen st" "unat blen < 2 ^ 63" "sodium_laws cr"
  shows "up_good blen (unpack_o cr blen st)"
  unfolding unpack_o_def
  by (rule up_need_good [OF assms(1,2) refl]) (use assms in \<open>auto simp: sodium_laws_def up_inv_def\<close>)

lemma read_uvar_defined: "pos + l \<le> length buf \<Longrightarrow> \<exists>n. read_uvar pos l buf = Some n"
  by (simp add: read_uvar_def)

lemma octet_small: "unat (b :: u8) < 2 ^ 33"
  using unat_less_exp [of b] by simp

lemma unpack_V_good:
  assumes inv: "up_inv blen st" and blen: "unat blen < 2 ^ 63" "unat blen \<le> length buf"
  shows "up_good blen (unpack_V blen buf st)"
proof -
  note add1 = up_add_le [OF inv blen(1), of 1, simplified]
  have fail: "up_good blen (up_fail st)" using up_fail_good inv .
  show ?thesis
  proof (cases "up_len st + 1 > blen")
    case False
    then have "unat (up_len st) + 1 \<le> unat blen" using add1 by (simp add: not_less)
    then have pos: "up_pos st + 1 \<le> length buf" using inv blen by (simp add: up_inv_def)
    let ?l = "unat (buf ! up_pos st)"
    have l: "1 + ?l < 2 ^ 33" using unat_less_exp [of "buf ! up_pos st"] by simp
    note addl = up_add_le [OF inv blen(1) l]
    show ?thesis
    proof (cases "?l > TRIPPACK_MAX_VAR \<or> up_len st + of_nat (1 + ?l) > blen")
      case True
      with False pos fail show ?thesis
        by (auto simp: unpack_V_def Let_def)
    next
      case ok: False
      then have le: "unat (up_len st) + (1 + ?l) \<le> unat blen" using addl(1) by (simp add: not_less)
      then have "up_pos st + 1 + ?l \<le> length buf" using inv blen by (simp add: up_inv_def)
      then obtain n :: u32 where "read_uvar (up_pos st + 1) ?l buf = Some n"
        using read_uvar_defined by blast
      with False ok pos le addl(2) [OF le] inv show ?thesis
        by (auto simp: unpack_V_def Let_def up_give_def up_inv_def)
    qed
  qed (use fail in \<open>simp add: unpack_V_def\<close>)
qed

lemma unpack_W_good:
  assumes inv: "up_inv blen st" and blen: "unat blen < 2 ^ 63" "unat blen \<le> length buf"
  shows "up_good blen (unpack_W blen buf st)"
  unfolding unpack_W_def
proof (rule up_need_good [OF inv blen(1), where n = 1], goal_cases)
  case 3
  let ?st = "st\<lparr>up_len := up_len st + 1\<rparr>"
  from 3 have inv1: "up_inv blen ?st" using inv by (simp add: up_inv_def)
  have pos: "up_pos st + 1 \<le> length buf" using 3 inv blen by (simp add: up_inv_def)
  let ?l = "unat (buf ! up_pos st)"
  have l: "?l < 2 ^ 33" by (rule octet_small)
  note addl = up_add_le [OF inv1 blen(1) l]
  show ?case
  proof (cases "?l > TRIPPACK_MAX_DVAR \<or> up_len ?st + of_nat ?l > blen")
    case True
    with pos inv show ?thesis
      by (auto simp: Let_def up_fail_def up_inv_def)
  next
    case ok: False
    then have le: "unat (up_len ?st) + ?l \<le> unat blen" using addl(1) by (simp add: not_less)
    then have "up_pos st + 1 + ?l \<le> length buf" using inv blen 3 by (simp add: up_inv_def)
    then obtain n :: u64 where "read_uvar (up_pos st + 1) ?l buf = Some n"
      using read_uvar_defined by blast
    with 3 ok pos le addl(2) [OF le] inv show ?thesis
      by (auto simp: Let_def up_give_def up_inv_def)
  qed
qed simp_all

lemma unpack_b_good:
  assumes inv: "up_inv blen st" and blen: "unat blen < 2 ^ 63" "unat blen \<le> length buf"
  shows "up_good blen (unpack_b blen buf st)"
  unfolding unpack_b_def
proof (rule up_need_good [OF inv blen(1), where n = 1], goal_cases)
  case 3
  let ?st = "st\<lparr>up_len := up_len st + 1\<rparr>"
  from 3 have inv1: "up_inv blen ?st" using inv by (simp add: up_inv_def)
  have pos: "up_pos st + 1 \<le> length buf" using 3 inv blen by (simp add: up_inv_def)
  let ?l = "unat (buf ! up_pos st)"
  have l: "?l < 2 ^ 33" by (rule octet_small)
  note addl = up_add_le [OF inv1 blen(1) l]
  show ?case
  proof (cases "?l > TRIPPACK_MAX_VAR \<or> up_len ?st + of_nat ?l > blen")
    case True
    with pos inv show ?thesis
      by (auto simp: Let_def up_fail_def up_inv_def)
  next
    case ok: False
    then have le: "unat (up_len ?st) + ?l \<le> unat blen" using addl(1) by (simp add: not_less)
    then have "up_pos st + 1 + ?l \<le> length buf" using inv blen 3 by (simp add: up_inv_def)
    then obtain n :: u32 where n: "read_uvar (up_pos st + 1) ?l buf = Some n"
      using read_uvar_defined by blast
    let ?st2 = "?st\<lparr>up_len := up_len ?st + of_nat ?l, up_pos := up_pos st + 1 + ?l,
      up_out := up_out st @ [O32 n]\<rparr>"
    have inv2: "up_inv blen ?st2"
      using 3 le addl(2) [OF le] inv by (auto simp: up_inv_def)
    have n33: "unat n < 2 ^ 33" using unat_less_exp [of n] by simp
    have un: "(ucast n :: u64) = of_nat (unat n)" by simp
    have "up_good blen (up_need blen (ucast n) ?st2 (\<lambda>st. up_give (OPtr (up_pos st)) 0 st))"
    proof (rule up_need_good [OF inv2 blen(1) un n33])
      assume "unat (up_len ?st2) + unat n \<le> unat blen"
        and "unat (up_len ?st2 + ucast n) = unat (up_len ?st2) + unat n"
      then show "up_good blen (up_give (OPtr (up_pos (?st2\<lparr>up_len := up_len ?st2 + ucast n\<rparr>))) 0
          (?st2\<lparr>up_len := up_len ?st2 + ucast n\<rparr>))"
        using inv2 by (auto simp: up_give_def up_inv_def)
    qed
    with ok pos n show ?thesis
      by (simp add: Let_def)
  qed
qed simp_all

lemmas unpack_case_good = unpack_o_good unpack_n_good unpack_k_good unpack_b_good unpack_c_good
  unpack_h_good unpack_H_good unpack_i_good unpack_I_good unpack_q_good unpack_Q_good
  unpack_V_good unpack_W_good

lemma unpack_step_good:
  assumes "up_inv blen st" "unat blen < 2 ^ 63" "unat blen \<le> length buf" "sodium_laws cr"
  shows "up_good blen (unpack_step cr blen buf ch st)"
  using assms by (simp add: unpack_step_def unpack_case_good up_fail_good)

lemma unpack_loop_safe:
  assumes "up_inv blen st" "unat blen < 2 ^ 63" "unat blen \<le> length buf" "sodium_laws cr"
  shows "\<exists>st'. unpack_loop cr blen buf format st = Some st' \<and>
    (up_len st' = NPOS \<or> unat (up_len st') \<le> unat blen) \<and>
    (\<forall>p. OPtr p \<in> set (up_out st') \<longrightarrow> p \<le> unat blen)"
  using assms(1)
proof (induction format arbitrary: st)
  case Nil
  then show ?case by (auto simp: up_inv_def)
next
  case (Cons ch format)
  then have "up_good blen (unpack_step cr blen buf ch st)"
    using unpack_step_good assms(2-4) by blast
  then show ?case
    using Cons.IH by (auto elim: up_good.elims)
qed

end
