(* ===== verification/Wire.thy ===== *)
theory Wire
  imports Pack_Safety Unpack
begin

text \<open>
  What the encoder and the decoder agree on. \<open>wire_item\<close> gives, for a specifier that takes
  one argument, the octets it stands for on the wire and the value the decoder makes of them;
  \<open>wire\<close> extends it to a format. \<open>trip_pack\<close> writes exactly these octets, and
  \<open>trip_unpack\<close> reads exactly these values back. The reference is stated with the division
  and the remainder of integers only; that the shifts and the loops of the code compute it is
  what the first lemmas show.
\<close>

section \<open>The reference encoding\<close>

text \<open>
  The octets of an integer, \<open>n\<close> of them most significant first, or as many as it needs
  least significant first; and the integer octets stand for, read most significant first.
\<close>

definition octets_be :: "nat \<Rightarrow> int \<Rightarrow> bytes" where
  "octets_be n x = map (\<lambda>j. of_int (x div 256 ^ (n - 1 - j) mod 256)) [0..<n]"

function octets_le :: "int \<Rightarrow> bytes" where
  "octets_le x = (if x \<le> 0 then [] else of_int (x mod 256) # octets_le (x div 256))"
  by pat_completeness auto
termination by (relation "measure nat") auto

declare octets_le.simps [simp del]

definition value_be :: "bytes \<Rightarrow> int" where
  "value_be bs = foldl (\<lambda>v b. 256 * v + uint b) 0 bs"

text \<open>
  A variable-length integer is a count and as many octets, least significant first. The
  decoder reads them most significant first.
\<close>

definition block_item :: "nat \<Rightarrow> bytes option \<Rightarrow> (bytes \<times> uout) option" where
  "block_item n p =
     (case p of
        None \<Rightarrow> Some (replicate n 0, OBlock (replicate n 0))
      | Some b \<Rightarrow> if n \<le> length b then Some (take n b, OBlock (take n b)) else None)"

definition wire_item :: "crypto \<Rightarrow> char \<Rightarrow> varg \<Rightarrow> (bytes \<times> uout) option" where
  "wire_item cr ch a =
     (case a of
        AInt x \<Rightarrow>
          if ch = CHR ''c'' \<or> ch = CHR ''C'' then Some (octets_be 1 (uint x), O8 (of_int (uint x)))
          else if ch = CHR ''h'' \<or> ch = CHR ''H'' then Some (octets_be 2 (uint x), O16 (of_int (uint x)))
          else if ch = CHR ''i'' \<or> ch = CHR ''I'' then Some (octets_be 4 (uint x), O32 x)
          else if ch = CHR ''V'' then
            (let bs = octets_le (uint x) in Some (of_nat (length bs) # bs, O32 (of_int (value_be bs))))
          else None
      | ALong x \<Rightarrow>
          if ch = CHR ''q'' \<or> ch = CHR ''Q'' then Some (octets_be 8 (uint x), O64 x)
          else if ch = CHR ''W'' then
            (let bs = octets_le (uint x) in Some (of_nat (length bs) # bs, O64 (of_int (value_be bs))))
          else None
      | APtr p \<Rightarrow>
          if ch = CHR ''n'' then block_item (noncebytes cr) p
          else if ch = CHR ''k'' then block_item (pkbytes cr) p
          else None)"

fun wire :: "crypto \<Rightarrow> string \<Rightarrow> varg list \<Rightarrow> (bytes \<times> uout list) option" where
  "wire cr [] [] = Some ([], [])"
| "wire cr (ch # format) (a # args) =
     do { (bs, out) \<leftarrow> wire_item cr ch a;
          (bss, outs) \<leftarrow> wire cr format args;
          Some (bs @ bss, out # outs) }"
| "wire cr _ _ = None"

section \<open>The code computes the reference encoding\<close>

lemma octet_of_int: "(ucast (x :: 'a::len word) :: u8) = of_int (uint x mod 256)"
proof -
  have "(of_int (y mod 256) :: u8) = of_int y" for y
    by (simp add: word_of_int_eq_iff take_bit_eq_mod)
  then show ?thesis by (simp only: ucast_eq)
qed

lemma uint_drop: "uint (drop_bit k (x :: 'a::len word)) = uint x div 2 ^ k"
proof -
  have "take_bit LENGTH('a) (uint x) = uint x" by (rule take_bit_int_eq_self) (simp_all add: unsigned_less)
  then show ?thesis by (simp only: unsigned_drop_bit_eq drop_bit_eq_div [of k "uint x"])
qed

lemma packi16_octets: "packi16 x = octets_be 2 (uint x)"
  and packi32_octets: "packi32 x = octets_be 4 (uint x)"
  and packi64_octets: "packi64 y = octets_be 8 (uint y)"
  by (simp_all only: packi16_def packi32_def packi64_def octets_be_def octet_of_int uint_drop)
    (simp_all add: upt_rec)

lemma low_octet: "(ucast (0xFF AND x) :: u8) = of_int (uint (x :: 'a::len word) mod 256)"
proof -
  have "(ucast (0xFF AND x) :: u8) = ucast x"
    by (rule bit_word_eqI)
      (simp only: bit_unsigned_iff bit_and_iff bit_0xFF, auto dest: bit_imp_le_length)
  then show ?thesis by (simp only: octet_of_int)
qed

text \<open>The loop that writes, on a word of any width.\<close>

fun octets_n :: "nat \<Rightarrow> int \<Rightarrow> bytes" where
  "octets_n 0 x = []"
| "octets_n (Suc i) x = of_int (x mod 256) # octets_n i (x div 256)"

lemma put_uvar_octets: "put_uvar i x = octets_n i (uint x)"
  by (induction i arbitrary: x) (simp_all only: put_uvar.simps octets_n.simps low_octet uint_drop, simp)

lemma octets_le_put: "octets_le (uint x) = put_uvar (trip_uvar_len x) x" for x :: u64
proof (induction x rule: trip_uvar_len.induct)
  case (1 x)
  show ?case
  proof (cases "x = 0")
    case False
    then have "\<not> uint x \<le> 0" by (metis uint_0_iff uint_ge_0 order_antisym)
    then have "octets_le (uint x) = of_int (uint x mod 256) # octets_le (uint (drop_bit 8 x))"
      by (subst octets_le.simps) (simp add: uint_drop)
    moreover have "trip_uvar_len x = Suc (trip_uvar_len (drop_bit 8 x))"
      using False by (subst trip_uvar_len.simps) simp
    ultimately show ?thesis using 1 [OF False] by (simp only: put_uvar.simps low_octet)
  qed (simp add: octets_le.simps trip_uvar_len.simps)
qed

lemma octets_le_put32: "octets_le (uint x) = put_uvar (trip_uvar_len (ucast x)) x" for x :: u32
proof -
  have "uint (ucast x :: u64) = uint x" by (rule uint_up_ucast) (simp add: is_up)
  then show ?thesis using octets_le_put [of "ucast x"] by (simp only: put_uvar_octets)
qed

text \<open>The loop that reads.\<close>

lemma merge_octet: "push_bit 8 n XOR ucast (b :: u8) = 256 * n + (ucast b :: 'a::len word)"
proof -
  have "push_bit 8 n AND (ucast b :: 'a word) = 0"
    by (rule bit_word_eqI) (auto simp: bit_simps dest: bit_imp_le_length)
  then have "push_bit 8 n XOR (ucast b :: 'a word) = push_bit 8 n + ucast b"
    by (simp add: disjunctive_xor_eq_or disjunctive_add_eq_or)
  then show ?thesis by (simp add: push_bit_eq_mult mult.commute)
qed

lemma get_uvar_foldl: "get_uvar bs (of_int v :: 'a::len word) = of_int (foldl (\<lambda>v b. 256 * v + uint b) v bs)"
proof (induction bs arbitrary: v)
  case (Cons b bs)
  have "(ucast b :: 'a word) = of_int (uint b)" by (rule ucast_eq)
  moreover have "push_bit 8 (of_int v :: 'a word) XOR ucast b = 256 * of_int v + ucast b" by (rule merge_octet)
  ultimately have "push_bit 8 (of_int v) XOR (ucast b :: 'a word) = of_int (256 * v + uint b)"
    by (simp only: of_int_add of_int_mult of_int_numeral)
  with Cons show ?case by (simp only: get_uvar.simps foldl.simps)
qed simp

definition uvar_read :: "nat \<Rightarrow> 'a::len word \<Rightarrow> 'a word" where
  "uvar_read i n = get_uvar (put_uvar i n) 0"

lemma uvar_read_value: "uvar_read i x = of_int (value_be (put_uvar i x))"
  using get_uvar_foldl [of "put_uvar i x" 0] by (simp add: uvar_read_def value_be_def)

lemma block_item_code: "block_item n p = map_option (\<lambda>b. (b, OBlock b)) (copy_or_zero n p)"
  by (simp add: block_item_def copy_or_zero_def read_at_def split: option.split)

text \<open>\<open>wire_item\<close> in the terms of the code.\<close>

lemma wire_item_code:
  "wire_item cr ch a =
     (case a of
        AInt x \<Rightarrow>
          if ch = CHR ''c'' \<or> ch = CHR ''C'' then Some ([ucast x], O8 (ucast x))
          else if ch = CHR ''h'' \<or> ch = CHR ''H'' then Some (packi16 x, O16 (ucast x))
          else if ch = CHR ''i'' \<or> ch = CHR ''I'' then Some (packi32 x, O32 x)
          else if ch = CHR ''V'' then
            (let i = trip_uvar_len (ucast x) in Some (of_nat i # put_uvar i x, O32 (uvar_read i x)))
          else None
      | ALong x \<Rightarrow>
          if ch = CHR ''q'' \<or> ch = CHR ''Q'' then Some (packi64 x, O64 x)
          else if ch = CHR ''W'' then
            (let i = trip_uvar_len x in Some (of_nat i # put_uvar i x, O64 (uvar_read i x)))
          else None
      | APtr p \<Rightarrow>
          if ch = CHR ''n'' then map_option (\<lambda>b. (b, OBlock b)) (copy_or_zero (noncebytes cr) p)
          else if ch = CHR ''k'' then map_option (\<lambda>b. (b, OBlock b)) (copy_or_zero (pkbytes cr) p)
          else None)"
proof (cases a)
  case (AInt x)
  have "octets_be 1 (uint x) = [ucast x]" by (simp add: octets_be_def octet_of_int)
  then show ?thesis
    using AInt by (simp add: wire_item_def packi16_octets packi32_octets octets_le_put32 Let_def uvar_read_value flip: ucast_eq)
qed (simp_all add: wire_item_def packi64_octets octets_le_put Let_def uvar_read_value block_item_code)

text \<open>A single octet reads back as it was written, so small integers survive.\<close>

lemma put_uvar_1: "put_uvar (Suc 0) n = [ucast n]"
proof -
  have "(ucast (0xFF AND n) :: u8) = ucast n"
    by (rule bit_word_eqI)
      (simp only: bit_unsigned_iff bit_and_iff bit_0xFF, auto dest: bit_imp_le_length)
  then show ?thesis by simp
qed

lemma uvar_read_small:
  fixes n :: "'a::len word"
  assumes "i \<le> 1" "unat n < 2 ^ (8 * i)"
  shows "uvar_read i n = n"
proof -
  have "rev (put_uvar i n) = put_uvar i n"
    using assms(1) by (cases i) auto
  then have "uvar_read i n = take_bit (8 * i) n"
    using get_uvar_rev_put [of i n] by (simp add: uvar_read_def)
  also have "take_bit (8 * i) n = n"
    using assms(2) by (simp only: word_unat_eq_iff unsigned_take_bit_eq take_bit_nat_eq_self)
  finally show ?thesis .
qed

lemma uvar_read_W: "n < 256 \<Longrightarrow> uvar_read (trip_uvar_len n) n = n" for n :: u64
  by (rule uvar_read_small [OF trip_uvar_len_bound [of n 1] trip_uvar_len_covers]) simp_all

lemma uvar_read_V: "n < 256 \<Longrightarrow> uvar_read (trip_uvar_len (ucast n)) n = n" for n :: u32
proof (rule uvar_read_small [OF trip_uvar_len_bound [of "ucast n" 1]])
  assume "n < 256"
  then show "(ucast n :: u64) < 2 ^ (8 * 1)" by (simp add: word_less_nat_alt)
  show "unat n < 2 ^ (8 * trip_uvar_len (ucast n))"
    using trip_uvar_len_covers [of "ucast n"] by simp
qed simp

section \<open>The encoder writes the reference encoding\<close>

definition pk_at :: "nat \<Rightarrow> bytes \<Rightarrow> varg list \<Rightarrow> packst \<Rightarrow> bool" where
  "pk_at pos mem args st \<longleftrightarrow> pk_size st = of_nat pos \<and> pk_pos st = pos \<and> pk_mem st = mem \<and> pk_args st = args"

definition put_at :: "nat \<Rightarrow> bytes \<Rightarrow> bytes \<Rightarrow> bytes" where
  "put_at pos bs mem = take pos mem @ bs @ drop (pos + length bs) mem"

text \<open>The next state, where the encrypted and the signed part still start at \<open>cs\<close>.\<close>

definition pk_marks :: "packst \<Rightarrow> nat \<times> nat" where
  "pk_marks st = (pk_cryptstart st, pk_sigstart st)"

definition pk_next :: "nat \<Rightarrow> bytes \<Rightarrow> varg list \<Rightarrow> nat \<times> nat \<Rightarrow> packst flow option \<Rightarrow> bool" where
  "pk_next pos mem args cs r \<longleftrightarrow>
     (\<exists>st. r = Some (Next st) \<and> pk_at pos mem args st \<and> pk_marks st = cs)"

lemma pk_room_next:
  assumes "pk_size st = of_nat (pk_pos st)" "pk_pos st + n \<le> unat cap" "unat cap < 2 ^ 63" "n < 2 ^ 33" "k = of_nat n"
  shows "pk_room cap k st rest = rest (st\<lparr>pk_size := of_nat (pk_pos st + n)\<rparr>)"
proof -
  have "unat (pk_size st) = pk_pos st"
    unfolding assms(1) using assms(2,3) by (intro unat_of_nat_small) simp
  then show ?thesis
    using assms pk_room_eq [of st cap n rest] by simp
qed

lemma copy_or_zero_length: "copy_or_zero k p = Some b \<Longrightarrow> length b = k"
  by (auto simp: copy_or_zero_def read_at_def split: option.splits if_splits)

lemma wire_item_length: "wire_item cr ch a = Some (bs, out) \<Longrightarrow> sodium_laws cr \<Longrightarrow> length bs < 1024"
  using trip_uvar_len_le8
  by (auto simp: wire_item_code sodium_laws_def Let_def copy_or_zero_def read_at_def le_imp_less_Suc
      intro!: le_less_trans [OF trip_uvar_len_le8]
      split: varg.splits if_splits option.splits)

lemma pack_step_wire:
  assumes at: "pk_at pos mem (a # args) st" and it: "wire_item cr ch a = Some (bs, out)"
    and fit: "pos + length bs \<le> unat cap" and cap: "unat cap \<le> length mem" "unat cap < 2 ^ 63"
    and cr: "sodium_laws cr"
  shows "pk_next (pos + length bs) (put_at pos bs mem) args (pk_marks st) (pack_step cr cap ch st)"
proof -
  have st: "pk_size st = of_nat (pk_pos st)" "pk_pos st = pos" "pk_mem st = mem" "pk_args st = a # args"
    using at by (simp_all add: pk_at_def)
  have n: "length bs < 2 ^ 33" using wire_item_length [OF it cr] by simp
  have room: "pk_room cap k st rest = rest (st\<lparr>pk_size := of_nat (pos + length bs)\<rparr>)"
    if "k = of_nat (length bs)" for k rest
    using pk_room_next [OF st(1) _ cap(2) n that] fit st(2) by simp
  have room2: "pk_room cap k (st\<lparr>pk_args := as\<rparr>) rest =
      rest (st\<lparr>pk_args := as, pk_size := of_nat (pos + length bs)\<rparr>)"
    if "k = of_nat (length bs)" for k as rest
    using pk_room_next [of "st\<lparr>pk_args := as\<rparr>" "length bs" cap k rest] st fit cap n that by simp
  note simps = pack_step_def pk_next_def pk_at_def pk_marks_def put_at_def pk_emit_eq pk_put_def st va_int_def
    va_long_def va_ptr_def room room2 Let_def pk_emit_emit
  show ?thesis
  proof (cases a)
    case (AInt x)
    with it consider "ch = CHR ''c'' \<or> ch = CHR ''C''" "bs = [ucast x]"
      | "ch = CHR ''h'' \<or> ch = CHR ''H''" "bs = packi16 x" | "ch = CHR ''i'' \<or> ch = CHR ''I''" "bs = packi32 x"
      | "ch = CHR ''V''" "bs = of_nat (trip_uvar_len (ucast x)) # put_uvar (trip_uvar_len (ucast x)) x"
      by (auto simp: wire_item_code Let_def split: if_splits)
    then show ?thesis
      using fit cap AInt
      by (cases; (elim disjE)?; simp add: simps pack_c_def pack_h_def pack_i_def pack_V_def add.commute)
  next
    case (ALong x)
    with it consider "ch = CHR ''q'' \<or> ch = CHR ''Q''" "bs = packi64 x"
      | "ch = CHR ''W''" "bs = of_nat (trip_uvar_len x) # put_uvar (trip_uvar_len x) x"
      by (auto simp: wire_item_code Let_def split: if_splits)
    then show ?thesis
      using fit cap ALong 
      by (cases; (elim disjE)?; simp add: simps pack_q_def pack_W_def add.commute)
  next
    case (APtr p)
    with it consider "ch = CHR ''n''" "copy_or_zero (noncebytes cr) p = Some bs"
      | "ch = CHR ''k''" "copy_or_zero (pkbytes cr) p = Some bs"
      by (auto simp: wire_item_code split: if_splits)
    then show ?thesis
      using fit cap APtr copy_or_zero_length 
      by (cases; simp add: simps pack_n_def pack_k_def)
  qed
qed

lemma put_at_put_at:
  "pos + length xs + length ys \<le> length mem \<Longrightarrow>
     put_at (pos + length xs) ys (put_at pos xs mem) = put_at pos (xs @ ys) mem"
  by (simp add: put_at_def ac_simps)

lemma length_put_at: "pos + length xs \<le> length mem \<Longrightarrow> length (put_at pos xs mem) = length mem"
  by (simp add: put_at_def)

lemma pack_loop_wire_then:
  assumes "wire cr format args = Some (bs, outs)" "pk_at pos mem (args @ extra) st"
    "pos + length bs \<le> unat cap" "unat cap \<le> length mem" "unat cap < 2 ^ 63" "sodium_laws cr"
  shows "\<exists>st'. pack_loop cr cap (format @ rest) st = pack_loop cr cap rest st' \<and>
    pk_at (pos + length bs) (put_at pos bs mem) extra st' \<and> pk_marks st' = pk_marks st"
  using assms(1-4,6)
proof (induction cr format args arbitrary: bs outs pos mem st rule: wire.induct)
  case (1 cr)
  then have "pk_at pos (put_at pos bs mem) extra st" "bs = []" by (simp_all add: pk_at_def put_at_def)
  then show ?case by (intro exI [of _ st]) simp
next
  case (2 cr ch format a args)
  then obtain b out bss outs' where it: "wire_item cr ch a = Some (b, out)"
    and w: "wire cr format args = Some (bss, outs')" and bs: "bs = b @ bss"
    by (auto split: Option.bind_splits)
  have at: "pk_at pos mem (a # args @ extra) st" using "2.prems"(2) by simp
  have "pk_next (pos + length b) (put_at pos b mem) (args @ extra) (pk_marks st) (pack_step cr cap ch st)"
    by (rule pack_step_wire [OF at it]) (use "2.prems" bs assms(5) in simp_all)
  then obtain st1 where st1: "pack_step cr cap ch st = Some (Next st1)"
    "pk_at (pos + length b) (put_at pos b mem) (args @ extra) st1" "pk_marks st1 = pk_marks st"
    by (auto simp: pk_next_def)
  have "\<exists>st'. pack_loop cr cap (format @ rest) st1 = pack_loop cr cap rest st' \<and>
      pk_at (pos + length b + length bss) (put_at (pos + length b) bss (put_at pos b mem)) extra st' \<and>
      pk_marks st' = pk_marks st1"
    using "2.IH" [OF it refl w st1(2)] "2.prems"(3-5) bs by (simp add: length_put_at)
  then show ?case
    using st1 bs "2.prems"(3,4) by (simp add: put_at_put_at add.assoc)
qed simp_all

lemma pack_loop_wire:
  assumes "wire cr format args = Some (bs, outs)" "pk_at pos mem args st"
    "pos + length bs \<le> unat cap" "unat cap \<le> length mem" "unat cap < 2 ^ 63" "sodium_laws cr"
  shows "\<exists>st'. pack_loop cr cap format st = Some st' \<and> pk_at (pos + length bs) (put_at pos bs mem) [] st'"
  using pack_loop_wire_then [OF assms(1) _ assms(3-6), of "[]" st "[]"] assms(2) by auto

text \<open>
  The encoder, on a format of single-argument specifiers that fits the buffer: the size is
  the length of the reference encoding, the encoding is at the front, the rest is untouched.
\<close>

lemma trip_pack_wire:
  assumes "wire cr format args = Some (bs, outs)" "length bs \<le> unat cap" "unat cap \<le> length buf"
    "unat cap < 2 ^ 63" "sodium_laws cr"
  shows "trip_pack cr cap buf format args = Some (of_nat (length bs), bs @ drop (length bs) buf)"
proof -
  let ?st = "\<lparr>pk_size = 0, pk_pos = 0, pk_mem = buf, pk_sigstart = 0, pk_cryptstart = 0,
    pk_key = None, pk_args = args\<rparr>"
  have "pk_at 0 buf args ?st" by (simp add: pk_at_def)
  then obtain st' where "pack_loop cr cap format ?st = Some st'"
    "pk_at (length bs) (put_at 0 bs buf) [] st'"
    using pack_loop_wire [OF assms(1), of 0 buf ?st cap] assms(2-5) by auto
  then show ?thesis by (simp add: trip_pack_def pk_at_def put_at_def)
qed

section \<open>The decoder reads the reference encoding\<close>

definition up_at :: "nat \<Rightarrow> uout list \<Rightarrow> unpackst \<Rightarrow> bool" where
  "up_at pos outs st \<longleftrightarrow> up_len st = of_nat pos \<and> up_pos st = pos \<and> up_out st = outs"

definition up_next :: "nat \<Rightarrow> uout list \<Rightarrow> unpackst flow option \<Rightarrow> bool" where
  "up_next pos outs r \<longleftrightarrow> (\<exists>st. r = Some (Next st) \<and> up_at pos outs st)"

lemma up_need_next:
  assumes "up_len st = of_nat pos" "pos + n \<le> unat blen" "unat blen < 2 ^ 63" "k = of_nat n"
  shows "up_need blen k st rest = rest (st\<lparr>up_len := of_nat (pos + n)\<rparr>)"
proof -
  have "unat (of_nat (pos + n) :: u64) = pos + n"
    using assms(2,3) by (intro unat_of_nat_small) simp
  then show ?thesis
    using assms by (simp add: up_need_def word_less_nat_alt not_less)
qed

lemma read_at_mid: "pos = length pre \<Longrightarrow> n = length bs \<Longrightarrow> read_at pos n (pre @ bs @ rest) = Some bs"
  by simp

lemma count_octet: "i \<le> 8 \<Longrightarrow> unat (of_nat i :: u8) = i"
  by (intro of_nat_inverse) simp_all

lemma count_octet64: "i \<le> 8 \<Longrightarrow> (ucast (of_nat i :: u8) :: u64) = of_nat i"
proof -
  assume "i \<le> 8"
  have "(ucast (of_nat i :: u8) :: u64) = of_nat (unat (of_nat i :: u8))" by (simp only: of_nat_unat)
  also have "unat (of_nat i :: u8) = i" using \<open>i \<le> 8\<close> by (rule count_octet)
  finally show ?thesis .
qed

lemma read_uvar_parts:
  assumes "buf = pre @ bs @ rest" "bs = of_nat i # put_uvar i x"
  shows "read_at (length pre) 1 buf = Some [of_nat i]"
    and "read_at (Suc (length pre)) i buf = Some (put_uvar i x)"
  using assms by simp_all

lemma unpack_step_wire:
  assumes at: "up_at pos outs st" and it: "wire_item cr ch a = Some (bs, out)"
    and fit: "pos + length bs \<le> unat blen" and blen: "unat blen < 2 ^ 63"
    and buf: "buf = pre @ bs @ rest" "length pre = pos"
  shows "up_next (pos + length bs) (outs @ [out]) (unpack_step cr blen buf ch st)"
proof -
  have st: "up_len st = of_nat pos" "up_pos st = pos" "up_out st = outs"
    using at by (simp_all add: up_at_def)
  have need: "up_need blen k st rest = rest (st\<lparr>up_len := of_nat (pos + n)\<rparr>)"
    if "k = of_nat n" "n \<le> length bs" for k n rest
    using up_need_next [OF st(1) _ blen that(1)] fit that(2) by simp
  have le: "\<not> blen < of_nat pos + of_nat n" if "n \<le> length bs" for n
  proof -
    have "unat (of_nat (pos + n) :: u64) = pos + n"
      using fit that blen by (intro unat_of_nat_small) simp
    then show ?thesis using fit that by (simp add: word_less_nat_alt not_less)
  qed
  have rd: "read_at pos (length bs) buf = Some bs" "drop pos buf = bs @ rest"
    by (simp_all add: buf flip: buf(2))
  note needs = need [of 1 1] need [of 2 2] need [of 4 4] need [of 8 8]
  note simps = unpack_step_def up_next_def up_at_def st need rd up_give_def Let_def
    unpacki16_eq unpacki32_eq unpacki64_eq word_bytes
  show ?thesis
  proof (cases a)
    case (AInt x)
    with it consider "ch = CHR ''c'' \<or> ch = CHR ''C''" "bs = [ucast x]" "out = O8 (ucast x)"
      | "ch = CHR ''h'' \<or> ch = CHR ''H''" "bs = packi16 x" "out = O16 (ucast x)"
      | "ch = CHR ''i'' \<or> ch = CHR ''I''" "bs = packi32 x" "out = O32 x"
      | "ch = CHR ''V''" "bs = of_nat (trip_uvar_len (ucast x)) # put_uvar (trip_uvar_len (ucast x)) x"
          "out = O32 (uvar_read (trip_uvar_len (ucast x)) x)"
      by (auto simp: wire_item_code Let_def split: if_splits)
    then show ?thesis
    proof cases
      case 4
      let ?i = "trip_uvar_len (ucast x)"
      have i: "?i \<le> 4" by (rule trip_uvar_len_u32)
      have "read_at pos 1 buf = Some [of_nat ?i]" "read_at (Suc pos) ?i buf = Some (put_uvar ?i x)"
        using read_uvar_parts [OF buf(1) 4(2)] buf(2) by simp_all
      then show ?thesis
        using 4 i le [of 1] le [of "1 + ?i"] count_octet [of ?i] count_octet64 [of ?i]
        by (simp add: simps unpack_V_def read_uvar_def uvar_read_def TRIPPACK_MAX_VAR_def add.assoc)
    qed (elim disjE; use rd needs in
        \<open>simp add: simps unpack_c_def unpack_h_def unpack_H_def unpack_i_def unpack_I_def\<close>)+
  next
    case (ALong x)
    with it consider "ch = CHR ''q'' \<or> ch = CHR ''Q''" "bs = packi64 x" "out = O64 x"
      | "ch = CHR ''W''" "bs = of_nat (trip_uvar_len x) # put_uvar (trip_uvar_len x) x"
          "out = O64 (uvar_read (trip_uvar_len x) x)"
      by (auto simp: wire_item_code Let_def split: if_splits)
    then show ?thesis
    proof cases
      case 2
      let ?i = "trip_uvar_len x"
      have i: "?i \<le> 8" by (rule trip_uvar_len_le8)
      have "read_at pos 1 buf = Some [of_nat ?i]" "read_at (Suc pos) ?i buf = Some (put_uvar ?i x)"
        using read_uvar_parts [OF buf(1) 2(2)] buf(2) by simp_all
      moreover have "\<not> blen < 1 + (of_nat pos + of_nat ?i)"
        using le [of "1 + ?i"] 2 by (simp add: add.left_commute)
      ultimately show ?thesis
        using 2 i le [of 1] count_octet [of ?i] count_octet64 [of ?i] need [of 1 1]
        by (simp add: simps unpack_W_def read_uvar_def uvar_read_def TRIPPACK_MAX_DVAR_def add.assoc)
    qed (elim disjE; use rd needs in \<open>simp add: simps unpack_q_def unpack_Q_def\<close>)
  next
    case (APtr p)
    with it consider "ch = CHR ''n''" "copy_or_zero (noncebytes cr) p = Some bs"  "out = OBlock bs"
      | "ch = CHR ''k''" "copy_or_zero (pkbytes cr) p = Some bs"  "out = OBlock bs"
      by (auto simp: wire_item_code split: if_splits)
    then show ?thesis
    proof cases
      case 1
      moreover from this have "length bs = noncebytes cr" by (blast dest: copy_or_zero_length)
      ultimately show ?thesis using rd by (simp add: simps unpack_n_def)
    next
      case 2
      moreover from this have "length bs = pkbytes cr" by (blast dest: copy_or_zero_length)
      ultimately show ?thesis using rd by (simp add: simps unpack_k_def)
    qed
  qed
qed

lemma unpack_loop_wire_then:
  assumes "wire cr format args = Some (bs, outs)" "up_at pos outs0 st"
    "buf = pre @ bs @ rest" "length pre = pos" "pos + length bs \<le> unat blen" "unat blen < 2 ^ 63"
  shows "\<exists>st'. unpack_loop cr blen buf (format @ extra) st = unpack_loop cr blen buf extra st' \<and>
    up_at (pos + length bs) (outs0 @ outs) st'"
  using assms(1-5)
proof (induction cr format args arbitrary: bs outs outs0 pos pre st rule: wire.induct)
  case (1 cr)
  then show ?case by (intro exI [of _ st]) simp
next
  case (2 cr ch format a args)
  then obtain b out bss outs' where it: "wire_item cr ch a = Some (b, out)"
    and w: "wire cr format args = Some (bss, outs')" and bs: "bs = b @ bss" "outs = out # outs'"
    by (auto split: Option.bind_splits)
  have "up_next (pos + length b) (outs0 @ [out]) (unpack_step cr blen buf ch st)"
    by (rule unpack_step_wire [OF "2.prems"(2) it, where pre = pre and rest = "bss @ rest"])
      (use "2.prems" bs assms(6) in simp_all)
  then obtain st1 where st1: "unpack_step cr blen buf ch st = Some (Next st1)"
    "up_at (pos + length b) (outs0 @ [out]) st1"
    by (auto simp: up_next_def)
  have "\<exists>st'. unpack_loop cr blen buf (format @ extra) st1 = unpack_loop cr blen buf extra st' \<and>
      up_at (pos + length b + length bss) ((outs0 @ [out]) @ outs') st'"
    by (rule "2.IH" [OF it refl w st1(2), where pre = "pre @ b"]) (use "2.prems" bs in simp_all)
  then show ?case using st1 bs by (simp add: add.assoc)
qed simp_all

lemma unpack_loop_wire:
  assumes "wire cr format args = Some (bs, outs)" "up_at pos outs0 st"
    "buf = pre @ bs @ rest" "length pre = pos" "pos + length bs \<le> unat blen" "unat blen < 2 ^ 63"
  shows "\<exists>st'. unpack_loop cr blen buf format st = Some st' \<and> up_at (pos + length bs) (outs0 @ outs) st'"
  using unpack_loop_wire_then [OF assms, of "[]"] by auto

lemma trip_unpack_wire:
  assumes "wire cr format args = Some (bs, outs)" "length bs \<le> unat blen" "unat blen < 2 ^ 63"
  shows "trip_unpack cr blen (bs @ rest) format = Some (of_nat (length bs), outs)"
proof -
  have "up_at 0 [] \<lparr>up_len = 0, up_pos = 0, up_out = []\<rparr>" by (simp add: up_at_def)
  then have "\<exists>st'. unpack_loop cr blen (bs @ rest) format \<lparr>up_len = 0, up_pos = 0, up_out = []\<rparr> = Some st' \<and>
      up_at (0 + length bs) ([] @ outs) st'"
    by (rule unpack_loop_wire [OF assms(1), where pre = "[]" and rest = rest]) (use assms in simp_all)
  then show ?thesis by (auto simp: trip_unpack_def up_at_def)
qed

end
