(* ===== verification/Codec.thy ===== *)
theory Codec
  imports Wire
begin

text \<open>
  The properties of the encoder and the decoder of \<open>src/pack.c\<close> together: memory safety of
  both, the round trip between them, how large a buffer has to be, when a variable-length
  integer survives the wire, and where the code breaks its own rules.
\<close>

section \<open>Octet strings and the integers they stand for\<close>

lemma value_be_snoc: "value_be (bs @ [b]) = 256 * value_be bs + uint b"
  by (simp add: value_be_def)

lemma octet_range: "0 \<le> uint (b :: u8)" "uint b < 256"
  using unsigned_less [of b, where 'a = int] by simp_all

lemma split_256:
  fixes p q x y :: int
  assumes "256 * p + x = 256 * q + y" "0 \<le> x" "x < 256" "0 \<le> y" "y < 256"
  shows "x = y \<and> p = q"
proof -
  have "(256 * p + x) mod 256 = x" "(256 * q + y) mod 256 = y" using assms(2-5) by simp_all
  then have "x = y" using assms(1) by metis
  with assms(1) show ?thesis by simp
qed

lemma value_be_range: "0 \<le> value_be bs \<and> value_be bs < 256 ^ length bs"
proof (induction bs rule: rev_induct)
  case (snoc b bs)
  then show ?case using octet_range [of b] by (simp add: value_be_snoc)
qed (simp add: value_be_def)

text \<open>Strings of one length that stand for the same integer are the same.\<close>

lemma value_be_inj: "length as = length bs \<Longrightarrow> value_be as = value_be bs \<Longrightarrow> as = bs"
proof (induction as arbitrary: bs rule: rev_induct)
  case (snoc a as)
  then obtain ds d where bs: "bs = ds @ [d]" "length ds = length as"
    by (cases bs rule: rev_exhaust) auto
  have "256 * value_be as + uint a = 256 * value_be ds + uint d"
    using snoc.prems(2) bs(1) by (simp only: value_be_snoc)
  then have "uint a = uint d \<and> value_be as = value_be ds"
    by (rule split_256) (simp_all only: octet_range)
  with snoc.IH [of ds] bs show ?case by (simp add: word_uint_eq_iff)
qed simp

lemma octet_uint: "uint (of_int (x mod 256) :: u8) = x mod 256"
proof -
  have "uint (of_int (x mod 256) :: u8) = take_bit 8 (x mod 256)" by (simp add: unsigned_of_int)
  then show ?thesis by (simp add: take_bit_eq_mod)
qed

text \<open>The octets of an integer, read in the other direction.\<close>

lemma value_be_rev: "0 \<le> x \<Longrightarrow> value_be (rev (octets_le x)) = x"
proof (induction x rule: octets_le.induct)
  case (1 x)
  show ?case
  proof (cases "x \<le> 0")
    case True
    then show ?thesis using 1(2) by (simp add: octets_le.simps value_be_def)
  next
    case False
    then have "octets_le x = of_int (x mod 256) # octets_le (x div 256)" by (subst octets_le.simps) simp
    moreover have "value_be (rev (octets_le (x div 256))) = x div 256" using 1(1) False by simp
    ultimately have "value_be (rev (octets_le x)) = 256 * (x div 256) + uint (of_int (x mod 256) :: u8)"
      by (simp only: rev.simps value_be_snoc)
    then show ?thesis by (simp only: octet_uint mult_div_mod_eq)
  qed
qed

lemma octets_le_two_way: "0 \<le> x \<Longrightarrow> value_be (octets_le x) = x \<longleftrightarrow> rev (octets_le x) = octets_le x"
  using value_be_rev [of x] value_be_inj [of "rev (octets_le x)" "octets_le x"] by auto

lemma word_two_way:
  assumes "8 * length (octets_le (uint x)) \<le> LENGTH('a)"
  shows "of_int (value_be (octets_le (uint x))) = (x :: 'a::len word) \<longleftrightarrow>
    rev (octets_le (uint x)) = octets_le (uint x)"
proof -
  let ?v = "value_be (octets_le (uint x))"
  have "(256 :: int) ^ length (octets_le (uint x)) = 2 ^ (8 * length (octets_le (uint x)))"
    by (simp add: power_mult)
  also have "\<dots> \<le> 2 ^ LENGTH('a)" using assms by (intro power_increasing) simp_all
  finally have "0 \<le> ?v" "?v < 2 ^ LENGTH('a)" using value_be_range [of "octets_le (uint x)"] by simp_all
  then have "uint (of_int ?v :: 'a word) = ?v" by (simp add: unsigned_of_int take_bit_int_eq_self)
  then have "of_int ?v = x \<longleftrightarrow> ?v = uint x" by (auto simp: word_uint_eq_iff)
  then show ?thesis using octets_le_two_way [of "uint x"] by simp
qed

lemma uvar_two_way_64: "of_int (value_be (octets_le (uint n))) = n \<longleftrightarrow> rev (octets_le (uint n)) = octets_le (uint n)"
  for n :: u64
  using trip_uvar_len_le8 [of n] by (intro word_two_way) (simp add: octets_le_put)

lemma uvar_two_way_32: "of_int (value_be (octets_le (uint n))) = n \<longleftrightarrow> rev (octets_le (uint n)) = octets_le (uint n)"
  for n :: u32
  using trip_uvar_len_u32 [of n] by (intro word_two_way) (simp add: octets_le_put32)

lemma uvar_read_iff:
  fixes n :: u64
  defines "bs \<equiv> put_uvar (trip_uvar_len n) n"
  shows "uvar_read (trip_uvar_len n) n = n \<longleftrightarrow> rev bs = bs"
  using uvar_two_way_64 [of n] by (simp only: uvar_read_value bs_def octets_le_put)

section \<open>What was given and what is read back\<close>

text \<open>
  An argument as the decoder should give it back: the integer at the width of its specifier, a
  block of octets with \<open>NULL\<close> as zeros.
\<close>

definition given :: "crypto \<Rightarrow> char \<Rightarrow> varg \<Rightarrow> uout" where
  "given cr ch a =
     (case a of
        AInt x \<Rightarrow>
          if ch = CHR ''c'' \<or> ch = CHR ''C'' then O8 (of_int (uint x))
          else if ch = CHR ''h'' \<or> ch = CHR ''H'' then O16 (of_int (uint x))
          else O32 x
      | ALong x \<Rightarrow> O64 x
      | APtr p \<Rightarrow>
          let n = (if ch = CHR ''n'' then noncebytes cr else pkbytes cr)
          in OBlock (case p of None \<Rightarrow> replicate n 0 | Some b \<Rightarrow> take n b))"

text \<open>The octets of a variable-length integer are the same from both ends.\<close>

definition two_way :: "char \<Rightarrow> varg \<Rightarrow> bool" where
  "two_way ch a \<longleftrightarrow> ch \<notin> {CHR ''V'', CHR ''W''} \<or>
     (case a of AInt x \<Rightarrow> rev (octets_le (uint x)) = octets_le (uint x)
      | ALong x \<Rightarrow> rev (octets_le (uint x)) = octets_le (uint x) | APtr p \<Rightarrow> True)"

lemma wire_item_given:
  "wire_item cr ch a = Some (bs, out) \<Longrightarrow> out = given cr ch a \<longleftrightarrow> two_way ch a"
  by (cases a) (auto simp: wire_item_def given_def two_way_def block_item_def Let_def uvar_two_way_32 uvar_two_way_64
      split: if_splits option.splits)

lemma wire_given:
  "wire cr format args = Some (bs, outs) \<Longrightarrow> length args = length format \<and> length outs = length format \<and>
     (\<forall>i < length format. outs ! i = given cr (format ! i) (args ! i) \<longleftrightarrow> two_way (format ! i) (args ! i))"
proof (induction cr format args arbitrary: bs outs rule: wire.induct)
  case (2 cr ch format a args)
  then obtain b out bss outs' where it: "wire_item cr ch a = Some (b, out)"
    and w: "wire cr format args = Some (bss, outs')" and outs: "outs = out # outs'"
    by (auto split: Option.bind_splits)
  from "2.IH" [OF it refl w] wire_item_given [OF it] show ?case
    by (auto simp: outs nth_Cons split: nat.split)
qed simp_all

section \<open>Sizes\<close>

lemma pack_len_loop_eq:
  assumes "unat len + sum_list (map (pack_len_of cr) format) < 2 ^ 32"
  shows "unat (pack_len_loop cr format len) = unat len + sum_list (map (pack_len_of cr) format)"
  using assms
proof (induction format arbitrary: len)
  case (Cons ch format)
  have "unat (len + of_nat (pack_len_of cr ch)) = unat len + pack_len_of cr ch"
    using Cons.prems by (intro unat_add_of_nat) simp
  with Cons show ?case by simp
qed simp

lemma wire_item_le_pack_len:
  assumes "wire_item cr ch a = Some (bs, out)"
  shows "length bs \<le> pack_len_of cr ch"
proof (cases a)
  case (AInt x)
  with assms consider "ch = CHR ''c'' \<or> ch = CHR ''C''" "length bs = 1"
    | "ch = CHR ''h'' \<or> ch = CHR ''H''" "length bs = 2" | "ch = CHR ''i'' \<or> ch = CHR ''I''" "length bs = 4"
    | "ch = CHR ''V''" "length bs = 1 + trip_uvar_len (ucast x)"
    by (auto simp: wire_item_code Let_def split: if_splits)
  then show ?thesis
    using trip_uvar_len_u32 [of x]
    by cases ((elim disjE)?; simp add: pack_len_of_def TRIPPACK_MAX_VAR_def)+
next
  case (ALong x)
  with assms consider "ch = CHR ''q'' \<or> ch = CHR ''Q''" "length bs = 8"
    | "ch = CHR ''W''" "length bs = 1 + trip_uvar_len x"
    by (auto simp: wire_item_code Let_def split: if_splits)
  then show ?thesis
    using trip_uvar_len_le8 [of x]
    by cases ((elim disjE)?; simp add: pack_len_of_def TRIPPACK_MAX_DVAR_def)+
next
  case (APtr p)
  with assms have "ch = CHR ''n'' \<and> copy_or_zero (noncebytes cr) p = Some bs \<or>
      ch = CHR ''k'' \<and> copy_or_zero (pkbytes cr) p = Some bs"
    by (auto simp: wire_item_code split: if_splits)
  then show ?thesis
    by (elim disjE conjE) (simp_all add: pack_len_of_def copy_or_zero_length)
qed

lemma wire_le_pack_len:
  "wire cr format args = Some (bs, outs) \<Longrightarrow> length bs \<le> sum_list (map (pack_len_of cr) format)"
proof (induction cr format args arbitrary: bs outs rule: wire.induct)
  case (2 cr ch format a args)
  then obtain b out bss outs' where it: "wire_item cr ch a = Some (b, out)"
    and w: "wire cr format args = Some (bss, outs')" and bs: "bs = b @ bss"
    by (auto split: Option.bind_splits)
  have "length bss \<le> sum_list (map (pack_len_of cr) format)"
    using "2.IH" [OF it refl w] by simp
  with wire_item_le_pack_len [OF it] bs show ?case by simp
qed simp_all

lemma pack_len_small:
  assumes "sodium_laws cr" "length format < 2 ^ 20"
  shows "sum_list (map (pack_len_of cr) format) < 2 ^ 30"
proof -
  have "sum_list (map (pack_len_of cr) format) \<le> 1023 * length format"
  proof (induction format)
    case (Cons ch format)
    have "pack_len_of cr ch \<le> 1023"
      using assms(1) by (auto simp: pack_len_of_def sodium_laws_def TRIPPACK_MAX_VAR_def TRIPPACK_MAX_DVAR_def)
    with Cons show ?case by simp
  qed simp
  with assms(2) show ?thesis by simp
qed

lemma unat_trip_pack_len:
  assumes "sodium_laws cr" "length format < 2 ^ 20"
  shows "unat (trip_pack_len cr format) = sum_list (map (pack_len_of cr) format)"
  using pack_len_loop_eq [of 0 cr format] pack_len_small [OF assms] by (simp add: trip_pack_len_def)

section \<open>The properties\<close>

text \<open>C15: packing is memory safe. If the variadic arguments have the types the format asks for,
  the objects behind pointers are as long as it says, every \<open>O\<close> closes an \<open>o\<close> and binary
  strings are shorter than \<open>2^32 - 5\<close>, then for every format, valid or not, \<open>trip_pack\<close>
  never reads or writes outside its objects, leaves the buffer beyond the capacity as it was
  and returns \<open>NPOS\<close> or a size within the capacity.\<close>

theorem trip_pack_safe:
  assumes "sodium_laws cr" "unat cap \<le> length buf" "unat cap < 2 ^ 63" "pack_ok cr False format args"
  shows "\<exists>size mem. trip_pack cr cap buf format args = Some (size, mem) \<and>
    length mem = length buf \<and> drop (unat cap) mem = drop (unat cap) buf \<and>
    (size = NPOS \<or> unat size \<le> unat cap)"
proof -
  let ?st = "\<lparr>pk_size = 0, pk_pos = 0, pk_mem = buf, pk_sigstart = 0, pk_cryptstart = 0,
    pk_key = None, pk_args = args\<rparr>"
  have "pk_inv cr cap buf False ?st" by (simp add: pk_inv_def pk_frame_def)
  from pack_loop_safe [OF this _ assms(2,3,1), of format] assms(4) show ?thesis
    by (auto simp: trip_pack_def pk_frame_def)
qed

theorem trip_pack_safe_witness:
  "\<exists>size mem. trip_pack sodium 70 (replicate 70 0) ''sCbS''
       [AInt 0, AInt 2, APtr (Some [1, 2]), APtr (Some [])] = Some (size, mem) \<and>
    length mem = length (replicate 70 (0 :: u8)) \<and>
    drop (unat (70 :: u64)) mem = drop (unat (70 :: u64)) (replicate 70 0) \<and>
    (size = NPOS \<or> unat size \<le> unat (70 :: u64))"
  by (rule trip_pack_safe) (simp_all add: sodium_ok blob_ok_def)

text \<open>C14: unpacking is memory safe against every peer. For every format and every octet
  string, no read of \<open>trip_unpack\<close> leaves the first \<open>blen\<close> octets, the result is
  \<open>NPOS\<close> or a length within \<open>blen\<close>, and every pointer into the buffer it stores for the
  caller is inside the buffer.\<close>

theorem trip_unpack_safe:
  assumes "sodium_laws cr" "unat blen \<le> length buf" "unat blen < 2 ^ 63"
  shows "\<exists>len outs. trip_unpack cr blen buf format = Some (len, outs) \<and>
    (len = NPOS \<or> unat len \<le> unat blen) \<and> (\<forall>p. OPtr p \<in> set outs \<longrightarrow> p \<le> unat blen)"
proof -
  have "up_inv blen \<lparr>up_len = 0, up_pos = 0, up_out = []\<rparr>" by (simp add: up_inv_def)
  from unpack_loop_safe [OF this assms(3,2,1), of format] show ?thesis
    by (auto simp: trip_unpack_def)
qed

theorem trip_unpack_safe_witness:
  "\<exists>len outs. trip_unpack sodium 4 [200, 1, 2, 3] ''VbW'' = Some (len, outs) \<and>
    (len = NPOS \<or> unat len \<le> unat (4 :: u64)) \<and> (\<forall>p. OPtr p \<in> set outs \<longrightarrow> p \<le> unat (4 :: u64))"
  by (rule trip_unpack_safe) (simp_all add: sodium_ok)

text \<open>C16: round trip. On every format made of the specifiers \<open>cChHiIqQVWnk\<close>, with arguments
  of the right types and room in the buffer, \<open>trip_pack\<close> writes exactly the octets of the
  reference encoding, \<open>trip_unpack\<close> consumes exactly these and gives one value per argument.
  The value is the one that was given, an integer at the width of its specifier or a block of
  octets, for every specifier but the variable-length integers \<open>V\<close> and \<open>W\<close>; and for those
  it is exactly when the octets of the integer are the same from both ends.\<close>

theorem trip_pack_roundtrip:
  assumes "sodium_laws cr" "wire cr format args = Some (bs, outs)"
    "length bs \<le> unat cap" "unat cap \<le> length buf" "unat cap < 2 ^ 63"
  shows "\<exists>mem. trip_pack cr cap buf format args = Some (of_nat (length bs), mem) \<and>
    mem = bs @ drop (length bs) buf \<and>
    trip_unpack cr cap mem format = Some (of_nat (length bs), outs) \<and> length outs = length format \<and>
    (\<forall>i < length format. outs ! i = given cr (format ! i) (args ! i) \<longleftrightarrow> two_way (format ! i) (args ! i))"
  using trip_pack_wire [OF assms(2-5,1)] trip_unpack_wire [OF assms(2,3,5)] wire_given [OF assms(2)] by simp

text \<open>A 64-bit fixed, a small variable, a 16-bit and a large variable integer: all but the last
  are read back.\<close>

theorem trip_pack_roundtrip_witness:
  "\<exists>mem outs. trip_pack sodium 20 (replicate 20 7) ''CQWhV'' [AInt 3, ALong 0x0102030405060708, ALong 9, AInt 258, AInt 0x1234]
      = Some (16, mem) \<and>
    mem = [3, 1, 2, 3, 4, 5, 6, 7, 8, 1, 9, 1, 2, 2, 0x34, 0x12, 7, 7, 7, 7] \<and>
    trip_unpack sodium 20 mem ''CQWhV'' = Some (16, outs) \<and>
    outs ! 1 = O64 0x0102030405060708 \<and> outs ! 2 = O64 9 \<and> outs ! 3 = O16 258 \<and> outs ! 4 \<noteq> O32 0x1234"
proof -
  let ?f = "''CQWhV''" and ?args = "[AInt 3, ALong 0x0102030405060708, ALong 9, AInt 258, AInt 0x1234]"
  let ?bs = "[3, 1, 2, 3, 4, 5, 6, 7, 8, 1, 9, 1, 2, 2, 0x34, 0x12] :: bytes"
  let ?outs = "[O8 3, O64 0x0102030405060708, O64 9, O16 258, O32 0x3412]"
  have "wire sodium ?f ?args = Some (?bs, ?outs)" by code_simp
  from trip_pack_roundtrip [OF sodium_ok this, of 20 "replicate 20 7"]
  obtain mem where mem: "trip_pack sodium 20 (replicate 20 7) ?f ?args = Some (of_nat (length ?bs), mem)"
    "mem = ?bs @ drop (length ?bs) (replicate 20 7)"
    "trip_unpack sodium 20 mem ?f = Some (of_nat (length ?bs), ?outs)"
    "\<forall>i < length ?f. ?outs ! i = given sodium (?f ! i) (?args ! i) \<longleftrightarrow> two_way (?f ! i) (?args ! i)"
    by auto
  have "two_way (?f ! 1) (?args ! 1)" "two_way (?f ! 2) (?args ! 2)" "two_way (?f ! 3) (?args ! 3)"
    "\<not> two_way (?f ! 4) (?args ! 4)" by code_simp+
  moreover have "?outs ! i = given sodium (?f ! i) (?args ! i) \<longleftrightarrow> two_way (?f ! i) (?args ! i)" if "i < 5" for i
    using mem(4) that by simp
  ultimately have "?outs ! 1 = given sodium (?f ! 1) (?args ! 1)" "?outs ! 2 = given sodium (?f ! 2) (?args ! 2)"
    "?outs ! 3 = given sodium (?f ! 3) (?args ! 3)" "?outs ! 4 \<noteq> given sodium (?f ! 4) (?args ! 4)"
    by (simp_all only:) simp_all
  then show ?thesis using mem(1-3) by (intro exI [of _ mem] exI [of _ ?outs]) (simp add: given_def eval_nat_numeral)
qed

text \<open>C32: the length estimate is enough. A buffer of \<open>trip_pack_len\<close> octets never makes
  \<open>trip_pack\<close> fail on a format of the specifiers \<open>cChHiIqQVWnk\<close> (fewer than
  \<open>2^20\<close> of them) with arguments of the right types, whatever their values.\<close>

theorem trip_pack_len_enough:
  assumes "sodium_laws cr" "wire cr format args = Some (bs, outs)" "length format < 2 ^ 20"
    "cap = trip_pack_len cr format" "length buf = unat cap"
  shows "\<exists>mem. trip_pack cr cap buf format args = Some (of_nat (length bs), mem)"
proof -
  have cap: "unat cap = sum_list (map (pack_len_of cr) format)" "unat cap < 2 ^ 63"
    using unat_trip_pack_len [OF assms(1,3)] pack_len_small [OF assms(1,3)] assms(4) by simp_all
  have "length bs \<le> unat cap" using wire_le_pack_len [OF assms(2)] cap(1) by simp
  from trip_pack_wire [OF assms(2) this _ cap(2) assms(1)] assms(5) show ?thesis by simp
qed

theorem trip_pack_len_enough_witness:
  "\<exists>mem. trip_pack sodium (trip_pack_len sodium ''CV'') (replicate 6 0) ''CV'' [AInt 3, AInt 0x1234]
     = Some (of_nat (length [3, 2, 0x34, 0x12 :: u8]), mem)"
proof (rule trip_pack_len_enough [OF sodium_ok])
  show "wire sodium ''CV'' [AInt 3, AInt 0x1234] = Some ([3, 2, 0x34, 0x12], [O8 3, O32 0x3412])"
    by code_simp
  show "length (replicate 6 (0 :: u8)) = unat (trip_pack_len sodium ''CV'')" by code_simp
qed simp_all

text \<open>The estimate counts a signature for the \<open>s\<close> that opens it and nothing for the \<open>S\<close>
  that writes it. A format that signs from its beginning needs no \<open>s\<close>: then the estimate is
  too small.\<close>

lemma pack_len_no_signature:
  assumes "sodium_laws cr" "0 < signbytes cr"
  shows "trip_pack_len cr ''S'' = 0 \<and> trip_pack cr 0 buf ''S'' args = Some (NPOS, buf)"
proof -
  have "unat (of_nat (signbytes cr) :: u64) = signbytes cr"
    using assms(1) by (intro unat_of_nat_small) (simp add: sodium_laws_def)
  then have "(0 :: u64) < of_nat (signbytes cr)" using assms(2) by (simp add: word_less_nat_alt)
  then show ?thesis
    by (simp add: trip_pack_len_def pack_len_of_def trip_pack_def pack_step_def pack_S_def pk_room_def pk_fail_def)
qed

text \<open>C33: which 64-bit variable-length integers survive the wire. The encoder writes the octets
  least significant first and the decoder reads them most significant first, so the value
  \<open>trip_unpack\<close> stores is the value \<open>trip_pack\<close> was given exactly when the octets of the
  integer are the same in both directions: every value below 256 does, 256 does not.\<close>

theorem uvar_survives_iff:
  assumes "sodium_laws cr" "9 \<le> unat cap" "unat cap \<le> length buf" "unat cap < 2 ^ 63"
  shows "(\<exists>size mem len. trip_pack cr cap buf ''W'' [ALong n] = Some (size, mem) \<and>
      trip_unpack cr cap mem ''W'' = Some (len, [O64 n])) \<longleftrightarrow>
    rev (put_uvar (trip_uvar_len n) n) = put_uvar (trip_uvar_len n) n"
proof -
  let ?i = "trip_uvar_len n"
  let ?bs = "of_nat ?i # put_uvar ?i n"
  have w: "wire cr ''W'' [ALong n] = Some (?bs, [O64 (uvar_read ?i n)])"
    by (simp add: wire_item_code Let_def)
  have le: "length ?bs \<le> unat cap"
    using assms(2) trip_uvar_len_le8 [of n] by simp
  have up: "trip_unpack cr cap (?bs @ drop (length ?bs) buf) ''W''
      = Some (of_nat (length ?bs), [O64 (uvar_read ?i n)])"
    by (rule trip_unpack_wire [OF w le assms(4)])
  have pk: "trip_pack cr cap buf ''W'' [ALong n] = Some (of_nat (length ?bs), ?bs @ drop (length ?bs) buf)"
    by (rule trip_pack_wire [OF w le assms(3,4,1)])
  show ?thesis
    unfolding pk uvar_read_iff [symmetric] using up by (auto simp del: append_Cons)
qed

theorem uvar_survives_iff_witness:
  "\<not> (\<exists>size mem len. trip_pack sodium 9 (replicate 9 0) ''W'' [ALong 256] = Some (size, mem) \<and>
      trip_unpack sodium 9 mem ''W'' = Some (len, [O64 256]))"
proof -
  have "\<not> rev (put_uvar (trip_uvar_len 256) (256 :: u64)) = put_uvar (trip_uvar_len 256) (256 :: u64)"
    by code_simp
  then show ?thesis
    by (subst uvar_survives_iff [OF sodium_ok]) simp_all
qed

text \<open>C34: the length check of a binary string can be passed by a string that does not fit. The sum
  \<open>i + 1 + rlen\<close> has 32 bits: for the largest length it is 4, so with any capacity of at
  least 4 the encoder goes on to copy \<open>2^32 - 1\<close> octets and leaves every buffer that is
  shorter than the encoding.\<close>

theorem pack_blob_overflow:
  assumes "4 \<le> unat cap" "length buf < 2 ^ 32 + 4" "length raw = 2 ^ 32 - 1"
  shows "trip_pack cr cap buf ''b'' [AInt 0xFFFFFFFF, APtr (Some raw)] = None"
proof -
  have i: "trip_uvar_len 0xFFFFFFFF = 4" by code_simp
  have s: "(ucast (of_nat 4 + 1 + 0xFFFFFFFF :: u32) :: u64) = 4" by simp
  have u: "unat (0xFFFFFFFF :: u32) = 2 ^ 32 - 1" by simp
  have "\<not> 4 > cap" using assms(1) by (simp add: word_less_nat_alt)
  then show ?thesis
    using assms(2,3)
    by (auto simp: trip_pack_def pack_step_def pack_b_def va_int_def va_ptr_def Let_def i s u pk_room_def
        pk_emit_def write_at_def bind_eq_None_conv simp del: put_uvar.simps split: if_splits)
qed

theorem pack_blob_overflow_witness:
  "trip_pack sodium 64 (replicate 64 0) ''b'' [AInt 0xFFFFFFFF, APtr (Some (replicate (2 ^ 32 - 1) 0))] = None"
  by (rule pack_blob_overflow) simp_all

text \<open>The specifiers of encryption and signature cannot be unpacked. On every buffer
  \<open>trip_unpack\<close> returns \<open>NPOS\<close> for the format with which \<open>_tripc_parse_ping\<close> reads a
  ping, before it stores anything, because the second character of \<open>enQIIIE\<close>, like the
  first, is only known to the encoder.\<close>

theorem unpack_ping_fails:
  "trip_unpack cr blen buf ''enQIIIE'' = Some (NPOS, [])"
  by (simp add: trip_unpack_def unpack_step_def up_fail_def)

text \<open>A specifier after a binary string reads the string again. The decoder advances the
  length past a binary string and leaves the pointer at its first octet, so the octet packed
  after a nonempty string is read back as the first octet of the string.\<close>

theorem unpack_after_blob:
  "\<exists>mem. trip_pack sodium 8 (replicate 8 0) ''bC'' [AInt 2, APtr (Some [5, 6]), AInt 9] = Some (5, mem) \<and>
     trip_unpack sodium 5 mem ''bC'' = Some (5, [O32 2, OPtr 2, O8 5])"
  by (rule exI [of _ "[1, 2, 5, 6, 9, 0, 0, 0]"], rule conjI; code_simp)

text \<open>Checking a signature is memory safe and decides exactly one question: with a key and
  more octets than a signature has, the result is zero exactly when the last
  \<open>crypto_sign_BYTES\<close> octets are a valid signature of the octets before them; otherwise it is
  \<open>EINVAL\<close>.\<close>

theorem trip_unsign_correct:
  assumes "sodium_laws cr" "unat len \<le> length buf"
  shows "trip_unsign cr len buf pk = Some
    (case pk of None \<Rightarrow> EINVAL
     | Some key \<Rightarrow> if unat len \<le> signbytes cr then EINVAL
         else if verify_detached cr (take (signbytes cr) (drop (unat len - signbytes cr) buf))
                   (take (unat len - signbytes cr) buf) key then EOK else EOTHER (- 1))"
proof -
  let ?s = "of_nat (signbytes cr) :: u64"
  have s: "unat ?s = signbytes cr"
    using assms(1) by (intro unat_of_nat_small) (simp add: sodium_laws_def)
  have le: "len \<le> ?s \<longleftrightarrow> unat len \<le> signbytes cr" by (simp add: word_le_nat_alt s)
  have sub: "\<not> unat len \<le> signbytes cr \<Longrightarrow> unat (len - ?s) = unat len - signbytes cr"
    using s by (subst unat_sub_le) (simp_all add: word_le_nat_alt)
  show ?thesis
    using assms(2) sub by (auto simp: trip_unsign_def le Let_def split: option.splits)
qed

theorem trip_unsign_correct_witness:
  "trip_unsign sodium 66 (replicate 66 0) (Some []) = Some
    (case Some [] of None \<Rightarrow> EINVAL
     | Some key \<Rightarrow> if unat (66 :: u64) \<le> signbytes sodium then EINVAL
         else if verify_detached sodium (take (signbytes sodium) (drop (unat (66 :: u64) - signbytes sodium) (replicate 66 0)))
                   (take (unat (66 :: u64) - signbytes sodium) (replicate 66 0)) key then EOK else EOTHER (- 1))"
  by (rule trip_unsign_correct [OF sodium_ok]) simp

end
