(* ===== verification/Linked.thy ===== *)
theory Linked
  imports Prelude
begin

text \<open>
  Objects on the heap and lists threaded through a \<open>next\<close> field. A heap maps the addresses
  of live objects to their contents; reading or writing an address that is not live (never
  allocated, or freed) is \<open>None\<close>. \<open>lpath\<close> says which addresses a chain of \<open>next\<close>
  pointers visits; queues, timers and message lists are all such chains.
\<close>

section \<open>The heap\<close>

type_synonym 'a heap = "addr \<Rightarrow> 'a option"

definition deref :: "'a heap \<Rightarrow> ptr \<Rightarrow> 'a option" where
  "deref h p = (case p of None \<Rightarrow> None | Some a \<Rightarrow> h a)"

definition heap_upd :: "addr \<Rightarrow> ('a \<Rightarrow> 'a) \<Rightarrow> 'a heap \<Rightarrow> 'a heap option" where
  "heap_upd a f h = (case h a of None \<Rightarrow> None | Some x \<Rightarrow> Some (h(a \<mapsto> f x)))"

definition heap_free :: "addr \<Rightarrow> 'a heap \<Rightarrow> 'a heap option" where
  "heap_free a h = (case h a of None \<Rightarrow> None | Some x \<Rightarrow> Some (h(a := None)))"

lemma deref_simps [simp]: "deref h None = None" "deref h (Some a) = h a"
  by (simp_all add: deref_def)

lemma heap_upd_live [simp]: "h a = Some x \<Longrightarrow> heap_upd a f h = Some (h(a \<mapsto> f x))"
  by (simp add: heap_upd_def)

lemma heap_upd_None_iff: "heap_upd a f h = None \<longleftrightarrow> h a = None"
  by (simp add: heap_upd_def split: option.split)

lemma heap_free_live [simp]: "h a = Some x \<Longrightarrow> heap_free a h = Some (h(a := None))"
  by (simp add: heap_free_def)

lemma heap_upd_SomeD: "heap_upd a f h = Some h' \<Longrightarrow> \<exists>x. h a = Some x \<and> h' = h(a \<mapsto> f x)"
  by (auto simp: heap_upd_def split: option.splits)

section \<open>Chains\<close>

text \<open>The \<open>next\<close> field of every live object, \<open>nx\<close> selecting it.\<close>

definition field :: "('a \<Rightarrow> ptr) \<Rightarrow> 'a heap \<Rightarrow> addr \<Rightarrow> ptr" where
  "field nx h a = (case h a of None \<Rightarrow> None | Some x \<Rightarrow> nx x)"

fun lpath :: "(addr \<Rightarrow> ptr) \<Rightarrow> ptr \<Rightarrow> addr list \<Rightarrow> ptr \<Rightarrow> bool" where
  "lpath nx p [] q \<longleftrightarrow> p = q"
| "lpath nx p (a # as) q \<longleftrightarrow> p = Some a \<and> lpath nx (nx a) as q"

definition chain :: "('a \<Rightarrow> ptr) \<Rightarrow> 'a heap \<Rightarrow> ptr \<Rightarrow> addr list \<Rightarrow> bool" where
  "chain nx h p as \<longleftrightarrow> lpath (field nx h) p as None \<and> distinct as \<and> set as \<subseteq> dom h"

lemma field_live [simp]: "h a = Some x \<Longrightarrow> field nx h a = nx x"
  by (simp add: field_def)

lemma field_upd: "field nx (h(a \<mapsto> x)) = (field nx h)(a := nx x)"
  by (rule ext) (simp add: field_def)

lemma field_upd_same: "h a = Some x \<Longrightarrow> nx y = nx x \<Longrightarrow> field nx (h(a \<mapsto> y)) = field nx h"
  by (rule ext) (simp add: field_def)

lemma lpath_upd [simp]: "a \<notin> set as \<Longrightarrow> lpath (nx(a := v)) p as q = lpath nx p as q"
  by (induction as arbitrary: p) auto

lemma lpath_append: "lpath nx p (as @ bs) q \<longleftrightarrow> (\<exists>m. lpath nx p as m \<and> lpath nx m bs q)"
  by (induction as arbitrary: p) auto

lemma lpath_cong: "(\<And>a. a \<in> set as \<Longrightarrow> nx a = nx' a) \<Longrightarrow> lpath nx p as q = lpath nx' p as q"
  by (induction as arbitrary: p) auto

lemma lpath_None [simp]: "lpath nx None as None \<longleftrightarrow> as = []"
  by (cases as) auto

lemma lpath_unique: "lpath nx p as None \<Longrightarrow> lpath nx p bs None \<Longrightarrow> as = bs"
proof (induction as arbitrary: p bs)
  case (Cons a as)
  then show ?case by (cases bs) auto
qed simp

lemma chain_Nil [simp]: "chain nx h p [] \<longleftrightarrow> p = None"
  by (simp add: chain_def)

lemma chain_None [simp]: "chain nx h None as \<longleftrightarrow> as = []"
  by (auto simp: chain_def)

lemma chain_unique: "chain nx h p as \<Longrightarrow> chain nx h p bs \<Longrightarrow> as = bs"
  by (auto simp: chain_def dest: lpath_unique)

lemma chain_head: "chain nx h (Some a) as \<Longrightarrow> \<exists>bs x. as = a # bs \<and> h a = Some x \<and> chain nx h (nx x) bs"
  by (cases as) (auto simp: chain_def)

lemma chain_Cons:
  "chain nx h p (a # as) \<longleftrightarrow>
     p = Some a \<and> (\<exists>x. h a = Some x \<and> chain nx h (nx x) as) \<and> a \<notin> set as"
  by (auto simp: chain_def)

text \<open>An update of an object off the chain, or one that keeps its link, keeps the chain.\<close>

lemma chain_upd_off: "chain nx h p as \<Longrightarrow> a \<notin> set as \<Longrightarrow> chain nx (h(a \<mapsto> x)) p as"
  by (auto simp: chain_def field_upd)

lemma chain_upd_same: "chain nx h p as \<Longrightarrow> h a = Some x \<Longrightarrow> nx y = nx x \<Longrightarrow> chain nx (h(a \<mapsto> y)) p as"
  by (auto simp: chain_def field_upd_same)

lemma chain_free_off: "chain nx h p as \<Longrightarrow> a \<notin> set as \<Longrightarrow> chain nx (h(a := None)) p as"
proof -
  assume c: "chain nx h p as" "a \<notin> set as"
  then have "lpath (field nx (h(a := None))) p as None"
    by (subst lpath_cong [of as _ "field nx h"]) (auto simp: field_def chain_def)
  with c show ?thesis by (auto simp: chain_def)
qed

text \<open>Linking a new last object behind the old one.\<close>

lemma chain_snoc:
  assumes "chain nx h p (as @ [l])" "a \<notin> set (as @ [l])" "h a = Some y0" "h l = Some x0"
    "nx x = Some a" "nx y = None"
  shows "chain nx (h(l \<mapsto> x, a \<mapsto> y)) p (as @ [l, a])"
proof -
  let ?f = "field nx h"
  have d: "distinct (as @ [l])" "set as \<subseteq> dom h"
    using assms(1) by (auto simp: chain_def)
  from assms(1) have "lpath ?f p as (Some l)"
    by (auto simp: chain_def lpath_append)
  then have "lpath (?f(l := Some a, a := None)) p (as @ [l, a]) None"
    using d assms(2) by (auto simp: lpath_append)
  then show ?thesis
    using d assms by (auto simp: chain_def field_upd)
qed

text \<open>Unlinking an object from the middle of a chain.\<close>

lemma chain_unlink:
  assumes "chain nx h p (as @ b # a # cs)" "h a = Some xa" "h b = Some xb" "nx y = nx xa"
  shows "chain nx (h(b \<mapsto> y)) p (as @ b # cs)"
proof -
  from assms have "lpath (field nx h) p as (Some b)" "lpath (field nx h) (nx xa) cs None"
    "distinct (as @ b # a # cs)" "set (as @ b # a # cs) \<subseteq> dom h"
    by (auto simp: chain_def lpath_append)
  then show ?thesis
    using assms(4) by (auto simp: chain_def field_upd lpath_append)
qed

end
