(* ===== verification/Slots.thy ===== *)
theory Slots
  imports Prelude
begin

text \<open>
  The array with an embedded free list that \<open>connmap.c\<close> and \<open>resolveq.c\<close> share: an entry
  is either in use and holds an item, or free and holds the link to the next free entry.
\<close>

section \<open>Entries\<close>

text \<open>
  A tagged union (\<open>isfull\<close>/\<open>inuse\<close> is the tag). Links are indices into the array
  (\<open>resolveq.c\<close> stores the pointer to the element instead of its index); \<open>None\<close> is
  \<open>NPOS\<close>, respectively \<open>NULL\<close>.
\<close>

datatype 'a slot = Free "nat option" | Used 'a

fun flist :: "'a slot list \<Rightarrow> nat option \<Rightarrow> nat list \<Rightarrow> bool" where
  "flist es p [] \<longleftrightarrow> p = None"
| "flist es p (i # fs) \<longleftrightarrow> p = Some i \<and> i < length es \<and> (\<exists>n. es ! i = Free n \<and> flist es n fs)"

definition free_set :: "'a slot list \<Rightarrow> nat set" where
  "free_set es = {i. i < length es \<and> (\<exists>n. es ! i = Free n)}"

definition used_count :: "'a slot list \<Rightarrow> nat" where
  "used_count es = card {i. i < length es \<and> (\<exists>x. es ! i = Used x)}"

text \<open>The free list visits every free entry once.\<close>

definition slots_ok :: "'a slot list \<Rightarrow> nat option \<Rightarrow> bool" where
  "slots_ok es p \<longleftrightarrow> (\<exists>fs. flist es p fs \<and> distinct fs \<and> set fs = free_set es)"

section \<open>Laws\<close>

lemma flist_frame: "flist es p fs \<Longrightarrow> i \<notin> set fs \<Longrightarrow> flist (es[i := e]) p fs"
  by (induction fs arbitrary: p) (auto simp: nth_list_update)

lemma flist_subset: "flist es p fs \<Longrightarrow> set fs \<subseteq> free_set es"
  by (induction fs arbitrary: p) (auto simp: free_set_def)

lemma free_set_update:
  "i < length es \<Longrightarrow> free_set (es[i := e]) =
     (case e of Free _ \<Rightarrow> insert i (free_set es) | Used _ \<Rightarrow> free_set es - {i})"
  by (auto simp: free_set_def nth_list_update split: slot.splits if_splits)

lemma slots_ok_None: "slots_ok es None \<longleftrightarrow> free_set es = {}"
proof -
  have "flist es None fs \<longleftrightarrow> fs = []" for fs by (cases fs) auto
  then show ?thesis by (auto simp: slots_ok_def)
qed

lemma slots_ok_Some:
  assumes "slots_ok es (Some i)"
  obtains n where "i < length es" "es ! i = Free n" "\<And>x. slots_ok (es[i := Used x]) n"
proof -
  from assms obtain fs where fs: "flist es (Some i) fs" "distinct fs" "set fs = free_set es"
    by (auto simp: slots_ok_def)
  then obtain js n where js: "fs = i # js" "i < length es" "es ! i = Free n" "flist es n js"
    by (cases fs) auto
  have "slots_ok (es[i := Used x]) n" for x
    unfolding slots_ok_def
    using js fs flist_frame [of es n js i] by (intro exI [of _ js]) (auto simp: free_set_update)
  with js that show ?thesis by blast
qed

lemma slots_ok_push:
  assumes "slots_ok es p" "i < length es" "es ! i = Used x"
  shows "slots_ok (es[i := Free p]) (Some i)"
proof -
  from assms(1) obtain fs where fs: "flist es p fs" "distinct fs" "set fs = free_set es"
    by (auto simp: slots_ok_def)
  have "i \<notin> set fs" using fs(3) assms(3) by (simp add: free_set_def)
  then have "flist (es[i := Free p]) (Some i) (i # fs)" "distinct (i # fs)"
    using fs assms(2) flist_frame [OF fs(1)] by auto
  moreover have "set (i # fs) = free_set (es[i := Free p])"
    using fs(3) assms(2) by (auto simp: free_set_update)
  ultimately show ?thesis unfolding slots_ok_def by blast
qed

text \<open>A new free entry at the end of the array.\<close>

lemma flist_append: "flist es p fs \<Longrightarrow> flist (es @ gs) p fs"
  by (induction fs arbitrary: p) (auto simp: nth_append)

lemma slots_ok_extend:
  assumes "slots_ok es p"
  shows "slots_ok (es @ [Free p]) (Some (length es))"
proof -
  from assms obtain fs where fs: "flist es p fs" "distinct fs" "set fs = free_set es"
    by (auto simp: slots_ok_def)
  have "free_set (es @ [Free p]) = insert (length es) (free_set es)"
    by (auto simp: free_set_def nth_append less_Suc_eq)
  moreover have "length es \<notin> set fs" using fs(3) by (simp add: free_set_def)
  moreover have "flist (es @ [Free p]) (Some (length es)) (length es # fs)"
    using flist_append [OF fs(1)] by simp
  ultimately show ?thesis
    unfolding slots_ok_def using fs(2,3) by (intro exI [of _ "length es # fs"]) simp
qed

lemma used_count_Nil [simp]: "used_count [] = 0"
  by (simp add: used_count_def)

lemma used_count_le: "used_count es \<le> length es"
proof -
  have "used_count es \<le> card {..<length es}"
    unfolding used_count_def by (rule card_mono) auto
  then show ?thesis by simp
qed

lemma used_count_append_free [simp]: "used_count (es @ [Free p]) = used_count es"
proof -
  have "{i. i < length (es @ [Free p]) \<and> (\<exists>x. (es @ [Free p]) ! i = Used x)}
    = {i. i < length es \<and> (\<exists>x. es ! i = Used x)}"
    by (auto simp: nth_append less_Suc_eq)
  then show ?thesis by (simp add: used_count_def)
qed

lemma used_count_fill:
  assumes "i < length es" "es ! i = Free n"
  shows "used_count (es[i := Used x]) = Suc (used_count es)"
proof -
  have "{j. j < length (es[i := Used x]) \<and> (\<exists>y. es[i := Used x] ! j = Used y)}
    = insert i {j. j < length es \<and> (\<exists>y. es ! j = Used y)}"
    using assms by (auto simp: nth_list_update split: if_splits)
  then show ?thesis using assms by (simp add: used_count_def)
qed

lemma used_count_clear:
  assumes "i < length es" "es ! i = Used x"
  shows "used_count es = Suc (used_count (es[i := Free n]))"
proof -
  have "{j. j < length es \<and> (\<exists>y. es ! j = Used y)}
    = insert i {j. j < length (es[i := Free n]) \<and> (\<exists>y. es[i := Free n] ! j = Used y)}"
    using assms by (auto simp: nth_list_update split: if_splits)
  then show ?thesis using assms by (simp add: used_count_def)
qed

lemma used_count_swap:
  "i < length es \<Longrightarrow> es ! i = Used x \<Longrightarrow> used_count (es[i := Used y]) = used_count es"
proof -
  assume "i < length es" "es ! i = Used x"
  then have "{j. j < length (es[i := Used y]) \<and> (\<exists>z. es[i := Used y] ! j = Used z)}
    = {j. j < length es \<and> (\<exists>z. es ! j = Used z)}"
    by (auto simp: nth_list_update split: if_splits)
  then show ?thesis by (simp add: used_count_def)
qed

lemma used_count_0: "used_count es = 0 \<longleftrightarrow> (\<forall>i < length es. \<exists>n. es ! i = Free n)"
proof -
  have "(\<forall>x. es ! i \<noteq> Used x) \<longleftrightarrow> (\<exists>n. es ! i = Free n)" for i by (cases "es ! i") auto
  then show ?thesis by (auto simp: used_count_def)
qed

lemma used_count_full:
  assumes "free_set es = {}"
  shows "used_count es = length es"
proof -
  have "(\<forall>n. es ! i \<noteq> Free n) \<longleftrightarrow> (\<exists>x. es ! i = Used x)" for i by (cases "es ! i") auto
  then have "{i. i < length es \<and> (\<exists>x. es ! i = Used x)} = {..<length es}"
    using assms by (auto simp: free_set_def)
  then show ?thesis by (simp add: used_count_def)
qed

text \<open>Pushing the entries of a range that was just added, one after the other.\<close>

definition slot_push :: "nat \<Rightarrow> 'a slot list \<times> nat option \<Rightarrow> 'a slot list \<times> nat option" where
  "slot_push i s = ((fst s)[i := Free (snd s)], Some i)"

lemma slots_ok_range:
  assumes "slots_ok (take n es) p" "n + k \<le> length es"
  shows "\<exists>es' p'. fold slot_push [n..<n + k] (es, p) = (es', p') \<and> length es' = length es \<and>
    slots_ok (take (n + k) es') p' \<and> take n es' = take n es \<and>
    (\<forall>i. n \<le> i \<longrightarrow> i < n + k \<longrightarrow> (\<exists>q. es' ! i = Free q)) \<and> (0 < k \<longrightarrow> p' \<noteq> None)"
  using assms
proof (induction k)
  case (Suc k)
  then obtain es' p' where IH: "fold slot_push [n..<n + k] (es, p) = (es', p')" "length es' = length es"
    "slots_ok (take (n + k) es') p'" "take n es' = take n es"
    "\<forall>i. n \<le> i \<longrightarrow> i < n + k \<longrightarrow> (\<exists>q. es' ! i = Free q)"
    by auto
  let ?es = "es'[n + k := Free p']"
  have "fold slot_push [n..<n + Suc k] (es, p) = (?es, Some (n + k))"
    using IH(1) by (simp add: slot_push_def)
  moreover have "take (n + Suc k) ?es = take (n + k) es' @ [Free p']"
    using Suc.prems(2) IH(2) by (simp add: take_Suc_conv_app_nth)
  moreover have "slots_ok (take (n + k) es' @ [Free p']) (Some (n + k))"
    using slots_ok_extend [OF IH(3)] Suc.prems(2) IH(2) by (simp add: min_def)
  moreover have "n + k < length es'" using Suc.prems(2) IH(2) by simp
  ultimately show ?case using IH by (auto simp: nth_list_update less_Suc_eq)
qed simp

end
