(* ===== verification/Structs.thy ===== *)
theory Structs
  imports Linked Slots
begin

text \<open>
  The structures of the headers under \<open>src/\<close>: limits, statistics and keys of the two sides of
  a connection, the connection itself, streams and messages, and the constants that go with
  them. The router is in the theory \<open>World\<close>.
\<close>

section \<open>Limits and statistics\<close>

record connlim =
  lim_credit :: u32
  lim_stream :: u32
  lim_message_size :: u32
  lim_message :: u32

record connstat =
  st_rtt :: u32
  st_sent :: u32
  st_recv :: u32

definition connlim_zero :: connlim where
  "connlim_zero = \<lparr>lim_credit = 0, lim_stream = 0, lim_message_size = 0, lim_message = 0\<rparr>"

definition connstat_zero :: connstat where
  "connstat_zero = \<lparr>st_rtt = 0, st_sent = 0, st_recv = 0\<rparr>"

section \<open>The two sides of a connection\<close>

text \<open>A key or nonce pointer is the octets it points to; \<open>None\<close> is \<open>NULL\<close>.\<close>

record connself =
  self_id :: u64
  self_sequence :: u64
  self_opensk :: "bytes option"
  self_signsk :: "bytes option"
  self_pk :: "bytes option"
  self_sk :: "bytes option"
  self_nonce :: "bytes option"
  self_lim :: connlim
  self_stat :: connstat

record connpeer =
  peer_id :: u64
  peer_openpk :: "bytes option"
  peer_signpk :: "bytes option"
  peer_pk :: "bytes option"
  peer_nonce :: "bytes option"
  peer_seqfloor :: u64
  peer_window :: u32
  peer_lim :: connlim
  peer_stat :: connstat

record ping =
  ping_nonce :: bytes
  ping_timestamp :: u64
  ping_maxms :: int
  ping_ms :: int
  ping_isactive :: bool

definition connself_zero :: connself where
  "connself_zero = \<lparr>self_id = 0, self_sequence = 0, self_opensk = None, self_signsk = None,
     self_pk = None, self_sk = None, self_nonce = None, self_lim = connlim_zero,
     self_stat = connstat_zero\<rparr>"

definition connpeer_zero :: connpeer where
  "connpeer_zero = \<lparr>peer_id = 0, peer_openpk = None, peer_signpk = None, peer_pk = None,
     peer_nonce = None, peer_seqfloor = 0, peer_window = 0, peer_lim = connlim_zero,
     peer_stat = connstat_zero\<rparr>"

definition ping_zero :: "nat \<Rightarrow> ping" where
  "ping_zero noncelen = \<lparr>ping_nonce = replicate noncelen 0, ping_timestamp = 0, ping_maxms = 0,
     ping_ms = 0, ping_isactive = False\<rparr>"

section \<open>Messages and streams\<close>

record msg =
  m_stream :: ptr
  m_len :: u64
  m_buf :: "bytes option"
  m_id :: u32
  m_zone :: int
  m_priority :: int
  m_parts :: ptr
  m_next :: ptr

text \<open>Two queues of messages, the priority queue first.\<close>

record messageq =
  mq_sendmask :: u32
  mq_sendwhich :: u32
  mq_sendbeg0 :: ptr
  mq_sendbeg1 :: ptr
  mq_sendend0 :: ptr
  mq_sendend1 :: ptr
  mq_nextmsgid :: u32
  mq_zone :: int

definition messageq_zero :: messageq where
  "messageq_zero = \<lparr>mq_sendmask = 0, mq_sendwhich = 0, mq_sendbeg0 = None, mq_sendbeg1 = None,
     mq_sendend0 = None, mq_sendend1 = None, mq_nextmsgid = 0, mq_zone = 0\<rparr>"

datatype conn_status = CI_OPEN | CI_CLOSED | CI_KILLED | CI_ERROR
  | CO_OPEN | CO_CLOSED | CO_KILLED | CO_ERROR

datatype stream_status = SI_OPEN | SI_CLOSED | SI_KILLED | SI_ERROR
  | SO_OPEN | SO_CLOSED | SO_KILLED | SO_ERROR

definition TRIPS_OPT_PRIORITY :: u32 where "TRIPS_OPT_PRIORITY = 1"
definition TRIPS_OPT_BACKFLOW :: u32 where "TRIPS_OPT_BACKFLOW = push_bit 4 1"
definition TRIPS_OPT_CLOSED :: u32 where "TRIPS_OPT_CLOSED = push_bit 5 1"
definition TRIPS_OPT_STALLED :: u32 where "TRIPS_OPT_STALLED = push_bit 6 1"
definition TRIPS_OPT_PUBMASK :: u32 where "TRIPS_OPT_PUBMASK = 0x000F"

record strm =
  s_data :: ptr
  s_connection :: ptr
  s_id :: int
  s_status :: conn_status
  s_type :: int
  s_flags :: u32
  s_listbeg :: ptr
  s_listend :: ptr

text \<open>
  The stream map: a static array of words that are either a stream pointer or, for a free
  slot, the address of the next free slot. A slot address is its index.
\<close>

datatype sslot = SNext "nat option" | SPtr addr

record streammap =
  sm_size :: int
  sm_cap :: int
  sm_map :: "sslot list option"
  sm_free :: "nat option"

section \<open>Connections\<close>

datatype conn_state = CS_START | CS_RESOLVE | CS_OPEN | CS_CHAL | CS_PING | CS_READY
  | CS_READY_PING | CS_CLOSE | CS_END | CS_ERROR

record connection =
  c_data :: ptr
  c_ilen :: u64
  c_info :: "bytes option"
  c_rlen :: u64
  c_route :: "bytes option"
  c_src :: int
  c_resolvekey :: int
  c_status :: conn_status
  c_incoming :: bool
  c_encrypted :: bool
  c_state :: conn_state
  c_statedeadline :: u64
  c_statetimer :: ptr
  c_retry :: int
  c_maxretry :: int
  c_maxstatems :: int
  c_growms :: int
  c_statems :: int
  c_maxresolve :: int
  c_error :: errno
  c_errmsg :: "string option"
  c_self :: connself
  c_peer :: connpeer
  c_ping :: ping
  c_insend :: bool
  c_hassend :: bool
  c_next :: ptr
  c_streams :: streammap
  c_msg :: messageq
  c_segfull :: bool

text \<open>\<open>memset(c, 0, sizeof *c)\<close>.\<close>

definition connection_zero :: "nat \<Rightarrow> connection" where
  "connection_zero noncelen = \<lparr>c_data = None, c_ilen = 0, c_info = None, c_rlen = 0,
     c_route = None, c_src = 0, c_resolvekey = 0, c_status = CI_OPEN, c_incoming = False,
     c_encrypted = False, c_state = CS_START, c_statedeadline = 0, c_statetimer = None,
     c_retry = 0, c_maxretry = 0, c_maxstatems = 0, c_growms = 0, c_statems = 0,
     c_maxresolve = 0, c_error = EOK, c_errmsg = None, c_self = connself_zero,
     c_peer = connpeer_zero, c_ping = ping_zero noncelen, c_insend = False, c_hassend = False,
     c_next = None,
     c_streams = \<lparr>sm_size = 0, sm_cap = 0, sm_map = None, sm_free = None\<rparr>,
     c_msg = messageq_zero, c_segfull = False\<rparr>"

section \<open>The protocol\<close>

definition CONTROL_DATA :: u8 where "CONTROL_DATA = 0"
definition CONTROL_OPEN :: u8 where "CONTROL_OPEN = 1"
definition CONTROL_CHAL :: u8 where "CONTROL_CHAL = 2"
definition CONTROL_PING :: u8 where "CONTROL_PING = 3"
definition CONTROL_DISC :: u8 where "CONTROL_DISC = 4"
definition CONTROL_MAX :: u8 where "CONTROL_MAX = 5"
definition PREFIX_EMASK :: u8 where "PREFIX_EMASK = 0x80"

record prefix =
  px_encrypted :: bool
  px_control :: u8
  px_id :: u64
  px_seq :: u64

section \<open>The memory of connections, streams and messages\<close>

record store =
  h_conn :: "connection heap"
  h_strm :: "strm heap"
  h_msg :: "msg heap"

definition conn_upd :: "addr \<Rightarrow> (connection \<Rightarrow> connection) \<Rightarrow> 'a store_scheme \<Rightarrow> 'a store_scheme option" where
  "conn_upd c f w = map_option (\<lambda>h. w\<lparr>h_conn := h\<rparr>) (heap_upd c f (h_conn w))"

definition strm_upd :: "addr \<Rightarrow> (strm \<Rightarrow> strm) \<Rightarrow> 'a store_scheme \<Rightarrow> 'a store_scheme option" where
  "strm_upd s f w = map_option (\<lambda>h. w\<lparr>h_strm := h\<rparr>) (heap_upd s f (h_strm w))"

definition msg_upd :: "addr \<Rightarrow> (msg \<Rightarrow> msg) \<Rightarrow> 'a store_scheme \<Rightarrow> 'a store_scheme option" where
  "msg_upd m f w = map_option (\<lambda>h. w\<lparr>h_msg := h\<rparr>) (heap_upd m f (h_msg w))"

lemma store_upd_live [simp]:
  "h_conn w c = Some k \<Longrightarrow> conn_upd c f w = Some (w\<lparr>h_conn := (h_conn w)(c \<mapsto> f k)\<rparr>)"
  "h_strm w s = Some x \<Longrightarrow> strm_upd s g w = Some (w\<lparr>h_strm := (h_strm w)(s \<mapsto> g x)\<rparr>)"
  "h_msg w m = Some y \<Longrightarrow> msg_upd m j w = Some (w\<lparr>h_msg := (h_msg w)(m \<mapsto> j y)\<rparr>)"
  by (simp_all add: conn_upd_def strm_upd_def msg_upd_def)

end
