(* ===== verification/Interfaces.thy ===== *)
theory Interfaces
  imports Prelude
begin

text \<open>
  The contracts between the components: what a client of a queue, of a map from keys to
  values or of a registry of identifiers may rely on. Each is a locale whose assumptions are
  the laws the provider promises; the client-side lemmas are proved here once and the
  components interpret the locales on the models of their own code.
\<close>

section \<open>First-in, first-out queues\<close>

text \<open>
  Running a queue: putting a list of items on it, taking up to \<open>n\<close> off, and a round robin,
  whose turn moves the item at the front to the back.
\<close>

fun enq_all :: "('a \<Rightarrow> 's \<Rightarrow> 's option) \<Rightarrow> 'a list \<Rightarrow> 's \<Rightarrow> 's option" where
  "enq_all enq [] s = Some s"
| "enq_all enq (x # xs) s = (case enq x s of None \<Rightarrow> None | Some s \<Rightarrow> enq_all enq xs s)"

fun deq_many :: "('s \<Rightarrow> ('a option \<times> 's) option) \<Rightarrow> nat \<Rightarrow> 's \<Rightarrow> ('a list \<times> 's) option" where
  "deq_many deq 0 s = Some ([], s)"
| "deq_many deq (Suc n) s =
     (case deq s of
        None \<Rightarrow> None
      | Some (None, s) \<Rightarrow> Some ([], s)
      | Some (Some x, s) \<Rightarrow>
          (case deq_many deq n s of None \<Rightarrow> None | Some (xs, s) \<Rightarrow> Some (x # xs, s)))"

definition turn :: "('a \<Rightarrow> 's \<Rightarrow> 's option) \<Rightarrow> ('s \<Rightarrow> ('a option \<times> 's) option) \<Rightarrow> 's \<Rightarrow> ('a option \<times> 's) option" where
  "turn enq deq s =
     (case deq s of
        None \<Rightarrow> None
      | Some (None, s) \<Rightarrow> Some (None, s)
      | Some (Some x, s) \<Rightarrow> (case enq x s of None \<Rightarrow> None | Some s \<Rightarrow> Some (Some x, s)))"

fun turns :: "('a \<Rightarrow> 's \<Rightarrow> 's option) \<Rightarrow> ('s \<Rightarrow> ('a option \<times> 's) option) \<Rightarrow> nat \<Rightarrow> 's \<Rightarrow> ('a option list \<times> 's) option" where
  "turns enq deq 0 s = Some ([], s)"
| "turns enq deq (Suc n) s =
     (case turn enq deq s of
        None \<Rightarrow> None
      | Some (x, s) \<Rightarrow> (case turns enq deq n s of None \<Rightarrow> None | Some (xs, s) \<Rightarrow> Some (x # xs, s)))"

text \<open>
  \<open>rep s xs\<close>: the state \<open>s\<close> represents the list \<open>xs\<close>. \<open>ok x s\<close>: the item can be put
  on the queue (it is a live object).
\<close>

locale fifo =
  fixes rep :: "'s \<Rightarrow> 'a list \<Rightarrow> bool"
    and ok :: "'a \<Rightarrow> 's \<Rightarrow> bool"
    and enq :: "'a \<Rightarrow> 's \<Rightarrow> 's option"
    and deq :: "'s \<Rightarrow> ('a option \<times> 's) option"
  assumes enq_law: "rep s xs \<Longrightarrow> ok x s \<Longrightarrow> x \<notin> set xs \<Longrightarrow>
      \<exists>s'. enq x s = Some s' \<and> rep s' (xs @ [x]) \<and> (\<forall>y. ok y s' \<longleftrightarrow> ok y s)"
    and deq_empty: "rep s [] \<Longrightarrow> deq s = Some (None, s)"
    and deq_law: "rep s (x # xs) \<Longrightarrow>
      \<exists>s'. deq s = Some (Some x, s') \<and> rep s' xs \<and> (\<forall>y. ok y s' \<longleftrightarrow> ok y s)"
    and rep_ok: "rep s xs \<Longrightarrow> x \<in> set xs \<Longrightarrow> ok x s"
begin

lemma enq_all_rep:
  "rep s xs \<Longrightarrow> distinct (xs @ ys) \<Longrightarrow> \<forall>y \<in> set ys. ok y s \<Longrightarrow>
     \<exists>s'. enq_all enq ys s = Some s' \<and> rep s' (xs @ ys) \<and> (\<forall>y. ok y s' \<longleftrightarrow> ok y s)"
proof (induction ys arbitrary: s xs)
  case (Cons y ys)
  then obtain s1 where s1: "enq y s = Some s1" "rep s1 (xs @ [y])" "\<forall>z. ok z s1 \<longleftrightarrow> ok z s"
    using enq_law [of s xs y] by auto
  then have "\<exists>s'. enq_all enq ys s1 = Some s' \<and> rep s' ((xs @ [y]) @ ys) \<and> (\<forall>z. ok z s' \<longleftrightarrow> ok z s1)"
    using Cons.prems by (intro Cons.IH) auto
  with s1 show ?case by auto
qed auto

lemma deq_many_rep:
  "rep s xs \<Longrightarrow> \<exists>s'. deq_many deq n s = Some (take n xs, s') \<and> rep s' (drop n xs)"
proof (induction n arbitrary: s xs)
  case (Suc n)
  show ?case
  proof (cases xs)
    case Nil
    with Suc.prems show ?thesis using deq_empty [of s] by simp
  next
    case (Cons x ys)
    with Suc.prems obtain s1 where "deq s = Some (Some x, s1)" "rep s1 ys"
      using deq_law [of s x ys] by auto
    with Suc.IH [of s1 ys] Cons show ?thesis by auto
  qed
qed simp

text \<open>What was put in comes out, in order, and nothing else.\<close>

lemma fifo_order:
  assumes "rep s xs" "distinct (xs @ ys)" "\<forall>y \<in> set ys. ok y s"
  shows "\<exists>s' s''. enq_all enq ys s = Some s' \<and> deq_many deq (length xs + length ys) s' = Some (xs @ ys, s'') \<and> rep s'' []"
proof -
  obtain s' where s': "enq_all enq ys s = Some s'" "rep s' (xs @ ys)"
    using enq_all_rep assms by blast
  with deq_many_rep [of s' "xs @ ys" "length xs + length ys"] show ?thesis by auto
qed

lemma turn_rep:
  assumes "rep s (x # xs)" "x \<notin> set xs"
  shows "\<exists>s'. turn enq deq s = Some (Some x, s') \<and> rep s' (xs @ [x])"
proof -
  obtain s1 where s1: "deq s = Some (Some x, s1)" "rep s1 xs" "ok x s1"
    using deq_law [OF assms(1)] rep_ok [OF assms(1), of x] by auto
  with enq_law [of s1 xs x] assms(2) show ?thesis by (auto simp: turn_def)
qed

text \<open>After as many turns as there are items, every item has had its turn, in order.\<close>

lemma turns_rep:
  "rep s (xs @ ys) \<Longrightarrow> distinct (xs @ ys) \<Longrightarrow>
     \<exists>s'. turns enq deq (length xs) s = Some (map Some xs, s') \<and> rep s' (ys @ xs)"
proof (induction xs arbitrary: s ys)
  case (Cons x xs)
  then obtain s1 where s1: "turn enq deq s = Some (Some x, s1)" "rep s1 (xs @ (ys @ [x]))"
    using turn_rep [of s x "xs @ ys"] by auto
  then obtain s2 where "turns enq deq (length xs) s1 = Some (map Some xs, s2)" "rep s2 ((ys @ [x]) @ xs)"
    using Cons.IH [of s1 "ys @ [x]"] Cons.prems by auto
  with s1 show ?case by auto
qed simp

end

text \<open>A queue that marks its items: putting an item on it again does nothing.\<close>

locale fifo_marked = fifo +
  assumes enq_again: "rep s xs \<Longrightarrow> x \<in> set xs \<Longrightarrow> enq x s = Some s"
begin

lemma enq_all_again: "rep s xs \<Longrightarrow> set ys \<subseteq> set xs \<Longrightarrow> enq_all enq ys s = Some s"
  by (induction ys) (auto simp: enq_again)

text \<open>However often the items are put on the queue, each is handed out once.\<close>

lemma deq_once:
  assumes "rep s xs" "set ys \<subseteq> set xs"
  shows "\<exists>s'. enq_all enq ys s = Some s \<and> deq_many deq (length xs) s = Some (xs, s') \<and> rep s' []"
  using enq_all_again [OF assms] deq_many_rep [OF assms(1), of "length xs"] by auto

end

section \<open>Maps from keys to values\<close>

text \<open>
  \<open>abs\<close> is the finite map a state stands for, and \<open>view\<close> what a lookup can say of its
  result (data that is \<open>NULL\<close> looks like no data). Insertion may fail for lack of memory,
  which leaves the map as it was.
\<close>

locale assoc_map =
  fixes inv :: "'s \<Rightarrow> bool"
    and abs :: "'s \<Rightarrow> 'k \<Rightarrow> 'v option"
    and view :: "'v option \<Rightarrow> 'r"
    and get :: "'k \<Rightarrow> 's \<Rightarrow> 'r option"
    and put :: "bool \<Rightarrow> 'k \<Rightarrow> 'v \<Rightarrow> 's \<Rightarrow> (errno \<times> 's) option"
    and del :: "'k \<Rightarrow> 's \<Rightarrow> 's option"
  assumes get_law: "inv s \<Longrightarrow> get k s = Some (view (abs s k))"
    and put_law: "inv s \<Longrightarrow> \<exists>e s'. put b k v s = Some (e, s') \<and> inv s' \<and>
      abs s' = (if e = EOK then (abs s)(k \<mapsto> v) else abs s)"
    and put_total: "inv s \<Longrightarrow> abs s k \<noteq> None \<Longrightarrow> \<exists>s'. put b k v s = Some (EOK, s')"
    and del_law: "inv s \<Longrightarrow> \<exists>s'. del k s = Some s' \<and> inv s' \<and> abs s' = (abs s)(k := None)"
begin

text \<open>What a lookup gives after an insertion or a deletion.\<close>

lemma get_put:
  "inv s \<Longrightarrow> put b k v s = Some (EOK, s') \<Longrightarrow> get j s' = (if j = k then Some (view (Some v)) else get j s)"
  using put_law [of s b k v] get_law [of s' j] get_law [of s j] by auto

lemma get_put_fail:
  "inv s \<Longrightarrow> put b k v s = Some (e, s') \<Longrightarrow> e \<noteq> EOK \<Longrightarrow> get j s' = get j s"
  using put_law [of s b k v] get_law [of s' j] get_law [of s j] by auto

lemma get_del: "inv s \<Longrightarrow> del k s = Some s' \<Longrightarrow> get j s' = (if j = k then Some (view None) else get j s)"
  using del_law [of s k] get_law [of s' j] get_law [of s j] by auto

lemma put_replace:
  assumes "inv s" "put b k v s = Some (EOK, s')"
  shows "\<exists>s''. put b' k w s' = Some (EOK, s'') \<and> get k s'' = Some (view (Some w))"
proof -
  have "inv s'" "abs s' = (abs s)(k \<mapsto> v)" using put_law [OF assms(1), of b k v] assms(2) by auto
  with put_total [of s' k b' w] get_put [of s' b' k w] show ?thesis by auto
qed

end

section \<open>Maps of bounded size, and their runs\<close>

datatype ('k, 'v) map_op = MPut bool 'k 'v | MDel 'k | MGet 'k

datatype 'r map_res = RPut errno | RDel | RGet 'r

text \<open>A sequence of calls, with what each of them returns.\<close>

fun map_run :: "('k \<Rightarrow> 's \<Rightarrow> 'r option) \<Rightarrow> (bool \<Rightarrow> 'k \<Rightarrow> 'v \<Rightarrow> 's \<Rightarrow> (errno \<times> 's) option) \<Rightarrow>
    ('k \<Rightarrow> 's \<Rightarrow> 's option) \<Rightarrow> ('k, 'v) map_op list \<Rightarrow> 's \<Rightarrow> ('r map_res list \<times> 's) option" where
  "map_run get put del [] s = Some ([], s)"
| "map_run get put del (op # ops) s =
     do { (r, s) \<leftarrow> (case op of
            MPut b k v \<Rightarrow> map_option (map_prod RPut id) (put b k v s)
          | MDel k \<Rightarrow> map_option (Pair RDel) (del k s)
          | MGet k \<Rightarrow> map_option (\<lambda>v. (RGet v, s)) (get k s));
          (rs, s) \<leftarrow> map_run get put del ops s;
          Some (r # rs, s) }"

text \<open>
  What the calls have to return if the data structure is the finite map \<open>m\<close> with room for
  \<open>cap\<close> entries. The value of a known key is replaced, whatever the memory and however full
  the map. A new key is refused when \<open>cap\<close> entries are in use; when there is room it is
  accepted, unless memory is short (\<open>\<not> b\<close>), when it may be refused. What is refused
  changes nothing.
\<close>

fun map_spec :: "nat \<Rightarrow> ('v option \<Rightarrow> 'r) \<Rightarrow> ('k, 'v) map_op list \<Rightarrow> 'r map_res list \<Rightarrow> ('k \<Rightarrow> 'v option) \<Rightarrow> bool" where
  "map_spec cap view [] [] m \<longleftrightarrow> True"
| "map_spec cap view (MPut b k v # ops) (RPut e # rs) m \<longleftrightarrow>
     (if m k \<noteq> None then e = EOK
      else if cap \<le> card (dom m) then e = ENOMEM
      else e = EOK \<or> (e = ENOMEM \<and> \<not> b)) \<and>
     map_spec cap view ops rs (if e = EOK then m(k \<mapsto> v) else m)"
| "map_spec cap view (MDel k # ops) (RDel # rs) m \<longleftrightarrow> map_spec cap view ops rs (m(k := None))"
| "map_spec cap view (MGet k # ops) (RGet r # rs) m \<longleftrightarrow> r = view (m k) \<and> map_spec cap view ops rs m"
| "map_spec cap view _ _ m \<longleftrightarrow> False"

locale bounded_map = assoc_map inv abs view get put del
  for inv :: "'s \<Rightarrow> bool"
    and abs :: "'s \<Rightarrow> 'k \<Rightarrow> 'v option"
    and view :: "'v option \<Rightarrow> 'r"
    and get :: "'k \<Rightarrow> 's \<Rightarrow> 'r option"
    and put :: "bool \<Rightarrow> 'k \<Rightarrow> 'v \<Rightarrow> 's \<Rightarrow> (errno \<times> 's) option"
    and del :: "'k \<Rightarrow> 's \<Rightarrow> 's option" +
  fixes cap :: nat
  assumes put_full: "inv s \<Longrightarrow> abs s k = None \<Longrightarrow> cap \<le> card (dom (abs s)) \<Longrightarrow>
      \<exists>s'. put b k v s = Some (ENOMEM, s')"
    and put_room: "inv s \<Longrightarrow> \<not> cap \<le> card (dom (abs s)) \<Longrightarrow> put b k v s = Some (e, s') \<Longrightarrow>
      e = EOK \<or> (e = ENOMEM \<and> \<not> b)"
begin

lemma run_refines:
  "inv s \<Longrightarrow> \<exists>rs s'. map_run get put del ops s = Some (rs, s') \<and> inv s' \<and> map_spec cap view ops rs (abs s)"
proof (induction ops arbitrary: s)
  case (Cons op ops)
  show ?case
  proof (cases op)
    case (MPut b k v)
    obtain e s' where put: "put b k v s = Some (e, s')" "inv s'" "abs s' = (if e = EOK then (abs s)(k \<mapsto> v) else abs s)"
      using put_law [OF Cons.prems] by blast
    obtain rs t where run: "map_run get put del ops s' = Some (rs, t)" "inv t" "map_spec cap view ops rs (abs s')"
      using Cons.IH [OF put(2)] by blast
    have "if abs s k \<noteq> None then e = EOK else if cap \<le> card (dom (abs s)) then e = ENOMEM
        else e = EOK \<or> (e = ENOMEM \<and> \<not> b)"
      using put_total [OF Cons.prems, of k b v] put_full [OF Cons.prems, of k b v] put_room [OF Cons.prems _ put(1)] put(1)
      by (auto split: if_splits)
    with run put MPut show ?thesis by (intro exI [of _ "RPut e # rs"] exI [of _ t]) simp
  next
    case (MDel k)
    obtain s' where del: "del k s = Some s'" "inv s'" "abs s' = (abs s)(k := None)"
      using del_law [OF Cons.prems] by blast
    then show ?thesis using Cons.IH [of s'] MDel by fastforce
  next
    case (MGet k)
    then show ?thesis using Cons.IH [OF Cons.prems] get_law [OF Cons.prems, of k] by fastforce
  qed
qed simp

end

section \<open>Registries that issue the key\<close>

text \<open>
  A registry chooses the key of what is added to it; \<open>holds s k v\<close> says that \<open>k\<close>
  stands for \<open>v\<close>. The argument of \<open>add\<close> of type \<open>'r\<close> is what the environment decides
  (random bits, whether memory is available).
\<close>

datatype ('r, 'k, 'v) reg_op = Add 'r 'v | Del 'k

fun reg_run :: "('r \<Rightarrow> 'v \<Rightarrow> 's \<Rightarrow> (errno \<times> 's) option) \<Rightarrow> ('k \<Rightarrow> 's \<Rightarrow> ('v option \<times> 's) option) \<Rightarrow>
    ('r, 'k, 'v) reg_op list \<Rightarrow> 's \<Rightarrow> 's option" where
  "reg_run add del [] s = Some s"
| "reg_run add del (Add r v # ops) s =
     (case add r v s of None \<Rightarrow> None | Some (e, s) \<Rightarrow> reg_run add del ops s)"
| "reg_run add del (Del k # ops) s =
     (case del k s of None \<Rightarrow> None | Some (v, s) \<Rightarrow> reg_run add del ops s)"

definition reg_adds :: "('r, 'k, 'v) reg_op list \<Rightarrow> 'v list" where
  "reg_adds ops = concat (map (\<lambda>oper. case oper of Add r v \<Rightarrow> [v] | Del k \<Rightarrow> []) ops)"

locale registry =
  fixes inv :: "'s \<Rightarrow> bool"
    and holds :: "'s \<Rightarrow> 'k \<Rightarrow> 'v \<Rightarrow> bool"
    and ok :: "'v \<Rightarrow> 's \<Rightarrow> bool"
    and get :: "'k \<Rightarrow> 's \<Rightarrow> 'v option option"
    and add :: "'r \<Rightarrow> 'v \<Rightarrow> 's \<Rightarrow> (errno \<times> 's) option"
    and del :: "'k \<Rightarrow> 's \<Rightarrow> ('v option \<times> 's) option"
  assumes get_law: "inv s \<Longrightarrow> \<exists>r. get k s = Some r \<and> (\<forall>v. r = Some v \<longleftrightarrow> holds s k v)"
    and add_law: "inv s \<Longrightarrow> ok v s \<Longrightarrow> \<forall>k. \<not> holds s k v \<Longrightarrow>
      \<exists>e s'. add r v s = Some (e, s') \<and> inv s' \<and> (\<forall>w. ok w s' \<longleftrightarrow> ok w s) \<and>
        (if e = EOK then \<exists>k. (\<forall>w. \<not> holds s k w) \<and> (\<forall>j w. holds s' j w \<longleftrightarrow> holds s j w \<or> j = k \<and> w = v)
         else s' = s)"
    and del_law: "inv s \<Longrightarrow>
      \<exists>r s'. del k s = Some (r, s') \<and> inv s' \<and> (\<forall>w. ok w s' \<longleftrightarrow> ok w s) \<and>
        (\<forall>v. r = Some v \<longleftrightarrow> holds s k v) \<and> (\<forall>j w. holds s' j w \<longleftrightarrow> holds s j w \<and> j \<noteq> k)"
begin

lemma holds_fun: "inv s \<Longrightarrow> holds s k v \<Longrightarrow> holds s k w \<Longrightarrow> v = w"
  using get_law [of s k] by (metis option.inject)

text \<open>The items a sequence of operations adds are new to the registry, and not added twice.\<close>

lemma run_keeps:
  assumes "inv s" "holds s k v" "Del k \<notin> set ops" "distinct (reg_adds ops)"
    "\<forall>w \<in> set (reg_adds ops). ok w s \<and> (\<forall>j. \<not> holds s j w)"
  shows "\<exists>s'. reg_run add del ops s = Some s' \<and> inv s' \<and> get k s' = Some (Some v)"
  using assms
proof (induction ops arbitrary: s)
  case Nil
  then show ?case using get_law [of s k] by auto
next
  case (Cons oper ops)
  show ?case
  proof (cases oper)
    case (Add r w)
    then have w: "ok w s" "\<forall>j. \<not> holds s j w" "w \<notin> set (reg_adds ops)" "distinct (reg_adds ops)"
      using Cons.prems by (auto simp: reg_adds_def)
    obtain e s1 where s1: "add r w s = Some (e, s1)" "inv s1" "\<forall>x. ok x s1 \<longleftrightarrow> ok x s"
      "if e = EOK then \<exists>k. (\<forall>w. \<not> holds s k w) \<and> (\<forall>j x. holds s1 j x \<longleftrightarrow> holds s j x \<or> j = k \<and> x = w)
         else s1 = s"
      using add_law [OF Cons.prems(1) w(1,2)] by blast
    have "holds s1 k v" using s1(4) Cons.prems(2) by (auto split: if_splits)
    moreover have "\<forall>x \<in> set (reg_adds ops). ok x s1 \<and> (\<forall>j. \<not> holds s1 j x)"
      using s1(3,4) w(3) Cons.prems(5) Add by (auto simp: reg_adds_def split: if_splits)
    ultimately have "\<exists>s'. reg_run add del ops s1 = Some s' \<and> inv s' \<and> get k s' = Some (Some v)"
      using Cons.IH [OF s1(2)] Cons.prems(3) w(4) by auto
    with s1(1) Add show ?thesis by simp
  next
    case (Del j)
    obtain r s1 where s1: "del j s = Some (r, s1)" "inv s1" "\<forall>x. ok x s1 \<longleftrightarrow> ok x s"
      "\<forall>i x. holds s1 i x \<longleftrightarrow> holds s i x \<and> i \<noteq> j"
      using del_law [OF Cons.prems(1)] by blast
    have "holds s1 k v" using s1(4) Cons.prems(2,3) Del by auto
    moreover have "\<forall>x \<in> set (reg_adds ops). ok x s1 \<and> (\<forall>j. \<not> holds s1 j x)" "distinct (reg_adds ops)"
      using s1(3,4) Cons.prems(4,5) Del by (auto simp: reg_adds_def)
    ultimately have "\<exists>s'. reg_run add del ops s1 = Some s' \<and> inv s' \<and> get k s' = Some (Some v)"
      using Cons.IH [OF s1(2)] Cons.prems(3) by auto
    with s1(1) Del show ?thesis by simp
  qed
qed

end

end
