(* ===== verification/Sendq.thy ===== *)
theory Sendq
  imports Structs Interfaces
begin

text \<open>
  The queue of connections that want to send (\<open>src/sendq.c\<close>), threaded through the
  \<open>next\<close> field of the connections, with \<open>insend\<close> marking membership.
\<close>

section \<open>The operations\<close>

record sendq =
  sq_head :: ptr
  sq_tail :: ptr

definition sendq_init :: sendq where
  "sendq_init = \<lparr>sq_head = None, sq_tail = None\<rparr>"

definition sendq_destroy :: "sendq \<Rightarrow> sendq" where
  "sendq_destroy q = sendq_init"

definition sendq_dq :: "sendq \<Rightarrow> connection heap \<Rightarrow> (ptr \<times> sendq \<times> connection heap) option" where
  "sendq_dq q h =
     (case sq_head q of
        None \<Rightarrow> Some (None, q, h)
      | Some c \<Rightarrow>
          do { k \<leftarrow> h c;
               let q = q\<lparr>sq_head := c_next k\<rparr>;
               let q = (if sq_head q = None then q\<lparr>sq_tail := None\<rparr> else q);
               h \<leftarrow> heap_upd c (\<lambda>k. k\<lparr>c_next := None, c_insend := False\<rparr>) h;
               Some (Some c, q, h) })"

definition sendq_nq :: "addr \<Rightarrow> sendq \<Rightarrow> connection heap \<Rightarrow> (sendq \<times> connection heap) option" where
  "sendq_nq c q h =
     do { k \<leftarrow> h c;
          if c_insend k then Some (q, h)
          else do {
            (q, h) \<leftarrow> (case sq_tail q of
                Some t \<Rightarrow> do { h \<leftarrow> heap_upd t (\<lambda>k. k\<lparr>c_next := Some c\<rparr>) h;
                               Some (q\<lparr>sq_tail := Some c\<rparr>, h) }
              | None \<Rightarrow> Some (q\<lparr>sq_head := Some c, sq_tail := Some c\<rparr>, h));
            h \<leftarrow> heap_upd c (\<lambda>k. k\<lparr>c_next := None, c_insend := True\<rparr>) h;
            Some (q, h) } }"

text \<open>
  The walk of \<open>sendq_del\<close>: \<open>p\<close> points to the link that leads to \<open>n\<close>, which is the head
  of the queue or the \<open>next\<close> field of a connection. It ends at the connection or at the end
  of the list; on a cyclic list it would not end, which \<open>partial_function\<close> makes \<open>None\<close>.
\<close>

partial_function (option) sendq_del_walk ::
  "addr \<Rightarrow> ptr \<Rightarrow> ptr \<Rightarrow> sendq \<Rightarrow> connection heap \<Rightarrow> (sendq \<times> connection heap) option" where
  "sendq_del_walk c p n q h =
     (case n of
        None \<Rightarrow> Some (q, h)
      | Some a \<Rightarrow>
          Option.bind (h a) (\<lambda>k.
            if a = c
            then (case p of
                    None \<Rightarrow> Some (q\<lparr>sq_head := c_next k\<rparr>, h)
                  | Some b \<Rightarrow> map_option (Pair q) (heap_upd b (\<lambda>x. x\<lparr>c_next := c_next k\<rparr>) h))
            else sendq_del_walk c (Some a) (c_next k) q h))"

declare sendq_del_walk.simps [code]

definition sendq_del :: "addr \<Rightarrow> sendq \<Rightarrow> connection heap \<Rightarrow> (sendq \<times> connection heap) option" where
  "sendq_del c q h =
     do { k \<leftarrow> h c;
          (q, h) \<leftarrow> (if c_insend k then sendq_del_walk c None (sq_head q) q h else Some (q, h));
          h \<leftarrow> heap_upd c (\<lambda>k. k\<lparr>c_insend := False\<rparr>) h;
          Some (q, h) }"

definition sendq_has :: "sendq \<Rightarrow> bool" where
  "sendq_has q \<longleftrightarrow> sq_head q \<noteq> None"

section \<open>The abstract queue\<close>

text \<open>
  A state represents the list \<open>cs\<close> if the links from the head visit exactly \<open>cs\<close>, the
  tail is the last of them and a connection is marked exactly when it is in the list.
\<close>

definition sq_rep :: "sendq \<Rightarrow> connection heap \<Rightarrow> addr list \<Rightarrow> bool" where
  "sq_rep q h cs \<longleftrightarrow> chain c_next h (sq_head q) cs \<and>
     sq_tail q = (if cs = [] then None else Some (last cs)) \<and>
     (\<forall>a k. h a = Some k \<longrightarrow> (c_insend k \<longleftrightarrow> a \<in> set cs))"

lemma sq_rep_init: "(\<forall>a k. h a = Some k \<longrightarrow> \<not> c_insend k) \<Longrightarrow> sq_rep sendq_init h []"
  by (simp add: sq_rep_def sendq_init_def)

lemma sendq_has_rep: "sq_rep q h cs \<Longrightarrow> sendq_has q \<longleftrightarrow> cs \<noteq> []"
  by (cases cs) (auto simp: sq_rep_def sendq_has_def chain_Cons)

lemma sendq_dq_empty: "sq_rep q h [] \<Longrightarrow> sendq_dq q h = Some (None, q, h)"
  by (simp add: sq_rep_def sendq_dq_def)

lemma sendq_dq_rep:
  assumes "sq_rep q h (c # cs)"
  obtains q' h' where "sendq_dq q h = Some (Some c, q', h')" "sq_rep q' h' cs" "dom h' = dom h"
proof -
  from assms obtain k where k: "sq_head q = Some c" "h c = Some k" "chain c_next h (c_next k) cs"
    "c \<notin> set cs"
    by (auto simp: sq_rep_def chain_Cons)
  let ?q = "q\<lparr>sq_head := c_next k\<rparr>"
  let ?q' = "if sq_head ?q = None then ?q\<lparr>sq_tail := None\<rparr> else ?q"
  let ?h = "h(c \<mapsto> k\<lparr>c_next := None, c_insend := False\<rparr>)"
  have hd: "c_next k = None \<longleftrightarrow> cs = []" using k(3) by (cases cs) (auto simp: chain_Cons)
  have "sendq_dq q h = Some (Some c, ?q', ?h)"
    using k by (simp add: sendq_dq_def Let_def)
  moreover have "sq_rep ?q' ?h cs"
    using assms k hd chain_upd_off [OF k(3,4)] by (auto simp: sq_rep_def)
  moreover have "dom ?h = dom h" using k(2) by auto
  ultimately show ?thesis using that by blast
qed

lemma sendq_nq_in:
  "sq_rep q h cs \<Longrightarrow> c \<in> set cs \<Longrightarrow> sendq_nq c q h = Some (q, h)"
  by (auto simp: sq_rep_def chain_def sendq_nq_def)

lemma sendq_nq_rep:
  assumes "sq_rep q h cs" "h c = Some k" "c \<notin> set cs"
  obtains q' h' where "sendq_nq c q h = Some (q', h')" "sq_rep q' h' (cs @ [c])" "dom h' = dom h"
proof (cases cs rule: rev_cases)
  case Nil
  let ?h = "h(c \<mapsto> k\<lparr>c_next := None, c_insend := True\<rparr>)"
  have "\<not> c_insend k" using assms by (auto simp: sq_rep_def)
  then have "sendq_nq c q h = Some (q\<lparr>sq_head := Some c, sq_tail := Some c\<rparr>, ?h)"
    using assms Nil by (simp add: sendq_nq_def sq_rep_def)
  moreover have "sq_rep (q\<lparr>sq_head := Some c, sq_tail := Some c\<rparr>) ?h (cs @ [c])"
    using assms Nil by (auto simp: sq_rep_def chain_Cons)
  moreover have "dom ?h = dom h" using assms(2) by auto
  ultimately show ?thesis using that by blast
next
  case (snoc bs l)
  obtain x where x: "h l = Some x" using assms(1) snoc by (auto simp: sq_rep_def chain_def)
  have "c \<noteq> l" using assms(3) snoc by auto
  let ?h = "h(l \<mapsto> x\<lparr>c_next := Some c\<rparr>, c \<mapsto> k\<lparr>c_next := None, c_insend := True\<rparr>)"
  have "\<not> c_insend k" using assms by (auto simp: sq_rep_def)
  then have "sendq_nq c q h = Some (q\<lparr>sq_tail := Some c\<rparr>, ?h)"
    using assms snoc x \<open>c \<noteq> l\<close> by (simp add: sendq_nq_def sq_rep_def)
  moreover have "sq_rep (q\<lparr>sq_tail := Some c\<rparr>) ?h (cs @ [c])"
  proof -
    have "chain c_next ?h (sq_head q) (bs @ [l, c])"
      by (rule chain_snoc [of _ _ _ bs l c]) (use assms snoc x in \<open>auto simp: sq_rep_def\<close>)
    then show ?thesis using assms snoc x by (auto simp: sq_rep_def)
  qed
  moreover have "dom ?h = dom h" using assms(2) x by auto
  ultimately show ?thesis using that by blast
qed

text \<open>Where the walk of \<open>sendq_del\<close> ends.\<close>

lemma del_walk_head:
  "h c = Some k \<Longrightarrow> sendq_del_walk c None (Some c) q h = Some (q\<lparr>sq_head := c_next k\<rparr>, h)"
  by (simp add: sendq_del_walk.simps)

lemma del_walk_mid:
  assumes "lpath (field c_next h) n as (Some c)" "c \<notin> set as" "set as \<subseteq> dom h" "h c = Some k"
    "p = Some b" "h b = Some y" "b \<noteq> c" "distinct (b # as)"
  shows "sendq_del_walk c p n q h =
    map_option (Pair q) (heap_upd (last (b # as)) (\<lambda>x. x\<lparr>c_next := c_next k\<rparr>) h)"
  using assms
proof (induction as arbitrary: n p b y)
  case Nil
  then show ?case by (simp add: sendq_del_walk.simps)
next
  case (Cons a as)
  then obtain x where "n = Some a" "h a = Some x" "a \<noteq> c" by auto
  moreover have "sendq_del_walk c (Some a) (c_next x) q h =
      map_option (Pair q) (heap_upd (last (a # as)) (\<lambda>x. x\<lparr>c_next := c_next k\<rparr>) h)"
    by (rule Cons.IH) (use Cons.prems \<open>h a = Some x\<close> in auto)
  ultimately show ?case by (subst sendq_del_walk.simps) simp
qed

text \<open>
  Deleting a connection that is not the last one, or not queued, keeps the representation.
\<close>

lemma sendq_del_out:
  assumes "sq_rep q h cs" "h c = Some k" "c \<notin> set cs"
  shows "sendq_del c q h = Some (q, h(c \<mapsto> k\<lparr>c_insend := False\<rparr>))"
    and "sq_rep q (h(c \<mapsto> k\<lparr>c_insend := False\<rparr>)) cs"
  using assms by (auto simp: sendq_del_def sq_rep_def intro: chain_upd_off)

lemma sendq_del_shape:
  assumes "sq_rep q h (as @ c # cs)" "h c = Some k"
  obtains q' h' where "sendq_del c q h = Some (q', h')" "sq_tail q' = sq_tail q"
    "chain c_next h' (sq_head q') (as @ cs)" "dom h' = dom h"
    "\<forall>a x. h' a = Some x \<longrightarrow> (c_insend x \<longleftrightarrow> a \<in> set (as @ cs))"
proof (cases as rule: rev_cases)
  case Nil
  have ins: "c_insend k" "sq_head q = Some c" "chain c_next h (c_next k) cs" "c \<notin> set cs"
    using assms Nil by (auto simp: sq_rep_def chain_Cons)
  let ?h = "h(c \<mapsto> k\<lparr>c_insend := False\<rparr>)"
  have "sendq_del c q h = Some (q\<lparr>sq_head := c_next k\<rparr>, ?h)"
    using ins assms(2) by (simp add: sendq_del_def del_walk_head)
  moreover have "chain c_next ?h (c_next k) cs"
    using ins by (auto intro: chain_upd_off)
  moreover have "dom ?h = dom h" using assms(2) by auto
  moreover have "c_insend x \<longleftrightarrow> a \<in> set cs" if "?h a = Some x" for a x
    using that assms(1) ins(4) Nil by (auto simp: sq_rep_def split: if_splits)
  ultimately show ?thesis using that [of "q\<lparr>sq_head := c_next k\<rparr>" ?h] Nil by simp
next
  case (snoc bs b)
  have ch: "chain c_next h (sq_head q) (bs @ b # c # cs)" "c_insend k"
    using assms snoc by (auto simp: sq_rep_def)
  have dist: "distinct (bs @ b # c # cs)" "set (bs @ b # c # cs) \<subseteq> dom h"
    and path: "lpath (field c_next h) (sq_head q) (bs @ b # c # cs) None"
    using ch(1) by (auto simp: chain_def)
  obtain xb where xb: "h b = Some xb" using dist by auto
  have walk: "sendq_del_walk c None (sq_head q) q h = Some (q, h(b \<mapsto> xb\<lparr>c_next := c_next k\<rparr>))"
  proof (cases bs)
    case Nil
    have "sendq_del_walk c None (sq_head q) q h = sendq_del_walk c (Some b) (c_next xb) q h"
      using path xb dist Nil by (subst sendq_del_walk.simps) auto
    also have "\<dots> = Some (q, h(b \<mapsto> xb\<lparr>c_next := c_next k\<rparr>))"
      using path xb dist Nil assms(2) by (subst sendq_del_walk.simps) auto
    finally show ?thesis .
  next
    case (Cons b0 bs0)
    then obtain x0 where x0: "h b0 = Some x0" using dist by auto
    have "lpath (field c_next h) (c_next x0) (bs0 @ [b]) (Some c)"
      using path Cons x0 by (auto simp: lpath_append)
    then have "sendq_del_walk c (Some b0) (c_next x0) q h =
      map_option (Pair q) (heap_upd (last (b0 # bs0 @ [b])) (\<lambda>x. x\<lparr>c_next := c_next k\<rparr>) h)"
      by (rule del_walk_mid [where b = b0]) (use dist Cons x0 assms(2) in auto)
    then show ?thesis
      using path Cons x0 dist xb by (subst sendq_del_walk.simps) auto
  qed
  let ?h = "h(b \<mapsto> xb\<lparr>c_next := c_next k\<rparr>, c \<mapsto> k\<lparr>c_insend := False\<rparr>)"
  have "b \<noteq> c" using dist by auto
  then have "sendq_del c q h = Some (q, ?h)"
    using ch(2) assms(2) walk by (simp add: sendq_del_def)
  moreover have "chain c_next ?h (sq_head q) (as @ cs)"
  proof -
    have "chain c_next (h(b \<mapsto> xb\<lparr>c_next := c_next k\<rparr>)) (sq_head q) (bs @ b # cs)"
      by (rule chain_unlink [OF ch(1) assms(2) xb]) simp
    then show ?thesis using dist snoc by (auto intro: chain_upd_off)
  qed
  moreover have "dom ?h = dom h" using assms(2) xb by auto
  moreover have "c_insend x \<longleftrightarrow> a \<in> set (as @ cs)" if "?h a = Some x" for a x
    using that assms snoc dist xb \<open>b \<noteq> c\<close> by (auto simp: sq_rep_def split: if_splits)
  ultimately show ?thesis using that by blast
qed

section \<open>The queue as an interface\<close>

definition sq_live :: "addr \<Rightarrow> sendq \<times> connection heap \<Rightarrow> bool" where
  "sq_live c s \<longleftrightarrow> snd s c \<noteq> None"

definition sq_enq :: "addr \<Rightarrow> sendq \<times> connection heap \<Rightarrow> (sendq \<times> connection heap) option" where
  "sq_enq c s = sendq_nq c (fst s) (snd s)"

definition sq_deq :: "sendq \<times> connection heap \<Rightarrow> (ptr \<times> sendq \<times> connection heap) option" where
  "sq_deq s = sendq_dq (fst s) (snd s)"

interpretation sq: fifo_marked "\<lambda>s. sq_rep (fst s) (snd s)" sq_live sq_enq sq_deq
proof
  fix s :: "sendq \<times> connection heap" and xs x
  assume rep: "sq_rep (fst s) (snd s) xs" and "sq_live x s" "x \<notin> set xs"
  then obtain k where k: "snd s x = Some k" by (auto simp: sq_live_def)
  obtain q' h' where "sendq_nq x (fst s) (snd s) = Some (q', h')" "sq_rep q' h' (xs @ [x])"
    "dom h' = dom (snd s)"
    using sendq_nq_rep [OF rep k \<open>x \<notin> set xs\<close>] by blast
  then show "\<exists>s'. sq_enq x s = Some s' \<and> sq_rep (fst s') (snd s') (xs @ [x]) \<and>
      (\<forall>y. sq_live y s' \<longleftrightarrow> sq_live y s)"
    by (intro exI [of _ "(q', h')"]) (auto simp: sq_enq_def sq_live_def dom_def)
next
  fix s :: "sendq \<times> connection heap"
  assume "sq_rep (fst s) (snd s) []"
  then show "sq_deq s = Some (None, s)" by (simp add: sq_deq_def sendq_dq_empty)
next
  fix s :: "sendq \<times> connection heap" and xs x
  assume rep: "sq_rep (fst s) (snd s) (x # xs)"
  obtain q' h' where "sendq_dq (fst s) (snd s) = Some (Some x, q', h')" "sq_rep q' h' xs"
    "dom h' = dom (snd s)"
    using sendq_dq_rep [OF rep] by blast
  then show "\<exists>s'. sq_deq s = Some (Some x, s') \<and> sq_rep (fst s') (snd s') xs \<and>
      (\<forall>y. sq_live y s' \<longleftrightarrow> sq_live y s)"
    by (intro exI [of _ "(q', h')"]) (auto simp: sq_deq_def sq_live_def dom_def)
next
  fix s :: "sendq \<times> connection heap" and xs x
  assume "sq_rep (fst s) (snd s) xs" "x \<in> set xs"
  then show "sq_live x s" by (auto simp: sq_rep_def chain_def sq_live_def)
next
  fix s :: "sendq \<times> connection heap" and xs x
  assume "sq_rep (fst s) (snd s) xs" "x \<in> set xs"
  then show "sq_enq x s = Some s" by (simp add: sq_enq_def sendq_nq_in)
qed

section \<open>The properties\<close>

text \<open>Two live connections that are not queued, for concrete runs.\<close>

definition two_conns :: "connection heap" where
  "two_conns = [1 \<mapsto> connection_zero 24, 2 \<mapsto> connection_zero 24]"

lemma two_conns_rep: "sq_rep sendq_init two_conns []"
  by (rule sq_rep_init) (auto simp: two_conns_def connection_zero_def split: if_splits)

text \<open>C21: the send queue is first in, first out. Live connections put on a queue that holds
  \<open>cs\<close> are handed out after \<open>cs\<close>, in the order they were put on, each once, and then the
  queue is empty.\<close>

theorem sendq_fifo:
  assumes "sq_rep q h cs" "distinct (cs @ ds)" "\<forall>d \<in> set ds. h d \<noteq> None"
  shows "\<exists>s' q' h'. enq_all sq_enq ds (q, h) = Some s' \<and>
    deq_many sq_deq (length cs + length ds) s' = Some (cs @ ds, q', h') \<and> \<not> sendq_has q'"
proof -
  obtain s' s'' where s: "enq_all sq_enq ds (q, h) = Some s'"
    "deq_many sq_deq (length cs + length ds) s' = Some (cs @ ds, s'')"
    "sq_rep (fst s'') (snd s'') []"
    using sq.fifo_order [of "(q, h)" cs ds] assms by (auto simp: sq_live_def)
  then have "\<not> sendq_has (fst s'')" by (simp add: sendq_has_rep)
  with s show ?thesis by (cases s'') auto
qed

theorem sendq_fifo_witness:
  "\<exists>s' q' h'. enq_all sq_enq [2, 1] (sendq_init, two_conns) = Some s' \<and>
    deq_many sq_deq (length ([] :: addr list) + length [2, 1 :: addr]) s' = Some ([] @ [2, 1], q', h') \<and> \<not> sendq_has q'"
  by (rule sendq_fifo [OF two_conns_rep]) (simp_all add: two_conns_def)

text \<open>Sending is a round robin. While the router takes the connection at the front and
  puts it back, every queued connection has its turn once before any has a second one.\<close>

theorem sendq_round_robin:
  assumes "sq_rep q h (cs @ ds)" "distinct (cs @ ds)"
  shows "\<exists>s'. turns sq_enq sq_deq (length cs) (q, h) = Some (map Some cs, s') \<and>
    sq_rep (fst s') (snd s') (ds @ cs)"
  using sq.turns_rep [of "(q, h)" cs ds] assms by simp

theorem sendq_round_robin_witness:
  "\<exists>q h s'. enq_all sq_enq [1, 2] (sendq_init, two_conns) = Some (q, h) \<and>
    turns sq_enq sq_deq (length [1, 2 :: addr]) (q, h) = Some (map Some [1, 2], s') \<and>
    sq_rep (fst s') (snd s') ([] @ [1, 2])"
proof -
  obtain s where s: "enq_all sq_enq [1, 2] (sendq_init, two_conns) = Some s"
    "sq_rep (fst s) (snd s) ([1, 2] @ [])"
    using sq.enq_all_rep [of "(sendq_init, two_conns)" "[]" "[1, 2]"] two_conns_rep
    by (auto simp: sq_live_def two_conns_def)
  obtain q h where qh: "s = (q, h)" by (cases s)
  have "sq_rep q h ([1, 2] @ [])" using s(2) qh by simp
  from sendq_round_robin [OF this] s(1) qh show ?thesis by auto
qed

text \<open>C22: deleting works for every queued connection but the last. The queue then holds the
  others in their order, and the connection is no longer marked.\<close>

theorem sendq_del_correct:
  assumes "sq_rep q h (cs @ c # ds)" "ds \<noteq> []"
  shows "\<exists>q' h'. sendq_del c q h = Some (q', h') \<and> sq_rep q' h' (cs @ ds)"
proof -
  from assms(1) obtain k where k: "h c = Some k" by (auto simp: sq_rep_def chain_def)
  obtain q' h' where del: "sendq_del c q h = Some (q', h')" "sq_tail q' = sq_tail q"
    "chain c_next h' (sq_head q') (cs @ ds)"
    and ins: "\<forall>a x. h' a = Some x \<longrightarrow> (c_insend x \<longleftrightarrow> a \<in> set (cs @ ds))"
    by (rule sendq_del_shape [OF assms(1) k])
  have "sq_tail q = (if cs @ ds = [] then None else Some (last (cs @ ds)))"
    using assms by (simp add: sq_rep_def)
  then have "sq_rep q' h' (cs @ ds)"
    unfolding sq_rep_def del(2) using del(3) ins by blast
  with del(1) show ?thesis by blast
qed

theorem sendq_del_correct_witness:
  "\<exists>q h. enq_all sq_enq [1, 2] (sendq_init, two_conns) = Some (q, h) \<and>
    (\<exists>q' h'. sendq_del 1 q h = Some (q', h') \<and> sq_rep q' h' ([] @ [2]))"
proof -
  obtain s where s: "enq_all sq_enq [1, 2] (sendq_init, two_conns) = Some s"
    "sq_rep (fst s) (snd s) ([] @ 1 # [2])"
    using sq.enq_all_rep [of "(sendq_init, two_conns)" "[]" "[1, 2]"] two_conns_rep
    by (auto simp: sq_live_def two_conns_def)
  obtain q h where qh: "s = (q, h)" by (cases s)
  have "sq_rep q h ([] @ 1 # [2])" using s(2) qh by simp
  from sendq_del_correct [OF this] s(1) qh show ?thesis by auto
qed

text \<open>C36: deleting the last queued connection loses the next one. \<open>sendq_del\<close> leaves the tail
  at the deleted connection, so a connection put on the queue afterwards is linked behind the
  deleted one: it is marked as queued, and the walk from the head does not reach it.\<close>

theorem sendq_del_last_loses:
  assumes "sq_rep q h (cs @ [c])" "h d = Some k" "d \<notin> set (cs @ [c])"
  shows "\<exists>q' h' q'' h''. sendq_del c q h = Some (q', h') \<and> sendq_nq d q' h' = Some (q'', h'') \<and>
    chain c_next h'' (sq_head q'') cs \<and> (\<exists>x. h'' d = Some x \<and> c_insend x)"
proof -
  from assms(1) obtain kc where kc: "h c = Some kc" by (auto simp: sq_rep_def chain_def)
  obtain q' h' where del: "sendq_del c q h = Some (q', h')" "sq_tail q' = sq_tail q"
    "chain c_next h' (sq_head q') (cs @ [])" "dom h' = dom h"
    and ins: "\<forall>a x. h' a = Some x \<longrightarrow> (c_insend x \<longleftrightarrow> a \<in> set (cs @ []))"
    by (rule sendq_del_shape [OF assms(1) kc])
  have t: "sq_tail q' = Some c" "c \<noteq> d" "c \<notin> set cs"
    using del(2) assms by (auto simp: sq_rep_def chain_def)
  obtain y z where y: "h' c = Some y" "h' d = Some z"
    using del(4) domI [of h c kc] domI [of h d k] kc assms(2) by blast
  have "\<not> c_insend z" using ins y(2) assms(3) by simp
  let ?h = "h'(c \<mapsto> y\<lparr>c_next := Some d\<rparr>, d \<mapsto> z\<lparr>c_next := None, c_insend := True\<rparr>)"
  have "sendq_nq d q' h' = Some (q'\<lparr>sq_tail := Some d\<rparr>, ?h)"
    using t y \<open>\<not> c_insend z\<close> by (simp add: sendq_nq_def)
  moreover have "chain c_next ?h (sq_head (q'\<lparr>sq_tail := Some d\<rparr>)) cs"
    using del(3) t(3) assms(3) by (auto intro: chain_upd_off)
  moreover have "\<exists>x. ?h d = Some x \<and> c_insend x" by simp
  ultimately show ?thesis using del(1) by blast
qed

theorem sendq_del_last_loses_witness:
  "\<exists>q h. sendq_nq 1 sendq_init two_conns = Some (q, h) \<and>
    (\<exists>q' h' q'' h''. sendq_del 1 q h = Some (q', h') \<and> sendq_nq 2 q' h' = Some (q'', h'') \<and>
      chain c_next h'' (sq_head q'') [] \<and> (\<exists>x. h'' 2 = Some x \<and> c_insend x))"
proof -
  have h: "two_conns 1 = Some (connection_zero 24)" "two_conns 2 = Some (connection_zero 24)"
    by (simp_all add: two_conns_def)
  obtain q h where s: "sendq_nq 1 sendq_init two_conns = Some (q, h)" "sq_rep q h ([] @ [1])"
    "dom h = dom two_conns"
    using sendq_nq_rep [OF two_conns_rep h(1)] by auto
  then obtain k where "h 2 = Some k" by (metis domD domI h(2))
  with sendq_del_last_loses [OF s(2), of 2 k] s(1) show ?thesis by simp
qed

end
