(* ===== verification/Timerwheel.thy ===== *)
theory Timerwheel
  imports Linked Trip_Time
begin

text \<open>
  The timers of the router (\<open>src/timerwheel.c\<close>): a singly linked list of entries, walked
  when time has passed. A callback is a tag of any type \<open>'cb\<close>; what it does to the state of
  the program is the argument \<open>fire\<close> of the walk.
\<close>

section \<open>The operations\<close>

record 'cb timer_entry =
  te_deadline :: u64
  te_data :: ptr
  te_cb :: "'cb option"
  te_next :: ptr
  te_canceled :: bool

text \<open>The wheel together with the memory of its entries.\<close>

record 'cb timerwheel =
  tw_head :: ptr
  tw_heap :: "'cb timer_entry heap"

definition timerwheel_init :: "'cb timerwheel \<Rightarrow> 'cb timerwheel" where
  "timerwheel_init tw = tw\<lparr>tw_head := None\<rparr>"

partial_function (option) timerwheel_free_all :: "ptr \<Rightarrow> 'cb timerwheel \<Rightarrow> 'cb timerwheel option" where
  "timerwheel_free_all cur tw =
     (case cur of
        None \<Rightarrow> Some tw
      | Some a \<Rightarrow>
          Option.bind (tw_heap tw a) (\<lambda>e.
            Option.bind (heap_free a (tw_heap tw)) (\<lambda>h.
              timerwheel_free_all (te_next e) (tw\<lparr>tw_heap := h\<rparr>))))"

declare timerwheel_free_all.simps [code]

definition timerwheel_destroy :: "'cb timerwheel \<Rightarrow> 'cb timerwheel option" where
  "timerwheel_destroy tw =
     map_option (\<lambda>tw. tw\<lparr>tw_head := None\<rparr>) (timerwheel_free_all (tw_head tw) tw)"

text \<open>
  \<open>te\<close> is the address the allocation gives, or \<open>None\<close>; \<open>now\<close> is the reading of the
  clock that \<open>triptime_deadline\<close> takes.
\<close>

definition timerwheel_add ::
  "ptr \<Rightarrow> u64 \<Rightarrow> int \<Rightarrow> ptr \<Rightarrow> 'cb option \<Rightarrow> 'cb timerwheel \<Rightarrow> ptr \<times> 'cb timerwheel" where
  "timerwheel_add te now timeout data cb tw =
     (case te of
        None \<Rightarrow> (None, tw)
      | Some a \<Rightarrow>
          (Some a, tw\<lparr>tw_head := Some a,
             tw_heap := (tw_heap tw)(a \<mapsto> \<lparr>te_deadline = triptime_deadline now timeout, te_data = data,
               te_cb = cb, te_next = tw_head tw, te_canceled = False\<rparr>)\<rparr>))"

definition timerwheel_cancel :: "addr \<Rightarrow> 'cb timerwheel \<Rightarrow> 'cb timerwheel option" where
  "timerwheel_cancel te tw =
     do { h \<leftarrow> heap_upd te (\<lambda>e. e\<lparr>te_canceled := True\<rparr>) (tw_heap tw); Some (tw\<lparr>tw_heap := h\<rparr>) }"

text \<open>\<open>*prev\<close>, where \<open>prev\<close> is the address of the head or of a \<open>next\<close> field.\<close>

definition tw_load :: "ptr \<Rightarrow> 'cb timerwheel \<Rightarrow> ptr option" where
  "tw_load prev tw = (case prev of None \<Rightarrow> Some (tw_head tw) | Some b \<Rightarrow> map_option te_next (tw_heap tw b))"

definition tw_store :: "ptr \<Rightarrow> ptr \<Rightarrow> 'cb timerwheel \<Rightarrow> 'cb timerwheel option" where
  "tw_store prev n tw =
     (case prev of
        None \<Rightarrow> Some (tw\<lparr>tw_head := n\<rparr>)
      | Some b \<Rightarrow> do { h \<leftarrow> heap_upd b (\<lambda>e. e\<lparr>te_next := n\<rparr>) (tw_heap tw); Some (tw\<lparr>tw_heap := h\<rparr>) })"

definition tw_free :: "addr \<Rightarrow> 'cb timerwheel \<Rightarrow> 'cb timerwheel option" where
  "tw_free a tw = do { h \<leftarrow> heap_free a (tw_heap tw); Some (tw\<lparr>tw_heap := h\<rparr>) }"

definition tw_min :: "ptr \<Rightarrow> addr \<Rightarrow> 'cb timerwheel \<Rightarrow> ptr option" where
  "tw_min mn cur tw =
     (case mn of
        None \<Rightarrow> Some (Some cur)
      | Some m \<Rightarrow>
          do { em \<leftarrow> tw_heap tw m; e \<leftarrow> tw_heap tw cur;
               Some (if te_deadline e < te_deadline em then Some cur else mn) })"

text \<open>
  The loop of \<open>timerwheel_walk_with\<close>. The callback runs on the whole state of the program,
  of which \<open>get\<close> reads the wheel and \<open>upd\<close> replaces it; it may insert at the head of the
  list. It may re-arm a timer that is already due, so the loop need not end.
\<close>

definition tw_on :: "('s \<Rightarrow> 'cb timerwheel) \<Rightarrow> ('cb timerwheel \<Rightarrow> 's \<Rightarrow> 's) \<Rightarrow>
    ('cb timerwheel \<Rightarrow> 'cb timerwheel option) \<Rightarrow> 's \<Rightarrow> 's option" where
  "tw_on get upd f s = map_option (\<lambda>tw. upd tw s) (f (get s))"

partial_function (option) walk_loop ::
  "('s \<Rightarrow> 'cb timerwheel) \<Rightarrow> ('cb timerwheel \<Rightarrow> 's \<Rightarrow> 's) \<Rightarrow> ('cb \<Rightarrow> ptr \<Rightarrow> 's \<Rightarrow> 's option) \<Rightarrow>
     u64 \<Rightarrow> ptr \<Rightarrow> ptr \<Rightarrow> ptr \<Rightarrow> 's \<Rightarrow> (ptr \<times> 's) option" where
  "walk_loop get upd fire now prev cur mn s =
     (case cur of
        None \<Rightarrow> Some (mn, s)
      | Some a \<Rightarrow>
          Option.bind (tw_heap (get s) a) (\<lambda>e.
            if now \<ge> te_deadline e \<or> te_canceled e
            then
              Option.bind (tw_on get upd (tw_store prev (te_next e)) s) (\<lambda>s.
              Option.bind (case te_cb e of
                  Some cb \<Rightarrow> if te_canceled e then Some s else fire cb (te_data e) s
                | None \<Rightarrow> Some s) (\<lambda>s.
              Option.bind (tw_on get upd (tw_free a) s) (\<lambda>s.
              Option.bind (tw_load prev (get s)) (\<lambda>next.
                walk_loop get upd fire now prev next mn s))))
            else
              Option.bind (tw_min mn a (get s)) (\<lambda>mn.
                walk_loop get upd fire now (Some a) (te_next e) mn s)))"

declare walk_loop.simps [code]

definition timerwheel_walk_with ::
  "('s \<Rightarrow> 'cb timerwheel) \<Rightarrow> ('cb timerwheel \<Rightarrow> 's \<Rightarrow> 's) \<Rightarrow> ('cb \<Rightarrow> ptr \<Rightarrow> 's \<Rightarrow> 's option) \<Rightarrow>
     u64 \<Rightarrow> 's \<Rightarrow> (ptr \<times> 's) option" where
  "timerwheel_walk_with get upd fire now s =
     walk_loop get upd fire now None (tw_head (get s)) None s"

definition timerwheel_walk ::
  "('s \<Rightarrow> 'cb timerwheel) \<Rightarrow> ('cb timerwheel \<Rightarrow> 's \<Rightarrow> 's) \<Rightarrow> ('cb \<Rightarrow> ptr \<Rightarrow> 's \<Rightarrow> 's option) \<Rightarrow>
     (u64 \<times> nat) option \<Rightarrow> 's \<Rightarrow> (ptr \<times> 's) option" where
  "timerwheel_walk get upd fire clock s = timerwheel_walk_with get upd fire (triptime_now clock) s"

section \<open>Views of the wheel\<close>

text \<open>What it takes for \<open>get\<close> and \<open>upd\<close> to be the wheel's place in the state.\<close>

locale wheel_view =
  fixes get :: "'s \<Rightarrow> 'cb timerwheel" and upd :: "'cb timerwheel \<Rightarrow> 's \<Rightarrow> 's"
  assumes get_upd [simp]: "get (upd v s) = v"
    and upd_upd [simp]: "upd v (upd u s) = upd v s"
    and upd_get [simp]: "upd (get s) s = s"

definition expired :: "u64 \<Rightarrow> 'cb timer_entry \<Rightarrow> bool" where
  "expired now e \<longleftrightarrow> te_deadline e \<le> now \<or> te_canceled e"

text \<open>The callbacks a list of entries owes at a time, in order, and running them.\<close>

definition due :: "u64 \<Rightarrow> 'cb timer_entry list \<Rightarrow> ('cb \<times> ptr) list" where
  "due now es = concat (map (\<lambda>e. case te_cb e of None \<Rightarrow> []
      | Some cb \<Rightarrow> if te_deadline e \<le> now \<and> \<not> te_canceled e then [(cb, te_data e)] else []) es)"

fun fire_all :: "('cb \<Rightarrow> ptr \<Rightarrow> 's \<Rightarrow> 's option) \<Rightarrow> ('cb \<times> ptr) list \<Rightarrow> 's \<Rightarrow> 's option" where
  "fire_all fire [] s = Some s"
| "fire_all fire ((cb, d) # cs) s = (case fire cb d s of None \<Rightarrow> None | Some s \<Rightarrow> fire_all fire cs s)"

text \<open>The wheel holds the entries \<open>es\<close> at the addresses \<open>as\<close>.\<close>

definition tw_rep :: "'cb timerwheel \<Rightarrow> addr list \<Rightarrow> bool" where
  "tw_rep tw as \<longleftrightarrow> chain te_next (tw_heap tw) (tw_head tw) as"

abbreviation entries :: "'cb timerwheel \<Rightarrow> addr list \<Rightarrow> 'cb timer_entry list" where
  "entries tw as \<equiv> map (\<lambda>a. the (tw_heap tw a)) as"

text \<open>The least deadline of a list, as the walk keeps it: the first of the smallest.\<close>

fun min_of :: "(addr \<Rightarrow> u64) \<Rightarrow> ptr \<Rightarrow> addr list \<Rightarrow> ptr" where
  "min_of d m [] = m"
| "min_of d None (a # as) = min_of d (Some a) as"
| "min_of d (Some m) (a # as) = min_of d (if d a < d m then Some a else Some m) as"

lemma min_of_in: "min_of d m as = Some x \<Longrightarrow> m = Some x \<or> x \<in> set as"
  by (induction d m as rule: min_of.induct) (auto split: if_splits)

lemma min_of_None: "min_of d m as = None \<longleftrightarrow> m = None \<and> as = []"
  by (induction d m as rule: min_of.induct) auto

lemma min_of_le:
  "min_of d m as = Some x \<Longrightarrow> (\<forall>a \<in> set as. d x \<le> d a) \<and> (\<forall>y. m = Some y \<longrightarrow> d x \<le> d y)"
  by (induction d m as rule: min_of.induct) (auto split: if_splits)

section \<open>The walk, when callbacks leave the wheel alone\<close>

text \<open>
  The list during the walk: \<open>ks\<close> are kept and behind, \<open>as\<close> are ahead; \<open>prev\<close> is the
  link between them.
\<close>

definition link_of :: "addr list \<Rightarrow> ptr" where
  "link_of ks = (if ks = [] then None else Some (last ks))"

lemma tw_load_link:
  assumes "chain te_next h (tw_head tw) (ks @ as)" "tw_heap tw = h"
  shows "\<exists>p. tw_load (link_of ks) tw = Some p \<and> chain te_next h p as"
proof (cases ks rule: rev_cases)
  case Nil
  with assms show ?thesis by (simp add: tw_load_def link_of_def)
next
  case (snoc bs b)
  with assms obtain e where e: "h b = Some e" by (auto simp: chain_def)
  have "lpath (field te_next h) (te_next e) as None"
    using assms(1) snoc e by (auto simp: chain_def lpath_append)
  then have "chain te_next h (te_next e) as"
    using assms(1) snoc by (auto simp: chain_def)
  with e snoc assms(2) show ?thesis by (simp add: tw_load_def link_of_def)
qed

lemma tw_unlink:
  assumes "tw_rep tw (ks @ a # as)" "tw_heap tw a = Some e"
  obtains tw' where "tw_store (link_of ks) (te_next e) tw = Some tw'" "tw_rep tw' (ks @ as)"
    "tw_heap tw' a = Some e" "dom (tw_heap tw') = dom (tw_heap tw)"
    "\<forall>b x. tw_heap tw b = Some x \<longrightarrow> (\<exists>n. tw_heap tw' b = Some (x\<lparr>te_next := n\<rparr>))"
    "\<forall>b \<in> set (a # as). tw_heap tw' b = tw_heap tw b"
proof (cases ks rule: rev_cases)
  case Nil
  let ?tw = "tw\<lparr>tw_head := te_next e\<rparr>"
  have "x = x\<lparr>te_next := te_next x\<rparr>" for x :: "'a timer_entry" by simp
  then have "\<exists>n. x = x\<lparr>te_next := n\<rparr>" for x :: "'a timer_entry" by (rule exI)
  then show ?thesis
    using that [of ?tw] Nil assms by (auto simp: tw_store_def link_of_def tw_rep_def chain_Cons)
next
  case (snoc bs b)
  from assms snoc obtain x where x: "tw_heap tw b = Some x" by (auto simp: tw_rep_def chain_def)
  have nab: "a \<noteq> b" "b \<notin> set as" using assms(1) snoc by (auto simp: tw_rep_def chain_def)
  let ?h = "(tw_heap tw)(b \<mapsto> x\<lparr>te_next := te_next e\<rparr>)"
  have "tw_store (link_of ks) (te_next e) tw = Some (tw\<lparr>tw_heap := ?h\<rparr>)"
    using snoc x by (simp add: tw_store_def link_of_def)
  moreover have "tw_rep (tw\<lparr>tw_heap := ?h\<rparr>) (ks @ as)"
    using chain_unlink [of te_next "tw_heap tw" "tw_head tw" bs b a as e x] assms snoc x
    by (simp add: tw_rep_def)
  moreover have "y = y\<lparr>te_next := te_next y\<rparr>" for y :: "'a timer_entry" by simp
  then have "\<exists>n. y = y\<lparr>te_next := n\<rparr>" for y :: "'a timer_entry" by (rule exI)
  then have "\<forall>c y. tw_heap tw c = Some y \<longrightarrow> (\<exists>n. ?h c = Some (y\<lparr>te_next := n\<rparr>))"
    using x by auto
  moreover have "dom ?h = dom (tw_heap tw)" using x by auto
  moreover have "\<forall>c \<in> set (a # as). ?h c = tw_heap tw c" using nab by auto
  ultimately show ?thesis
    using that [of "tw\<lparr>tw_heap := ?h\<rparr>"] assms(2) nab by simp
qed

context wheel_view begin

text \<open>The callbacks of a set neither read nor change the wheel.\<close>

definition blind :: "('cb \<times> ptr) set \<Rightarrow> ('cb \<Rightarrow> ptr \<Rightarrow> 's \<Rightarrow> 's option) \<Rightarrow> bool" where
  "blind S fire \<longleftrightarrow> (\<forall>(cb, d) \<in> S. \<forall>v s. fire cb d (upd v s) = map_option (upd v) (fire cb d s))"

lemma fire_all_blind:
  "blind S fire \<Longrightarrow> set cs \<subseteq> S \<Longrightarrow> fire_all fire cs (upd v s) = map_option (upd v) (fire_all fire cs s)"
  by (induction fire cs s rule: fire_all.induct) (auto simp: blind_def split: option.splits)

lemma walk_loop_exact:
  assumes "blind S fire"
    and "set (due now (entries (get s) as)) \<subseteq> S"
    and "tw_rep (get s) (ks @ as)" "chain te_next (tw_heap (get s)) p as"
    and "fire_all fire (due now (entries (get s) as)) s = Some s1"
    and "\<forall>m. mn = Some m \<longrightarrow> m \<in> set ks"
    and "d = (\<lambda>a. te_deadline (the (tw_heap (get s) a)))"
    and "rs = filter (\<lambda>a. \<not> expired now (the (tw_heap (get s) a))) as"
  shows "\<exists>v. walk_loop get upd fire now (link_of ks) p mn s = Some (min_of d mn rs, upd v s1) \<and>
    tw_rep v (ks @ rs) \<and> dom (tw_heap v) = dom (tw_heap (get s)) - (set as - set rs) \<and>
    (\<forall>b \<in> dom (tw_heap v). \<exists>n. tw_heap v b = Some ((the (tw_heap (get s) b))\<lparr>te_next := n\<rparr>))"
  using assms(2-)
proof (induction as arbitrary: ks p mn s s1 rs d)
  case Nil
  have "\<exists>n. x = x\<lparr>te_next := n\<rparr>" for x :: "'cb timer_entry" by (rule exI [of _ "te_next x"]) simp
  with Nil show ?case
    by (intro exI [of _ "get s"]) (auto simp: walk_loop.simps due_def)
next
  case (Cons a as)
  let ?tw = "get s"
  from Cons.prems(3) obtain e where e: "p = Some a" "tw_heap ?tw a = Some e"
    "chain te_next (tw_heap ?tw) (te_next e) as" "a \<notin> set as"
    by (auto simp: chain_Cons)
  have live: "set (ks @ a # as) \<subseteq> dom (tw_heap ?tw)" "distinct (ks @ a # as)"
    using Cons.prems(2) by (auto simp: tw_rep_def chain_def)
  show ?case
  proof (cases "expired now e")
    case True
    obtain v0 where v0: "tw_store (link_of ks) (te_next e) ?tw = Some v0" "tw_rep v0 (ks @ as)"
      "tw_heap v0 a = Some e" "dom (tw_heap v0) = dom (tw_heap ?tw)"
      "\<forall>b x. tw_heap ?tw b = Some x \<longrightarrow> (\<exists>n. tw_heap v0 b = Some (x\<lparr>te_next := n\<rparr>))"
      "\<forall>b \<in> set (a # as). tw_heap v0 b = tw_heap ?tw b"
      by (rule tw_unlink [OF Cons.prems(2) e(2)])
    let ?v1 = "v0\<lparr>tw_heap := (tw_heap v0)(a := None)\<rparr>"
    have rep1: "tw_rep ?v1 (ks @ as)"
      using v0(2) live by (auto simp: tw_rep_def intro: chain_free_off)
    then obtain p1 where p1: "tw_load (link_of ks) ?v1 = Some p1" "chain te_next (tw_heap ?v1) p1 as"
      using tw_load_link [of "tw_heap ?v1" ?v1 ks as] by (auto simp: tw_rep_def)
    have same: "tw_heap ?v1 b = tw_heap ?tw b" if "b \<in> set as" for b
      using v0(6) that e(4) by auto
    then have ents: "entries ?v1 as = entries ?tw as" by simp
    have due: "due now (entries ?tw (a # as)) =
        due now [e] @ due now (entries ?tw as)"
      using e(2) by (simp add: due_def)
    have step: "\<exists>s2. (case te_cb e of Some cb \<Rightarrow> if te_canceled e then Some s else fire cb (te_data e) s
          | None \<Rightarrow> Some s) = Some s2 \<and> fire_all fire (due now (entries ?tw as)) s2 = Some s1"
      using Cons.prems(4) True unfolding due
      by (auto simp: due_def expired_def split: option.splits if_splits)
    then obtain s2 where s2: "(case te_cb e of Some cb \<Rightarrow> if te_canceled e then Some s else fire cb (te_data e) s
          | None \<Rightarrow> Some s) = Some s2" "fire_all fire (due now (entries ?tw as)) s2 = Some s1"
      by blast
    have blind2: "(case te_cb e of Some cb \<Rightarrow> if te_canceled e then Some (upd v0 s) else fire cb (te_data e) (upd v0 s)
          | None \<Rightarrow> Some (upd v0 s)) = Some (upd v0 s2)"
      using s2(1) assms(1) Cons.prems(1) True unfolding due
      by (auto simp: blind_def due_def expired_def split: option.splits if_splits)
    have m1: "te_deadline (the (tw_heap ?v1 b)) = d b \<and> expired now (the (tw_heap ?v1 b)) = expired now (the (tw_heap ?tw b))"
      if "b \<in> set (ks @ as)" for b
    proof -
      from that live obtain x where "tw_heap ?tw b = Some x" "b \<noteq> a" by fastforce
      moreover from this v0(5) obtain n where "tw_heap v0 b = Some (x\<lparr>te_next := n\<rparr>)" by blast
      ultimately show ?thesis using Cons.prems(6) by (simp add: expired_def)
    qed
    let ?s = "upd ?v1 s2"
    have rs: "rs = filter (\<lambda>a. \<not> expired now (the (tw_heap (get ?s) a))) as"
    proof -
      have "filter (\<lambda>a. \<not> expired now (the (tw_heap ?v1 a))) as = filter (\<lambda>a. \<not> expired now (the (tw_heap ?tw a))) as"
        by (rule filter_cong [OF refl]) (use m1 in simp)
      then show ?thesis using Cons.prems(7) e(2) True by simp
    qed
    have sub: "set (due now (entries ?tw as)) \<subseteq> S" using Cons.prems(1) unfolding due by simp
    then have sub2: "set (due now (entries (get ?s) as)) \<subseteq> S" using ents by (simp only: get_upd)
    have fin: "fire_all fire (due now (entries (get ?s) as)) ?s = Some (upd ?v1 s1)"
    proof -
      have "entries (get ?s) as = entries ?tw as" using ents by (simp only: get_upd)
      then show ?thesis using s2(2) by (simp only: fire_all_blind [OF assms(1) sub] option.map)
    qed
    have rep2: "tw_rep (get ?s) (ks @ as)" and chain2: "chain te_next (tw_heap (get ?s)) p1 as"
      using rep1 p1(2) by (simp_all only: get_upd)
    obtain v where v: "walk_loop get upd fire now (link_of ks) p1 mn ?s =
        Some (min_of (\<lambda>a. te_deadline (the (tw_heap (get ?s) a))) mn rs, upd v (upd ?v1 s1))"
      "tw_rep v (ks @ rs)" "dom (tw_heap v) = dom (tw_heap (get ?s)) - (set as - set rs)"
      "\<forall>b \<in> dom (tw_heap v). \<exists>n. tw_heap v b = Some ((the (tw_heap (get ?s) b))\<lparr>te_next := n\<rparr>)"
      using Cons.IH [OF sub2 rep2 chain2 fin Cons.prems(5) refl rs] by blast
    have "min_of (\<lambda>a. te_deadline (the (tw_heap (get ?s) a))) mn rs = min_of d mn rs"
    proof -
      have "min_of f m bs = min_of g m bs" if "\<forall>b \<in> set bs. f b = g b" "\<forall>b. m = Some b \<longrightarrow> f b = g b"
        for f g :: "addr \<Rightarrow> u64" and m bs
        using that by (induction f m bs rule: min_of.induct) auto
      then show ?thesis using m1 rs Cons.prems(5) by auto
    qed
    moreover have "walk_loop get upd fire now (link_of ks) p mn s = walk_loop get upd fire now (link_of ks) p1 mn ?s"
      using e v0 blind2 p1(1) True
      by (subst walk_loop.simps) (simp add: expired_def tw_on_def tw_free_def heap_free_def)
    moreover have "dom (tw_heap v) = dom (tw_heap ?tw) - (set (a # as) - set rs)"
      using v(3) v0(4) Cons.prems(7) e(4) True e(2) rs by auto
    moreover have "\<forall>b \<in> dom (tw_heap v). \<exists>n. tw_heap v b = Some ((the (tw_heap ?tw b))\<lparr>te_next := n\<rparr>)"
    proof
      fix b assume b: "b \<in> dom (tw_heap v)"
      then have "b \<in> dom (tw_heap ?v1)" using v(3) by auto
      then obtain x where x: "tw_heap ?tw b = Some x" "b \<noteq> a" using v0(4) by (auto split: if_splits)
      with v0(5) obtain n where "tw_heap v0 b = Some (x\<lparr>te_next := n\<rparr>)" by blast
      moreover obtain m where "tw_heap v b = Some ((the (tw_heap (get ?s) b))\<lparr>te_next := m\<rparr>)"
        using v(4) b by blast
      ultimately have "tw_heap v b = Some (x\<lparr>te_next := m\<rparr>)" using x(2) by simp
      with x(1) show "\<exists>n. tw_heap v b = Some ((the (tw_heap ?tw b))\<lparr>te_next := n\<rparr>)" by auto
    qed
    ultimately show ?thesis using v(1,2) by (intro exI [of _ v]) simp
  next
    case False
    let ?m = "if mn = None then Some a else if d a < d (the mn) then Some a else mn"
    have tm: "tw_min mn a ?tw = Some ?m"
    proof (cases mn)
      case (Some m)
      then have "m \<in> dom (tw_heap ?tw)" using Cons.prems(5) live by auto
      then obtain em where "tw_heap ?tw m = Some em" by auto
      with Some e(2) Cons.prems(6) show ?thesis by (simp add: tw_min_def)
    qed (simp add: tw_min_def)
    have rs: "rs = a # filter (\<lambda>a. \<not> expired now (the (tw_heap ?tw a))) as"
      using Cons.prems(7) e(2) False by simp
    have lk: "Some a = link_of (ks @ [a])" by (simp add: link_of_def)
    have fin: "fire_all fire (due now (entries ?tw as)) s = Some s1"
      using Cons.prems(4) False e(2) by (auto simp: due_def expired_def split: option.splits if_splits)
    have sub: "set (due now (entries ?tw as)) \<subseteq> S" using Cons.prems(1) by (simp add: due_def)
    have "\<exists>v. walk_loop get upd fire now (link_of (ks @ [a])) (te_next e) ?m s =
        Some (min_of d ?m (filter (\<lambda>a. \<not> expired now (the (tw_heap ?tw a))) as), upd v s1) \<and>
      tw_rep v ((ks @ [a]) @ filter (\<lambda>a. \<not> expired now (the (tw_heap ?tw a))) as) \<and>
      dom (tw_heap v) = dom (tw_heap ?tw) - (set as - set (filter (\<lambda>a. \<not> expired now (the (tw_heap ?tw a))) as)) \<and>
      (\<forall>b \<in> dom (tw_heap v). \<exists>n. tw_heap v b = Some ((the (tw_heap ?tw b))\<lparr>te_next := n\<rparr>))"
      by (rule Cons.IH [OF sub _ e(3) fin _ Cons.prems(6) refl]) (use Cons.prems in \<open>auto split: if_splits\<close>)
    moreover have "walk_loop get upd fire now (link_of ks) p mn s =
        walk_loop get upd fire now (Some a) (te_next e) ?m s"
      using e False tm by (subst walk_loop.simps) (auto simp: expired_def not_le)
    moreover have "min_of d mn rs = min_of d ?m (filter (\<lambda>a. \<not> expired now (the (tw_heap ?tw a))) as)"
      using rs by (cases mn) auto
    ultimately show ?thesis using rs e(4) by (auto simp: lk)
  qed
qed

lemma walk_exact:
  assumes "blind (set (due now (entries (get s) as))) fire" "tw_rep (get s) as" "fire_all fire (due now (entries (get s) as)) s = Some s1"
  defines "d \<equiv> \<lambda>a. te_deadline (the (tw_heap (get s) a))"
    and "rs \<equiv> filter (\<lambda>a. \<not> expired now (the (tw_heap (get s) a))) as"
  shows "\<exists>m v. timerwheel_walk_with get upd fire now s = Some (m, upd v s1) \<and> tw_rep v rs \<and>
    (case m of None \<Rightarrow> rs = [] | Some x \<Rightarrow> x \<in> set rs \<and> (\<forall>a \<in> set rs. d x \<le> d a)) \<and>
    dom (tw_heap v) = dom (tw_heap (get s)) - (set as - set rs) \<and>
    (\<forall>b \<in> dom (tw_heap v). \<exists>n. tw_heap v b = Some ((the (tw_heap (get s) b))\<lparr>te_next := n\<rparr>))"
proof -
  have "tw_rep (get s) ([] @ as)" using assms(2) by simp
  moreover have "chain te_next (tw_heap (get s)) (tw_head (get s)) as"
    using assms(2) by (simp add: tw_rep_def)
  ultimately obtain v where v: "walk_loop get upd fire now (link_of []) (tw_head (get s)) None s =
      Some (min_of d None rs, upd v s1)"
    "tw_rep v ([] @ rs)" "dom (tw_heap v) = dom (tw_heap (get s)) - (set as - set rs)"
    "\<forall>b \<in> dom (tw_heap v). \<exists>n. tw_heap v b = Some ((the (tw_heap (get s) b))\<lparr>te_next := n\<rparr>)"
    using walk_loop_exact [OF assms(1) order_refl, of "[]" _ s1 None d rs] assms(3) d_def rs_def by blast
  have "case min_of d None rs of None \<Rightarrow> rs = [] | Some x \<Rightarrow> x \<in> set rs \<and> (\<forall>a \<in> set rs. d x \<le> d a)"
    using min_of_in [of d None rs] min_of_le [of d None rs] min_of_None [of d None rs]
    by (auto split: option.split)
  with v show ?thesis
    by (intro exI [of _ "min_of d None rs"] exI [of _ v]) (simp add: timerwheel_walk_with_def link_of_def)
qed

end

interpretation tw_pair: wheel_view "fst :: 'cb timerwheel \<times> 'x \<Rightarrow> 'cb timerwheel" "\<lambda>v s. (v, snd s)"
  by standard auto

section \<open>Adding, cancelling, destroying\<close>

lemma timerwheel_add_rep:
  assumes "tw_rep tw as" "tw_heap tw a = None"
  shows "\<exists>tw'. timerwheel_add (Some a) now ms data cb tw = (Some a, tw') \<and> tw_rep tw' (a # as) \<and>
    (\<forall>b \<in> set as. tw_heap tw' b = tw_heap tw b) \<and>
    (\<exists>e. tw_heap tw' a = Some e \<and> te_deadline e = triptime_deadline now ms \<and> te_cb e = cb \<and>
      te_data e = data \<and> \<not> te_canceled e)"
proof -
  have "a \<notin> set as" using assms by (auto simp: tw_rep_def chain_def)
  then show ?thesis
    using assms by (auto simp: timerwheel_add_def tw_rep_def chain_Cons intro: chain_upd_off)
qed

lemma timerwheel_cancel_rep:
  assumes "tw_rep tw as" "tw_heap tw a = Some e"
  shows "timerwheel_cancel a tw = Some (tw\<lparr>tw_heap := (tw_heap tw)(a \<mapsto> e\<lparr>te_canceled := True\<rparr>)\<rparr>)"
    and "tw_rep (tw\<lparr>tw_heap := (tw_heap tw)(a \<mapsto> e\<lparr>te_canceled := True\<rparr>)\<rparr>) as"
  using assms by (auto simp: timerwheel_cancel_def tw_rep_def intro: chain_upd_same)

lemma free_all_chain:
  "chain te_next (tw_heap tw) p as \<Longrightarrow>
     timerwheel_free_all p tw = Some (tw\<lparr>tw_heap := (tw_heap tw) |` (- set as)\<rparr>)"
proof (induction as arbitrary: p tw)
  case Nil
  then show ?case by (simp add: timerwheel_free_all.simps restrict_map_def)
next
  case (Cons a as)
  then obtain e where e: "p = Some a" "tw_heap tw a = Some e" "chain te_next (tw_heap tw) (te_next e) as"
    "a \<notin> set as"
    by (auto simp: chain_Cons)
  let ?tw = "tw\<lparr>tw_heap := (tw_heap tw)(a := None)\<rparr>"
  have "chain te_next (tw_heap ?tw) (te_next e) as"
    using chain_free_off [OF e(3,4)] by simp
  then have "timerwheel_free_all (te_next e) ?tw = Some (?tw\<lparr>tw_heap := (tw_heap ?tw) |` (- set as)\<rparr>)"
    by (rule Cons.IH)
  moreover have "(tw_heap ?tw) |` (- set as) = (tw_heap tw) |` (- set (a # as))"
    by (rule ext) (simp add: restrict_map_def)
  moreover have "?tw\<lparr>tw_heap := h\<rparr> = tw\<lparr>tw_heap := h\<rparr>" for h by simp
  moreover have "timerwheel_free_all p tw = timerwheel_free_all (te_next e) ?tw"
    using e by (subst timerwheel_free_all.simps) simp
  ultimately show ?case by (simp only:)
qed

section \<open>The properties\<close>

text \<open>A state of two timers, for concrete runs.\<close>

definition tw_demo :: "nat timerwheel \<times> unit" where
  "tw_demo = (\<lparr>tw_head = Some 1, tw_heap =
      [1 \<mapsto> \<lparr>te_deadline = 50, te_data = None, te_cb = Some 7, te_next = Some 2, te_canceled = False\<rparr>,
       2 \<mapsto> \<lparr>te_deadline = 5, te_data = None, te_cb = Some 8, te_next = None, te_canceled = False\<rparr>]\<rparr>, ())"

lemma tw_demo_rep: "tw_rep (fst tw_demo) [1, 2]"
  by (simp add: tw_rep_def tw_demo_def chain_def field_def)

text \<open>C20: a walk of the timers runs exactly the callbacks that are due. If the callbacks that
  are due leave the wheel alone (as those of a user who sets and cancels no timers do, while the
  router's own may set some), \<open>timerwheel_walk_with\<close> returns, has run the callback of every
  timer whose deadline is reached and that is not cancelled, in list order, and no other, keeps
  exactly the timers that are neither due nor cancelled, frees the rest, and returns a timer of
  least deadline among those kept (\<open>NULL\<close> when there is none).\<close>

theorem timerwheel_walk_exact:
  fixes get :: "'s \<Rightarrow> 'cb timerwheel"
  assumes "wheel_view get upd" "wheel_view.blind upd (set (due now (entries (get s) as))) fire" "tw_rep (get s) as"
    "fire_all fire (due now (entries (get s) as)) s = Some s1"
    "rs = filter (\<lambda>a. \<not> expired now (the (tw_heap (get s) a))) as"
  shows "\<exists>m v. timerwheel_walk_with get upd fire now s = Some (m, upd v s1) \<and> tw_rep v rs \<and>
    (case m of None \<Rightarrow> rs = []
     | Some x \<Rightarrow> x \<in> set rs \<and>
         (\<forall>a \<in> set rs. te_deadline (the (tw_heap (get s) x)) \<le> te_deadline (the (tw_heap (get s) a)))) \<and>
    dom (tw_heap v) = dom (tw_heap (get s)) - (set as - set rs) \<and>
    (\<forall>b \<in> dom (tw_heap v). \<exists>n. tw_heap v b = Some ((the (tw_heap (get s) b))\<lparr>te_next := n\<rparr>))"
  unfolding assms(5) by (rule wheel_view.walk_exact [OF assms(1-4)])

text \<open>The timer the walk returns can be later than a timer on the wheel. A callback that runs
  after a timer was kept and adds an earlier one is not seen by the walk: with a timer kept at
  deadline 50 and a callback that adds one with deadline 20, the walk at time 10 returns the
  timer with deadline 50, which the router takes for its next wake-up.\<close>

theorem timerwheel_min_missed:
  "\<exists>v. timerwheel_walk_with fst (\<lambda>v s. (v, snd s))
        (\<lambda>cb d s. Some (snd (timerwheel_add (Some 3) 10 10 None (Some cb) (fst s)), snd s)) 10 tw_demo =
      Some (Some 1, v, ()) \<and>
    tw_rep v [3, 1] \<and> map_option te_deadline (tw_heap v 1) = Some 50 \<and>
    map_option te_deadline (tw_heap v 3) = Some 20"
  by (simp add: timerwheel_walk_with_def walk_loop.simps tw_demo_def tw_on_def tw_store_def tw_free_def
      tw_load_def tw_min_def timerwheel_add_def heap_upd_def heap_free_def triptime_deadline_def
      tw_rep_def chain_def field_def)

text \<open>Destroying the wheel frees every timer on it, once, and nothing else.\<close>

theorem timerwheel_destroy_frees:
  assumes "tw_rep tw as"
  shows "\<exists>tw'. timerwheel_destroy tw = Some tw' \<and> tw_head tw' = None \<and>
    tw_heap tw' = (tw_heap tw) |` (- set as)"
  using free_all_chain [of tw "tw_head tw" as] assms by (auto simp: tw_rep_def timerwheel_destroy_def)

theorem timerwheel_destroy_frees_witness:
  "\<exists>tw'. timerwheel_destroy (fst tw_demo) = Some tw' \<and> tw_head tw' = None \<and>
    tw_heap tw' = (tw_heap (fst tw_demo)) |` (- set [1, 2])"
  by (rule timerwheel_destroy_frees [OF tw_demo_rep])

end
