(* ===== verification/Connmap.thy ===== *)
theory Connmap
  imports Structs Interfaces Util
begin

text \<open>
  The map from connection identifiers to connections (\<open>src/connmap.c\<close>): an array with a free
  list whose index is the low part of the identifier, the high part being random. Sizes and
  indices are natural numbers; the mask and the identifiers are 64-bit words.
\<close>

section \<open>The operations\<close>

record connmap =
  cm_mask :: u64
  cm_size :: nat
  cm_cap :: nat
  cm_map :: "addr slot list option"
  cm_free :: "nat option"       \<comment> \<open>\<open>None\<close> is \<open>NPOS\<close>\<close>

definition connmap_max_conn :: u64 where
  "connmap_max_conn = push_bit 31 1"

definition connmap_index :: "connmap \<Rightarrow> u64 \<Rightarrow> nat" where
  "connmap_index m i = unat (cm_mask m AND i)"

definition connmap_has_free :: "connmap \<Rightarrow> bool" where
  "connmap_has_free m \<longleftrightarrow> cm_free m \<noteq> None"

definition connmap_push :: "nat \<Rightarrow> connmap \<Rightarrow> connmap option" where
  "connmap_push e m =
     do { es \<leftarrow> cm_map m;
          if e < length es
          then (let (es, f) = slot_push e (es, cm_free m) in Some (m\<lparr>cm_map := Some es, cm_free := f\<rparr>))
          else None }"

definition connmap_pop :: "connmap \<Rightarrow> (nat \<times> connmap) option" where
  "connmap_pop m =
     do { es \<leftarrow> cm_map m; i \<leftarrow> cm_free m;
          if i < length es
          then (case es ! i of Free n \<Rightarrow> Some (i, m\<lparr>cm_free := n\<rparr>) | Used c \<Rightarrow> None)
          else None }"

definition connmap_max :: "connmap \<Rightarrow> u64" where
  "connmap_max m = cm_mask m + 1"

text \<open>Two 32-bit random numbers make one of 64 bits.\<close>

definition connmap_random :: "u32 \<Rightarrow> u32 \<Rightarrow> u64" where
  "connmap_random r1 r2 = push_bit 32 (ucast r1) XOR ucast r2"

definition connmap_init :: "u64 \<Rightarrow> connmap" where
  "connmap_init mx =
     (let mx = (if mx = 0 then 1 else mx);
          mx = (if mx > connmap_max_conn then connmap_max_conn else mx)
      in \<lparr>cm_mask = near_pwr2_64 mx - 1, cm_size = 0, cm_cap = 0, cm_map = None, cm_free = None\<rparr>)"

definition connmap_destroy :: "connmap \<Rightarrow> connmap" where
  "connmap_destroy m = m\<lparr>cm_map := tripm_cfree (cm_map m)\<rparr>"

definition connmap_clear :: "connmap \<Rightarrow> connmap" where
  "connmap_clear m = (let mx = connmap_max m; m = connmap_destroy m in connmap_init mx)"

definition connmap_iter_beg :: "connmap \<Rightarrow> nat" where
  "connmap_iter_beg m = 0"

definition connmap_iter_get :: "connmap \<Rightarrow> nat \<Rightarrow> ptr option" where
  "connmap_iter_get m it =
     do { es \<leftarrow> cm_map m;
          if it < length es
          then Some (case es ! it of Used c \<Rightarrow> Some c | Free n \<Rightarrow> None) else None }"

definition connmap_iter_end :: "connmap \<Rightarrow> nat" where
  "connmap_iter_end m = cm_cap m"

text \<open>
  The first half of \<open>connmap_add\<close>: make sure there is a free entry. \<open>ok\<close> is the outcome
  of the allocation. The new half of a grown array is filled by the loop of pushes, whatever
  it held.
\<close>

fun connmap_push_all :: "nat list \<Rightarrow> connmap \<Rightarrow> connmap option" where
  "connmap_push_all [] m = Some m"
| "connmap_push_all (i # is') m = do { m \<leftarrow> connmap_push i m; connmap_push_all is' m }"

definition connmap_grow :: "bool \<Rightarrow> connmap \<Rightarrow> (errno \<times> connmap) option" where
  "connmap_grow ok m =
     (if connmap_has_free m then Some (EOK, m)
      else let mx = unat (connmap_max m) in
        if cm_size m \<ge> mx then Some (ENOSPC, m)
        else (case cm_map m of
            Some es \<Rightarrow>
              if \<not> ok then Some (ENOMEM, m)
              else do { let i = cm_cap m;
                        let len = cm_cap m * 2;
                        m \<leftarrow> connmap_push_all [i..<len]
                               (m\<lparr>cm_map := Some (es @ replicate (cm_cap m) (Free None)), cm_cap := len\<rparr>);
                        Some (EOK, m) }
          | None \<Rightarrow>
              if \<not> ok then Some (ENOMEM, m)
              else do { m \<leftarrow> connmap_push 0 (m\<lparr>cm_map := Some [Free None], cm_cap := 1\<rparr>);
                        Some (EOK, m) }))"

definition connmap_add ::
  "bool \<Rightarrow> u32 \<Rightarrow> u32 \<Rightarrow> addr \<Rightarrow> connmap \<Rightarrow> connection heap \<Rightarrow> (errno \<times> connmap \<times> connection heap) option" where
  "connmap_add ok r1 r2 conn m h =
     do { (code, m) \<leftarrow> connmap_grow ok m;
          if code \<noteq> EOK then Some (code, m, h)
          else do {
            (index, m) \<leftarrow> connmap_pop m;
            let r = connmap_random r1 r2;
            let i = of_nat index XOR (r AND NOT (cm_mask m));
            h \<leftarrow> heap_upd conn (\<lambda>k. k\<lparr>c_self := (c_self k)\<lparr>self_id := i\<rparr>\<rparr>) h;
            es \<leftarrow> cm_map m;
            Some (EOK, m\<lparr>cm_map := Some (es[index := Used conn]), cm_size := cm_size m + 1\<rparr>, h) } }"

definition conn_id :: "connection heap \<Rightarrow> addr \<Rightarrow> u64 option" where
  "conn_id h c = map_option (\<lambda>k. self_id (c_self k)) (h c)"

definition connmap_del :: "u64 \<Rightarrow> connmap \<Rightarrow> connection heap \<Rightarrow> (ptr \<times> connmap) option" where
  "connmap_del i m h =
     (let index = connmap_index m i in
      if index < cm_cap m
      then do { es \<leftarrow> cm_map m;
                case es ! index of
                  Free n \<Rightarrow> Some (None, m)
                | Used c \<Rightarrow>
                    do { ci \<leftarrow> conn_id h c;
                         if i = ci
                         then do { m \<leftarrow> connmap_push index m;
                                   let m = m\<lparr>cm_size := cm_size m - 1\<rparr>;
                                   Some (Some c, if cm_size m = 0 then connmap_clear m else m) }
                         else Some (None, m) } }
      else Some (None, m))"

definition connmap_get :: "u64 \<Rightarrow> connmap \<Rightarrow> connection heap \<Rightarrow> ptr option" where
  "connmap_get i m h =
     (let index = connmap_index m i in
      if index < cm_cap m
      then do { es \<leftarrow> cm_map m;
                case es ! index of
                  Free n \<Rightarrow> Some None
                | Used c \<Rightarrow> do { ci \<leftarrow> conn_id h c; Some (if i = ci then Some c else None) } }
      else Some None)"

section \<open>The invariant and the map a state stands for\<close>

definition cm_slots :: "connmap \<Rightarrow> addr slot list" where
  "cm_slots m = (case cm_map m of None \<Rightarrow> [] | Some es \<Rightarrow> es)"

definition pow_mask :: "u64 \<Rightarrow> nat \<Rightarrow> bool" where
  "pow_mask mk k \<longleftrightarrow> k \<le> 31 \<and> mk = 2 ^ k - 1"

text \<open>
  The capacity is a power of two up to the number of identifiers, the free list covers the
  free entries, and the identifier of the connection in an entry has the entry's index as its
  low part.
\<close>

definition connmap_ok :: "connection heap \<Rightarrow> connmap \<Rightarrow> bool" where
  "connmap_ok h m \<longleftrightarrow>
     (\<exists>k. pow_mask (cm_mask m) k \<and> (cm_map m \<noteq> None \<longrightarrow> (\<exists>j \<le> k. cm_cap m = 2 ^ j))) \<and>
     (cm_map m = None \<longrightarrow> cm_cap m = 0) \<and>
     length (cm_slots m) = cm_cap m \<and> slots_ok (cm_slots m) (cm_free m) \<and>
     cm_size m = used_count (cm_slots m) \<and>
     (\<forall>i c. i < cm_cap m \<longrightarrow> cm_slots m ! i = Used c \<longrightarrow>
        (\<exists>x. conn_id h c = Some x \<and> connmap_index m x = i))"

definition cm_holds :: "connection heap \<Rightarrow> connmap \<Rightarrow> u64 \<Rightarrow> addr \<Rightarrow> bool" where
  "cm_holds h m x c \<longleftrightarrow> conn_id h c = Some x \<and> (\<exists>i < cm_cap m. cm_slots m ! i = Used c)"

lemma pow_mask_index: "pow_mask mk k \<Longrightarrow> unat (mk AND x) = unat x mod 2 ^ k"
proof -
  assume "pow_mask mk k"
  then have "mk AND x = take_bit k x"
    by (simp add: pow_mask_def take_bit_eq_mask mask_eq_exp_minus_1 and.commute)
  then have "unat (mk AND x) = take_bit k (unat x)" by (simp only: unsigned_take_bit_eq)
  then show ?thesis by (simp only: take_bit_nat_def)
qed

lemma pow_mask_max: "pow_mask mk k \<Longrightarrow> unat (mk + 1) = 2 ^ k"
  by (simp add: pow_mask_def unat_exp)

lemma pow_mask_init:
  assumes "unat mx \<le> 2 ^ 31" "0 < unat mx"
  obtains k where "pow_mask (near_pwr2_64 mx - 1) k" "unat mx \<le> 2 ^ k" "k = 0 \<or> 2 ^ (k - 1) < unat mx"
proof -
  have "unat mx \<le> 2 ^ 63" using assms(1) by simp
  with assms(2) obtain k where k: "k \<le> 63" "unat (near_pwr2_64 mx) = 2 ^ k" "unat mx \<le> 2 ^ k"
    "k = 0 \<or> 2 ^ (k - 1) < unat mx"
    by (rule near_pwr2_64_least)
  have "k \<le> 31"
  proof (cases "k = 0")
    case False
    with k(4) assms(1) have "(2::nat) ^ (k - 1) < 2 ^ 31" by (blast intro: less_le_trans)
    then show ?thesis by (simp only: power_strict_increasing_iff)
  qed simp
  moreover have "near_pwr2_64 mx = 2 ^ k"
    using k(1,2) by (simp add: word_unat_eq_iff unat_exp)
  ultimately show ?thesis using that [of k] k by (simp add: pow_mask_def)
qed

lemma connmap_push_eq:
  "cm_map m = Some es \<Longrightarrow> i < length es \<Longrightarrow>
     connmap_push i m = Some (m\<lparr>cm_map := Some (es[i := Free (cm_free m)]), cm_free := Some i\<rparr>)"
  by (simp add: connmap_push_def slot_push_def)

lemma connmap_push_all_eq:
  assumes "cm_map m = Some es" "\<forall>i \<in> set xs. i < length es"
  shows "connmap_push_all xs m =
    (let (es', f) = fold slot_push xs (es, cm_free m) in Some (m\<lparr>cm_map := Some es', cm_free := f\<rparr>))"
  using assms
proof (induction xs arbitrary: m es)
  case (Cons i xs)
  then show ?case
    by (simp add: connmap_push_eq slot_push_def Let_def split_def)
qed simp

lemma connmap_init_ok:
  "connmap_ok h (connmap_init mx)" "\<not> cm_holds h (connmap_init mx) x c"
proof -
  let ?m = "if (if mx = 0 then 1 else mx) > connmap_max_conn then connmap_max_conn else (if mx = 0 then 1 else mx)"
  have m: "unat connmap_max_conn = 2 ^ 31" by (simp add: connmap_max_conn_def)
  then have "unat ?m \<le> 2 ^ 31" "0 < unat ?m"
    by (auto simp: word_less_nat_alt unsigned_eq_0_iff not_less simp flip: neq0_conv)
  then obtain k where "pow_mask (near_pwr2_64 ?m - 1) k" by (rule pow_mask_init)
  then show "connmap_ok h (connmap_init mx)"
    by (auto simp: connmap_init_def Let_def connmap_ok_def cm_slots_def slots_ok_None free_set_def)
  show "\<not> cm_holds h (connmap_init mx) x c"
    by (simp add: cm_holds_def connmap_init_def Let_def)
qed

lemma connmap_clear_eq:
  assumes "pow_mask (cm_mask m) k"
  shows "connmap_clear m = \<lparr>cm_mask = cm_mask m, cm_size = 0, cm_cap = 0, cm_map = None, cm_free = None\<rparr>"
proof -
  have k: "k \<le> 31" "cm_mask m + 1 = 2 ^ k" using assms by (simp_all add: pow_mask_def)
  have "unat (2 ^ k :: u64) = 2 ^ k" using k(1) by (simp add: unat_exp)
  then have "(2 ^ k :: u64) \<noteq> 0" by (metis power_not_zero unsigned_0 zero_neq_numeral)
  moreover have "(2::nat) ^ k \<le> 2 ^ 31" using k(1) by (intro power_increasing) simp_all
  then have "\<not> connmap_max_conn < (2 ^ k :: u64)"
    using \<open>unat (2 ^ k :: u64) = 2 ^ k\<close> by (simp add: word_less_nat_alt connmap_max_conn_def)
  moreover have "near_pwr2_64 (2 ^ k) = 2 ^ k" using k(1) by (intro near_pwr2_64_power) simp
  moreover have "cm_mask m = 2 ^ k - 1" using assms by (simp add: pow_mask_def)
  ultimately show ?thesis
    by (simp add: connmap_clear_def connmap_max_def connmap_destroy_def connmap_init_def Let_def)
qed

text \<open>Growing keeps what the map holds and leaves a free entry, or says why it cannot.\<close>

lemma connmap_grow_ok:
  assumes ok: "connmap_ok h m"
  shows "\<exists>e m'. connmap_grow b m = Some (e, m') \<and> connmap_ok h m' \<and> cm_mask m' = cm_mask m \<and>
    cm_size m' = cm_size m \<and> (\<forall>x c. cm_holds h m' x c \<longleftrightarrow> cm_holds h m x c) \<and>
    (if e = EOK then connmap_has_free m' else m' = m) \<and>
    (e = ENOSPC \<longleftrightarrow> cm_size m = unat (connmap_max m)) \<and> (e \<in> {EOK, ENOSPC, ENOMEM}) \<and> (b \<longrightarrow> e \<noteq> ENOMEM)"
proof -
  from ok obtain k where k: "pow_mask (cm_mask m) k" "cm_map m \<noteq> None \<longrightarrow> (\<exists>j \<le> k. cm_cap m = 2 ^ j)"
    by (auto simp: connmap_ok_def)
  have mx: "unat (connmap_max m) = 2 ^ k" using k(1) by (simp add: connmap_max_def pow_mask_max)
  have len: "length (cm_slots m) = cm_cap m" "slots_ok (cm_slots m) (cm_free m)"
    "cm_size m = used_count (cm_slots m)" using ok by (simp_all add: connmap_ok_def)
  have cap: "cm_cap m \<le> 2 ^ k"
    using ok k(2) by (cases "cm_map m") (auto simp: connmap_ok_def intro: power_increasing)
  have used_le: "used_count (cm_slots m) \<le> cm_cap m"
    using used_count_le [of "cm_slots m"] len(1) by simp
  show ?thesis
  proof (cases "cm_free m")
    case (Some i)
    have "used_count (cm_slots m) \<noteq> cm_cap m"
    proof -
      obtain n where i: "i < length (cm_slots m)" "cm_slots m ! i = Free n"
        using slots_ok_Some len(2) Some by metis
      have "used_count ((cm_slots m)[i := Used 0]) \<le> length (cm_slots m)"
        using used_count_le [of "(cm_slots m)[i := Used 0]"] by simp
      with used_count_fill [OF i] len(1) show ?thesis by simp
    qed
    with cap used_le len(3) mx have "cm_size m \<noteq> unat (connmap_max m)" by linarith
    moreover have "connmap_has_free m" using Some by (simp add: connmap_has_free_def)
    ultimately show ?thesis
      using ok by (intro exI [of _ EOK] exI [of _ m]) (simp add: connmap_grow_def)
  next
    case None
    have full: "free_set (cm_slots m) = {}" using len(2) None by (simp add: slots_ok_None)
    then have sz: "cm_size m = cm_cap m" using len by (simp add: used_count_full)
    show ?thesis
    proof (cases "cm_size m \<ge> 2 ^ k")
      case True
      with None ok mx sz cap show ?thesis by (auto simp: connmap_grow_def connmap_has_free_def Let_def)
    next
      case False
      show ?thesis
      proof (cases "cm_map m")
        case map: None
        then have z: "cm_cap m = 0" "cm_size m = 0" using ok sz by (auto simp: connmap_ok_def)
        let ?m = "m\<lparr>cm_map := Some [Free None], cm_cap := 1, cm_free := Some 0\<rparr>"
        have "slots_ok ([] @ [Free None :: addr slot]) (Some (length ([] :: addr slot list)))"
          by (rule slots_ok_extend) (simp add: slots_ok_None free_set_def)
        then have "slots_ok [Free None :: addr slot] (Some 0)" by simp
        moreover have "used_count ([] @ [Free None :: addr slot]) = 0" by (simp only: used_count_append_free used_count_Nil)
        moreover have "\<exists>k'. pow_mask (cm_mask ?m) k' \<and> (cm_map ?m \<noteq> None \<longrightarrow> (\<exists>j \<le> k'. cm_cap ?m = 2 ^ j))"
          using k(1) by (intro exI [of _ k]) (auto intro: exI [of _ 0])
        ultimately have "connmap_ok h ?m"
          using z by (simp add: connmap_ok_def cm_slots_def)
        then show ?thesis
          using map None ok False mx z k
          by (auto simp: connmap_grow_def connmap_has_free_def Let_def connmap_push_def slot_push_def
              cm_holds_def cm_slots_def connmap_ok_def)
      next
        case map: (Some es)
        then have es: "cm_slots m = es" by (simp add: cm_slots_def)
        obtain j where j: "j \<le> k" "cm_cap m = 2 ^ j" using k(2) map by auto
        then have "(2::nat) ^ j < 2 ^ k" using False sz by simp
        then have jk: "Suc j \<le> k" by (simp only: power_strict_increasing_iff Suc_le_eq)
        let ?es = "es @ replicate (cm_cap m) (Free None)"
        let ?m = "m\<lparr>cm_map := Some ?es, cm_cap := cm_cap m * 2\<rparr>"
        have pre: "slots_ok (take (cm_cap m) ?es) (cm_free m)" "cm_cap m + cm_cap m \<le> length ?es"
          using len es by simp_all
        obtain es' p' where f: "fold slot_push [cm_cap m..<cm_cap m + cm_cap m] (?es, cm_free m) = (es', p')"
          "length es' = length ?es" "slots_ok (take (cm_cap m + cm_cap m) es') p'"
          "take (cm_cap m) es' = take (cm_cap m) ?es"
          "\<forall>i. cm_cap m \<le> i \<longrightarrow> i < cm_cap m + cm_cap m \<longrightarrow> (\<exists>q. es' ! i = Free q)"
          "0 < cm_cap m \<longrightarrow> p' \<noteq> None"
          using slots_ok_range [OF pre] by (elim exE conjE) (rule that)
        have le: "length es' = cm_cap m * 2" using f(2) len(1) es by simp
        have old: "i < cm_cap m \<Longrightarrow> es' ! i = es ! i" for i
          using f(4) len(1) es by (metis append_eq_conv_conj nth_take)
        have used: "i < cm_cap m * 2 \<and> es' ! i = Used c \<longleftrightarrow> i < cm_cap m \<and> es ! i = Used c" for i c
        proof (cases "i < cm_cap m")
          case False
          then have "i < cm_cap m * 2 \<Longrightarrow> \<exists>q. es' ! i = Free q" using f(5) by simp
          with False show ?thesis by auto
        qed (use old in simp)
        let ?m' = "?m\<lparr>cm_map := Some es', cm_free := p'\<rparr>"
        have push: "connmap_push_all [cm_cap m..<cm_cap m * 2] ?m = Some ?m'"
          using f(1) len(1) es by (subst connmap_push_all_eq [of _ ?es]) (auto simp: mult_2_right)
        have cnt: "used_count es' = used_count es"
        proof -
          have "{i. i < length es' \<and> (\<exists>x. es' ! i = Used x)} = {i. i < length es \<and> (\<exists>x. es ! i = Used x)}"
            using used le len(1) es by auto
          then show ?thesis by (simp add: used_count_def)
        qed
        have slots: "slots_ok es' p'" using f(3) le by (simp add: mult_2_right)
        have "cm_cap m * 2 = 2 ^ Suc j" using j by simp
        then have pow: "\<exists>k'. pow_mask (cm_mask ?m') k' \<and> (cm_map ?m' \<noteq> None \<longrightarrow> (\<exists>j \<le> k'. cm_cap ?m' = 2 ^ j))"
          using k(1) jk by (intro exI [of _ k] conjI impI exI [of _ "Suc j"]) simp_all
        have "\<exists>x. conn_id h c = Some x \<and> connmap_index ?m' x = i" if "i < cm_cap ?m'" "es' ! i = Used c" for i c
        proof -
          have "i < cm_cap m" "es ! i = Used c" using used [of i c] that by simp_all
          then show ?thesis using ok es by (auto simp: connmap_ok_def connmap_index_def)
        qed
        then have "connmap_ok h ?m'"
          using pow slots cnt le len(3) es by (simp add: connmap_ok_def cm_slots_def)
        moreover have "connmap_grow b m = Some (if b then (EOK, ?m') else (ENOMEM, m))"
          using push map None False mx by (simp add: connmap_grow_def connmap_has_free_def Let_def)
        moreover have "cm_holds h ?m' x c \<longleftrightarrow> cm_holds h m x c" for x c
          using used es by (auto simp: cm_holds_def cm_slots_def)
        moreover have "p' \<noteq> None" using f(6) j(2) by simp
        ultimately show ?thesis using ok sz False mx by (auto simp: connmap_has_free_def)
      qed
    qed
  qed
qed

section \<open>Lookup, insertion, deletion\<close>

lemma connmap_okD:
  assumes "connmap_ok h m" "i < cm_cap m"
  obtains es where "cm_map m = Some es" "cm_slots m = es" "length es = cm_cap m"
  using assms by (cases "cm_map m") (auto simp: connmap_ok_def cm_slots_def)

lemma cm_holds_index:
  "connmap_ok h m \<Longrightarrow> cm_holds h m x c \<longleftrightarrow>
     connmap_index m x < cm_cap m \<and> cm_slots m ! connmap_index m x = Used c \<and> conn_id h c = Some x"
  by (auto simp: cm_holds_def connmap_ok_def)

lemma connmap_ok_live:
  "connmap_ok h m \<Longrightarrow> i < cm_cap m \<Longrightarrow> cm_slots m ! i = Used c \<Longrightarrow>
     \<exists>x. conn_id h c = Some x \<and> connmap_index m x = i"
  by (simp add: connmap_ok_def)

lemma connmap_get_ok:
  assumes "connmap_ok h m"
  shows "\<exists>r. connmap_get i m h = Some r \<and> (\<forall>c. r = Some c \<longleftrightarrow> cm_holds h m i c)"
proof (cases "connmap_index m i < cm_cap m")
  case True
  then obtain es where es: "cm_map m = Some es" "cm_slots m = es" using connmap_okD assms by blast
  show ?thesis
  proof (cases "es ! connmap_index m i")
    case (Free n)
    with True es show ?thesis by (simp add: connmap_get_def Let_def cm_holds_index [OF assms])
  next
    case (Used c)
    then obtain x where "conn_id h c = Some x" using connmap_ok_live assms True es by blast
    with Used True es show ?thesis
      by (auto simp: connmap_get_def Let_def cm_holds_index [OF assms])
  qed
qed (simp add: connmap_get_def Let_def cm_holds_index [OF assms])

text \<open>The index is recovered from an identifier, whatever the random bits are.\<close>

lemma index_of_id:
  assumes "pow_mask mk k" "index < 2 ^ k"
  shows "unat (mk AND (of_nat index XOR (r AND NOT mk))) = index"
proof -
  have "mk AND (of_nat index XOR (r AND NOT mk)) = mk AND of_nat index"
    by (rule bit_word_eqI) (auto simp: bit_simps)
  moreover have "index < 2 ^ 64"
  proof -
    have "(2::nat) ^ k \<le> 2 ^ 64" using assms(1) by (intro power_increasing) (simp_all add: pow_mask_def)
    with assms(2) show ?thesis by simp
  qed
  then have "unat (of_nat index :: u64) = index" by (intro of_nat_inverse) simp_all
  ultimately show ?thesis using assms by (simp add: pow_mask_index)
qed

lemma conn_id_upd:
  "h conn = Some k \<Longrightarrow>
     conn_id (h(conn \<mapsto> k\<lparr>c_self := (c_self k)\<lparr>self_id := x\<rparr>\<rparr>)) c = (if c = conn then Some x else conn_id h c)"
  by (simp add: conn_id_def)

lemma connmap_add_ok:
  assumes ok: "connmap_ok h m" and live: "h conn = Some k" and new: "\<And>x. \<not> cm_holds h m x conn"
  shows "\<exists>e m' h'. connmap_add b r1 r2 conn m h = Some (e, m', h') \<and> connmap_ok h' m' \<and>
    (if e = EOK
     then \<exists>x. h' = h(conn \<mapsto> k\<lparr>c_self := (c_self k)\<lparr>self_id := x\<rparr>\<rparr>) \<and> (\<forall>c. \<not> cm_holds h m x c) \<and>
       (\<forall>y c. cm_holds h' m' y c \<longleftrightarrow> cm_holds h m y c \<or> y = x \<and> c = conn) \<and> cm_size m' = cm_size m + 1 \<and>
       cm_mask m' = cm_mask m
     else m' = m \<and> h' = h) \<and>
    (e = ENOSPC \<longleftrightarrow> cm_size m = unat (connmap_max m)) \<and> e \<in> {EOK, ENOSPC, ENOMEM} \<and> (b \<longrightarrow> e \<noteq> ENOMEM)"
proof -
  obtain e m1 where g: "connmap_grow b m = Some (e, m1)" "connmap_ok h m1" "cm_mask m1 = cm_mask m"
    "cm_size m1 = cm_size m" "\<forall>x c. cm_holds h m1 x c \<longleftrightarrow> cm_holds h m x c"
    "if e = EOK then connmap_has_free m1 else m1 = m"
    "e = ENOSPC \<longleftrightarrow> cm_size m = unat (connmap_max m)" "e \<in> {EOK, ENOSPC, ENOMEM}" "b \<longrightarrow> e \<noteq> ENOMEM"
    using connmap_grow_ok [OF ok, of b] by blast
  show ?thesis
  proof (cases "e = EOK")
    case False
    with g ok show ?thesis by (intro exI [of _ e] exI [of _ m] exI [of _ h]) (simp add: connmap_add_def)
  next
    case True
    then obtain i where i: "cm_free m1 = Some i" using g(6) by (auto simp: connmap_has_free_def)
    have sl: "slots_ok (cm_slots m1) (Some i)" using g(2) i by (simp add: connmap_ok_def)
    obtain n where n: "i < length (cm_slots m1)" "cm_slots m1 ! i = Free n"
      "\<And>x. slots_ok ((cm_slots m1)[i := Used x]) n"
      using slots_ok_Some [OF sl] by blast
    then have icap: "i < cm_cap m1" using g(2) by (simp add: connmap_ok_def)
    then obtain es where es: "cm_map m1 = Some es" "cm_slots m1 = es" "length es = cm_cap m1"
      using connmap_okD g(2) by blast
    from g(2) obtain k' where k': "pow_mask (cm_mask m1) k'" "\<exists>j \<le> k'. cm_cap m1 = 2 ^ j"
      using es(1) by (auto simp: connmap_ok_def)
    then have "i < 2 ^ k'" using icap by (metis less_le_trans one_le_numeral power_increasing)
    define x where "x = of_nat i XOR (connmap_random r1 r2 AND NOT (cm_mask m1))"
    have ix: "unat (cm_mask m1 AND x) = i"
      unfolding x_def by (rule index_of_id [OF k'(1) \<open>i < 2 ^ k'\<close>])
    let ?m = "m1\<lparr>cm_free := n, cm_map := Some (es[i := Used conn]), cm_size := cm_size m1 + 1\<rparr>"
    let ?h = "h(conn \<mapsto> k\<lparr>c_self := (c_self k)\<lparr>self_id := x\<rparr>\<rparr>)"
    have add: "connmap_add b r1 r2 conn m h = Some (EOK, ?m, ?h)"
      using g(1) True i es n live by (simp add: connmap_add_def connmap_pop_def x_def Let_def)
    have notin: "es ! j \<noteq> Used conn" if "j < cm_cap m1" for j
    proof
      note j = that
      assume u: "es ! j = Used conn"
      then obtain y where "conn_id h conn = Some y"
        using connmap_ok_live [OF g(2) j, of conn] es(2) by auto
      then have "cm_holds h m1 y conn" using u j es(2) by (auto simp: cm_holds_def)
      with g(5) new show False by blast
    qed
    have slot: "es[i := Used conn] ! j = Used c \<longleftrightarrow> (if j = i then c = conn else es ! j = Used c)"
      if "j < cm_cap m1" for j c
      using that es(3) by (auto simp: nth_list_update)
    have "\<exists>y. conn_id ?h c = Some y \<and> connmap_index ?m y = j"
      if j: "j < cm_cap m1" "es[i := Used conn] ! j = Used c" for j c
    proof (cases "c = conn")
      case True
      then have "j = i" using slot [OF j(1), of c] j notin by (auto split: if_splits)
      with True ix live show ?thesis by (simp add: conn_id_upd connmap_index_def)
    next
      case False
      then have "es ! j = Used c" using slot [OF j(1), of c] j by (auto split: if_splits)
      then obtain y where "conn_id h c = Some y" "connmap_index m1 y = j"
        using connmap_ok_live [OF g(2) j(1)] es by auto
      with False live show ?thesis by (simp add: conn_id_upd connmap_index_def)
    qed
    moreover have "used_count (es[i := Used conn]) = Suc (used_count es)"
      using used_count_fill [OF n(1,2)] es(2) by simp
    ultimately have "connmap_ok ?h ?m"
      using g(2) es n(3) by (simp add: connmap_ok_def cm_slots_def)
    moreover have "\<not> cm_holds h m x c" for c
      using g(2,5) ix n(2) cm_holds_index [OF g(2), of x c] by (auto simp: connmap_index_def)
    moreover have "cm_holds ?h ?m y c \<longleftrightarrow> cm_holds h m y c \<or> y = x \<and> c = conn" for y c
    proof -
      have "cm_holds ?h ?m y c \<longleftrightarrow>
          (if c = conn then y = x else conn_id h c = Some y) \<and> (\<exists>j < cm_cap m1. es[i := Used conn] ! j = Used c)"
        using live by (auto simp: cm_holds_def cm_slots_def conn_id_upd)
      also have "(\<exists>j < cm_cap m1. es[i := Used conn] ! j = Used c) \<longleftrightarrow> c = conn \<or> (\<exists>j < cm_cap m1. es ! j = Used c)"
        using slot icap notin n(2) es(2) by (metis slot.distinct(1))
      finally have eq: "cm_holds ?h ?m y c \<longleftrightarrow> (if c = conn then y = x else conn_id h c = Some y) \<and>
          (c = conn \<or> (\<exists>j < cm_cap m1. es ! j = Used c))" .
      have "cm_holds h m y c \<longleftrightarrow> conn_id h c = Some y \<and> (\<exists>j < cm_cap m1. es ! j = Used c)"
        using g(5) es(2) by (simp add: cm_holds_def)
      with new [of y] show ?thesis unfolding eq by (cases "c = conn") auto
    qed
    ultimately show ?thesis
      using add g(3,4,7,8,9) True
      by (intro exI [of _ EOK] exI [of _ ?m] exI [of _ ?h]) auto
  qed
qed

lemma connmap_del_ok:
  assumes ok: "connmap_ok h m"
  shows "\<exists>r m'. connmap_del x m h = Some (r, m') \<and> connmap_ok h m' \<and>
    (\<forall>c. r = Some c \<longleftrightarrow> cm_holds h m x c) \<and> (\<forall>y c. cm_holds h m' y c \<longleftrightarrow> cm_holds h m y c \<and> y \<noteq> x) \<and>
    cm_mask m' = cm_mask m"
proof (cases "\<exists>c. cm_holds h m x c")
  case False
  then have none: "connmap_index m x < cm_cap m \<Longrightarrow> cm_slots m ! connmap_index m x = Used c \<Longrightarrow> conn_id h c \<noteq> Some x" for c
    using cm_holds_index [OF ok] by blast
  have "connmap_del x m h = Some (None, m)"
  proof (cases "connmap_index m x < cm_cap m")
    case True
    then obtain es where es: "cm_map m = Some es" "cm_slots m = es" using connmap_okD ok by blast
    show ?thesis
    proof (cases "es ! connmap_index m x")
      case (Used c)
      then obtain y where "conn_id h c = Some y" using connmap_ok_live ok True es by blast
      with Used True es none show ?thesis by (auto simp: connmap_del_def Let_def)
    qed (use True es in \<open>simp add: connmap_del_def Let_def\<close>)
  qed (simp add: connmap_del_def Let_def)
  with ok False show ?thesis by auto
next
  case True
  then obtain c where c: "cm_holds h m x c" by blast
  let ?i = "connmap_index m x"
  have i: "?i < cm_cap m" "cm_slots m ! ?i = Used c" "conn_id h c = Some x"
    using c cm_holds_index [OF ok] by blast+
  then obtain es where es: "cm_map m = Some es" "cm_slots m = es" "length es = cm_cap m"
    using connmap_okD ok by blast
  obtain k where k: "pow_mask (cm_mask m) k" "\<exists>j \<le> k. cm_cap m = 2 ^ j"
    using ok es(1) by (auto simp: connmap_ok_def)
  let ?es = "es[?i := Free (cm_free m)]"
  let ?m = "m\<lparr>cm_map := Some ?es, cm_free := Some ?i, cm_size := cm_size m - 1\<rparr>"
  have used: "?es ! j = Used d \<longleftrightarrow> j \<noteq> ?i \<and> es ! j = Used d" if "j < cm_cap m" for j d
    using that es(3) by (cases "j = ?i") simp_all
  have cnt: "used_count es = Suc (used_count ?es)"
    using used_count_clear [of ?i es c] i es by simp
  have "slots_ok ?es (Some ?i)"
    using slots_ok_push [of es "cm_free m" ?i c] ok i es by (simp add: connmap_ok_def)
  moreover have "\<exists>y. conn_id h d = Some y \<and> connmap_index ?m y = j" if "j < cm_cap m" "?es ! j = Used d" for j d
    using connmap_ok_live [OF ok that(1)] used [OF that(1)] that(2) es(2) by (auto simp: connmap_index_def)
  moreover have "cm_size m = used_count es" using ok es by (simp add: connmap_ok_def)
  ultimately have ok1: "connmap_ok h ?m"
    using ok k es cnt by (auto simp: connmap_ok_def cm_slots_def)
  have holds1: "cm_holds h ?m y d \<longleftrightarrow> cm_holds h m y d \<and> y \<noteq> x" for y d
  proof -
    have "cm_holds h ?m y d \<longleftrightarrow> conn_id h d = Some y \<and> (\<exists>j < cm_cap m. j \<noteq> ?i \<and> es ! j = Used d)"
      using used by (auto simp: cm_holds_def cm_slots_def)
    also have "\<dots> \<longleftrightarrow> cm_holds h m y d \<and> y \<noteq> x"
    proof
      assume "conn_id h d = Some y \<and> (\<exists>j < cm_cap m. j \<noteq> ?i \<and> es ! j = Used d)"
      then show "cm_holds h m y d \<and> y \<noteq> x"
        using connmap_ok_live [OF ok] es(2) by (fastforce simp: cm_holds_def)
    next
      assume "cm_holds h m y d \<and> y \<noteq> x"
      then show "conn_id h d = Some y \<and> (\<exists>j < cm_cap m. j \<noteq> ?i \<and> es ! j = Used d)"
        using i es(2) by (auto simp: cm_holds_def)
    qed
    finally show ?thesis .
  qed
  have unique: "cm_holds h m x d \<longleftrightarrow> d = c" for d
    using c i cm_holds_index [OF ok, of x d] by auto
  have del: "connmap_del x m h = Some (Some c, if cm_size m - 1 = 0 then connmap_clear ?m else ?m)"
    using i es by (simp add: connmap_del_def Let_def connmap_push_eq)
  show ?thesis
  proof (cases "cm_size m - 1 = 0")
    case True
    let ?c = "\<lparr>cm_mask = cm_mask m, cm_size = 0, cm_cap = 0, cm_map = None, cm_free = None\<rparr>"
    have "connmap_clear ?m = ?c" using connmap_clear_eq [of ?m k] k(1) by simp
    moreover have "connmap_ok h ?c"
      using k(1) by (auto simp: connmap_ok_def cm_slots_def slots_ok_None free_set_def)
    moreover have "\<not> cm_holds h ?m y d" for y d
    proof -
      have "used_count ?es = 0" using True cnt ok es by (simp add: connmap_ok_def)
      then show ?thesis using es(3) by (auto simp: cm_holds_def cm_slots_def used_count_0)
    qed
    moreover have "\<not> cm_holds h ?c y d" for y d by (simp add: cm_holds_def)
    ultimately show ?thesis
      using del True holds1 unique by (intro exI [of _ "Some c"] exI [of _ ?c]) auto
  next
    case False
    with del ok1 holds1 unique show ?thesis
      by (intro exI [of _ "Some c"] exI [of _ ?m]) auto
  qed
qed

section \<open>The map as an interface\<close>

text \<open>
  The state is the map with the memory of the connections; what the environment decides of an
  insertion is the outcome of the allocation and two random numbers.
\<close>

definition cm_add :: "bool \<times> u32 \<times> u32 \<Rightarrow> addr \<Rightarrow> connmap \<times> connection heap \<Rightarrow> (errno \<times> connmap \<times> connection heap) option" where
  "cm_add r c s = (case r of (ok, r1, r2) \<Rightarrow> connmap_add ok r1 r2 c (fst s) (snd s))"

definition cm_del :: "u64 \<Rightarrow> connmap \<times> connection heap \<Rightarrow> (ptr \<times> connmap \<times> connection heap) option" where
  "cm_del i s = map_option (\<lambda>(c, m). (c, m, snd s)) (connmap_del i (fst s) (snd s))"

interpretation cm: registry "\<lambda>s. connmap_ok (snd s) (fst s)" "\<lambda>s. cm_holds (snd s) (fst s)"
  "\<lambda>c s. snd s c \<noteq> None" "\<lambda>i s. connmap_get i (fst s) (snd s)" cm_add cm_del
proof
  fix s :: "connmap \<times> connection heap" and k
  assume "connmap_ok (snd s) (fst s)"
  then show "\<exists>r. connmap_get k (fst s) (snd s) = Some r \<and> (\<forall>v. r = Some v \<longleftrightarrow> cm_holds (snd s) (fst s) k v)"
    by (rule connmap_get_ok)
next
  fix s :: "connmap \<times> connection heap" and v and r :: "bool \<times> u32 \<times> u32"
  assume ok: "connmap_ok (snd s) (fst s)" "snd s v \<noteq> None" and new: "\<forall>k. \<not> cm_holds (snd s) (fst s) k v"
  obtain k where k: "snd s v = Some k" using ok(2) by auto
  obtain b r1 r2 where r: "r = (b, r1, r2)" by (cases r)
  obtain e m' h' where a: "connmap_add b r1 r2 v (fst s) (snd s) = Some (e, m', h')" "connmap_ok h' m'"
    "if e = EOK
     then \<exists>x. h' = (snd s)(v \<mapsto> k\<lparr>c_self := (c_self k)\<lparr>self_id := x\<rparr>\<rparr>) \<and>
       (\<forall>c. \<not> cm_holds (snd s) (fst s) x c) \<and>
       (\<forall>y c. cm_holds h' m' y c \<longleftrightarrow> cm_holds (snd s) (fst s) y c \<or> y = x \<and> c = v) \<and>
       cm_size m' = cm_size (fst s) + 1 \<and> cm_mask m' = cm_mask (fst s)
     else m' = fst s \<and> h' = snd s"
    using connmap_add_ok [OF ok(1) k, of b r1 r2] new by blast
  have live: "h' w \<noteq> None \<longleftrightarrow> snd s w \<noteq> None" for w using a(3) k by (auto split: if_splits)
  show "\<exists>e s'. cm_add r v s = Some (e, s') \<and> connmap_ok (snd s') (fst s') \<and>
      (\<forall>w. (snd s' w \<noteq> None) = (snd s w \<noteq> None)) \<and>
      (if e = EOK
       then \<exists>k. (\<forall>w. \<not> cm_holds (snd s) (fst s) k w) \<and>
           (\<forall>j w. cm_holds (snd s') (fst s') j w \<longleftrightarrow> cm_holds (snd s) (fst s) j w \<or> j = k \<and> w = v)
       else s' = s)"
    using a live
    by (intro exI [of _ e] exI [of _ "(m', h')"]) (cases "e = EOK"; auto simp: cm_add_def r)
next
  fix s :: "connmap \<times> connection heap" and k
  assume "connmap_ok (snd s) (fst s)"
  from connmap_del_ok [OF this, of k] obtain r m' where "connmap_del k (fst s) (snd s) = Some (r, m')"
    "connmap_ok (snd s) m'" "\<forall>c. r = Some c \<longleftrightarrow> cm_holds (snd s) (fst s) k c"
    "\<forall>y c. cm_holds (snd s) m' y c \<longleftrightarrow> cm_holds (snd s) (fst s) y c \<and> y \<noteq> k" by blast
  then show "\<exists>r s'. cm_del k s = Some (r, s') \<and> connmap_ok (snd s') (fst s') \<and>
      (\<forall>w. (snd s' w \<noteq> None) = (snd s w \<noteq> None)) \<and>
      (\<forall>v. (r = Some v) = cm_holds (snd s) (fst s) k v) \<and>
      (\<forall>j w. cm_holds (snd s') (fst s') j w \<longleftrightarrow> cm_holds (snd s) (fst s) j w \<and> j \<noteq> k)"
    by (intro exI [of _ r] exI [of _ "(m', snd s)"]) (simp add: cm_del_def)
qed

section \<open>The properties\<close>

text \<open>A fresh map for four connections and two live connections, for concrete runs.\<close>

definition cm_demo :: "connmap \<times> connection heap" where
  "cm_demo = (connmap_init 4, [1 \<mapsto> connection_zero 24, 2 \<mapsto> connection_zero 24])"

text \<open>C17: adding a connection gives it an identifier no other connection has, whatever the random
  bits are, and changes nothing else of the map. It fails with \<open>ENOSPC\<close> exactly when the map
  holds as many connections as it has identifiers, with \<open>ENOMEM\<close> only when an allocation
  failed, and a failure changes nothing.\<close>

theorem connmap_add_correct:
  assumes "connmap_ok h m" "h conn = Some k" "\<forall>x. \<not> cm_holds h m x conn"
  shows "\<exists>e m' h'. connmap_add b r1 r2 conn m h = Some (e, m', h') \<and> connmap_ok h' m' \<and>
    (if e = EOK
     then \<exists>x. h' = h(conn \<mapsto> k\<lparr>c_self := (c_self k)\<lparr>self_id := x\<rparr>\<rparr>) \<and> (\<forall>c. \<not> cm_holds h m x c) \<and>
       (\<forall>y c. cm_holds h' m' y c \<longleftrightarrow> cm_holds h m y c \<or> y = x \<and> c = conn) \<and> cm_size m' = cm_size m + 1 \<and>
       cm_mask m' = cm_mask m
     else m' = m \<and> h' = h) \<and>
    (e = ENOSPC \<longleftrightarrow> cm_size m = unat (connmap_max m)) \<and> e \<in> {EOK, ENOSPC, ENOMEM} \<and> (b \<longrightarrow> e \<noteq> ENOMEM)"
  by (rule connmap_add_ok [OF assms(1,2)]) (use assms(3) in blast)

theorem connmap_add_correct_witness:
  "\<exists>e m' h'. connmap_add True 0xDEADBEEF 7 1 (fst cm_demo) (snd cm_demo) = Some (e, m', h') \<and>
    connmap_ok h' m' \<and> e \<noteq> ENOMEM \<and> e \<noteq> ENOSPC"
proof -
  have "snd cm_demo 1 = Some (connection_zero 24)" by (simp add: cm_demo_def)
  moreover have "cm_size (fst cm_demo) \<noteq> unat (connmap_max (fst cm_demo))" by code_simp
  ultimately show ?thesis
    using connmap_add_correct [of "snd cm_demo" "fst cm_demo" 1 "connection_zero 24" True "0xDEADBEEF" 7]
    by (auto simp: cm_demo_def connmap_init_ok)
qed

text \<open>C18: lookup and deletion by identifier. \<open>connmap_get\<close> gives exactly the connection the
  identifier was issued to and \<open>NULL\<close> for every other identifier; \<open>connmap_del\<close> gives the
  same and makes that identifier, and no other, unknown.\<close>

theorem connmap_get_del_correct:
  assumes "connmap_ok h m"
  shows "\<exists>r m'. connmap_get x m h = Some r \<and> connmap_del x m h = Some (r, m') \<and>
    (\<forall>c. r = Some c \<longleftrightarrow> cm_holds h m x c) \<and> connmap_ok h m' \<and>
    (\<forall>y. connmap_get y m' h = (if y = x then Some None else connmap_get y m h))"
proof -
  obtain r where r: "connmap_get x m h = Some r" "\<forall>c. r = Some c \<longleftrightarrow> cm_holds h m x c"
    using connmap_get_ok [OF assms] by blast
  obtain r' m' where d: "connmap_del x m h = Some (r', m')" "connmap_ok h m'"
    "\<forall>c. r' = Some c \<longleftrightarrow> cm_holds h m x c" "\<forall>y c. cm_holds h m' y c \<longleftrightarrow> cm_holds h m y c \<and> y \<noteq> x"
    using connmap_del_ok [OF assms] by blast
  have "r' = r" using r(2) d(3) by (cases r; cases r') auto
  moreover have "connmap_get y m' h = (if y = x then Some None else connmap_get y m h)" for y
  proof -
    obtain p q where "connmap_get y m' h = Some p" "\<forall>c. p = Some c \<longleftrightarrow> cm_holds h m' y c"
      "connmap_get y m h = Some q" "\<forall>c. q = Some c \<longleftrightarrow> cm_holds h m y c"
      using connmap_get_ok [OF assms, of y] connmap_get_ok [OF d(2), of y] by blast
    with d(4) show ?thesis by (cases p; cases q) auto
  qed
  ultimately show ?thesis using r d by blast
qed

theorem connmap_get_del_correct_witness:
  "\<exists>r m'. connmap_get 6 (fst cm_demo) (snd cm_demo) = Some r \<and>
    connmap_del 6 (fst cm_demo) (snd cm_demo) = Some (r, m') \<and>
    (\<forall>c. r = Some c \<longleftrightarrow> cm_holds (snd cm_demo) (fst cm_demo) 6 c) \<and> connmap_ok (snd cm_demo) m' \<and>
    (\<forall>y. connmap_get y m' (snd cm_demo) = (if y = 6 then Some None else connmap_get y (fst cm_demo) (snd cm_demo)))"
  by (rule connmap_get_del_correct) (simp add: cm_demo_def connmap_init_ok)

text \<open>C19: an identifier stays good until it is deleted. Whatever connections are added and
  whatever other identifiers are deleted in between, in any order, with any random bits and any
  failing allocations, the identifier of a connection still leads to that connection.\<close>

theorem connmap_id_stable:
  assumes "connmap_ok h m" "cm_holds h m x c" "Del x \<notin> set ops" "distinct (reg_adds ops)"
    "\<forall>d \<in> set (reg_adds ops). h d \<noteq> None \<and> (\<forall>y. \<not> cm_holds h m y d)"
  shows "\<exists>m' h'. reg_run cm_add cm_del ops (m, h) = Some (m', h') \<and> connmap_get x m' h' = Some (Some c)"
  using cm.run_keeps [of "(m, h)" x c ops] assms by auto

theorem connmap_id_stable_witness:
  "\<exists>m h x. connmap_add True 1 2 1 (fst cm_demo) (snd cm_demo) = Some (EOK, m, h) \<and>
    (\<exists>m' h'. reg_run cm_add cm_del [Add (True, 3, 4) 2, Del (x + 1)] (m, h) = Some (m', h') \<and>
      connmap_get x m' h' = Some (Some 1))"
proof -
  have k: "snd cm_demo 1 = Some (connection_zero 24)" by (simp add: cm_demo_def)
  have no: "\<not> cm_holds (snd cm_demo) (fst cm_demo) x c" for x c by (simp add: cm_demo_def connmap_init_ok)
  have ok: "connmap_ok (snd cm_demo) (fst cm_demo)" by (simp add: cm_demo_def connmap_init_ok)
  have sz: "cm_size (fst cm_demo) \<noteq> unat (connmap_max (fst cm_demo))" by code_simp
  obtain m h x where add: "connmap_add True 1 2 1 (fst cm_demo) (snd cm_demo) = Some (EOK, m, h)"
    "connmap_ok h m" "h = (snd cm_demo)(1 \<mapsto> (connection_zero 24)\<lparr>c_self := (c_self (connection_zero 24))\<lparr>self_id := x\<rparr>\<rparr>)"
    "\<forall>y c. cm_holds h m y c \<longleftrightarrow> y = x \<and> c = 1"
    using connmap_add_ok [OF ok k, of True 1 2] no sz by (auto split: if_splits)
  have "h 2 \<noteq> None" using add(3) by (simp add: cm_demo_def)
  then have "\<exists>m' h'. reg_run cm_add cm_del [Add (True, 3, 4) 2, Del (x + 1)] (m, h) = Some (m', h') \<and>
      connmap_get x m' h' = Some (Some 1)"
    using add(2,4) by (intro connmap_id_stable) (auto simp: reg_adds_def)
  with add(1) show ?thesis by blast
qed

end
