(* ===== verification/Resolveq.thy ===== *)
theory Resolveq
  imports Structs
begin

text \<open>
  The connections whose address is being resolved (\<open>src/resolveq.c\<close>): an array with a free
  list that issues integer keys. Deleting an entry only clears its connection, so that the key
  stays reserved until the resolver answers and pops it.
\<close>

section \<open>The operations\<close>

record resolveq =
  rq_len :: nat
  rq_size :: nat
  rq_map :: "ptr slot list option"
  rq_free :: "nat option"

definition resolveq_init :: resolveq where
  "resolveq_init = \<lparr>rq_len = 0, rq_size = 0, rq_map = None, rq_free = None\<rparr>"

definition resolveq_destroy :: "resolveq \<Rightarrow> resolveq" where
  "resolveq_destroy q = resolveq_init"

definition resolveq_clear :: "resolveq \<Rightarrow> resolveq" where
  "resolveq_clear q = (let q = resolveq_destroy q in resolveq_init)"

definition rq_enqueue :: "nat \<Rightarrow> resolveq \<Rightarrow> resolveq option" where
  "rq_enqueue el q =
     do { es \<leftarrow> rq_map q;
          if el < length es
          then (let (es, f) = slot_push el (es, rq_free q) in Some (q\<lparr>rq_map := Some es, rq_free := f\<rparr>))
          else None }"

text \<open>
  The length is increased before memory is asked for, and the increment of the largest
  \<open>int\<close> has no meaning. The new element of a grown array is enqueued whatever it held.
\<close>

definition rq_grow :: "bool \<Rightarrow> resolveq \<Rightarrow> resolveq option" where
  "rq_grow ok q =
     do { len \<leftarrow> cint (int (rq_len q) + 1);
          (case rq_map q of
             None \<Rightarrow> (if ok then rq_enqueue (nat len - 1) (q\<lparr>rq_len := nat len, rq_map := Some [Free None]\<rparr>)
                      else Some q)
           | Some es \<Rightarrow> (if ok then rq_enqueue (nat len - 1) (q\<lparr>rq_len := nat len, rq_map := Some (es @ [Free None])\<rparr>)
                      else Some q)) }"

definition rq_pop :: "resolveq \<Rightarrow> (nat \<times> resolveq) option" where
  "rq_pop q =
     do { es \<leftarrow> rq_map q; i \<leftarrow> rq_free q;
          if i < length es
          then (case es ! i of Free n \<Rightarrow> Some (i, q\<lparr>rq_free := n\<rparr>) | Used d \<Rightarrow> None)
          else None }"

definition rq_check_size :: "resolveq \<Rightarrow> resolveq" where
  "rq_check_size q = (if rq_size q = 0 then resolveq_clear q else q)"

definition resolveq_put :: "bool \<Rightarrow> ptr \<Rightarrow> resolveq \<Rightarrow> (int \<times> resolveq) option" where
  "resolveq_put ok c q =
     do { q \<leftarrow> (if rq_free q = None then rq_grow ok q else Some q);
          if rq_free q = None then Some (- 1, q)
          else do { (index, q) \<leftarrow> rq_pop q;
                    size \<leftarrow> cint (int (rq_size q) + 1);
                    es \<leftarrow> rq_map q;
                    Some (int index, q\<lparr>rq_size := nat size, rq_map := Some (es[index := Used c])\<rparr>) } }"

text \<open>The key is only compared with the length: a negative one reads before the array.\<close>

definition resolveq_pop :: "int \<Rightarrow> resolveq \<Rightarrow> (ptr \<times> resolveq) option" where
  "resolveq_pop key q =
     (if key < int (rq_len q)
      then (if key < 0 then None
            else do { es \<leftarrow> rq_map q;
                      (case es ! nat key of
                         Used d \<Rightarrow> do { q \<leftarrow> rq_enqueue (nat key) q;
                                       Some (d, rq_check_size (q\<lparr>rq_size := rq_size q - 1\<rparr>)) }
                       | Free n \<Rightarrow> Some (None, rq_check_size q)) })
      else Some (None, q))"

definition resolveq_del :: "int \<Rightarrow> resolveq \<Rightarrow> resolveq option" where
  "resolveq_del key q =
     (if key < int (rq_len q)
      then (if key < 0 then None
            else do { es \<leftarrow> rq_map q;
                      (case es ! nat key of
                         Used d \<Rightarrow> Some (q\<lparr>rq_map := Some (es[nat key := Used None])\<rparr>)
                       | Free n \<Rightarrow> Some q) })
      else Some q)"

section \<open>The invariant and the map a state stands for\<close>

definition rq_slots :: "resolveq \<Rightarrow> ptr slot list" where
  "rq_slots q = (case rq_map q of None \<Rightarrow> [] | Some es \<Rightarrow> es)"

definition resolveq_ok :: "resolveq \<Rightarrow> bool" where
  "resolveq_ok q \<longleftrightarrow> rq_len q \<le> INT_MAX \<and> length (rq_slots q) = rq_len q \<and> slots_ok (rq_slots q) (rq_free q) \<and>
     rq_size q = used_count (rq_slots q)"

definition rq_abs :: "resolveq \<Rightarrow> int \<Rightarrow> ptr option" where
  "rq_abs q key =
     (if 0 \<le> key \<and> key < int (rq_len q)
      then (case rq_slots q ! nat key of Used d \<Rightarrow> Some d | Free n \<Rightarrow> None) else None)"

lemma resolveq_init_ok [simp]: "resolveq_ok resolveq_init" "rq_abs resolveq_init = Map.empty"
  by (auto simp: resolveq_ok_def resolveq_init_def rq_slots_def slots_ok_None free_set_def rq_abs_def fun_eq_iff)

text \<open>Every \<open>int\<close> is in use.\<close>

lemma rq_size_le: "resolveq_ok q \<Longrightarrow> rq_size q \<le> rq_len q"
  using used_count_le [of "rq_slots q"] by (simp add: resolveq_ok_def)

lemma rq_full:
  assumes "resolveq_ok q"
  shows "rq_size q = INT_MAX \<longleftrightarrow> rq_free q = None \<and> rq_len q = INT_MAX"
proof
  assume full: "rq_size q = INT_MAX"
  then have len: "rq_len q = INT_MAX" using rq_size_le [OF assms] assms by (simp add: resolveq_ok_def)
  show "rq_free q = None \<and> rq_len q = INT_MAX"
  proof (cases "rq_free q")
    case (Some i)
    then obtain n where n: "i < length (rq_slots q)" "rq_slots q ! i = Free n"
      using assms slots_ok_Some [of "rq_slots q" i] by (auto simp: resolveq_ok_def)
    then have "Suc (used_count (rq_slots q)) \<le> length (rq_slots q)"
      using used_count_fill [OF n, of None] used_count_le [of "(rq_slots q)[i := Used None]"] by simp
    with full len assms show ?thesis by (simp add: resolveq_ok_def)
  qed (use len in simp)
next
  assume "rq_free q = None \<and> rq_len q = INT_MAX"
  with assms used_count_full [of "rq_slots q"] show "rq_size q = INT_MAX"
    by (simp add: resolveq_ok_def slots_ok_None)
qed

lemma resolveq_init_size [simp]: "rq_size resolveq_init = 0"
  by (simp add: resolveq_init_def)

lemma rq_grow_ok:
  assumes "resolveq_ok q" "rq_free q = None" "rq_len q < INT_MAX"
  shows "\<exists>q'. rq_grow ok q = Some q' \<and> resolveq_ok q' \<and> rq_abs q' = rq_abs q \<and>
    (if ok then rq_free q' \<noteq> None else q' = q)"
proof (cases ok)
  case True
  let ?es = "rq_slots q @ [Free None]"
  let ?q = "q\<lparr>rq_len := rq_len q + 1, rq_map := Some ?es, rq_free := Some (rq_len q)\<rparr>"
  have len: "length (rq_slots q) = rq_len q" using assms(1) by (simp add: resolveq_ok_def)
  have "slots_ok ?es (Some (length (rq_slots q)))"
    using slots_ok_extend [of "rq_slots q" None] assms by (simp add: resolveq_ok_def)
  then have "resolveq_ok ?q"
    using assms(1,3) len by (simp add: resolveq_ok_def rq_slots_def)
  moreover have "rq_abs ?q = rq_abs q"
  proof
    fix key :: int
    show "rq_abs ?q key = rq_abs q key"
    proof (cases "0 \<le> key \<and> key < int (rq_len q)")
      case True
      then have "nat key < length (rq_slots q)" using len by auto
      with True show ?thesis by (simp add: rq_abs_def rq_slots_def nth_append)
    next
      case False
      show ?thesis
      proof (cases "key = int (rq_len q)")
        case True
        then show ?thesis using len by (simp add: rq_abs_def rq_slots_def nth_append)
      qed (use False in \<open>auto simp: rq_abs_def\<close>)
    qed
  qed
  moreover have "rq_grow ok q = Some ?q"
  proof -
    have "cint (int (rq_len q) + 1) = Some (int (rq_len q + 1))" using assms(3) by (simp add: cint_Suc)
    then show ?thesis
      using True assms len unfolding rq_grow_def
      by (cases "rq_map q") (auto simp: rq_enqueue_def slot_push_def rq_slots_def list_update_append)
  qed
  ultimately show ?thesis using True by auto
next
  case False
  with assms show ?thesis by (simp add: rq_grow_def cint_Suc split: option.split)
qed

lemma rq_map_slots: "i < length (rq_slots q) \<Longrightarrow> rq_map q = Some (rq_slots q)"
  by (auto simp: rq_slots_def split: option.splits)

lemma rq_check_size_ok:
  assumes "resolveq_ok q"
  shows "resolveq_ok (rq_check_size q)" "rq_abs (rq_check_size q) = rq_abs q"
proof -
  have "rq_abs q = Map.empty" if "rq_size q = 0"
  proof
    fix key :: int
    have "used_count (rq_slots q) = 0" using assms that by (simp add: resolveq_ok_def)
    then have free: "i < rq_len q \<Longrightarrow> \<exists>n. rq_slots q ! i = Free n" for i
      using assms by (simp add: used_count_0 resolveq_ok_def)
    show "rq_abs q key = None"
    proof (cases "0 \<le> key \<and> key < int (rq_len q)")
      case True
      then have "nat key < rq_len q" by auto
      with free obtain n where "rq_slots q ! nat key = Free n" by blast
      then show ?thesis by (simp add: rq_abs_def)
    qed (auto simp: rq_abs_def)
  qed
  with assms show "resolveq_ok (rq_check_size q)" "rq_abs (rq_check_size q) = rq_abs q"
    by (auto simp: rq_check_size_def resolveq_clear_def)
qed

section \<open>The properties\<close>

lemma resolveq_put_ok:
  assumes "resolveq_ok q" "rq_size q \<noteq> INT_MAX"
  shows "\<exists>key q'. resolveq_put ok c q = Some (key, q') \<and> resolveq_ok q' \<and>
    (if key = - 1 then \<not> ok \<and> q' = q
     else 0 \<le> key \<and> rq_abs q key = None \<and> rq_abs q' = (rq_abs q)(key \<mapsto> c))"
proof -
  obtain q1 where q1: "(if rq_free q = None then rq_grow ok q else Some q) = Some q1" "resolveq_ok q1"
    "rq_abs q1 = rq_abs q" "rq_free q1 = None \<longrightarrow> \<not> ok \<and> q1 = q"
    using rq_grow_ok [OF assms(1), of ok] rq_full [OF assms(1)] assms
    by (cases "rq_free q"; cases ok) (auto simp: resolveq_ok_def)
  show ?thesis
  proof (cases "rq_free q1")
    case None
    with q1 assms show ?thesis by (auto simp: resolveq_put_def)
  next
    case (Some i)
    have "slots_ok (rq_slots q1) (Some i)" using q1(2) Some by (simp add: resolveq_ok_def)
    then obtain n where n: "i < length (rq_slots q1)" "rq_slots q1 ! i = Free n"
      "\<And>x. slots_ok ((rq_slots q1)[i := Used x]) n"
      by (rule slots_ok_Some) blast
    let ?es = "(rq_slots q1)[i := Used c]"
    let ?q = "q1\<lparr>rq_free := n, rq_size := rq_size q1 + 1, rq_map := Some ?es\<rparr>"
    have "rq_size q1 \<noteq> INT_MAX" using rq_full [OF q1(2)] Some by simp
    moreover have "rq_size q1 \<le> INT_MAX" using rq_size_le [OF q1(2)] q1(2) by (simp add: resolveq_ok_def)
    ultimately have size: "rq_size q1 < INT_MAX" by simp
    have len: "i < rq_len q1" using n(1) q1(2) by (simp add: resolveq_ok_def)
    have put: "resolveq_put ok c q = Some (int i, ?q)"
      using q1(1) Some n rq_map_slots [OF n(1)] size
      by (simp add: resolveq_put_def rq_pop_def cint_Suc nat_add_distrib)
    moreover have "resolveq_ok ?q"
      using q1(2) n used_count_fill [OF n(1,2), of c] by (simp add: resolveq_ok_def rq_slots_def)
    moreover have "rq_abs q (int i) = None" using n(2) len by (simp add: rq_abs_def flip: q1(3))
    moreover have "rq_abs ?q = (rq_abs q)(int i \<mapsto> c)"
    proof
      fix key :: int
      show "rq_abs ?q key = ((rq_abs q)(int i \<mapsto> c)) key"
        using n len q1(2) by (cases "key = int i") (auto simp: rq_abs_def rq_slots_def resolveq_ok_def
            nth_list_update simp flip: q1(3))
    qed
    ultimately show ?thesis by (intro exI [of _ "int i"] exI [of _ ?q]) simp
  qed
qed

text \<open>With every key an \<open>int\<close> can be in use, the increment of the length overflows, even
  if there is no memory for another.\<close>

lemma resolveq_put_full:
  assumes "resolveq_ok q" "rq_size q = INT_MAX"
  shows "resolveq_put ok c q = None"
proof -
  have "rq_free q = None" "rq_len q = INT_MAX" using rq_full [OF assms(1)] assms(2) by simp_all
  then show ?thesis by (simp add: resolveq_put_def rq_grow_def cint_Suc)
qed

text \<open>C23: a key is issued to one connection at a time. \<open>resolveq_put\<close> returns a key that is
  not in use, that from then on stands for the connection, and leaves every other key alone;
  only without memory it returns \<open>-1\<close>, and then changes nothing. The one case it has no
  answer for is that \<open>INT_MAX\<close> keys are in use: then it overflows the signed length.\<close>

theorem resolveq_put_correct:
  assumes "resolveq_ok q"
  shows "if rq_size q = INT_MAX then resolveq_put ok c q = None
    else \<exists>key q'. resolveq_put ok c q = Some (key, q') \<and> resolveq_ok q' \<and>
      (if key = - 1 then \<not> ok \<and> q' = q
       else 0 \<le> key \<and> rq_abs q key = None \<and> rq_abs q' = (rq_abs q)(key \<mapsto> c))"
proof (cases "rq_size q = INT_MAX")
  case True
  then show ?thesis using resolveq_put_full [OF assms True] by simp
next
  case False
  then show ?thesis using resolveq_put_ok [OF assms False] by (simp only: if_False)
qed

theorem resolveq_put_correct_witness:
  "\<exists>key q'. resolveq_put True (Some 1) resolveq_init = Some (key, q') \<and> resolveq_ok q' \<and>
    (if key = - 1 then \<not> True \<and> q' = resolveq_init
     else 0 \<le> key \<and> rq_abs resolveq_init key = None \<and> rq_abs q' = (rq_abs resolveq_init)(key \<mapsto> Some 1))"
  using resolveq_put_correct [of resolveq_init True "Some 1"] by (simp only: resolveq_init_ok(1) resolveq_init_size) (simp add: INT_MAX_def)

lemma resolveq_pop_ok:
  assumes "resolveq_ok q" "0 \<le> key"
  shows "\<exists>q'. resolveq_pop key q = Some (case rq_abs q key of None \<Rightarrow> None | Some d \<Rightarrow> d, q') \<and>
    resolveq_ok q' \<and> rq_abs q' = (rq_abs q)(key := None)"
proof (cases "key < int (rq_len q)")
  case True
  let ?i = "nat key"
  have i: "?i < length (rq_slots q)" using True assms by (simp add: resolveq_ok_def)
  show ?thesis
  proof (cases "rq_slots q ! ?i")
    case (Free n)
    then have "rq_abs q key = None" by (simp add: rq_abs_def)
    moreover from this have "(rq_abs q)(key := None) = rq_abs q" by auto
    ultimately show ?thesis
      using Free True assms rq_map_slots [OF i] rq_check_size_ok [OF assms(1)]
      by (simp add: resolveq_pop_def)
  next
    case (Used d)
    let ?es = "(rq_slots q)[?i := Free (rq_free q)]"
    let ?q = "q\<lparr>rq_map := Some ?es, rq_free := Some ?i, rq_size := rq_size q - 1\<rparr>"
    have "slots_ok ?es (Some ?i)"
      using slots_ok_push [of "rq_slots q" "rq_free q" ?i d] assms i Used by (simp add: resolveq_ok_def)
    then have ok: "resolveq_ok ?q"
      using assms used_count_clear [OF i Used, of "rq_free q"] by (simp add: resolveq_ok_def rq_slots_def)
    have "rq_abs ?q = (rq_abs q)(key := None)"
    proof
      fix k :: int
      show "rq_abs ?q k = ((rq_abs q)(key := None)) k"
        using i assms True by (cases "k = key") (auto simp: rq_abs_def rq_slots_def nth_list_update)
    qed
    moreover have "rq_abs q key = Some d" using True assms Used by (simp add: rq_abs_def)
    moreover have "resolveq_pop key q = Some (d, rq_check_size ?q)"
      using True assms Used i rq_map_slots [OF i] by (simp add: resolveq_pop_def rq_enqueue_def slot_push_def)
    ultimately show ?thesis using rq_check_size_ok [OF ok] by simp
  qed
next
  case False
  then have "rq_abs q key = None" by (simp add: rq_abs_def)
  moreover from this have "(rq_abs q)(key := None) = rq_abs q" by auto
  ultimately show ?thesis using False assms by (simp add: resolveq_pop_def)
qed

text \<open>C24: popping a key that is not negative gives what it stands for, \<open>NULL\<close> if it is not in
  use, and releases exactly that key.\<close>

theorem resolveq_pop_correct:
  assumes "resolveq_ok q" "0 \<le> key"
  shows "\<exists>q'. resolveq_pop key q = Some (case rq_abs q key of None \<Rightarrow> None | Some d \<Rightarrow> d, q') \<and>
    resolveq_ok q' \<and> rq_abs q' = (rq_abs q)(key := None)"
  by (rule resolveq_pop_ok [OF assms])

theorem resolveq_pop_correct_witness:
  "\<exists>q'. resolveq_pop 3 resolveq_init = Some (case rq_abs resolveq_init 3 of None \<Rightarrow> None | Some d \<Rightarrow> d, q') \<and>
    resolveq_ok q' \<and> rq_abs q' = (rq_abs resolveq_init)(3 := None)"
  by (rule resolveq_pop_correct) simp_all

lemma resolveq_del_ok:
  assumes "resolveq_ok q" "rq_abs q key = Some c"
  shows "\<exists>q'. resolveq_del key q = Some q' \<and> resolveq_ok q' \<and> rq_abs q' = (rq_abs q)(key \<mapsto> None)"
proof -
  from assms(2) have k: "0 \<le> key" "key < int (rq_len q)" "rq_slots q ! nat key = Used c"
    by (auto simp: rq_abs_def split: if_splits slot.splits)
  have i: "nat key < length (rq_slots q)" using k assms(1) by (simp add: resolveq_ok_def)
  let ?es = "(rq_slots q)[nat key := Used None]"
  let ?q = "q\<lparr>rq_map := Some ?es\<rparr>"
  have free: "free_set ?es = free_set (rq_slots q)"
    using i k(3) by (auto simp: free_set_update) (auto simp: free_set_def)
  have "slots_ok ?es (rq_free q)"
  proof -
    obtain fs where fs: "flist (rq_slots q) (rq_free q) fs" "distinct fs" "set fs = free_set (rq_slots q)"
      using assms(1) by (auto simp: resolveq_ok_def slots_ok_def)
    have "nat key \<notin> set fs" using fs(3) k(3) by (simp add: free_set_def)
    then show ?thesis unfolding slots_ok_def using fs free flist_frame [OF fs(1)] by blast
  qed
  then have "resolveq_ok ?q"
    using assms(1) used_count_swap [OF i k(3), of None] by (simp add: resolveq_ok_def rq_slots_def)
  moreover have "rq_abs ?q = (rq_abs q)(key \<mapsto> None)"
  proof
    fix j :: int
    show "rq_abs ?q j = ((rq_abs q)(key \<mapsto> None)) j"
      using i k by (cases "j = key") (auto simp: rq_abs_def rq_slots_def nth_list_update)
  qed
  moreover have "resolveq_del key q = Some ?q"
    using k rq_map_slots [OF i] by (simp add: resolveq_del_def)
  ultimately show ?thesis by blast
qed

text \<open>C25: after a resolve has timed out, its connection is out of reach but its key stays
  reserved: \<open>resolveq_del\<close> makes the key stand for \<open>NULL\<close>, so a late answer of the resolver
  finds no connection and no later connection is given the key before that answer.\<close>

theorem resolveq_del_correct:
  assumes "resolveq_ok q" "rq_abs q key = Some c"
  shows "\<exists>q'. resolveq_del key q = Some q' \<and> resolveq_ok q' \<and> rq_abs q' = (rq_abs q)(key \<mapsto> None)"
  by (rule resolveq_del_ok [OF assms])

theorem resolveq_del_correct_witness:
  "\<exists>key q q'. resolveq_put True (Some 1) resolveq_init = Some (key, q) \<and>
    resolveq_del key q = Some q' \<and> resolveq_ok q' \<and> rq_abs q' = (rq_abs q)(key \<mapsto> None)"
proof -
  let ?q = "\<lparr>rq_len = 1, rq_size = 1, rq_map = Some [Used (Some 1)], rq_free = None\<rparr>"
  have put: "resolveq_put True (Some 1) resolveq_init = Some (0, ?q)" by code_simp
  have "free_set [Used (Some (1 :: addr))] = {}" by (auto simp: free_set_def)
  moreover from this have "used_count [Used (Some (1 :: addr))] = 1" by (simp add: used_count_full)
  ultimately have "resolveq_ok ?q"
    by (simp add: resolveq_ok_def rq_slots_def slots_ok_None INT_MAX_def)
  moreover have "rq_abs ?q 0 = Some (Some 1)" by (simp add: rq_abs_def rq_slots_def)
  ultimately show ?thesis using put resolveq_del_correct by blast
qed

text \<open>A negative key, such as the \<open>-1\<close> \<open>resolveq_put\<close> returns when it fails, is read
  as an index before the array.\<close>

theorem resolveq_negative_key:
  assumes "key < 0"
  shows "resolveq_pop key q = None \<and> resolveq_del key q = None"
  using assms by (simp_all add: resolveq_pop_def resolveq_del_def)

theorem resolveq_negative_key_witness:
  "resolveq_pop (- 1) resolveq_init = None \<and> resolveq_del (- 1) resolveq_init = None"
  by (rule resolveq_negative_key) simp

end
