(* ===== verification/Sockmap.thy ===== *)
theory Sockmap
  imports Linked Interfaces "HOL-Library.Multiset"
begin

text \<open>
  The data a user associates with a socket descriptor (\<open>src/sockmap.c\<close>): an array searched
  from the front, a deletion moving the last entry into the hole.
\<close>

section \<open>The operations\<close>

record sockmap =
  sk_len :: nat
  sk_alen :: nat
  sk_map :: "(int \<times> ptr) list option"

text \<open>\<open>INT_MAX - 1\<close>.\<close>

definition SOCKMAP_MAX :: nat where
  "SOCKMAP_MAX = 2147483646"

definition sockmap_init :: sockmap where
  "sockmap_init = \<lparr>sk_len = 0, sk_alen = 0, sk_map = None\<rparr>"

definition sockmap_destroy :: "sockmap \<Rightarrow> sockmap" where
  "sockmap_destroy m = (if sk_map m \<noteq> None then m\<lparr>sk_map := None\<rparr> else m)"

text \<open>
  The loop \<open>for (i = 0; i < len; ++i)\<close> all three operations start with: the index of the
  entry of a descriptor, if there is one. \<open>n\<close> counts the iterations that are left.
\<close>

fun sockmap_scan :: "(int \<times> ptr) list \<Rightarrow> int \<Rightarrow> nat \<Rightarrow> nat \<Rightarrow> nat option option" where
  "sockmap_scan es fd i 0 = Some None"
| "sockmap_scan es fd i (Suc n) =
     (if i < length es
      then (if fd = fst (es ! i) then Some (Some i) else sockmap_scan es fd (i + 1) n)
      else None)"

definition sk_slots :: "sockmap \<Rightarrow> (int \<times> ptr) list" where
  "sk_slots m = (case sk_map m of None \<Rightarrow> [] | Some es \<Rightarrow> es)"

definition sockmap_put :: "bool \<Rightarrow> int \<Rightarrow> ptr \<Rightarrow> sockmap \<Rightarrow> (errno \<times> sockmap) option" where
  "sockmap_put ok fd data m =
     do { f \<leftarrow> sockmap_scan (sk_slots m) fd 0 (sk_len m);
          case f of
            Some i \<Rightarrow> Some (EOK, m\<lparr>sk_map := Some ((sk_slots m)[i := (fst (sk_slots m ! i), data)])\<rparr>)
          | None \<Rightarrow>
              if sk_alen m \<le> sk_len m \<and> SOCKMAP_MAX = sk_alen m then Some (ENOMEM, m)
              else if sk_alen m \<le> sk_len m \<and> \<not> ok then Some (ENOMEM, m)
              else
                let m = (if sk_alen m \<le> sk_len m
                         then m\<lparr>sk_map := Some (take (sk_len m + 1) (sk_slots m @ [(0, None)])),
                                sk_alen := sk_len m + 1\<rparr>
                         else m)
                in if sk_len m < length (sk_slots m)
                   then Some (EOK, m\<lparr>sk_map := Some ((sk_slots m)[sk_len m := (fd, data)]),
                                     sk_len := sk_len m + 1\<rparr>)
                   else None }"

definition sockmap_del :: "int \<Rightarrow> sockmap \<Rightarrow> sockmap option" where
  "sockmap_del fd m =
     do { f \<leftarrow> sockmap_scan (sk_slots m) fd 0 (sk_len m);
          case f of
            None \<Rightarrow> Some m
          | Some i \<Rightarrow>
              let len = sk_len m - 1;
                  es = (sk_slots m)[i := sk_slots m ! len]
              in Some (m\<lparr>sk_len := len, sk_map := Some (es[len := (0, None)])\<rparr>) }"

definition sockmap_get :: "int \<Rightarrow> sockmap \<Rightarrow> ptr option" where
  "sockmap_get fd m =
     do { f \<leftarrow> sockmap_scan (sk_slots m) fd 0 (sk_len m);
          Some (case f of None \<Rightarrow> None | Some i \<Rightarrow> snd (sk_slots m ! i)) }"

section \<open>The invariant and the map a state stands for\<close>

definition sockmap_ok :: "sockmap \<Rightarrow> bool" where
  "sockmap_ok m \<longleftrightarrow> sk_len m \<le> sk_alen m \<and> sk_alen m \<le> SOCKMAP_MAX \<and> length (sk_slots m) = sk_alen m \<and>
     distinct (map fst (take (sk_len m) (sk_slots m)))"

definition sk_entries :: "sockmap \<Rightarrow> (int \<times> ptr) list" where
  "sk_entries m = take (sk_len m) (sk_slots m)"

text \<open>The map from descriptors to data, \<open>NULL\<close> included. A lookup answers \<open>NULL\<close> for
  a descriptor without an entry too.\<close>

definition sk_abs :: "sockmap \<Rightarrow> int \<Rightarrow> ptr option" where
  "sk_abs m = map_of (sk_entries m)"

definition sk_view :: "ptr option \<Rightarrow> ptr" where
  "sk_view d = (case d of None \<Rightarrow> None | Some p \<Rightarrow> p)"

lemma sockmap_scan_eq:
  "i + n \<le> length es \<Longrightarrow>
     (case sockmap_scan es fd i n of
        None \<Rightarrow> False
      | Some None \<Rightarrow> \<forall>j. i \<le> j \<longrightarrow> j < i + n \<longrightarrow> fst (es ! j) \<noteq> fd
      | Some (Some j) \<Rightarrow> i \<le> j \<and> j < i + n \<and> fst (es ! j) = fd)"
proof (induction n arbitrary: i)
  case (Suc n)
  show ?case
  proof (cases "fd = fst (es ! i)")
    case False
    with Suc.IH [of "i + 1"] Suc.prems show ?thesis
      by (auto split: option.splits) (metis Suc_leI le_neq_implies_less)
  qed (use Suc.prems in simp)
qed auto

lemma scan_cases:
  assumes "sockmap_ok m"
  obtains (none) "sockmap_scan (sk_slots m) fd 0 (sk_len m) = Some None"
      "\<forall>j < sk_len m. fst (sk_slots m ! j) \<noteq> fd" "map_of (sk_entries m) fd = None"
    | (some) j where "sockmap_scan (sk_slots m) fd 0 (sk_len m) = Some (Some j)"
      "j < sk_len m" "fst (sk_slots m ! j) = fd" "map_of (sk_entries m) fd = Some (snd (sk_slots m ! j))"
proof -
  have le: "0 + sk_len m \<le> length (sk_slots m)" using assms by (simp add: sockmap_ok_def)
  note scan = sockmap_scan_eq [OF le, of fd]
  show ?thesis
  proof (cases "sockmap_scan (sk_slots m) fd 0 (sk_len m)")
    case None
    with scan show ?thesis by simp
  next
    case (Some f)
    show ?thesis
    proof (cases f)
      case None
      with Some scan have no: "\<forall>j < sk_len m. fst (sk_slots m ! j) \<noteq> fd" by simp
      then have "fd \<notin> fst ` set (sk_entries m)"
        using le by (auto simp: sk_entries_def set_conv_nth)
      then have "map_of (sk_entries m) fd = None" by (simp add: map_of_eq_None_iff)
      with Some None no none show ?thesis by simp
    next
      case (Some j)
      with \<open>sockmap_scan _ _ _ _ = Some f\<close> scan have j: "j < sk_len m" "fst (sk_slots m ! j) = fd" by simp_all
      then have "sk_entries m ! j = (fd, snd (sk_slots m ! j))" "j < length (sk_entries m)"
        using le by (auto simp: sk_entries_def prod_eq_iff)
      then have "(fd, snd (sk_slots m ! j)) \<in> set (sk_entries m)" by (metis nth_mem)
      moreover have "distinct (map fst (sk_entries m))"
        using assms by (simp add: sockmap_ok_def sk_entries_def)
      ultimately have "map_of (sk_entries m) fd = Some (snd (sk_slots m ! j))" by simp
      with some j Some \<open>sockmap_scan _ _ _ _ = Some f\<close> show ?thesis by simp
    qed
  qed
qed

lemma sockmap_get_ok: "sockmap_ok m \<Longrightarrow> sockmap_get fd m = Some (sk_view (sk_abs m fd))"
  by (erule scan_cases [of m fd]) (simp_all add: sockmap_get_def sk_abs_def sk_view_def)

lemma map_of_snoc:
  "distinct (map fst (xs @ [(k, v)])) \<Longrightarrow> map_of (xs @ [(k, v)]) = (map_of xs)(k \<mapsto> v)"
  by (induction xs) auto

lemma map_of_update:
  "distinct (map fst xs) \<Longrightarrow> j < length xs \<Longrightarrow> fst (xs ! j) = k \<Longrightarrow>
     map_of (xs[j := (k, v)]) = (map_of xs)(k \<mapsto> v) \<and> map fst (xs[j := (k, v)]) = map fst xs"
proof (induction xs arbitrary: j)
  case (Cons x xs)
  show ?case
  proof (cases j)
    case (Suc i)
    then have "k \<in> fst ` set xs" using Cons.prems by auto
    moreover have "fst x \<notin> fst ` set xs" using Cons.prems(1) by simp
    ultimately have "fst x \<noteq> k" by metis
    with Cons Suc show ?thesis by (auto simp: fun_eq_iff)
  qed (use Cons in \<open>auto simp: fun_eq_iff\<close>)
qed simp

lemma map_of_same_set:
  assumes "distinct (map fst xs)" "distinct (map fst ys)" "\<forall>v. (k, v) \<in> set xs \<longleftrightarrow> (k, v) \<in> set ys"
  shows "map_of xs k = map_of ys k"
proof (cases "map_of ys k")
  case None
  then have "\<forall>v. (k, v) \<notin> set xs" using assms(3) by (force simp: map_of_eq_None_iff)
  then have "map_of xs k = None" by (force simp: map_of_eq_None_iff)
  with None show ?thesis by simp
next
  case (Some v)
  then have "(k, v) \<in> set xs" using assms(3) by (blast dest: map_of_SomeD)
  with Some assms(1) show ?thesis by simp
qed

lemma sockmap_put_ok:
  assumes ok: "sockmap_ok m"
  shows "\<exists>e m'. sockmap_put b fd data m = Some (e, m') \<and> sockmap_ok m' \<and>
    (if e = EOK then map_of (sk_entries m') = (map_of (sk_entries m))(fd \<mapsto> data) else m' = m) \<and>
    (if map_of (sk_entries m) fd \<noteq> None then e = EOK else if SOCKMAP_MAX \<le> sk_len m then e = ENOMEM
     else e = EOK \<or> (e = ENOMEM \<and> \<not> b))"
  using ok
proof (cases rule: scan_cases [of m fd])
  case (some j)
  let ?es = "sk_slots m"
  have len: "sk_len m \<le> length ?es" "length ?es = sk_alen m" using ok by (simp_all add: sockmap_ok_def)
  let ?m = "m\<lparr>sk_map := Some (?es[j := (fst (?es ! j), data)])\<rparr>"
  have ent: "sk_entries ?m = (sk_entries m)[j := (fd, data)]"
    using some(3) by (simp add: sk_entries_def sk_slots_def take_update_swap)
  have "distinct (map fst (sk_entries m))" using ok by (simp add: sockmap_ok_def sk_entries_def)
  moreover have "j < length (sk_entries m)" "fst (sk_entries m ! j) = fd"
    using some(2,3) len by (simp_all add: sk_entries_def)
  ultimately have "map_of (sk_entries ?m) = (map_of (sk_entries m))(fd \<mapsto> data)"
    and keys: "map fst (sk_entries ?m) = map fst (sk_entries m)"
    using map_of_update [of "sk_entries m" j fd data] by (simp_all only: ent)
  moreover have "sockmap_ok ?m"
    using ok keys by (simp add: sockmap_ok_def sk_slots_def sk_entries_def)
  moreover have "sockmap_put b fd data m = Some (EOK, ?m)"
    using some(1) by (simp add: sockmap_put_def)
  ultimately show ?thesis using some(4) by (intro exI [of _ EOK] exI [of _ ?m]) simp
next
  case none
  let ?es = "sk_slots m"
  have len: "sk_len m \<le> sk_alen m" "sk_alen m \<le> SOCKMAP_MAX" "length ?es = sk_alen m" "distinct (map fst (sk_entries m))"
    using ok by (simp_all add: sockmap_ok_def sk_entries_def)
  have new: "fd \<notin> fst ` set (sk_entries m)" using none(3) by (simp add: map_of_eq_None_iff)
  show ?thesis
  proof (cases "sk_alen m \<le> sk_len m \<and> (SOCKMAP_MAX = sk_alen m \<or> \<not> b)")
    case True
    then have "sockmap_put b fd data m = Some (ENOMEM, m)"
      using none(1) by (auto simp: sockmap_put_def)
    with True ok none len show ?thesis by auto
  next
    case False
    let ?fs = "if sk_alen m \<le> sk_len m then ?es @ [(0, None)] else ?es"
    let ?a = "if sk_alen m \<le> sk_len m then sk_len m + 1 else sk_alen m"
    let ?m = "m\<lparr>sk_alen := ?a, sk_map := Some (?fs[sk_len m := (fd, data)]), sk_len := sk_len m + 1\<rparr>"
    have put: "sockmap_put b fd data m = Some (EOK, ?m)"
      using none(1) False len by (auto simp: sockmap_put_def Let_def sk_slots_def)
    have ent: "sk_entries ?m = sk_entries m @ [(fd, data)]"
      using len by (auto simp: sk_entries_def sk_slots_def take_Suc_conv_app_nth nth_append)
    have "distinct (map fst (sk_entries m @ [(fd, data)]))" using len(4) new by simp
    moreover from map_of_snoc [OF this] have "map_of (sk_entries ?m) = (map_of (sk_entries m))(fd \<mapsto> data)"
      by (simp only: ent)
    moreover have "length (?fs[sk_len m := (fd, data)]) = ?a" "sk_len m + 1 \<le> ?a" "?a \<le> SOCKMAP_MAX"
      "\<not> SOCKMAP_MAX \<le> sk_len m" using len False by auto
    ultimately show ?thesis
      using put ent none(3) by (intro exI [of _ EOK] exI [of _ ?m]) (simp add: sockmap_ok_def sk_entries_def sk_slots_def)
  qed
qed

lemma sockmap_del_ok:
  assumes ok: "sockmap_ok m"
  shows "\<exists>m'. sockmap_del fd m = Some m' \<and> sockmap_ok m' \<and>
    map_of (sk_entries m') = (map_of (sk_entries m))(fd := None)"
  using ok
proof (cases rule: scan_cases [of m fd])
  case none
  then have "(map_of (sk_entries m))(fd := None) = map_of (sk_entries m)" by auto
  with none ok show ?thesis by (simp add: sockmap_del_def)
next
  case (some j)
  let ?es = "sk_slots m" and ?l = "sk_len m - 1"
  let ?fs = "?es[j := ?es ! ?l, ?l := (0, None)]"
  let ?m = "m\<lparr>sk_len := ?l, sk_map := Some ?fs\<rparr>"
  have len: "sk_len m \<le> length ?es" "length ?es = sk_alen m" "distinct (map fst (sk_entries m))"
    using ok by (simp_all add: sockmap_ok_def sk_entries_def)
  have max: "sk_alen m \<le> SOCKMAP_MAX" using ok by (simp add: sockmap_ok_def)
  have del: "sockmap_del fd m = Some ?m" using some(1) by (simp add: sockmap_del_def Let_def)
  define xs where "xs = take ?l ?es"
  have full: "sk_entries m = xs @ [?es ! ?l]"
  proof -
    have "sk_len m = Suc ?l" "?l < length ?es" using some(2) len(1) by simp_all
    then show ?thesis unfolding xs_def sk_entries_def by (metis take_Suc_conv_app_nth)
  qed
  have ent: "sk_entries ?m = (if j = ?l then xs else xs[j := ?es ! ?l])"
    using some(2) by (auto simp: sk_entries_def sk_slots_def xs_def take_update_swap list_update_beyond)
  have xsl: "length xs = ?l" using len some(2) by (simp add: xs_def)
  have part: "mset (sk_entries m) = add_mset (?es ! j) (mset (sk_entries ?m))"
  proof (cases "j = ?l")
    case False
    then have j: "j < length xs" "xs ! j = ?es ! j" using some(2) xsl by (auto simp: xs_def)
    have "mset xs = add_mset (xs ! j) (mset xs - {#xs ! j#})" using j(1) by simp
    moreover have "mset (xs[j := ?es ! ?l]) = add_mset (?es ! ?l) (mset xs - {#xs ! j#})"
      by (rule mset_update [OF j(1)])
    ultimately show ?thesis unfolding ent full using False j(2) by (simp add: add_mset_commute)
  next
    case True
    then show ?thesis unfolding ent full by simp
  qed
  have keys: "mset (map fst (sk_entries m)) = add_mset fd (mset (map fst (sk_entries ?m)))"
    using part some(3) by simp
  then have d: "distinct (map fst (sk_entries ?m))" "fd \<notin> fst ` set (sk_entries ?m)"
    using len(3) mset_eq_imp_distinct_iff [of "map fst (sk_entries m)" "fd # map fst (sk_entries ?m)"] by auto
  have sets: "set (sk_entries m) = insert (?es ! j) (set (sk_entries ?m))"
    using arg_cong [OF part, of set_mset] by simp
  have "map_of (sk_entries ?m) = (map_of (sk_entries m))(fd := None)"
  proof
    fix k
    show "map_of (sk_entries ?m) k = ((map_of (sk_entries m))(fd := None)) k"
    proof (cases "k = fd")
      case True
      with d(2) show ?thesis by (simp add: map_of_eq_None_iff)
    next
      case False
      then have "(k, v) \<in> set (sk_entries ?m) \<longleftrightarrow> (k, v) \<in> set (sk_entries m)" for v
      proof -
        have "(k, v) \<noteq> ?es ! j" using False some(3) by (metis fst_conv)
        then show ?thesis using sets by blast
      qed
      then have "map_of (sk_entries ?m) k = map_of (sk_entries m) k"
        by (intro map_of_same_set [OF d(1) len(3)]) blast
      with False show ?thesis by simp
    qed
  qed
  moreover have "sockmap_ok ?m"
    using d(1) len max by (simp add: sockmap_ok_def sk_slots_def sk_entries_def)
  ultimately show ?thesis using del by blast
qed

section \<open>The map as an interface\<close>

interpretation sk: assoc_map sockmap_ok sk_abs sk_view sockmap_get sockmap_put sockmap_del
proof
  fix m fd
  assume "sockmap_ok m"
  then show "sockmap_get fd m = Some (sk_view (sk_abs m fd))" by (rule sockmap_get_ok)
next
  fix m fd data b
  assume "sockmap_ok m"
  from sockmap_put_ok [OF this, of b fd data] obtain e m' where
    "sockmap_put b fd data m = Some (e, m')" "sockmap_ok m'"
    "if e = EOK then map_of (sk_entries m') = (map_of (sk_entries m))(fd \<mapsto> data) else m' = m" by blast
  then show "\<exists>e m'. sockmap_put b fd data m = Some (e, m') \<and> sockmap_ok m' \<and>
      sk_abs m' = (if e = EOK then (sk_abs m)(fd \<mapsto> data) else sk_abs m)"
    by (intro exI [of _ e] exI [of _ m']) (simp add: sk_abs_def split: if_splits)
next
  fix m fd data b
  assume m: "sockmap_ok m" "sk_abs m fd \<noteq> None"
  then show "\<exists>m'. sockmap_put b fd data m = Some (EOK, m')"
    using sockmap_put_ok [OF m(1), of b fd data] unfolding sk_abs_def by (auto simp only: if_True not_False_eq_True)
next
  fix m fd
  assume "sockmap_ok m"
  from sockmap_del_ok [OF this, of fd] show "\<exists>m'. sockmap_del fd m = Some m' \<and> sockmap_ok m' \<and>
      sk_abs m' = (sk_abs m)(fd := None)"
    by (simp add: sk_abs_def)
qed

text \<open>The entries in use are counted by \<open>len\<close>, and there can be \<open>SOCKMAP_MAX\<close> of them.\<close>

lemma sk_card: "sockmap_ok m \<Longrightarrow> card (dom (sk_abs m)) = sk_len m"
  using distinct_card [of "map fst (sk_entries m)"]
  by (simp add: sk_abs_def sockmap_ok_def sk_entries_def dom_map_of_conv_image_fst)

interpretation skb: bounded_map sockmap_ok sk_abs sk_view sockmap_get sockmap_put sockmap_del SOCKMAP_MAX
proof
  fix m fd data b
  assume m: "sockmap_ok m" "sk_abs m fd = None" "SOCKMAP_MAX \<le> card (dom (sk_abs m))"
  then have "\<not> (map_of (sk_entries m) fd \<noteq> None)" "SOCKMAP_MAX \<le> sk_len m"
    by (simp_all only: sk_card) (simp add: sk_abs_def)
  then show "\<exists>m'. sockmap_put b fd data m = Some (ENOMEM, m')"
    using sockmap_put_ok [OF m(1), of b fd data] by (auto simp only: if_True if_False)
next
  fix m fd data b e m'
  assume m: "sockmap_ok m" "\<not> SOCKMAP_MAX \<le> card (dom (sk_abs m))" "sockmap_put b fd data m = Some (e, m')"
  then have "\<not> SOCKMAP_MAX \<le> sk_len m" by (simp only: sk_card not_False_eq_True)
  then show "e = EOK \<or> (e = ENOMEM \<and> \<not> b)"
    using sockmap_put_ok [OF m(1), of b fd data] m(3) by (cases "map_of (sk_entries m) fd = None") simp_all
qed

section \<open>The properties\<close>

lemma sockmap_init_ok: "sockmap_ok sockmap_init"
  by (simp add: sockmap_ok_def sockmap_init_def sk_slots_def)

text \<open>The socket map is a map. After \<open>sockmap_put\<close> succeeds, \<open>sockmap_get\<close> gives the
  new data for its descriptor and what it gave before for every other; when it fails, for lack
  of memory, every lookup is as before; and replacing the data of a known descriptor never
  fails.\<close>

theorem sockmap_put_get:
  assumes "sockmap_ok m"
  shows "\<exists>e m'. sockmap_put ok fd data m = Some (e, m') \<and> sockmap_ok m' \<and> e \<in> {EOK, ENOMEM} \<and>
    (\<forall>j. sockmap_get j m' = (if e = EOK \<and> j = fd then Some data else sockmap_get j m)) \<and>
    (sockmap_get fd m \<noteq> Some None \<longrightarrow> e = EOK)"
proof -
  obtain e m' where put: "sockmap_put ok fd data m = Some (e, m')" "sockmap_ok m'"
    using sk.put_law [OF assms, of ok fd data] by blast
  have e: "e \<in> {EOK, ENOMEM}"
    using put(1) sockmap_put_ok [OF assms, of ok fd data] by (auto split: if_splits)
  have "sockmap_get j m' = (if e = EOK \<and> j = fd then Some data else sockmap_get j m)" for j
    using sk.get_put [OF assms, of ok fd data m' j] sk.get_put_fail [OF assms put(1), of j] put(1)
    by (cases "e = EOK") (auto simp: sk_view_def)
  moreover have "sockmap_get fd m \<noteq> Some None \<longrightarrow> e = EOK"
    using sk.put_total [OF assms, of fd ok data] put(1) sk.get_law [OF assms, of fd]
    by (cases "sk_abs m fd") (auto simp: sk_view_def)
  ultimately show ?thesis using put e by blast
qed

theorem sockmap_put_get_witness:
  "\<exists>e m'. sockmap_put True 5 (Some 1) sockmap_init = Some (e, m') \<and> sockmap_ok m' \<and> e \<in> {EOK, ENOMEM} \<and>
    (\<forall>j. sockmap_get j m' = (if e = EOK \<and> j = 5 then Some (Some 1) else sockmap_get j sockmap_init)) \<and>
    (sockmap_get 5 sockmap_init \<noteq> Some None \<longrightarrow> e = EOK)"
  by (rule sockmap_put_get [OF sockmap_init_ok])

text \<open>C26: the socket map refines a finite map. Whatever sequence of insertions (of data that
  may be \<open>NULL\<close>), deletions and lookups is run from an empty socket map, with memory
  available or not at each insertion, every call returns, and together the results are the ones
  of a finite map: a lookup gives what was last inserted for its descriptor and not deleted
  since, \<open>NULL\<close> when there is nothing; the data of a descriptor in the map is always
  replaced; and a new descriptor is refused, with \<open>ENOMEM\<close> and without effect, whenever
  \<open>SOCKMAP_MAX\<close> descriptors are in the map, and otherwise only if memory is short.\<close>

theorem sockmap_refines:
  "\<exists>rs m. map_run sockmap_get sockmap_put sockmap_del ops sockmap_init = Some (rs, m) \<and>
     map_spec SOCKMAP_MAX sk_view ops rs Map.empty"
proof -
  have "sk_abs sockmap_init = Map.empty"
    by (simp add: sk_abs_def sk_entries_def sockmap_init_def sk_slots_def)
  then show ?thesis using skb.run_refines [OF sockmap_init_ok, of ops] by auto
qed

text \<open>Deleting a descriptor removes its data and no other's, although the last entry of the
  array is moved into its place.\<close>

lemma sockmap_del_get:
  assumes "sockmap_ok m"
  shows "\<exists>m'. sockmap_del fd m = Some m' \<and> sockmap_ok m' \<and>
    (\<forall>j. sockmap_get j m' = (if j = fd then Some None else sockmap_get j m))"
proof -
  obtain m' where del: "sockmap_del fd m = Some m'" "sockmap_ok m'"
    using sk.del_law [OF assms, of fd] by blast
  moreover have "sockmap_get j m' = (if j = fd then Some None else sockmap_get j m)" for j
    using sk.get_del [OF assms del(1), of j] by (simp add: sk_view_def)
  ultimately show ?thesis by blast
qed

lemma sockmap_del_get_witness:
  "\<exists>m'. sockmap_del 5 sockmap_init = Some m' \<and> sockmap_ok m' \<and>
    (\<forall>j. sockmap_get j m' = (if j = 5 then Some None else sockmap_get j sockmap_init))"
  by (rule sockmap_del_get [OF sockmap_init_ok])

end
