(* ===== verification/Streammap.thy ===== *)
theory Streammap
  imports Structs
begin

text \<open>
  The map from stream identifiers to the streams of a connection (\<open>src/streammap.c\<close>): an
  array of words, each a stream pointer or, when free, the address of the next free word.
\<close>

section \<open>The operations\<close>

definition streammap_init :: "int \<Rightarrow> streammap" where
  "streammap_init mx = \<lparr>sm_size = 0, sm_cap = mx, sm_map = None, sm_free = None\<rparr>"

definition streammap_destroy :: "streammap \<Rightarrow> streammap" where
  "streammap_destroy m =
     (if sm_map m \<noteq> None then \<lparr>sm_size = 0, sm_cap = 0, sm_map = None, sm_free = None\<rparr> else m)"

definition streammap_iter_beg :: "streammap \<Rightarrow> int" where
  "streammap_iter_beg m = 0"

definition streammap_iter_end :: "streammap \<Rightarrow> int" where
  "streammap_iter_end m = sm_cap m"

definition streammap_has_space :: "streammap \<Rightarrow> bool" where
  "streammap_has_space m \<longleftrightarrow> sm_size m < sm_cap m"

text \<open>
  The array of a map without a free list: \<open>max\<close> words, each the address of the next word,
  the last one the address just past the array. The map it replaces is not freed. Doubling
  the capacity may leave the range of \<open>int\<close>.
\<close>

definition streammap_alloc :: "bool \<Rightarrow> streammap \<Rightarrow> (errno \<times> streammap) option" where
  "streammap_alloc ok m =
     (if ok
      then do { cap \<leftarrow> cint (sm_cap m * 2);
                Some (EOK, m\<lparr>sm_map := Some (map (\<lambda>i. SNext (Some (i + 1))) [0..<nat (sm_cap m)]),
                             sm_cap := cap, sm_free := Some 0\<rparr>) }
      else Some (ENOMEM, m))"

text \<open>
  Adding a stream: the result code, the map and the index that becomes the stream's
  identifier. A free slot that holds a stream pointer instead of a link is read as a link by
  the code; the model calls that \<open>None\<close>, as it does a slot outside the array.
\<close>

definition streammap_add :: "bool \<Rightarrow> addr \<Rightarrow> streammap \<Rightarrow> strm heap \<Rightarrow> (errno \<times> streammap \<times> strm heap) option" where
  "streammap_add ok s m h =
     do { (e, m) \<leftarrow> (if sm_free m = None then streammap_alloc ok m else Some (EOK, m));
          if e \<noteq> EOK then Some (e, m, h)
          else do { slot \<leftarrow> sm_free m;
                    ws \<leftarrow> sm_map m;
                    if slot < length ws
                    then (case ws ! slot of
                            SPtr a \<Rightarrow> None
                          | SNext n \<Rightarrow>
                              do { h \<leftarrow> heap_upd s (\<lambda>x. x\<lparr>s_id := int slot\<rparr>) h;
                                   size \<leftarrow> cint (sm_size m + 1);
                                   Some (EOK, m\<lparr>sm_free := n, sm_map := Some (ws[slot := SPtr s]),
                                                sm_size := size\<rparr>, h) })
                    else None } }"

text \<open>What a slot holds is handed out as it is, a stream pointer or a link.\<close>

definition streammap_del :: "int \<Rightarrow> streammap \<Rightarrow> (sslot option \<times> streammap) option" where
  "streammap_del index m =
     (if index < sm_cap m
      then do { ws \<leftarrow> sm_map m;
                if 0 \<le> index \<and> nat index < length ws
                then do { size \<leftarrow> cint (sm_size m - 1);
                          let s = ws ! nat index;
                              m = m\<lparr>sm_map := Some (ws[nat index := SNext (sm_free m)]),
                                    sm_free := Some (nat index), sm_size := size\<rparr>
                          in Some (Some s, if sm_size m = 0 then m\<lparr>sm_map := None\<rparr> else m) }
                else None }
      else Some (None, m))"

definition streammap_get :: "int \<Rightarrow> streammap \<Rightarrow> sslot option option" where
  "streammap_get index m =
     (if index < sm_cap m
      then do { ws \<leftarrow> sm_map m;
                if 0 \<le> index \<and> nat index < length ws then Some (Some (ws ! nat index)) else None }
      else Some None)"

section \<open>Filling a map\<close>

fun streammap_add_all :: "addr list \<Rightarrow> streammap \<Rightarrow> strm heap \<Rightarrow> (streammap \<times> strm heap) option" where
  "streammap_add_all [] m h = Some (m, h)"
| "streammap_add_all (s # ss) m h =
     (case streammap_add True s m h of
        Some (EOK, m, h) \<Rightarrow> streammap_add_all ss m h
      | _ \<Rightarrow> None)"

text \<open>The map after \<open>k\<close> of its \<open>n\<close> first insertions.\<close>

definition sm_filled :: "nat \<Rightarrow> addr list \<Rightarrow> streammap \<Rightarrow> bool" where
  "sm_filled n ss m \<longleftrightarrow> length ss \<le> n \<and> n * 2 \<le> INT_MAX \<and> sm_cap m = int n * 2 \<and> sm_size m = int (length ss) \<and>
     sm_free m = Some (length ss) \<and>
     sm_map m = Some (map SPtr ss @ map (\<lambda>i. SNext (Some (i + 1))) [length ss..<n])"

lemma sm_filled_add:
  assumes "sm_filled n ss m" "length ss < n" "h s = Some x"
  shows "\<exists>m' h'. streammap_add True s m h = Some (EOK, m', h') \<and> sm_filled n (ss @ [s]) m' \<and>
    h' = h(s \<mapsto> x\<lparr>s_id := int (length ss)\<rparr>)"
proof -
  let ?k = "length ss"
  let ?ws = "map SPtr ss @ map (\<lambda>i. SNext (Some (i + 1))) [?k..<n]"
  have "?ws ! ?k = SNext (Some (?k + 1))" "?k < length ?ws"
    using assms(2) by (simp_all add: nth_append)
  moreover have "?ws[?k := SPtr s] = map SPtr (ss @ [s]) @ map (\<lambda>i. SNext (Some (i + 1))) [length (ss @ [s])..<n]"
    using assms(2) by (simp add: list_update_append upt_conv_Cons)
  ultimately show ?thesis
    using assms by (simp add: streammap_add_def sm_filled_def cint_def INT_MAX_def)
qed

lemma sm_first_add:
  assumes "h s = Some x" "0 < n" "n * 2 \<le> INT_MAX"
  shows "\<exists>m' h'. streammap_add True s (streammap_init (int n)) h = Some (EOK, m', h') \<and> sm_filled n [s] m' \<and>
    h' = h(s \<mapsto> x\<lparr>s_id := 0\<rparr>)"
  using assms
  by (simp add: streammap_add_def streammap_alloc_def streammap_init_def sm_filled_def upt_conv_Cons cint_def INT_MAX_def)

text \<open>Streams given consecutive identifiers, starting from \<open>k\<close>.\<close>

fun numbered :: "nat \<Rightarrow> addr list \<Rightarrow> strm heap \<Rightarrow> strm heap" where
  "numbered k [] h = h"
| "numbered k (s # ss) h = numbered (Suc k) ss (h(s := map_option (\<lambda>x. x\<lparr>s_id := int k\<rparr>) (h s)))"

lemma numbered_other: "a \<notin> set ss \<Longrightarrow> numbered k ss h a = h a"
  by (induction k ss h rule: numbered.induct) auto

lemma numbered_nth:
  "distinct ss \<Longrightarrow> i < length ss \<Longrightarrow> numbered k ss h (ss ! i) = map_option (\<lambda>x. x\<lparr>s_id := int (k + i)\<rparr>) (h (ss ! i))"
proof (induction k ss h arbitrary: i rule: numbered.induct)
  case (2 k s ss h)
  show ?case
  proof (cases i)
    case 0
    then show ?thesis using 2(2) by (simp add: numbered_other)
  next
    case (Suc j)
    then have "ss ! j \<noteq> s" using 2(2,3) nth_mem [of j ss] by auto
    then show ?thesis using 2(1) [of j] 2(2,3) Suc by (simp add: add.commute fun_upd_def)
  qed
qed simp

lemma sm_add_all:
  assumes "sm_filled n rs m" "length rs + length ss \<le> n" "set ss \<subseteq> dom h"
  shows "\<exists>m'. streammap_add_all ss m h = Some (m', numbered (length rs) ss h) \<and> sm_filled n (rs @ ss) m'"
  using assms
proof (induction ss arbitrary: rs m h)
  case (Cons s ss)
  then obtain x where x: "h s = Some x" by auto
  obtain m1 h1 where 1: "streammap_add True s m h = Some (EOK, m1, h1)" "sm_filled n (rs @ [s]) m1"
    "h1 = h(s \<mapsto> x\<lparr>s_id := int (length rs)\<rparr>)"
    using sm_filled_add [of n rs m h s x] x Cons.prems(1,2) by auto
  have "set ss \<subseteq> dom h1" using Cons.prems(3) 1(3) by auto
  then obtain m' where "streammap_add_all ss m1 h1 = Some (m', numbered (length (rs @ [s])) ss h1)"
    "sm_filled n ((rs @ [s]) @ ss) m'"
    using Cons.IH [OF 1(2), of h1] Cons.prems(2) by auto
  with 1 x show ?case by simp
qed simp

text \<open>All insertions into a new map.\<close>

lemma sm_fill:
  assumes "0 < n" "n * 2 \<le> INT_MAX" "ss \<noteq> []" "length ss \<le> n" "set ss \<subseteq> dom h"
  obtains m where "streammap_add_all ss (streammap_init (int n)) h = Some (m, numbered 0 ss h)" "sm_filled n ss m"
proof -
  obtain s rs where ss: "ss = s # rs" using assms(3) by (cases ss) auto
  then obtain x where x: "h s = Some x" using assms(5) by auto
  obtain m1 where 1: "streammap_add True s (streammap_init (int n)) h = Some (EOK, m1, h(s \<mapsto> x\<lparr>s_id := 0\<rparr>))"
    "sm_filled n [s] m1"
    using sm_first_add [of h s x n] x assms(1,2) by blast
  have live: "set rs \<subseteq> dom (h(s \<mapsto> x\<lparr>s_id := 0\<rparr>))" using assms(5) ss by auto
  obtain m where "streammap_add_all rs m1 (h(s \<mapsto> x\<lparr>s_id := 0\<rparr>)) = Some (m, numbered 1 rs (h(s \<mapsto> x\<lparr>s_id := 0\<rparr>)))"
    "sm_filled n ([s] @ rs) m"
    using sm_add_all [OF 1(2) _ live] assms(4) ss by auto
  then show thesis using 1(1) x ss by (intro that [of m]) simp_all
qed

section \<open>The properties\<close>

definition one_stream :: strm where
  "one_stream = \<lparr>s_data = None, s_connection = None, s_id = 0, s_status = CI_OPEN, s_type = 0,
     s_flags = 0, s_listbeg = None, s_listend = None\<rparr>"

text \<open>C27: the first \<open>n\<close> streams of a map initialised for \<open>n\<close> get the identifiers
  \<open>0, 1, \<dots>\<close> in order, each written into its stream and nothing else in any stream changed,
  and each identifier leads to its stream. Twice \<open>n\<close> has to be an \<open>int\<close>, because the
  first insertion doubles the capacity.\<close>

theorem streammap_fill:
  assumes "0 < n" "2 * n \<le> INT_MAX" "ss \<noteq> []" "length ss \<le> n" "distinct ss" "set ss \<subseteq> dom h"
  shows "\<exists>m' h'. streammap_add_all ss (streammap_init (int n)) h = Some (m', h') \<and>
    (\<forall>i < length ss. streammap_get (int i) m' = Some (Some (SPtr (ss ! i))) \<and>
      h' (ss ! i) = map_option (\<lambda>x. x\<lparr>s_id := int i\<rparr>) (h (ss ! i))) \<and>
    (\<forall>a. a \<notin> set ss \<longrightarrow> h' a = h a)"
proof -
  obtain m where m: "streammap_add_all ss (streammap_init (int n)) h = Some (m, numbered 0 ss h)" "sm_filled n ss m"
    by (rule sm_fill [of n ss h]) (use assms in simp_all)
  have "streammap_get (int i) m = Some (Some (SPtr (ss ! i)))" if "i < length ss" for i
  proof -
    let ?ws = "map SPtr ss @ map (\<lambda>i. SNext (Some (i + 1))) [length ss..<n]"
    have "sm_map m = Some ?ws" "sm_cap m = int n * 2" using m(2) by (simp_all add: sm_filled_def)
    moreover have "?ws ! i = SPtr (ss ! i)" "i < length ?ws" using that by (simp_all add: nth_append)
    ultimately show ?thesis using that assms(4) by (simp add: streammap_get_def)
  qed
  with m(1) show ?thesis using numbered_nth [OF assms(5), of _ 0 h] numbered_other [of _ ss 0 h] by simp
qed

theorem streammap_fill_witness:
  "\<exists>m' h'. streammap_add_all [3, 4] (streammap_init (int 8)) [3 \<mapsto> one_stream, 4 \<mapsto> one_stream] = Some (m', h') \<and>
    (\<forall>i < length [3, 4 :: addr]. streammap_get (int i) m' = Some (Some (SPtr ([3, 4] ! i))) \<and>
      h' ([3, 4] ! i) = map_option (\<lambda>x. x\<lparr>s_id := int i\<rparr>) ([3 \<mapsto> one_stream, 4 \<mapsto> one_stream] ([3, 4 :: addr] ! i))) \<and>
    (\<forall>a. a \<notin> set [3, 4 :: addr] \<longrightarrow> h' a = [3 \<mapsto> one_stream, 4 \<mapsto> one_stream] a)"
  by (rule streammap_fill) (simp_all add: INT_MAX_def)

text \<open>One stream too many is written past the array. After the \<open>n\<close> streams a map was
  initialised for, \<open>streammap_has_space\<close> still says yes, because the first insertion doubled
  the capacity without allocating that much, and the next insertion follows the link of the last
  slot to the word after the array.\<close>

theorem streammap_overrun:
  assumes "0 < n" "2 * n \<le> INT_MAX" "length ss = n" "set ss \<subseteq> dom h"
  shows "\<exists>m' h'. streammap_add_all ss (streammap_init (int n)) h = Some (m', h') \<and>
    streammap_has_space m' \<and> streammap_add ok s' m' h' = None"
proof -
  obtain m where m: "streammap_add_all ss (streammap_init (int n)) h = Some (m, numbered 0 ss h)" "sm_filled n ss m"
    by (rule sm_fill [of n ss h]) (use assms in auto)
  have "streammap_add ok s' m (numbered 0 ss h) = None" "streammap_has_space m"
    using m(2) assms(1,3) by (auto simp: sm_filled_def streammap_add_def streammap_has_space_def)
  with m(1) show ?thesis by auto
qed

theorem streammap_overrun_witness:
  "\<exists>m' h'. streammap_add_all [3, 4] (streammap_init (int 2)) [3 \<mapsto> one_stream, 4 \<mapsto> one_stream] = Some (m', h') \<and>
    streammap_has_space m' \<and> streammap_add True 5 m' h' = None"
  by (rule streammap_overrun) (simp_all add: INT_MAX_def)

text \<open>A map initialised for \<open>2 ^ 30\<close> streams or more overflows its capacity with the first.\<close>

lemma streammap_alloc_overflow:
  assumes "INT_MAX < 2 * n"
  shows "streammap_add True s (streammap_init (int n)) h = None"
  using assms by (simp add: streammap_add_def streammap_alloc_def streammap_init_def cint_def INT_MAX_def)

text \<open>After the last stream is deleted the array is freed but its free list is not forgotten,
  so the next insertion goes through the freed array.\<close>

theorem streammap_use_after_free:
  assumes "h s = Some x" "0 < n" "2 * n \<le> INT_MAX"
  shows "\<exists>m h' m'. streammap_add True s (streammap_init (int n)) h = Some (EOK, m, h') \<and>
    streammap_del 0 m = Some (Some (SPtr s), m') \<and> sm_size m' = 0 \<and> streammap_add ok s' m' h' = None"
proof -
  obtain m h' where 1: "streammap_add True s (streammap_init (int n)) h = Some (EOK, m, h')" "sm_filled n [s] m"
    using sm_first_add [of h s x n] assms by (auto simp: mult.commute)
  then have "\<exists>m'. streammap_del 0 m = Some (Some (SPtr s), m') \<and> sm_size m' = 0 \<and> streammap_add ok s' m' h' = None"
    using assms(2) by (simp add: sm_filled_def streammap_del_def streammap_add_def Let_def cint_def)
  with 1(1) show ?thesis by blast
qed

theorem streammap_use_after_free_witness:
  "\<exists>m h' m'. streammap_add True 3 (streammap_init (int 8)) [3 \<mapsto> one_stream] = Some (EOK, m, h') \<and>
    streammap_del 0 m = Some (Some (SPtr 3), m') \<and> sm_size m' = 0 \<and> streammap_add True 4 m' h' = None"
  by (rule streammap_use_after_free) (simp_all add: INT_MAX_def)

end
