(* ===== verification/Messages.thy ===== *)
theory Messages
  imports Structs Streammap Interfaces
begin

text \<open>
  Streams and the messages they send (\<open>src/stream.c\<close> and the message queues of
  \<open>src/conn.c\<close>). A message is linked into two lists at once, the one of its stream and the
  send queue of its connection, through the same \<open>next\<close> field.
\<close>

section \<open>The message list of a stream (stream.c)\<close>

text \<open>One for a priority stream, zero otherwise.\<close>

definition trips_priority :: "strm \<Rightarrow> int" where
  "trips_priority s = uint (s_flags s AND TRIPS_OPT_PRIORITY)"

definition trips_msg_add :: "addr \<Rightarrow> addr \<Rightarrow> 'a store_scheme \<Rightarrow> 'a store_scheme option" where
  "trips_msg_add s m w =
     do { x \<leftarrow> h_strm w s;
          w \<leftarrow> (case s_listend x of
              Some e \<Rightarrow> do { w \<leftarrow> msg_upd e (\<lambda>y. y\<lparr>m_next := Some m\<rparr>) w;
                             strm_upd s (\<lambda>x. x\<lparr>s_listend := Some m\<rparr>) w }
            | None \<Rightarrow> strm_upd s (\<lambda>x. x\<lparr>s_listbeg := Some m, s_listend := Some m\<rparr>) w);
          msg_upd m (\<lambda>y. y\<lparr>m_next := None\<rparr>) w }"

text \<open>The walk of \<open>_trips_msg_remove\<close>: \<open>p\<close> is the message before \<open>m\<close>.\<close>

partial_function (option) msg_remove_walk ::
  "addr \<Rightarrow> addr \<Rightarrow> ptr \<Rightarrow> ptr \<Rightarrow> 'a store_scheme \<Rightarrow> 'a store_scheme option" where
  "msg_remove_walk s mess p m w =
     (case m of
        None \<Rightarrow> Some w
      | Some a \<Rightarrow>
          Option.bind (h_msg w a) (\<lambda>y.
          Option.bind (h_strm w s) (\<lambda>x.
            if a = mess
            then
              Option.bind (case p of
                  Some b \<Rightarrow>
                    Option.bind (msg_upd b (\<lambda>z. z\<lparr>m_next := m_next y\<rparr>) w) (\<lambda>w.
                      if Some a = s_listend x then strm_upd s (\<lambda>x. x\<lparr>s_listend := Some b\<rparr>) w else Some w)
                | None \<Rightarrow>
                    if Some a = s_listend x
                    then strm_upd s (\<lambda>x. x\<lparr>s_listbeg := None, s_listend := None\<rparr>) w
                    else strm_upd s (\<lambda>x. x\<lparr>s_listbeg := m_next y\<rparr>) w)
                (msg_upd a (\<lambda>y. y\<lparr>m_next := None\<rparr>))
            else msg_remove_walk s mess (Some a) (m_next y) w)))"

declare msg_remove_walk.simps [code]

definition trips_msg_remove :: "addr \<Rightarrow> addr \<Rightarrow> 'a store_scheme \<Rightarrow> 'a store_scheme option" where
  "trips_msg_remove s mess w = do { x \<leftarrow> h_strm w s; msg_remove_walk s mess None (s_listbeg x) w }"

section \<open>The message queues of a connection (conn.c)\<close>

text \<open>The two-element arrays, indexed by the priority of a message.\<close>

definition mq_beg :: "messageq \<Rightarrow> int \<Rightarrow> ptr option" where
  "mq_beg q i = (if i = 0 then Some (mq_sendbeg0 q) else if i = 1 then Some (mq_sendbeg1 q) else None)"

definition mq_end :: "messageq \<Rightarrow> int \<Rightarrow> ptr option" where
  "mq_end q i = (if i = 0 then Some (mq_sendend0 q) else if i = 1 then Some (mq_sendend1 q) else None)"

definition mq_set_beg :: "int \<Rightarrow> ptr \<Rightarrow> messageq \<Rightarrow> messageq" where
  "mq_set_beg i p q = (if i = 0 then q\<lparr>mq_sendbeg0 := p\<rparr> else q\<lparr>mq_sendbeg1 := p\<rparr>)"

definition mq_set_end :: "int \<Rightarrow> ptr \<Rightarrow> messageq \<Rightarrow> messageq" where
  "mq_set_end i p q = (if i = 0 then q\<lparr>mq_sendend0 := p\<rparr> else q\<lparr>mq_sendend1 := p\<rparr>)"

definition mq_upd :: "addr \<Rightarrow> (messageq \<Rightarrow> messageq) \<Rightarrow> 'a store_scheme \<Rightarrow> 'a store_scheme option" where
  "mq_upd c f = conn_upd c (\<lambda>k. k\<lparr>c_msg := f (c_msg k)\<rparr>)"

definition tripc_send_add :: "addr \<Rightarrow> addr \<Rightarrow> 'a store_scheme \<Rightarrow> 'a store_scheme option" where
  "tripc_send_add c m w =
     do { k \<leftarrow> h_conn w c;
          y \<leftarrow> h_msg w m;
          e \<leftarrow> mq_end (c_msg k) (m_priority y);
          w \<leftarrow> (case e of
              Some l \<Rightarrow> do { w \<leftarrow> msg_upd l (\<lambda>z. z\<lparr>m_next := Some m\<rparr>) w;
                             mq_upd c (mq_set_end (m_priority y) (Some m)) w }
            | None \<Rightarrow> mq_upd c (mq_set_end (m_priority y) (Some m) \<circ> mq_set_beg (m_priority y) (Some m)) w);
          msg_upd m (\<lambda>y. y\<lparr>m_next := None\<rparr>) w }"

text \<open>\<open>_TRIP_MESSAGE_PRIORITY\<close> is 0 and \<open>_TRIP_MESSAGE_WHENEVER\<close> is 1.\<close>

definition MESSAGE_PRIORITY :: int where "MESSAGE_PRIORITY = 0"
definition MESSAGE_WHENEVER :: int where "MESSAGE_WHENEVER = 1"

definition tripc_send_pick :: "connection \<Rightarrow> (ptr \<times> connection) option" where
  "tripc_send_pick k =
     (let sw = (mq_sendwhich (c_msg k) + 1) AND mq_sendmask (c_msg k);
          q = (c_msg k)\<lparr>mq_sendwhich := sw\<rparr>;
          which = (if sw \<noteq> 0 then MESSAGE_PRIORITY else MESSAGE_WHENEVER)
      in do { b \<leftarrow> mq_beg q which;
              (case b of
                 Some m \<Rightarrow> Some (Some m, k\<lparr>c_msg := q\<rparr>)
               | None \<Rightarrow> do { b \<leftarrow> mq_beg q (0x01 AND (which + 1));
                              Some (b, k\<lparr>c_msg := q\<rparr>) }) })"

definition tripc_send_clear :: "addr \<Rightarrow> addr \<Rightarrow> 'a store_scheme \<Rightarrow> 'a store_scheme option" where
  "tripc_send_clear c m w =
     do { k \<leftarrow> h_conn w c;
          y \<leftarrow> h_msg w m;
          b \<leftarrow> mq_beg (c_msg k) (m_priority y);
          e \<leftarrow> mq_end (c_msg k) (m_priority y);
          if Some m = b
          then do {
            w \<leftarrow> (if b = e
                   then mq_upd c (mq_set_end (m_priority y) None \<circ> mq_set_beg (m_priority y) None) w
                   else mq_upd c (mq_set_beg (m_priority y) (m_next y)) w);
            msg_upd m (\<lambda>y. y\<lparr>m_next := None\<rparr>) w }
          else Some w }"

definition tripc_message_zone :: "connection \<Rightarrow> int" where
  "tripc_message_zone k = mq_zone (c_msg k)"

text \<open>\<open>_TRIPR_MAX_MESSAGE_ID\<close>; \<open>_tripc_update_zones\<close> does nothing yet.\<close>

definition MAX_MESSAGE_ID :: u32 where "MAX_MESSAGE_ID = push_bit 20 1"

definition tripc_update_zones :: "connection \<Rightarrow> connection" where
  "tripc_update_zones k = k"

definition tripc_next_message_id :: "connection \<Rightarrow> u32 \<times> connection" where
  "tripc_next_message_id k =
     (let i = mq_nextmsgid (c_msg k);
          k = k\<lparr>c_msg := (c_msg k)\<lparr>mq_nextmsgid := i + 1\<rparr>\<rparr>;
          k = (if mq_nextmsgid (c_msg k) > MAX_MESSAGE_ID then tripc_update_zones k else k)
      in (i, k))"

text \<open>
  Memory for a message: \<open>a\<close> is what the allocation gives. The contents are uninitialised;
  the fields that \<open>trips_send\<close> does not set keep whatever was there (\<open>junk\<close>).
\<close>

definition tripc_new_message :: "ptr \<Rightarrow> msg \<Rightarrow> 'a store_scheme \<Rightarrow> ptr \<times> 'a store_scheme" where
  "tripc_new_message a junk w =
     (case a of None \<Rightarrow> (None, w) | Some m \<Rightarrow> (Some m, w\<lparr>h_msg := (h_msg w)(m \<mapsto> junk)\<rparr>))"

definition tripc_free_message :: "addr \<Rightarrow> 'a store_scheme \<Rightarrow> 'a store_scheme option" where
  "tripc_free_message m w = map_option (\<lambda>h. w\<lparr>h_msg := h\<rparr>) (heap_free m (h_msg w))"

definition tripc_close_stream :: "addr \<Rightarrow> addr \<Rightarrow> 'a store_scheme \<Rightarrow> 'a store_scheme" where
  "tripc_close_stream c s w = w"

section \<open>Streams (stream.c)\<close>

definition trips_message :: "addr \<Rightarrow> int \<Rightarrow> bytes \<Rightarrow> 'a store_scheme \<Rightarrow> 'a store_scheme" where
  "trips_message s len buf w = w"

definition trips_done_message :: "addr \<Rightarrow> addr \<Rightarrow> 'a store_scheme \<Rightarrow> 'a store_scheme option" where
  "trips_done_message s m w = do { w \<leftarrow> trips_msg_remove s m w; tripc_free_message m w }"

partial_function (option) trips_free_walk :: "ptr \<Rightarrow> 'a store_scheme \<Rightarrow> 'a store_scheme option" where
  "trips_free_walk m w =
     (case m of
        None \<Rightarrow> Some w
      | Some a \<Rightarrow>
          Option.bind (h_msg w a) (\<lambda>y.
          Option.bind (tripc_free_message a w) (\<lambda>w. trips_free_walk (m_next y) w)))"

declare trips_free_walk.simps [code]

definition trips_destroy :: "addr \<Rightarrow> 'a store_scheme \<Rightarrow> 'a store_scheme option" where
  "trips_destroy s w = do { x \<leftarrow> h_strm w s; trips_free_walk (s_listbeg x) w }"

definition trips_isopen :: "strm \<Rightarrow> bool" where
  "trips_isopen s \<longleftrightarrow> s_flags s AND TRIPS_OPT_CLOSED = 0"

definition trips_id :: "strm \<Rightarrow> int" where
  "trips_id s = s_id s"

text \<open>The field has the type of a connection's status; the constants have the same values.\<close>

definition trips_status :: "strm \<Rightarrow> stream_status" where
  "trips_status s =
     (case s_status s of CI_OPEN \<Rightarrow> SI_OPEN | CI_CLOSED \<Rightarrow> SI_CLOSED | CI_KILLED \<Rightarrow> SI_KILLED
      | CI_ERROR \<Rightarrow> SI_ERROR | CO_OPEN \<Rightarrow> SO_OPEN | CO_CLOSED \<Rightarrow> SO_CLOSED
      | CO_KILLED \<Rightarrow> SO_KILLED | CO_ERROR \<Rightarrow> SO_ERROR)"

definition trips_type :: "strm \<Rightarrow> int" where
  "trips_type s = s_type s"

definition trips_close :: "addr \<Rightarrow> 'a store_scheme \<Rightarrow> 'a store_scheme option" where
  "trips_close s w =
     do { x \<leftarrow> h_strm w s;
          Some (case s_connection x of Some c \<Rightarrow> tripc_close_stream c s w | None \<Rightarrow> w) }"

definition trips_send :: "ptr \<Rightarrow> msg \<Rightarrow> addr \<Rightarrow> u64 \<Rightarrow> bytes option \<Rightarrow> 'a store_scheme \<Rightarrow> (errno \<times> 'a store_scheme) option" where
  "trips_send a junk s len buf w =
     do { x \<leftarrow> h_strm w s;
          (case s_connection x of
             None \<Rightarrow> Some (ENOTCONN, w)
           | Some c \<Rightarrow>
               do { k \<leftarrow> h_conn w c;
                    if buf = None \<or> len = 0 \<or> len > 0x7FFFFFFF \<or>
                       len > ucast (lim_message_size (peer_lim (c_peer k)))
                    then Some (EINVAL, w)
                    else if s_flags x AND TRIPS_OPT_CLOSED \<noteq> 0 then Some (ESHUTDOWN, w)
                    else if s_flags x AND (TRIPS_OPT_BACKFLOW OR TRIPS_OPT_STALLED) \<noteq> 0
                    then Some (EWOULDBLOCK, w)
                    else (case tripc_new_message a junk w of
                        (None, w) \<Rightarrow> Some (ENOMEM, w)
                      | (Some m, w) \<Rightarrow>
                          do { w \<leftarrow> msg_upd m (\<lambda>y. y\<lparr>m_stream := Some s, m_next := None,
                                   m_priority := trips_priority x, m_len := len, m_buf := buf,
                                   m_parts := None\<rparr>) w;
                               w \<leftarrow> tripc_send_add c m w;
                               w \<leftarrow> trips_msg_add s m w;
                               Some (EOK, w) }) }) }"

text \<open>
  Opening a stream: \<open>a\<close> and \<open>junk\<close> are the new memory, \<open>ok\<close> is the outcome of the
  stream map's own allocation. The result of the insertion is ignored.
\<close>

definition tripc_open_stream ::
  "ptr \<Rightarrow> strm \<Rightarrow> bool \<Rightarrow> addr \<Rightarrow> int \<Rightarrow> int \<Rightarrow> 'a store_scheme \<Rightarrow> (ptr \<times> 'a store_scheme) option" where
  "tripc_open_stream a junk ok c sid options w =
     (case a of
        None \<Rightarrow> Some (None, w)
      | Some s \<Rightarrow>
          do { let x = junk\<lparr>s_data := None, s_connection := Some c, s_id := sid,
                          s_flags := of_int options AND TRIPS_OPT_PUBMASK,
                          s_listbeg := None, s_listend := None\<rparr>;
               let w = w\<lparr>h_strm := (h_strm w)(s \<mapsto> x)\<rparr>;
               k \<leftarrow> h_conn w c;
               (e, m, h) \<leftarrow> streammap_add ok s (c_streams k) (h_strm w);
               w \<leftarrow> conn_upd c (\<lambda>k. k\<lparr>c_streams := m\<rparr>) (w\<lparr>h_strm := h\<rparr>);
               Some (Some s, w) })"

section \<open>The send queue of a connection is a queue\<close>

text \<open>The queue of priority \<open>i\<close> holds the messages \<open>ms\<close>.\<close>

definition mq_rep :: "addr \<Rightarrow> int \<Rightarrow> 'a store_scheme \<Rightarrow> addr list \<Rightarrow> bool" where
  "mq_rep c i w ms \<longleftrightarrow>
     (\<exists>k b. h_conn w c = Some k \<and> mq_beg (c_msg k) i = Some b \<and> chain m_next (h_msg w) b ms \<and>
        mq_end (c_msg k) i = Some (if ms = [] then None else Some (last ms))) \<and>
     (\<forall>m \<in> set ms. \<exists>y. h_msg w m = Some y \<and> m_priority y = i)"

definition mq_ok :: "int \<Rightarrow> addr \<Rightarrow> 'a store_scheme \<Rightarrow> bool" where
  "mq_ok i m w \<longleftrightarrow> (\<exists>y. h_msg w m = Some y \<and> m_priority y = i)"

text \<open>Taking the message at the front off: it is read, then cleared.\<close>

definition mq_take :: "addr \<Rightarrow> int \<Rightarrow> 'a store_scheme \<Rightarrow> (ptr \<times> 'a store_scheme) option" where
  "mq_take c i w =
     do { k \<leftarrow> h_conn w c;
          b \<leftarrow> mq_beg (c_msg k) i;
          (case b of
             None \<Rightarrow> Some (None, w)
           | Some m \<Rightarrow> do { w \<leftarrow> tripc_send_clear c m w; Some (Some m, w) }) }"

lemma mq_set_get [simp]:
  "i = 0 \<or> i = 1 \<Longrightarrow> mq_beg (mq_set_beg i p q) i = Some p"
  "i = 0 \<or> i = 1 \<Longrightarrow> mq_end (mq_set_end i p q) i = Some p"
  "mq_beg (mq_set_end i p q) j = mq_beg q j" "mq_end (mq_set_beg i p q) j = mq_end q j"
  by (auto simp: mq_beg_def mq_end_def mq_set_beg_def mq_set_end_def)

lemma mq_index: "mq_beg q i = Some b \<Longrightarrow> i = 0 \<or> i = 1"
  by (auto simp: mq_beg_def split: if_splits)

lemma msg_upd_ok: "h_msg w m = Some y \<Longrightarrow> m_priority y' = m_priority y \<Longrightarrow>
    mq_ok i n (w\<lparr>h_msg := (h_msg w)(m \<mapsto> y')\<rparr>) = mq_ok i n w"
  by (auto simp: mq_ok_def)

lemma send_add_rep:
  assumes "mq_rep c i w ms" "mq_ok i m w" "m \<notin> set ms"
  shows "\<exists>w'. tripc_send_add c m w = Some w' \<and> mq_rep c i w' (ms @ [m]) \<and> (\<forall>n. mq_ok i n w' \<longleftrightarrow> mq_ok i n w)"
proof -
  from assms(1) obtain k b where k: "h_conn w c = Some k" "mq_beg (c_msg k) i = Some b"
    "chain m_next (h_msg w) b ms" "mq_end (c_msg k) i = Some (if ms = [] then None else Some (last ms))"
    by (auto simp: mq_rep_def)
  note i = mq_index [OF k(2)]
  from assms(2) obtain y where y: "h_msg w m = Some y" "m_priority y = i" by (auto simp: mq_ok_def)
  show ?thesis
  proof (cases ms rule: rev_cases)
    case Nil
    with k y i show ?thesis
      by (auto simp: tripc_send_add_def mq_upd_def mq_rep_def chain_Cons mq_ok_def)
  next
    case (snoc ns l)
    then obtain x where x: "h_msg w l = Some x" "m_priority x = i" "l \<noteq> m"
      using assms(1,3) by (auto simp: mq_rep_def)
    let ?h = "(h_msg w)(l \<mapsto> x\<lparr>m_next := Some m\<rparr>, m \<mapsto> y\<lparr>m_next := None\<rparr>)"
    let ?w = "w\<lparr>h_msg := ?h, h_conn := (h_conn w)(c \<mapsto> k\<lparr>c_msg := mq_set_end i (Some m) (c_msg k)\<rparr>)\<rparr>"
    have "tripc_send_add c m w = Some ?w"
      using k y x snoc by (simp add: tripc_send_add_def mq_upd_def)
    moreover have "chain m_next ?h b (ns @ [l, m])"
      using k(3) snoc assms(3) y x by (intro chain_snoc) auto
    then have "mq_rep c i ?w (ms @ [m])"
      using k i snoc assms(1) x y by (auto simp: mq_rep_def)
    moreover have "mq_ok i n ?w \<longleftrightarrow> mq_ok i n w" for n
      using x y by (auto simp: mq_ok_def)
    ultimately show ?thesis by blast
  qed
qed

lemma take_rep:
  assumes "mq_rep c i w (m # ms)"
  shows "\<exists>w'. mq_take c i w = Some (Some m, w') \<and> mq_rep c i w' ms \<and> (\<forall>n. mq_ok i n w' \<longleftrightarrow> mq_ok i n w)"
proof -
  from assms obtain k y where k: "h_conn w c = Some k" "mq_beg (c_msg k) i = Some (Some m)"
    "h_msg w m = Some y" "chain m_next (h_msg w) (m_next y) ms" "m \<notin> set ms" "m_priority y = i"
    "mq_end (c_msg k) i = Some (Some (last (m # ms)))"
    by (auto simp: mq_rep_def chain_Cons)
  note i = mq_index [OF k(2)]
  show ?thesis
  proof (cases "ms = []")
    case True
    with k i show ?thesis
      by (auto simp: mq_take_def tripc_send_clear_def mq_upd_def mq_rep_def mq_ok_def)
  next
    case False
    then have "m \<noteq> last ms" using k(5) by auto
    let ?h = "(h_msg w)(m \<mapsto> y\<lparr>m_next := None\<rparr>)"
    let ?w = "w\<lparr>h_msg := ?h, h_conn := (h_conn w)(c \<mapsto> k\<lparr>c_msg := mq_set_beg i (m_next y) (c_msg k)\<rparr>)\<rparr>"
    have "mq_take c i w = Some (Some m, ?w)"
      using k False \<open>m \<noteq> last ms\<close> by (simp add: mq_take_def tripc_send_clear_def mq_upd_def)
    moreover have "chain m_next ?h (m_next y) ms"
      using k(4,5) by (rule chain_upd_off)
    then have "mq_rep c i ?w ms"
      using k i False assms by (auto simp: mq_rep_def)
    moreover have "mq_ok i n ?w \<longleftrightarrow> mq_ok i n w" for n
      using k by (auto simp: mq_ok_def)
    ultimately show ?thesis by blast
  qed
qed

interpretation mq: fifo "mq_rep c i" "mq_ok i" "tripc_send_add c" "mq_take c i" for c i
proof
  fix w :: "'a store_scheme" and ms m
  assume "mq_rep c i w ms" "mq_ok i m w" "m \<notin> set ms"
  then show "\<exists>w'. tripc_send_add c m w = Some w' \<and> mq_rep c i w' (ms @ [m]) \<and> (\<forall>n. mq_ok i n w' \<longleftrightarrow> mq_ok i n w)"
    by (rule send_add_rep)
next
  fix w :: "'a store_scheme"
  assume "mq_rep c i w []"
  then show "mq_take c i w = Some (None, w)" by (auto simp: mq_rep_def mq_take_def)
next
  fix w :: "'a store_scheme" and m ms
  assume "mq_rep c i w (m # ms)"
  then show "\<exists>w'. mq_take c i w = Some (Some m, w') \<and> mq_rep c i w' ms \<and> (\<forall>n. mq_ok i n w' \<longleftrightarrow> mq_ok i n w)"
    by (rule take_rep)
next
  fix w :: "'a store_scheme" and m ms
  assume "mq_rep c i w ms" "m \<in> set ms"
  then show "mq_ok i m w" by (auto simp: mq_rep_def mq_ok_def)
qed

section \<open>The message list of a stream\<close>

definition sl_rep :: "addr \<Rightarrow> 'a store_scheme \<Rightarrow> addr list \<Rightarrow> bool" where
  "sl_rep s w ms \<longleftrightarrow> (\<exists>x. h_strm w s = Some x \<and> chain m_next (h_msg w) (s_listbeg x) ms \<and>
     s_listend x = (if ms = [] then None else Some (last ms)))"

lemma msg_add_rep:
  assumes "sl_rep s w ms" "h_msg w m = Some y" "m \<notin> set ms"
  shows "\<exists>w'. trips_msg_add s m w = Some w' \<and> sl_rep s w' (ms @ [m])"
proof (cases ms rule: rev_cases)
  case Nil
  with assms show ?thesis by (auto simp: sl_rep_def trips_msg_add_def chain_Cons)
next
  case (snoc ns l)
  from assms(1) obtain x where x: "h_strm w s = Some x" "chain m_next (h_msg w) (s_listbeg x) ms"
    "s_listend x = Some l"
    using snoc by (auto simp: sl_rep_def)
  then obtain z where z: "h_msg w l = Some z" "l \<noteq> m" using snoc assms(3) by (auto simp: chain_def)
  let ?h = "(h_msg w)(l \<mapsto> z\<lparr>m_next := Some m\<rparr>, m \<mapsto> y\<lparr>m_next := None\<rparr>)"
  have "chain m_next ?h (s_listbeg x) (ns @ [l, m])"
    using x(2) snoc assms(2,3) z by (intro chain_snoc) auto
  then show ?thesis
    using x z assms(2) snoc by (simp add: trips_msg_add_def sl_rep_def)
qed

text \<open>What unlinking the message behind \<open>b\<close> leaves.\<close>

definition sl_unlink :: "addr \<Rightarrow> addr \<Rightarrow> addr \<Rightarrow> 'a store_scheme \<Rightarrow> 'a store_scheme option" where
  "sl_unlink s b mess w =
     do { y \<leftarrow> h_msg w mess;
          x \<leftarrow> h_strm w s;
          w \<leftarrow> msg_upd b (\<lambda>z. z\<lparr>m_next := m_next y\<rparr>) w;
          w \<leftarrow> (if Some mess = s_listend x then strm_upd s (\<lambda>x. x\<lparr>s_listend := Some b\<rparr>) w else Some w);
          msg_upd mess (\<lambda>y. y\<lparr>m_next := None\<rparr>) w }"

lemma remove_walk_mid:
  assumes "lpath (field m_next (h_msg w)) n as (Some mess)" "mess \<notin> set as" "set as \<subseteq> dom (h_msg w)"
    "h_msg w mess = Some y" "h_strm w s = Some x"
  shows "msg_remove_walk s mess (Some b) n w = sl_unlink s (last (b # as)) mess w"
  using assms
proof (induction as arbitrary: n b)
  case Nil
  then show ?case by (simp add: msg_remove_walk.simps sl_unlink_def)
next
  case (Cons a as)
  then obtain z where "n = Some a" "h_msg w a = Some z" "a \<noteq> mess" by auto
  moreover have "msg_remove_walk s mess (Some a) (m_next z) w = sl_unlink s (last (a # as)) mess w"
    by (rule Cons.IH) (use Cons.prems \<open>h_msg w a = Some z\<close> in auto)
  ultimately show ?case using Cons.prems by (subst msg_remove_walk.simps) simp
qed

lemma sl_unlink_rep:
  assumes "sl_rep s w (as @ b # mess # cs)"
  shows "\<exists>w'. sl_unlink s b mess w = Some w' \<and> sl_rep s w' (as @ b # cs)"
proof -
  from assms obtain x where x: "h_strm w s = Some x"
    "chain m_next (h_msg w) (s_listbeg x) (as @ b # mess # cs)"
    "s_listend x = Some (last (b # mess # cs))"
    by (auto simp: sl_rep_def split: if_splits)
  then obtain y z where y: "h_msg w mess = Some y" "h_msg w b = Some z" by (auto simp: chain_def)
  have d: "distinct (as @ b # mess # cs)" using x(2) by (simp add: chain_def)
  let ?h = "(h_msg w)(b \<mapsto> z\<lparr>m_next := m_next y\<rparr>)"
  have "chain m_next ?h (s_listbeg x) (as @ b # cs)"
    by (rule chain_unlink [OF x(2) y]) simp
  then have c: "chain m_next (?h(mess \<mapsto> y\<lparr>m_next := None\<rparr>)) (s_listbeg x) (as @ b # cs)"
    by (rule chain_upd_off) (use d in auto)
  have "mess = last (b # mess # cs) \<longleftrightarrow> cs = []"
    using d by auto
  then show ?thesis
    using x y d c by (cases "cs = []") (auto simp: sl_unlink_def sl_rep_def)
qed

lemma msg_remove_rep:
  assumes "sl_rep s w (as @ mess # cs)"
  shows "\<exists>w'. trips_msg_remove s mess w = Some w' \<and> sl_rep s w' (as @ cs)"
proof -
  from assms obtain x where x: "h_strm w s = Some x"
    "chain m_next (h_msg w) (s_listbeg x) (as @ mess # cs)"
    by (auto simp: sl_rep_def)
  have d: "distinct (as @ mess # cs)" "set (as @ mess # cs) \<subseteq> dom (h_msg w)"
    "lpath (field m_next (h_msg w)) (s_listbeg x) (as @ mess # cs) None"
    using x(2) by (auto simp: chain_def)
  obtain y where y: "h_msg w mess = Some y" using d by auto
  show ?thesis
  proof (cases as)
    case Nil
    have c: "chain m_next ((h_msg w)(mess \<mapsto> y\<lparr>m_next := None\<rparr>)) (m_next y) cs"
      using x(2) y Nil by (auto simp: chain_Cons intro: chain_upd_off)
    have "s_listend x = Some (last (mess # cs))" using assms x(1) Nil by (auto simp: sl_rep_def)
    moreover have "mess = last cs \<Longrightarrow> cs = []" using d(1) Nil last_in_set [of cs] by auto
    ultimately show ?thesis
      using x y Nil c
      by (cases "cs = []")
        (auto simp: trips_msg_remove_def msg_remove_walk.simps sl_rep_def chain_Cons)
  next
    case (Cons a bs)
    then obtain z where z: "h_msg w a = Some z" "a \<noteq> mess" using d by auto
    have "lpath (field m_next (h_msg w)) (m_next z) bs (Some mess)"
      using d(3) Cons z by (auto simp: lpath_append)
    then have "msg_remove_walk s mess (Some a) (m_next z) w = sl_unlink s (last (a # bs)) mess w"
      by (rule remove_walk_mid) (use d Cons y x(1) in auto)
    then have "trips_msg_remove s mess w = sl_unlink s (last as) mess w"
      using x Cons z by (auto simp: trips_msg_remove_def msg_remove_walk.simps chain_Cons)
    moreover have "as @ mess # cs = butlast as @ last as # mess # cs" using Cons by simp
    ultimately show ?thesis
      using sl_unlink_rep [of s w "butlast as" "last as" mess cs] assms Cons by auto
  qed
qed

section \<open>Choosing a queue\<close>

fun send_picks :: "nat \<Rightarrow> connection \<Rightarrow> (ptr list \<times> connection) option" where
  "send_picks 0 k = Some ([], k)"
| "send_picks (Suc n) k =
     do { (p, k) \<leftarrow> tripc_send_pick k; (ps, k) \<leftarrow> send_picks n k; Some (p # ps, k) }"






section \<open>Sending on a stream\<close>

text \<open>The arguments \<open>trips_send\<close> accepts on an open stream.\<close>

definition sendable :: "strm \<Rightarrow> connection \<Rightarrow> u64 \<Rightarrow> bytes option \<Rightarrow> bool" where
  "sendable x k len buf \<longleftrightarrow> buf \<noteq> None \<and> len \<noteq> 0 \<and> len \<le> 0x7FFFFFFF \<and>
     len \<le> ucast (lim_message_size (peer_lim (c_peer k))) \<and>
     s_flags x AND TRIPS_OPT_CLOSED = 0 \<and> s_flags x AND (TRIPS_OPT_BACKFLOW OR TRIPS_OPT_STALLED) = 0"

text \<open>The message \<open>trips_send\<close> makes.\<close>

definition sent_msg :: "msg \<Rightarrow> addr \<Rightarrow> int \<Rightarrow> u64 \<Rightarrow> bytes option \<Rightarrow> msg" where
  "sent_msg junk s pri len buf = junk\<lparr>m_stream := Some s, m_next := None, m_priority := pri,
     m_len := len, m_buf := buf, m_parts := None\<rparr>"

lemma sent_msg_simps [simp]:
  "m_next (sent_msg junk s pri len buf) = None" "m_priority (sent_msg junk s pri len buf) = pri"
  "(sent_msg junk s pri len buf)\<lparr>m_next := None\<rparr> = sent_msg junk s pri len buf"
  by (simp_all add: sent_msg_def)

lemma trips_send_ok:
  assumes "h_strm w s = Some x" "s_connection x = Some c" "h_conn w c = Some k" "sendable x k len buf"
  shows "trips_send (Some m) junk s len buf w =
    do { w \<leftarrow> tripc_send_add c m (w\<lparr>h_msg := (h_msg w)(m \<mapsto> sent_msg junk s (trips_priority x) len buf)\<rparr>);
         w \<leftarrow> trips_msg_add s m w; Some (EOK, w) }"
proof -
  have bad: "\<not> (buf = None \<or> len = 0 \<or> len > 0x7FFFFFFF \<or> len > ucast (lim_message_size (peer_lim (c_peer k))))"
    using assms(4) by (simp add: sendable_def not_less)
  have flags: "s_flags x AND TRIPS_OPT_CLOSED = 0" "s_flags x AND (TRIPS_OPT_BACKFLOW OR TRIPS_OPT_STALLED) = 0"
    using assms(4) by (simp_all add: sendable_def)
  show ?thesis
    unfolding trips_send_def
    by (simp only: assms bind.bind_lunit option.case if_not_P [OF bad] flags simp_thms if_False)
      (simp add: tripc_new_message_def sent_msg_def)
qed

lemma trips_priority_01: "trips_priority x = 0 \<or> trips_priority x = 1"
proof -
  have "s_flags x AND 1 = (if bit (s_flags x) 0 then 1 else 0)"
    by (simp add: and_one_eq mod_2_eq_odd bit_0)
  then show ?thesis by (simp add: trips_priority_def TRIPS_OPT_PRIORITY_def)
qed

lemma rep_new_msg:
  assumes "h_msg w m = None"
  shows "mq_rep c i w ms \<Longrightarrow> mq_rep c i (w\<lparr>h_msg := (h_msg w)(m \<mapsto> y)\<rparr>) ms \<and> m \<notin> set ms"
    and "sl_rep s w ms \<Longrightarrow> sl_rep s (w\<lparr>h_msg := (h_msg w)(m \<mapsto> y)\<rparr>) ms"
proof -
  have off: "chain m_next (h_msg w) b ms \<Longrightarrow> m \<notin> set ms" for b using assms by (auto simp: chain_def)
  show "sl_rep s w ms \<Longrightarrow> sl_rep s (w\<lparr>h_msg := (h_msg w)(m \<mapsto> y)\<rparr>) ms"
    by (auto simp: sl_rep_def) (metis off chain_upd_off)+
  assume r: "mq_rep c i w ms"
  then have "m \<notin> set ms" using off by (auto simp: mq_rep_def)
  with r show "mq_rep c i (w\<lparr>h_msg := (h_msg w)(m \<mapsto> y)\<rparr>) ms \<and> m \<notin> set ms"
    by (fastforce simp: mq_rep_def intro: chain_upd_off)
qed

text \<open>
  When the queue and the list of the stream are the same list, linking the message twice is
  linking it once.
\<close>

lemma send_both_lists:
  assumes "sl_rep s w ms" "mq_rep c i w ms" "h_msg w m = Some y" "m_priority y = i" "m \<notin> set ms"
  shows "\<exists>w' w''. tripc_send_add c m w = Some w' \<and> trips_msg_add s m w' = Some w'' \<and>
    sl_rep s w'' (ms @ [m]) \<and> mq_rep c i w'' (ms @ [m]) \<and> (\<exists>z. h_msg w'' m = Some z \<and> m_len z = m_len y \<and> m_buf z = m_buf y \<and> m_stream z = m_stream y)"
proof -
  from assms(2) obtain k b where k: "h_conn w c = Some k" "mq_beg (c_msg k) i = Some b"
    "chain m_next (h_msg w) b ms" "mq_end (c_msg k) i = Some (if ms = [] then None else Some (last ms))"
    by (auto simp: mq_rep_def)
  note i = mq_index [OF k(2)]
  from assms(1) obtain x where x: "h_strm w s = Some x" "chain m_next (h_msg w) (s_listbeg x) ms"
    "s_listend x = (if ms = [] then None else Some (last ms))"
    by (auto simp: sl_rep_def)
  show ?thesis
  proof (cases ms rule: rev_cases)
    case Nil
    with assms(3,4) k i x show ?thesis
      by (auto simp: tripc_send_add_def mq_upd_def mq_rep_def chain_Cons trips_msg_add_def sl_rep_def)
  next
    case (snoc ns l)
    then obtain z where z: "h_msg w l = Some z" "l \<noteq> m" "m_priority z = i"
      using assms(2,5) by (auto simp: mq_rep_def)
    let ?h = "(h_msg w)(l \<mapsto> z\<lparr>m_next := Some m\<rparr>, m \<mapsto> y\<lparr>m_next := None\<rparr>)"
    let ?w' = "w\<lparr>h_msg := ?h, h_conn := (h_conn w)(c \<mapsto> k\<lparr>c_msg := mq_set_end i (Some m) (c_msg k)\<rparr>)\<rparr>"
    let ?w'' = "?w'\<lparr>h_strm := (h_strm w)(s \<mapsto> x\<lparr>s_listend := Some m\<rparr>)\<rparr>"
    have add: "tripc_send_add c m w = Some ?w'"
      using k z snoc assms(3,4) by (simp add: tripc_send_add_def mq_upd_def)
    have "?h(l \<mapsto> z\<lparr>m_next := Some m\<rparr>, m \<mapsto> y\<lparr>m_next := None\<rparr>) = ?h" using z by (simp add: fun_eq_iff)
    then have add2: "trips_msg_add s m ?w' = Some ?w''"
      using x snoc z by (simp add: trips_msg_add_def del: fun_upd_apply) (simp add: fun_upd_twist)
    have c1: "chain m_next ?h p (ns @ [l, m])" if "chain m_next (h_msg w) p ms" for p
      using that snoc assms(3,5) z by (intro chain_snoc) auto
    have "mq_rep c i ?w'' (ms @ [m])"
      using k i snoc assms(2,3,4) z c1 [OF k(3)] by (auto simp: mq_rep_def)
    moreover have "sl_rep s ?w'' (ms @ [m])"
      using x snoc c1 [OF x(2)] by (auto simp: sl_rep_def)
    ultimately show ?thesis using add add2 by auto
  qed
qed

section \<open>The properties\<close>

text \<open>A connection that accepts messages, with two open streams, for concrete runs.\<close>

definition demo_conn :: connection where
  "demo_conn = (let k = connection_zero 24 in
     k\<lparr>c_peer := (c_peer k)\<lparr>peer_lim := \<lparr>lim_credit = 0, lim_stream = 8, lim_message_size = 100, lim_message = 0\<rparr>\<rparr>\<rparr>)"

definition demo_strm :: "u32 \<Rightarrow> strm" where
  "demo_strm fl = \<lparr>s_data = None, s_connection = Some 0, s_id = 0, s_status = CO_OPEN, s_type = 0,
     s_flags = fl, s_listbeg = None, s_listend = None\<rparr>"

definition demo_msg :: msg where
  "demo_msg = \<lparr>m_stream = None, m_len = 0, m_buf = None, m_id = 0, m_zone = 0, m_priority = 0,
     m_parts = None, m_next = None\<rparr>"

definition demo_store :: "u32 \<Rightarrow> store" where
  "demo_store fl = \<lparr>h_conn = [0 \<mapsto> demo_conn], h_strm = [1 \<mapsto> demo_strm fl, 2 \<mapsto> demo_strm fl],
     h_msg = Map.empty\<rparr>"

lemmas demo_defs = demo_store_def demo_conn_def demo_strm_def demo_msg_def connection_zero_def
  messageq_zero_def connpeer_zero_def Let_def

lemma demo_reps:
  "mq_rep 0 0 (demo_store fl) []" "mq_rep 0 1 (demo_store fl) []"
  "sl_rep 1 (demo_store fl) []" "sl_rep 2 (demo_store fl) []"
  by (simp_all add: mq_rep_def sl_rep_def mq_beg_def mq_end_def demo_defs)

lemma demo_sendable: "sendable (demo_strm 0) demo_conn 1 (Some [7])" "sendable (demo_strm 1) demo_conn 1 (Some [7])"
  by (simp_all add: sendable_def demo_defs TRIPS_OPT_CLOSED_def TRIPS_OPT_BACKFLOW_def TRIPS_OPT_STALLED_def)

lemma demo_connection: "s_connection (demo_strm fl) = Some 0"
  by (simp add: demo_strm_def)

lemma demo_priority: "trips_priority (demo_strm 0) = 0" "trips_priority (demo_strm 1) = 1"
  by (simp_all add: trips_priority_def demo_strm_def TRIPS_OPT_PRIORITY_def)

text \<open>C28: the messages of one priority leave a connection in the order they were queued.
  Messages added behind the queue \<open>ms\<close> are taken from its front after \<open>ms\<close>, each once.\<close>

theorem send_queue_fifo:
  assumes "mq_rep c i w ms" "distinct (ms @ ns)" "\<forall>n \<in> set ns. mq_ok i n w"
  shows "\<exists>w' w''. enq_all (tripc_send_add c) ns w = Some w' \<and>
    deq_many (mq_take c i) (length ms + length ns) w' = Some (ms @ ns, w'') \<and> mq_rep c i w'' []"
  by (rule mq.fifo_order [OF assms])

definition demo_queued :: store where
  "demo_queued = (demo_store 0)\<lparr>h_msg := [5 \<mapsto> demo_msg, 6 \<mapsto> demo_msg]\<rparr>"

theorem send_queue_fifo_witness:
  "\<exists>w' w''. enq_all (tripc_send_add 0) [6, 5] demo_queued = Some w' \<and>
    deq_many (mq_take 0 0) (length ([] :: addr list) + length [6, 5 :: addr]) w' = Some ([] @ [6, 5], w'') \<and>
    mq_rep 0 0 w'' []"
proof -
  have "mq_rep 0 0 demo_queued []"
    by (simp add: demo_queued_def mq_rep_def mq_beg_def mq_end_def demo_defs)
  moreover have "\<forall>n \<in> set [6, 5]. mq_ok 0 n demo_queued"
    by (simp add: demo_queued_def mq_ok_def demo_msg_def)
  ultimately show ?thesis by (intro send_queue_fifo) simp_all
qed

text \<open>C29: a message can be removed from any place in the list of its stream. The others stay
  in their order, and the list still ends at its last message.\<close>

theorem stream_remove_correct:
  assumes "sl_rep s w (ms @ m # ns)"
  shows "\<exists>w'. trips_msg_remove s m w = Some w' \<and> sl_rep s w' (ms @ ns)"
  by (rule msg_remove_rep [OF assms])

definition demo_listed :: store where
  "demo_listed = (demo_store 0)\<lparr>h_msg := [5 \<mapsto> demo_msg\<lparr>m_next := Some 6\<rparr>, 6 \<mapsto> demo_msg],
     h_strm := [1 \<mapsto> (demo_strm 0)\<lparr>s_listbeg := Some 5, s_listend := Some 6\<rparr>]\<rparr>"

theorem stream_remove_correct_witness:
  "\<exists>w'. trips_msg_remove 1 6 demo_listed = Some w' \<and> sl_rep 1 w' ([5] @ [])"
proof (rule stream_remove_correct)
  show "sl_rep 1 demo_listed ([5] @ 6 # [])"
    by (simp add: demo_listed_def sl_rep_def chain_Cons demo_msg_def)
qed

text \<open>C30: sending on an open stream. The message is appended to the list of the stream and to
  the send queue of its priority with the caller's buffer and length, as long as the stream is
  the only one that sends at that priority, so that list and queue hold the same messages.\<close>

theorem trips_send_correct:
  assumes "h_strm w s = Some x" "s_connection x = Some c" "h_conn w c = Some k" "sendable x k len buf"
    "h_msg w m = None" "sl_rep s w ms" "mq_rep c (trips_priority x) w ms"
  shows "\<exists>w' y. trips_send (Some m) junk s len buf w = Some (EOK, w') \<and> sl_rep s w' (ms @ [m]) \<and>
    mq_rep c (trips_priority x) w' (ms @ [m]) \<and>
    h_msg w' m = Some y \<and> m_len y = len \<and> m_buf y = buf \<and> m_stream y = Some s"
proof -
  let ?y = "sent_msg junk s (trips_priority x) len buf"
  let ?w = "w\<lparr>h_msg := (h_msg w)(m \<mapsto> ?y)\<rparr>"
  have "sl_rep s ?w ms" "mq_rep c (trips_priority x) ?w ms" "m \<notin> set ms"
    using rep_new_msg [OF assms(5)] assms(6,7) by blast+
  then obtain w' w'' z where "tripc_send_add c m ?w = Some w'" "trips_msg_add s m w' = Some w''"
    "sl_rep s w'' (ms @ [m])" "mq_rep c (trips_priority x) w'' (ms @ [m])"
    "h_msg w'' m = Some z" "m_len z = m_len ?y" "m_buf z = m_buf ?y" "m_stream z = m_stream ?y"
    using send_both_lists [of s ?w ms c "trips_priority x" m ?y] by (auto simp: sent_msg_def)
  then show ?thesis
    using trips_send_ok [OF assms(1-4), of m junk] by (simp add: sent_msg_def)
qed

theorem trips_send_correct_witness:
  "\<exists>w' y. trips_send (Some 5) demo_msg 1 1 (Some [7]) (demo_store 1) = Some (EOK, w') \<and> sl_rep 1 w' ([] @ [5]) \<and>
    mq_rep 0 (trips_priority (demo_strm 1)) w' ([] @ [5]) \<and>
    h_msg w' 5 = Some y \<and> m_len y = 1 \<and> m_buf y = Some [7] \<and> m_stream y = Some 1"
proof (rule trips_send_correct)
  show "h_strm (demo_store 1) 1 = Some (demo_strm 1)" "s_connection (demo_strm 1) = Some 0"
    "h_conn (demo_store 1) 0 = Some demo_conn" "h_msg (demo_store 1) 5 = None"
    by (simp_all add: demo_store_def demo_strm_def)
  show "mq_rep 0 (trips_priority (demo_strm 1)) (demo_store 1) []"
    by (simp add: demo_priority demo_reps)
qed (rule demo_sendable demo_reps)+

text \<open>C35: two streams that send at the same priority share their messages. A message has one
  \<open>next\<close> field for the list of its stream and the queue of its connection, so after one
  message on each of two streams the first stream's list also holds the second one's message.
  Destroying the first stream frees both, and destroying the second one then frees its message
  again.\<close>

theorem two_streams_double_free:
  assumes "h_strm w s = Some x" "s_connection x = Some c" "h_conn w c = Some k" "sendable x k len buf"
    "h_strm w t = Some z" "s_connection z = Some c" "sendable z k len buf" "s \<noteq> t"
    "trips_priority z = trips_priority x" "h_msg w m = None" "h_msg w n = None" "m \<noteq> n"
    "sl_rep s w []" "sl_rep t w []" "mq_rep c (trips_priority x) w []"
  shows "\<exists>w1 w2 w3. trips_send (Some m) junk s len buf w = Some (EOK, w1) \<and>
    trips_send (Some n) junk t len buf w1 = Some (EOK, w2) \<and>
    trips_destroy s w2 = Some w3 \<and> h_msg w3 n = None \<and> trips_destroy t w3 = None"
proof -
  let ?i = "trips_priority x"
  from assms(15) have q: "mq_beg (c_msg k) ?i = Some None" "mq_end (c_msg k) ?i = Some None"
    using assms(3) by (auto simp: mq_rep_def)
  have l: "s_listbeg x = None" "s_listend x = None" "s_listbeg z = None" "s_listend z = None"
    using assms(1,5,13,14) by (auto simp: sl_rep_def)
  let ?Y = "sent_msg junk s ?i len buf" and ?Z = "sent_msg junk t ?i len buf"
  let ?k = "k\<lparr>c_msg := mq_set_end ?i (Some m) (mq_set_beg ?i (Some m) (c_msg k))\<rparr>"
  let ?w1 = "w\<lparr>h_msg := (h_msg w)(m \<mapsto> ?Y), h_conn := (h_conn w)(c \<mapsto> ?k),
    h_strm := (h_strm w)(s \<mapsto> x\<lparr>s_listbeg := Some m, s_listend := Some m\<rparr>)\<rparr>"
  let ?w2 = "?w1\<lparr>h_msg := (h_msg w)(m \<mapsto> ?Y\<lparr>m_next := Some n\<rparr>, n \<mapsto> ?Z),
    h_conn := (h_conn w)(c \<mapsto> ?k\<lparr>c_msg := mq_set_end ?i (Some n) (c_msg ?k)\<rparr>),
    h_strm := (h_strm ?w1)(t \<mapsto> z\<lparr>s_listbeg := Some n, s_listend := Some n\<rparr>)\<rparr>"
  have i: "?i = 0 \<or> ?i = 1" by (rule trips_priority_01)
  have "trips_send (Some m) junk s len buf w = Some (EOK, ?w1)"
    unfolding trips_send_ok [OF assms(1-4)]
    using assms(1,3) q l by (simp add: tripc_send_add_def mq_upd_def trips_msg_add_def)
  moreover have "trips_send (Some n) junk t len buf ?w1 = Some (EOK, ?w2)"
  proof -
    have t: "h_strm ?w1 t = Some z" "h_conn ?w1 c = Some ?k" "sendable z ?k len buf"
      using assms(5,7,8) by (simp_all add: sendable_def)
    have "mq_end (c_msg ?k) ?i = Some (Some m)" using i by simp
    then show ?thesis
      unfolding trips_send_ok [OF t(1) assms(6) t(2,3)]
      using assms(5,8,9,12) l by (simp add: tripc_send_add_def mq_upd_def trips_msg_add_def fun_upd_twist)
  qed
  moreover have "trips_destroy s ?w2 = Some (?w2\<lparr>h_msg := (h_msg ?w2)(m := None, n := None)\<rparr>)"
    using assms(8,12) by (simp add: trips_destroy_def trips_free_walk.simps tripc_free_message_def)
  moreover have "trips_destroy t (?w2\<lparr>h_msg := (h_msg ?w2)(m := None, n := None)\<rparr>) = None"
    by (simp add: trips_destroy_def trips_free_walk.simps)
  ultimately show ?thesis by auto
qed

theorem two_streams_double_free_witness:
  "\<exists>w1 w2 w3. trips_send (Some 5) demo_msg 1 1 (Some [7]) (demo_store 0) = Some (EOK, w1) \<and>
    trips_send (Some 6) demo_msg 2 1 (Some [7]) w1 = Some (EOK, w2) \<and>
    trips_destroy 1 w2 = Some w3 \<and> h_msg w3 6 = None \<and> trips_destroy 2 w3 = None"
proof (rule two_streams_double_free)
  show "h_strm (demo_store 0) 1 = Some (demo_strm 0)" "h_strm (demo_store 0) 2 = Some (demo_strm 0)"
    "s_connection (demo_strm 0) = Some 0" "h_conn (demo_store 0) 0 = Some demo_conn"
    "h_msg (demo_store 0) 5 = None" "h_msg (demo_store 0) 6 = None"
    by (simp_all add: demo_store_def demo_strm_def)
  show "mq_rep 0 (trips_priority (demo_strm 0)) (demo_store 0) []"
    by (simp add: demo_priority demo_reps)
  show "(1::addr) \<noteq> 2" "(5::addr) \<noteq> 6" by simp_all
qed (simp_all only: demo_sendable demo_reps demo_connection)


definition demo_full :: "u32 \<Rightarrow> connection" where
  "demo_full mk = (let k = connection_zero 24 in
     k\<lparr>c_msg := (c_msg k)\<lparr>mq_sendmask := mk, mq_sendbeg0 := Some 5, mq_sendbeg1 := Some 6\<rparr>\<rparr>)"


text \<open>No code sets the send mask, and \<open>_tripc_init\<close> leaves it zero. Then every choice takes
  the second queue, so the first one waits until the second is empty; and the second queue is
  the one \<open>trips_send\<close> fills for streams opened with the priority option.\<close>

theorem send_pick_starves:
  assumes "mq_sendmask (c_msg k) = 0" "mq_sendbeg1 (c_msg k) = Some b"
  shows "\<exists>k'. send_picks n k = Some (replicate n (Some b), k')"
  using assms
proof (induction n arbitrary: k)
  case (Suc n)
  let ?k = "k\<lparr>c_msg := (c_msg k)\<lparr>mq_sendwhich := 0\<rparr>\<rparr>"
  obtain k' where "send_picks n ?k = Some (replicate n (Some b), k')"
    using Suc.IH [of ?k] Suc.prems by auto
  moreover have "tripc_send_pick k = Some (Some b, ?k)"
    using Suc.prems by (simp add: tripc_send_pick_def mq_beg_def MESSAGE_PRIORITY_def MESSAGE_WHENEVER_def)
  ultimately show ?case by simp
qed simp

theorem send_pick_starves_witness:
  "\<exists>k'. send_picks 9 (demo_full 0) = Some (replicate 9 (Some 6), k')"
  by (rule send_pick_starves) (simp_all add: demo_full_def Let_def)

end
