(* ===== verification/World.thy ===== *)
theory World
  imports Sendq Timerwheel Connmap Resolveq Sockmap Messages Codec
begin

text \<open>
  The state of a program that runs one router: the router (\<open>src/trip.h\<close>), its timers, and
  the memory of its connections, streams and messages. What is outside the library, the
  operating system, libsodium, the allocator, the user's callbacks and the packet interface,
  is the record \<open>host\<close>, an argument of every function that calls it.
\<close>

section \<open>The router\<close>

datatype router_state = RS_START | RS_BIND | RS_LISTEN | RS_CLOSE | RS_UNBIND | RS_END | RS_ERROR

text \<open>The states are compared by their place in the enumeration.\<close>

definition rs_num :: "router_state \<Rightarrow> nat" where
  "rs_num s = (case s of RS_START \<Rightarrow> 0 | RS_BIND \<Rightarrow> 1 | RS_LISTEN \<Rightarrow> 2 | RS_CLOSE \<Rightarrow> 3
     | RS_UNBIND \<Rightarrow> 4 | RS_END \<Rightarrow> 5 | RS_ERROR \<Rightarrow> 6)"

instantiation router_state :: linorder
begin

definition less_eq_router_state :: "router_state \<Rightarrow> router_state \<Rightarrow> bool" where
  "less_eq_router_state a b \<longleftrightarrow> rs_num a \<le> rs_num b"

definition less_router_state :: "router_state \<Rightarrow> router_state \<Rightarrow> bool" where
  "less_router_state a b \<longleftrightarrow> rs_num a < rs_num b"

instance
proof
  fix a b :: router_state
  show "a \<le> b \<Longrightarrow> b \<le> a \<Longrightarrow> a = b"
    by (cases a; cases b) (simp_all add: less_eq_router_state_def rs_num_def)
qed (auto simp: less_eq_router_state_def less_router_state_def)

end

definition FLAG_ALLOW_IN :: u32 where "FLAG_ALLOW_IN = push_bit 0 1"
definition FLAG_ALLOW_OUT :: u32 where "FLAG_ALLOW_OUT = push_bit 1 1"
definition FLAG_ALLOW_PLAIN_OPEN :: u32 where "FLAG_ALLOW_PLAIN_OPEN = push_bit 2 1"
definition FLAG_ALLOW_PLAIN_ISIG :: u32 where "FLAG_ALLOW_PLAIN_ISIG = push_bit 3 1"
definition FLAG_ALLOW_PLAIN_OSIG :: u32 where "FLAG_ALLOW_PLAIN_OSIG = push_bit 4 1"
definition FLAG_ALLOW_PLAIN_COMM :: u32 where "FLAG_ALLOW_PLAIN_COMM = push_bit 5 1"
definition FLAG_FREE_PACKET :: u32 where "FLAG_FREE_PACKET = push_bit 6 1"
definition FLAG_ALWAYS_READY :: u32 where "FLAG_ALWAYS_READY = push_bit 7 1"
definition DEFAULT_MAX_CONN :: u32 where "DEFAULT_MAX_CONN = push_bit 19 1"
definition DEFAULT_MAX_STREAM :: u32 where "DEFAULT_MAX_STREAM = 8"
definition MAX_TIMEOUT :: int where "MAX_TIMEOUT = 1024"

lemmas flag_defs = FLAG_ALLOW_IN_def FLAG_ALLOW_OUT_def FLAG_ALLOW_PLAIN_OPEN_def
  FLAG_ALLOW_PLAIN_ISIG_def FLAG_ALLOW_PLAIN_OSIG_def FLAG_ALLOW_PLAIN_COMM_def
  FLAG_FREE_PACKET_def FLAG_ALWAYS_READY_def

text \<open>
  The watch and timeout hooks are null, the user's, or the ones \<open>trip_run_init\<close> installs.
  The other hooks are either null or the user's.
\<close>

datatype hook = HUser | HPoll

text \<open>
  A packet interface: which of its functions are not null, whether \<open>router\<close> is set, and, for
  the one of \<open>src/packet.c\<close>, its context (the port as a C string, and the descriptor).
\<close>

record udp =
  udp_info :: bytes
  udp_fd :: int

text \<open>
  The context of the packet interface that the library's test programs bring along
  (\<open>src/test/reliable_packet.c\<close>): which connections exist, a buffer and a timer.
\<close>

record reliable =
  rel_c0 :: int
  rel_c1 :: int
  rel_alen :: u64
  rel_len :: u64
  rel_buf :: "bytes option"
  rel_timer :: ptr

text \<open>What the \<open>void *data\<close> of an interface points to.\<close>

datatype pkt_context = Ctx_udp udp | Ctx_reliable reliable

record packet =
  pkt_data :: "pkt_context option"
  pkt_bind :: bool
  pkt_resolve :: bool
  pkt_send :: bool
  pkt_read :: bool
  pkt_unbind :: bool
  pkt_router :: bool

text \<open>An interface's own context: reading another one's has no meaning.\<close>

definition pkt_udp :: "packet \<Rightarrow> udp option" where
  "pkt_udp p = (case pkt_data p of Some (Ctx_udp c) \<Rightarrow> Some c | _ \<Rightarrow> None)"

definition pkt_reliable :: "packet \<Rightarrow> reliable option" where
  "pkt_reliable p = (case pkt_data p of Some (Ctx_reliable c) \<Rightarrow> Some c | _ \<Rightarrow> None)"

lemma pkt_udp_upd [simp]:
  "pkt_udp (p\<lparr>pkt_data := Some (Ctx_udp c)\<rparr>) = Some c" "pkt_udp (p\<lparr>pkt_router := b\<rparr>) = pkt_udp p"
  by (simp_all add: pkt_udp_def)

lemma pkt_reliable_upd [simp]:
  "pkt_reliable (p\<lparr>pkt_data := Some (Ctx_reliable x)\<rparr>) = Some x" "pkt_reliable (p\<lparr>pkt_router := b\<rparr>) = pkt_reliable p"
  by (simp_all add: pkt_reliable_def)

record poll =
  poll_efd :: int
  poll_deadline :: u64

record router =
  r_data :: ptr
  r_screen :: bool
  r_watch :: "hook option"
  r_timeout :: "hook option"
  r_connection :: bool
  r_stream :: bool
  r_message :: bool
  r_poll :: "poll option"
  r_state :: router_state
  r_statedeadline :: u64
  r_statetimer :: ptr
  r_error :: errno
  r_errmsg :: "string option"
  r_resolveq :: resolveq
  r_conn :: connmap
  r_connsrc0 :: ptr
  r_connsrc1 :: ptr
  r_sockmap :: sockmap
  r_sendq :: sendq
  r_buf :: "bytes option"
  r_buflen :: u64
  r_sendlen :: u64
  r_sendsrc :: int
  r_packet :: "packet option"
  r_mindeadline :: u64
  r_openpk :: "bytes option"
  r_opensk :: "bytes option"
  r_signpub :: "bytes option"
  r_signsec :: "bytes option"
  r_max_conn :: u32
  r_max_in :: u32
  r_max_out :: u32
  r_max_packet_read_count :: u32
  r_max_packet_send_count :: u32
  r_max_connection_send_count :: u32
  r_max_streams :: u32
  r_timeout_data :: int
  r_timeout_bind :: int
  r_timeout_close :: int
  r_timeout_unbind :: int
  r_flag :: u32

section \<open>The world and its host\<close>

text \<open>The callbacks the library puts on the wheel, and those a packet interface puts there.\<close>

datatype timer_cb = CB_send_immediately | CB_timeout_router | CB_stop_async
  | CB_state_resolve | CB_state_resend | CB_state_ready_ping
  | CB_resolve_success | CB_resolve_failure | CB_open_connection
  | CB_user nat

text \<open>
  Addresses of new objects come from a counter, so they are never those of an old object.
  \<open>w_tick\<close> counts the questions put to the host. A timer's data is the address of a
  connection, or nothing when it is the router. \<open>w_epoll\<close> belongs to the kernel, and
  \<open>w_sent\<close> to the network: the packets handed to it, each with its destination. The library
  touches neither; what a packet interface's send does to the world is the host's to say.
\<close>

record world = store +
  w_router :: router
  w_wheel :: "timer_cb timerwheel"
  w_brk :: addr
  w_tick :: nat
  w_epoll :: "int \<Rightarrow> u32 option"
  w_sent :: "(int \<times> bytes) list"

record screen =
  sc_allow :: bool
  sc_version :: u16
  sc_routelen :: u32
  sc_route :: "bytes option"
  sc_data :: ptr
  sc_opensk :: "bytes option"
  sc_signpk :: "bytes option"
  sc_signsk :: "bytes option"

datatype epoll_op = EPOLL_CTL_ADD | EPOLL_CTL_MOD | EPOLL_CTL_DEL

text \<open>
  The host. The clock, the allocator and the random numbers are indexed by the tick at which
  they are asked; the callbacks may do anything to the world, or have no meaning (\<open>None\<close>).
\<close>

record host =
  ho_clock :: "nat \<Rightarrow> (u64 \<times> nat) option"
  ho_alloc :: "nat \<Rightarrow> bool"
  ho_rand :: "nat \<Rightarrow> u32"
  ho_bytes :: "nat \<Rightarrow> nat \<Rightarrow> bytes"
  ho_kp :: "nat \<Rightarrow> bytes \<times> bytes"
  ho_crypto :: crypto
  ho_screen :: "screen \<Rightarrow> world \<Rightarrow> (screen \<times> world) option"
  ho_watch :: "int \<Rightarrow> int \<Rightarrow> ptr \<Rightarrow> world \<Rightarrow> world option"
  ho_timeout :: "int \<Rightarrow> world \<Rightarrow> world option"
  ho_connection :: "addr \<Rightarrow> world \<Rightarrow> world option"
  ho_bind :: "world \<Rightarrow> world option"
  ho_resolve :: "int \<Rightarrow> u64 \<Rightarrow> bytes option \<Rightarrow> world \<Rightarrow> world option"
  ho_send :: "int \<Rightarrow> u64 \<Rightarrow> bytes \<Rightarrow> world \<Rightarrow> (errno \<times> world) option"
  ho_read :: "int \<Rightarrow> u32 \<Rightarrow> world \<Rightarrow> (errno \<times> world) option"
  ho_unbind :: "world \<Rightarrow> world option"
  ho_timer :: "nat \<Rightarrow> ptr \<Rightarrow> world \<Rightarrow> world option"
  ho_strerror :: "errno \<Rightarrow> string"
  ho_epoll_ctl :: "int \<Rightarrow> epoll_op \<Rightarrow> int \<Rightarrow> u32 \<Rightarrow> world \<Rightarrow> int \<times> world"

abbreviation rt_upd :: "(router \<Rightarrow> router) \<Rightarrow> world \<Rightarrow> world" where
  "rt_upd f w \<equiv> w\<lparr>w_router := f (w_router w)\<rparr>"

text \<open>An allocation whose address matters, and one of which only the success does.\<close>

definition w_new :: "host \<Rightarrow> world \<Rightarrow> ptr \<times> world" where
  "w_new H w =
     (if ho_alloc H (w_tick w) then (Some (w_brk w), w\<lparr>w_brk := w_brk w + 1, w_tick := w_tick w + 1\<rparr>)
      else (None, w\<lparr>w_tick := w_tick w + 1\<rparr>))"

definition w_ok :: "host \<Rightarrow> world \<Rightarrow> bool \<times> world" where
  "w_ok H w = (ho_alloc H (w_tick w), w\<lparr>w_tick := w_tick w + 1\<rparr>)"

definition w_now :: "host \<Rightarrow> world \<Rightarrow> u64 \<times> world" where
  "w_now H w = (triptime_now (ho_clock H (w_tick w)), w\<lparr>w_tick := w_tick w + 1\<rparr>)"

definition w_rand :: "host \<Rightarrow> world \<Rightarrow> u32 \<times> world" where
  "w_rand H w = (ho_rand H (w_tick w), w\<lparr>w_tick := w_tick w + 1\<rparr>)"

text \<open>\<open>triptime_deadline\<close> reads the clock itself.\<close>

definition w_deadline :: "host \<Rightarrow> int \<Rightarrow> world \<Rightarrow> u64 \<times> world" where
  "w_deadline H ms w = (let (now, w) = w_now H w in (triptime_deadline now ms, w))"

section \<open>The hooks the poll loop installs (trip\_poll.c)\<close>

definition TRIP_SOCKET_TIMEOUT :: int where "TRIP_SOCKET_TIMEOUT = - 1"
definition TRIP_REMOVE :: int where "TRIP_REMOVE = 0"
definition TRIP_IN :: int where "TRIP_IN = 1"
definition TRIP_OUT :: int where "TRIP_OUT = 2"
definition TRIP_INOUT :: int where "TRIP_INOUT = 3"
definition EPOLLIN :: u32 where "EPOLLIN = 1"
definition EPOLLOUT :: u32 where "EPOLLOUT = 4"
definition EEXIST :: int where "EEXIST = 17"

definition trip_fd_events_to_epoll :: "int \<Rightarrow> u32" where
  "trip_fd_events_to_epoll events =
     (if events = TRIP_REMOVE then 0
      else if events = TRIP_IN \<or> events = TRIP_OUT \<or> events = TRIP_INOUT
      then (if events \<noteq> TRIP_IN then EPOLLOUT else 0) OR (if events \<noteq> TRIP_OUT then EPOLLIN else 0)
      else 0)"

definition trip_watch_cb :: "host \<Rightarrow> int \<Rightarrow> int \<Rightarrow> ptr \<Rightarrow> world \<Rightarrow> world option" where
  "trip_watch_cb H fd events data w =
     do { p \<leftarrow> r_poll (w_router w);
          let ev = trip_fd_events_to_epoll events;
          if TRIP_REMOVE \<noteq> events
          then (let (c, w) = ho_epoll_ctl H (poll_efd p) EPOLL_CTL_ADD fd ev w in
                if EEXIST = c then Some (snd (ho_epoll_ctl H (poll_efd p) EPOLL_CTL_MOD fd ev w))
                else Some w)
          else Some (snd (ho_epoll_ctl H (poll_efd p) EPOLL_CTL_DEL fd ev w)) }"

definition trip_timeout_cb :: "host \<Rightarrow> int \<Rightarrow> world \<Rightarrow> world option" where
  "trip_timeout_cb H timeout w =
     do { p \<leftarrow> r_poll (w_router w);
          let (d, w) = w_deadline H timeout w;
          Some (rt_upd (\<lambda>r. r\<lparr>r_poll := Some (p\<lparr>poll_deadline := d\<rparr>)\<rparr>) w) }"

text \<open>Calling a hook: a null one has no meaning.\<close>

definition call_watch :: "host \<Rightarrow> int \<Rightarrow> int \<Rightarrow> ptr \<Rightarrow> world \<Rightarrow> world option" where
  "call_watch H fd events data w =
     (case r_watch (w_router w) of
        None \<Rightarrow> None
      | Some HUser \<Rightarrow> ho_watch H fd events data w
      | Some HPoll \<Rightarrow> trip_watch_cb H fd events data w)"

definition call_timeout :: "host \<Rightarrow> int \<Rightarrow> world \<Rightarrow> world option" where
  "call_timeout H ms w =
     (case r_timeout (w_router w) of
        None \<Rightarrow> None
      | Some HUser \<Rightarrow> ho_timeout H ms w
      | Some HPoll \<Rightarrow> trip_timeout_cb H ms w)"

definition call_connection :: "host \<Rightarrow> addr \<Rightarrow> world \<Rightarrow> world option" where
  "call_connection H c w = (if r_connection (w_router w) then ho_connection H c w else None)"

section \<open>Timers and the send queue (trip.c)\<close>

text \<open>The private functions have the suffix \<open>_priv\<close> where the public one has the same name.\<close>

definition trip_set_timeout_priv :: "host \<Rightarrow> int \<Rightarrow> ptr \<Rightarrow> timer_cb \<Rightarrow> world \<Rightarrow> (ptr \<times> world) option" where
  "trip_set_timeout_priv H ms data cb w =
     (let (te, w) = w_new H w in
      case te of
        None \<Rightarrow> Some (None, w)
      | Some a \<Rightarrow>
          do { let (now, w) = w_now H w;
               let (e, tw) = timerwheel_add te now ms data (Some cb) (w_wheel w);
               let w = w\<lparr>w_wheel := tw\<rparr>;
               x \<leftarrow> tw_heap tw a;
               w \<leftarrow> (if te_deadline x < r_mindeadline (w_router w) then call_timeout H ms w else Some w);
               Some (e, w) })"

definition trip_cancel_timeout_priv :: "addr \<Rightarrow> world \<Rightarrow> world option" where
  "trip_cancel_timeout_priv e w = map_option (\<lambda>tw. w\<lparr>w_wheel := tw\<rparr>) (timerwheel_cancel e (w_wheel w))"

definition trip_timeout_cancel_state :: "world \<Rightarrow> world option" where
  "trip_timeout_cancel_state w =
     (case r_statetimer (w_router w) of
        None \<Rightarrow> Some w
      | Some t \<Rightarrow> do { w \<leftarrow> trip_cancel_timeout_priv t w; Some (rt_upd (\<lambda>r. r\<lparr>r_statetimer := None\<rparr>) w) })"

definition trip_set_timeout :: "host \<Rightarrow> int \<Rightarrow> ptr \<Rightarrow> timer_cb \<Rightarrow> world \<Rightarrow> (ptr \<times> world) option" where
  "trip_set_timeout H ms data cb w = trip_set_timeout_priv H ms data cb w"

definition trip_cancel_timeout :: "ptr \<Rightarrow> world \<Rightarrow> world option" where
  "trip_cancel_timeout t w = (case t of None \<Rightarrow> Some w | Some e \<Rightarrow> trip_cancel_timeout_priv e w)"

text \<open>A send queue operation on the world.\<close>

definition on_sendq :: "(sendq \<Rightarrow> connection heap \<Rightarrow> (sendq \<times> connection heap) option) \<Rightarrow> world \<Rightarrow> world option" where
  "on_sendq f w =
     do { (q, h) \<leftarrow> f (r_sendq (w_router w)) (h_conn w);
          Some ((rt_upd (\<lambda>r. r\<lparr>r_sendq := q\<rparr>) w)\<lparr>h_conn := h\<rparr>) }"

definition trip_has_send :: "world \<Rightarrow> bool" where
  "trip_has_send w = sendq_has (r_sendq (w_router w))"

text \<open>The test of the flag is an \<open>or\<close> in the code, so it always holds.\<close>

definition trip_qconnection :: "host \<Rightarrow> addr \<Rightarrow> world \<Rightarrow> world option" where
  "trip_qconnection H c w =
     do { w \<leftarrow> on_sendq (sendq_nq c) w;
          if r_flag (w_router w) OR FLAG_ALWAYS_READY \<noteq> 0
          then map_option snd (trip_set_timeout_priv H 0 None CB_send_immediately w)
          else Some w }"

definition trip_unqconnection :: "addr \<Rightarrow> world \<Rightarrow> world option" where
  "trip_unqconnection c w = on_sendq (sendq_del c) w"

definition trip_new_connection :: "host \<Rightarrow> world \<Rightarrow> ptr \<times> world" where
  "trip_new_connection H w = w_new H w"

definition trip_free_connection :: "addr \<Rightarrow> world \<Rightarrow> world option" where
  "trip_free_connection c w = map_option (\<lambda>h. w\<lparr>h_conn := h\<rparr>) (heap_free c (h_conn w))"

text \<open>The wheel's place in the world.\<close>

interpretation tw_world: wheel_view w_wheel "\<lambda>v w. w\<lparr>w_wheel := v\<rparr>"
  by unfold_locales simp_all

lemma flag_always_ready: "f OR FLAG_ALWAYS_READY \<noteq> 0"
proof
  assume "f OR FLAG_ALWAYS_READY = 0"
  then have "bit (f OR FLAG_ALWAYS_READY) 7 = bit (0 :: u32) 7" by simp
  then show False by (simp add: FLAG_ALWAYS_READY_def bit_simps)
qed

end
