(* ===== verification/Names.thy ===== *)
theory Names
  imports World
begin

text \<open>
  Small parts of the library on their own: the names of the states, for messages
  (\<open>src/conn.c\<close>, \<open>src/trip.c\<close>), the start and the end of the whole library
  (\<open>src/global.c\<close>), the parts of messages (\<open>src/part.h\<close>) and the status of a message
  (\<open>include/libtrp.h\<close>).
\<close>

text \<open>The tables are read without a check: outside them there is nothing to read.\<close>

definition tripc_state_str :: "int \<Rightarrow> string option" where
  "tripc_state_str s =
     (let map = [''_TRIPC_STATE_START'', ''_TRIPC_STATE_RESOLVE'', ''_TRIPC_STATE_OPEN'', ''_TRIPC_STATE_CHAL'',
        ''_TRIPC_STATE_PING'', ''_TRIPC_STATE_READY'', ''_TRIPC_STATE_READY_PING'', ''_TRIPC_STATE_CLOSE'',
        ''_TRIPC_STATE_END'', ''_TRIPC_STATE_ERROR'']
      in if 0 \<le> s \<and> nat s < length map then Some (map ! nat s) else None)"

definition trip_state_str :: "int \<Rightarrow> string option" where
  "trip_state_str s =
     (let map = [''_TRIPR_STATE_START'', ''_TRIPR_STATE_BIND'', ''_TRIPR_STATE_LISTEN'', ''_TRIPR_STATE_CLOSE'',
        ''_TRIPR_STATE_UNBIND'', ''_TRIPR_STATE_END'', ''_TRIPR_STATE_ERROR'']
      in if 0 \<le> s \<and> nat s < length map then Some (map ! nat s) else None)"

text \<open>Every state of a router has a name, and different states have different names.\<close>

lemma trip_state_str_rs: "trip_state_str (int (rs_num s)) \<noteq> None"
  by (cases s) (simp_all add: trip_state_str_def rs_num_def Let_def)

lemma trip_state_str_inj: "trip_state_str (int (rs_num s)) = trip_state_str (int (rs_num t)) \<Longrightarrow> s = t"
  by (cases s; cases t) (simp_all add: trip_state_str_def rs_num_def Let_def)

text \<open>The library as a whole keeps nothing.\<close>

definition trip_global_init :: "world \<Rightarrow> int \<times> world" where
  "trip_global_init w = (0, w)"

definition trip_global_destroy :: "world \<Rightarrow> world" where
  "trip_global_destroy w = w"

definition trip_screen_init :: "screen \<Rightarrow> screen" where
  "trip_screen_init sc = \<lparr>sc_allow = False, sc_version = 0, sc_routelen = 0, sc_route = None, sc_data = None,
     sc_opensk = None, sc_signpk = None, sc_signsk = None\<rparr>"

text \<open>A part of a message is declared; nothing makes one yet.\<close>

record msg_part =
  mp_msg :: ptr
  mp_off :: u64
  mp_len :: u64
  mp_next :: ptr

datatype message_status = TRIPM_RECV | TRIPM_SENT | TRIPM_KILL

end
