(* ===== verification/Conn.thy ===== *)
theory Conn
  imports World "HOL-Library.Signed_Division"
begin

text \<open>
  Connections (\<open>src/conn.c\<close>): the state machine with its timers, the packets it sends and
  reads, and closing. A connection is the address of a record on the heap; what the router's
  buffer holds is the argument \<open>buf\<close>.
\<close>

section \<open>Timers, retries and deadlines\<close>

definition tripc_set_deadline :: "host \<Rightarrow> addr \<Rightarrow> int \<Rightarrow> world \<Rightarrow> world option" where
  "tripc_set_deadline H c ms w =
     (let (d, w) = w_deadline H ms w in conn_upd c (\<lambda>k. k\<lparr>c_statedeadline := d\<rparr>) w)"

definition tripc_set_growth :: "addr \<Rightarrow> int \<Rightarrow> world \<Rightarrow> world option" where
  "tripc_set_growth c ms w = conn_upd c (\<lambda>k. k\<lparr>c_growms := ms, c_retry := 0\<rparr>) w"

text \<open>The delay before the next retry, and the connection with a delay half as long again.\<close>

definition get_growth :: "connection \<Rightarrow> (int \<times> connection) option" where
  "get_growth k =
     do { let cur = c_growms k;
          g \<leftarrow> cint (c_growms k + c_growms k sdiv 2);
          let g = (if g > c_maxstatems k then c_maxstatems k else g);
          n \<leftarrow> cint (c_retry k + 1);
          Some (cur, k\<lparr>c_growms := g, c_retry := n\<rparr>) }"

definition tripc_get_growth :: "addr \<Rightarrow> world \<Rightarrow> (int \<times> world) option" where
  "tripc_get_growth c w =
     do { k \<leftarrow> h_conn w c;
          (ms, k) \<leftarrow> get_growth k;
          w \<leftarrow> conn_upd c (\<lambda>_. k) w;
          Some (ms, w) }"

definition tripc_done_retry :: "connection \<Rightarrow> bool" where
  "tripc_done_retry k \<longleftrightarrow> c_maxretry k > 0 \<and> c_retry k > c_maxretry k"

definition tripc_set_timeout :: "host \<Rightarrow> addr \<Rightarrow> int \<Rightarrow> timer_cb \<Rightarrow> world \<Rightarrow> world option" where
  "tripc_set_timeout H c ms cb w =
     do { (e, w) \<leftarrow> trip_set_timeout H ms (Some c) cb w;
          conn_upd c (\<lambda>k. k\<lparr>c_statetimer := e\<rparr>) w }"

definition tripc_cancel_timeout :: "addr \<Rightarrow> world \<Rightarrow> world option" where
  "tripc_cancel_timeout c w =
     do { k \<leftarrow> h_conn w c;
          (case c_statetimer k of
             None \<Rightarrow> Some w
           | Some t \<Rightarrow> do { w \<leftarrow> trip_cancel_timeout_priv t w;
                           conn_upd c (\<lambda>k. k\<lparr>c_statetimer := None\<rparr>) w }) }"

definition tripc_set_send :: "host \<Rightarrow> addr \<Rightarrow> world \<Rightarrow> world option" where
  "tripc_set_send H c w =
     do { w \<leftarrow> trip_qconnection H c w; conn_upd c (\<lambda>k. k\<lparr>c_hassend := True\<rparr>) w }"

definition tripc_clear_send :: "addr \<Rightarrow> world \<Rightarrow> world option" where
  "tripc_clear_send c w =
     do { w \<leftarrow> trip_unqconnection c w; conn_upd c (\<lambda>k. k\<lparr>c_hassend := False\<rparr>) w }"

section \<open>Keys and pings\<close>

text \<open>
  New keys, when the connection is encrypted. A buffer that is already there is reused; when
  one of the two is missing both are freed.
\<close>

definition tripc_mk_keys :: "host \<Rightarrow> addr \<Rightarrow> world \<Rightarrow> world option" where
  "tripc_mk_keys H c w =
     do { k \<leftarrow> h_conn w c;
          if \<not> c_encrypted k then Some w
          else do {
            let (pk, w) = (if self_pk (c_self k) = None then w_ok H w else (True, w));
            let (sk, w) = (if self_sk (c_self k) = None then w_ok H w else (True, w));
            if pk \<and> sk
            then (let (p, s) = ho_kp H (w_tick w) in
                  conn_upd c (\<lambda>k. k\<lparr>c_self := (c_self k)\<lparr>self_pk := Some p, self_sk := Some s\<rparr>\<rparr>)
                    (w\<lparr>w_tick := w_tick w + 1\<rparr>))
            else conn_upd c (\<lambda>k. k\<lparr>c_self := (c_self k)\<lparr>self_pk := None, self_sk := None\<rparr>\<rparr>) w } }"

definition tripc_generate_ping :: "host \<Rightarrow> addr \<Rightarrow> world \<Rightarrow> world option" where
  "tripc_generate_ping H c w =
     (let n = ho_bytes H (w_tick w) (noncebytes (ho_crypto H));
          (now, w) = w_now H (w\<lparr>w_tick := w_tick w + 1\<rparr>)
      in conn_upd c (\<lambda>k. k\<lparr>c_ping := (c_ping k)\<lparr>ping_nonce := n, ping_timestamp := now\<rparr>\<rparr>) w)"

section \<open>The state machine\<close>

text \<open>
  \<open>_tripc_set_state\<close> in its two halves. The first is named for leaving a state but switches
  on the state that is entered, so it cancels the timer of the state that is left unless the
  new state is \<open>START\<close>, \<open>READY_PING\<close>, \<open>END\<close> or \<open>ERROR\<close>.
\<close>

definition set_state_leave :: "addr \<Rightarrow> conn_state \<Rightarrow> world \<Rightarrow> world option" where
  "set_state_leave c st w =
     (case st of
        CS_RESOLVE \<Rightarrow> tripc_cancel_timeout c w
      | CS_OPEN \<Rightarrow> tripc_cancel_timeout c w
      | CS_CHAL \<Rightarrow> tripc_cancel_timeout c w
      | CS_PING \<Rightarrow> tripc_cancel_timeout c w
      | CS_READY \<Rightarrow> tripc_cancel_timeout c w
      | CS_CLOSE \<Rightarrow> tripc_cancel_timeout c w
      | _ \<Rightarrow> Some w)"

text \<open>The delay of a retry, and the timer for it.\<close>

definition resend_timer :: "host \<Rightarrow> addr \<Rightarrow> world \<Rightarrow> world option" where
  "resend_timer H c w =
     do { (ms, w) \<leftarrow> tripc_get_growth c w; tripc_set_timeout H c ms CB_state_resend w }"

definition set_state_enter :: "host \<Rightarrow> addr \<Rightarrow> conn_state \<Rightarrow> world \<Rightarrow> world option" where
  "set_state_enter H c st w =
     do { k \<leftarrow> h_conn w c;
          case st of
            CS_RESOLVE \<Rightarrow> tripc_set_timeout H c (c_maxresolve k) CB_state_resolve w
          | CS_OPEN \<Rightarrow>
              do { w \<leftarrow> tripc_mk_keys H c w;
                   w \<leftarrow> tripc_set_deadline H c (c_maxstatems k) w;
                   w \<leftarrow> tripc_set_growth c (c_statems k) w;
                   w \<leftarrow> tripc_set_send H c w;
                   resend_timer H c w }
          | CS_CHAL \<Rightarrow> tripc_mk_keys H c w
          | CS_PING \<Rightarrow>
              do { w \<leftarrow> tripc_generate_ping H c w;
                   w \<leftarrow> tripc_set_deadline H c (ping_maxms (c_ping k)) w;
                   w \<leftarrow> tripc_set_growth c (ping_ms (c_ping k)) w;
                   w \<leftarrow> resend_timer H c w;
                   tripc_set_send H c w }
          | CS_READY \<Rightarrow>
              do { d \<leftarrow> cint (ping_maxms (c_ping k) * 2);
                   w \<leftarrow> tripc_set_deadline H c d w;
                   t \<leftarrow> cint (ping_maxms (c_ping k) + ping_maxms (c_ping k) sdiv 2);
                   tripc_set_timeout H c t CB_state_ready_ping w }
          | CS_CLOSE \<Rightarrow>
              do { w \<leftarrow> tripc_set_deadline H c (c_maxstatems k) w;
                   tripc_set_timeout H c (c_statems k) CB_state_ready_ping w }
          | _ \<Rightarrow> Some w }"

definition tripc_set_state :: "host \<Rightarrow> addr \<Rightarrow> conn_state \<Rightarrow> world \<Rightarrow> world option" where
  "tripc_set_state H c st w =
     do { w \<leftarrow> set_state_leave c st w;
          w \<leftarrow> conn_upd c (\<lambda>k. k\<lparr>c_state := st\<rparr>) w;
          set_state_enter H c st w }"

definition tripc_set_error :: "host \<Rightarrow> addr \<Rightarrow> errno \<Rightarrow> string option \<Rightarrow> world \<Rightarrow> world option" where
  "tripc_set_error H c e msg w =
     do { k \<leftarrow> h_conn w c;
          if c_state k \<noteq> CS_ERROR
          then do {
            let (ok, w) = w_ok H w;
            w \<leftarrow> conn_upd c (\<lambda>k. k\<lparr>c_error := e,
                   c_errmsg := (if ok then Some (case msg of None \<Rightarrow> '''' | Some m \<Rightarrow> m) else None)\<rparr>) w;
            tripc_set_state H c CS_ERROR w }
          else Some w }"

definition tripc_set_screen :: "host \<Rightarrow> addr \<Rightarrow> screen \<Rightarrow> world \<Rightarrow> world option" where
  "tripc_set_screen H c screen w =
     do { let (ok, w) = (if sc_routelen screen \<noteq> 0 then w_ok H w else (True, w));
          route \<leftarrow> tripm_bdup ok (unat (sc_routelen screen)) (sc_route screen);
          conn_upd c (\<lambda>k. k\<lparr>c_data := sc_data screen, c_rlen := ucast (sc_routelen screen),
              c_route := route,
              c_self := (c_self k)\<lparr>self_opensk := sc_opensk screen, self_signsk := sc_signsk screen\<rparr>,
              c_peer := (c_peer k)\<lparr>peer_signpk := sc_signpk screen\<rparr>\<rparr>) w }"

section \<open>Initialisation and the end\<close>

text \<open>The whole record is overwritten, so the memory may be new.\<close>

definition tripc_init_rec :: "host \<Rightarrow> router \<Rightarrow> bool \<Rightarrow> connection" where
  "tripc_init_rec H r incoming =
     (connection_zero (noncebytes (ho_crypto H)))\<lparr>c_incoming := incoming,
        c_streams := streammap_init (sint (r_max_streams r)),
        c_maxresolve := 500, c_maxstatems := 3000, c_statems := 100\<rparr>"

definition tripc_init :: "host \<Rightarrow> addr \<Rightarrow> bool \<Rightarrow> world \<Rightarrow> world" where
  "tripc_init H c incoming w =
     w\<lparr>h_conn := (h_conn w)(c \<mapsto> tripc_init_rec H (w_router w) incoming)\<rparr>"

definition tripc_destroy :: "addr \<Rightarrow> world \<Rightarrow> world option" where
  "tripc_destroy c w =
     do { w \<leftarrow> conn_upd c (\<lambda>k. k\<lparr>c_streams := streammap_destroy (c_streams k)\<rparr>) w;
          w \<leftarrow> tripc_cancel_timeout c w;
          w \<leftarrow> trip_unqconnection c w;
          conn_upd c (\<lambda>k. k\<lparr>c_errmsg := tripm_cfree (c_errmsg k)\<rparr>) w }"

text \<open>\<open>_trip_close_connection\<close> of \<open>src/trip.c\<close>: the user is told, then it is freed.\<close>

definition trip_close_connection :: "host \<Rightarrow> addr \<Rightarrow> world \<Rightarrow> world option" where
  "trip_close_connection H c w =
     do { _ \<leftarrow> h_conn w c;
          w \<leftarrow> call_connection H c w;
          k \<leftarrow> h_conn w c;
          (_, m) \<leftarrow> connmap_del (self_id (c_self k)) (r_conn (w_router w)) (h_conn w);
          let w = rt_upd (\<lambda>r. r\<lparr>r_conn := m\<rparr>) w;
          w \<leftarrow> tripc_destroy c w;
          trip_free_connection c w }"

definition tripc_start :: "host \<Rightarrow> addr \<Rightarrow> world \<Rightarrow> world option" where
  "tripc_start H c w =
     do { k \<leftarrow> h_conn w c;
          if c_state k \<noteq> CS_START then tripc_set_error H c EINVAL None w
          else tripc_set_state H c (if c_incoming k then CS_CHAL else CS_RESOLVE) w }"

definition tripc_resolved :: "host \<Rightarrow> addr \<Rightarrow> world \<Rightarrow> world option" where
  "tripc_resolved H c w = tripc_set_state H c CS_OPEN w"

section \<open>Timer callbacks\<close>

definition timeout_state_resolve_cb :: "host \<Rightarrow> addr \<Rightarrow> world \<Rightarrow> world option" where
  "timeout_state_resolve_cb H c w =
     do { k \<leftarrow> h_conn w c;
          q \<leftarrow> resolveq_del (c_resolvekey k) (r_resolveq (w_router w));
          let w = rt_upd (\<lambda>r. r\<lparr>r_resolveq := q\<rparr>) w;
          w \<leftarrow> conn_upd c (\<lambda>k. k\<lparr>c_statetimer := None\<rparr>) w;
          w \<leftarrow> tripc_set_error H c ETIME None w;
          trip_close_connection H c w }"

definition timeout_state_resend_cb :: "host \<Rightarrow> addr \<Rightarrow> world \<Rightarrow> world option" where
  "timeout_state_resend_cb H c w =
     do { let (now, w) = w_now H w;
          k \<leftarrow> h_conn w c;
          if now > c_statedeadline k
          then do { w \<leftarrow> tripc_set_error H c ETIME None w; trip_close_connection H c w }
          else do { w \<leftarrow> tripc_set_send H c w; resend_timer H c w } }"

definition timeout_state_ready_ping :: "host \<Rightarrow> addr \<Rightarrow> world \<Rightarrow> world option" where
  "timeout_state_ready_ping H c w = tripc_set_state H c CS_PING w"

section \<open>Sending\<close>

definition TRIP_VERSION_MAJOR :: u16 where "TRIP_VERSION_MAJOR = 0"

definition tripc_seq :: "addr \<Rightarrow> world \<Rightarrow> (u64 \<times> world) option" where
  "tripc_seq c w =
     do { k \<leftarrow> h_conn w c;
          w \<leftarrow> conn_upd c (\<lambda>k. k\<lparr>c_self := (c_self k)\<lparr>self_sequence := self_sequence (c_self k) + 1\<rparr>\<rparr>) w;
          Some (self_sequence (c_self k), w) }"

definition tripc_send_data :: "addr \<Rightarrow> u64 \<Rightarrow> bytes \<Rightarrow> u64" where
  "tripc_send_data c blen buf = NPOS"

definition open_format :: string where "open_format = ''sCQWHboQnkIIIIOS''"
definition chal_format :: string where "chal_format = ''sCQWoQnkIIIIOS''"
definition ping_format :: string where "ping_format = ''CQWenQIIIE''"

text \<open>The arguments of the two handshake packets, the sequence number already drawn.\<close>

definition open_args :: "connection \<Rightarrow> u64 \<Rightarrow> varg list" where
  "open_args k seq =
     [AInt (ucast (CONTROL_OPEN OR (if peer_openpk (c_peer k) \<noteq> None then PREFIX_EMASK else 0))),
      ALong (self_id (c_self k)), ALong seq,
      AInt (ucast TRIP_VERSION_MAJOR), AInt 0, APtr None,
      APtr (peer_openpk (c_peer k)),
      ALong (self_id (c_self k)), APtr (self_nonce (c_self k)), APtr (self_pk (c_self k)),
      AInt 128000, AInt 8, AInt 65536, AInt 128,
      APtr (self_signsk (c_self k))]"

definition chal_args :: "connection \<Rightarrow> u64 \<Rightarrow> varg list" where
  "chal_args k seq =
     [AInt (ucast (CONTROL_CHAL OR (if peer_pk (c_peer k) \<noteq> None then PREFIX_EMASK else 0))),
      ALong (peer_id (c_peer k)), ALong seq,
      APtr (peer_openpk (c_peer k)),
      ALong (self_id (c_self k)), APtr (self_nonce (c_self k)), APtr (self_pk (c_self k)),
      AInt 128000, AInt 8, AInt 65536, AInt 128,
      APtr (self_signsk (c_self k))]"

text \<open>With debugging on, which it is in the sources, what was packed or parsed is printed.\<close>

definition trip_dump :: "u64 \<Rightarrow> bytes \<Rightarrow> unit option" where
  "trip_dump len buf = map_option (\<lambda>_. ()) (read_at 0 (unat len) buf)"

definition tripc_send_open :: "host \<Rightarrow> addr \<Rightarrow> u64 \<Rightarrow> bytes \<Rightarrow> world \<Rightarrow> (u64 \<times> bytes \<times> world) option" where
  "tripc_send_open H c blen buf w =
     do { k \<leftarrow> h_conn w c;
          (seq, w) \<leftarrow> tripc_seq c w;
          (len, buf) \<leftarrow> trip_pack (ho_crypto H) blen buf open_format (open_args k seq);
          _ \<leftarrow> trip_dump len buf;
          Some (len, buf, w) }"

definition tripc_send_chal :: "host \<Rightarrow> addr \<Rightarrow> u64 \<Rightarrow> bytes \<Rightarrow> world \<Rightarrow> (u64 \<times> bytes \<times> world) option" where
  "tripc_send_chal H c blen buf w =
     do { k \<leftarrow> h_conn w c;
          (seq, w) \<leftarrow> tripc_seq c w;
          (len, buf) \<leftarrow> trip_pack (ho_crypto H) blen buf chal_format (chal_args k seq);
          _ \<leftarrow> trip_dump len buf;
          Some (len, buf, w) }"

text \<open>
  \<open>_tripc_prep_nonce\<close> writes to \<open>out\<close> a copy of \<open>nonce\<close> with the control and the octets of
  the sequence number added, and returns \<open>NULL\<close>. The result here is what \<open>out\<close> then holds.
\<close>

definition tripc_prep_nonce :: "bytes option \<Rightarrow> bytes \<Rightarrow> u8 \<Rightarrow> u64 \<Rightarrow> bytes option" where
  "tripc_prep_nonce out nonce control seq =
     (if out = None \<or> length nonce < 9 then None
      else Some (map (\<lambda>i. nonce ! i +
             (if i = 0 then control
              else if i \<le> 8 then ucast (drop_bit (8 * (i - 1)) seq AND 0xFF) else 0))
           [0..<length nonce]))"

text \<open>
  Sending a ping: the arguments of \<open>_tripc_prep_nonce\<close> are in another order than its
  parameters, and its result, \<open>NULL\<close>, is the first of the arguments for the encrypted part.
\<close>

definition tripc_send_ping :: "host \<Rightarrow> addr \<Rightarrow> u64 \<Rightarrow> bytes \<Rightarrow> world \<Rightarrow> (u64 \<times> bytes \<times> world) option" where
  "tripc_send_ping H c blen buf w =
     do { k \<leftarrow> h_conn w c;
          if c_hassend k \<and> ping_isactive (c_ping k)
          then do {
            (seq, w) \<leftarrow> tripc_seq c w;
            w \<leftarrow> conn_upd c (\<lambda>k. k\<lparr>c_hassend := False\<rparr>) w;
            let junk = ho_bytes H (w_tick w) (noncebytes (ho_crypto H));
            n \<leftarrow> tripc_prep_nonce (self_nonce (c_self k)) junk (ucast seq) (ucast CONTROL_PING);
            w \<leftarrow> conn_upd c (\<lambda>k. k\<lparr>c_self := (c_self k)\<lparr>self_nonce := Some n\<rparr>\<rparr>)
                   (w\<lparr>w_tick := w_tick w + 1\<rparr>);
            (wlen, buf) \<leftarrow> trip_pack (ho_crypto H) blen buf ping_format
              [AInt (ucast (CONTROL_PING OR (if peer_pk (c_peer k) \<noteq> None then PREFIX_EMASK else 0))),
               ALong (peer_id (c_peer k)), ALong seq,
               APtr None, APtr (peer_pk (c_peer k)),
               APtr (Some (ping_nonce (c_ping k))), ALong (ping_timestamp (c_ping k)),
               AInt (st_rtt (self_stat (c_self k))), AInt (st_sent (self_stat (c_self k))),
               AInt (st_recv (self_stat (c_self k))), APtr (peer_pk (c_peer k))];
            Some (wlen, buf, w) }
          else Some (0, buf, w) }"

text \<open>A packet is sent once for each time sending was requested.\<close>

definition send_once :: "(world \<Rightarrow> (u64 \<times> bytes \<times> world) option) \<Rightarrow> addr \<Rightarrow> bytes \<Rightarrow> world \<Rightarrow>
    (u64 \<times> bytes \<times> world) option" where
  "send_once send c buf w =
     do { k \<leftarrow> h_conn w c;
          if c_hassend k
          then do { (wlen, buf, w) \<leftarrow> send w;
                    w \<leftarrow> conn_upd c (\<lambda>k. k\<lparr>c_hassend := False\<rparr>) w;
                    Some (wlen, buf, w) }
          else Some (0, buf, w) }"

definition tripc_send :: "host \<Rightarrow> addr \<Rightarrow> u64 \<Rightarrow> bytes \<Rightarrow> world \<Rightarrow> (u64 \<times> bytes \<times> world) option" where
  "tripc_send H c len buf w =
     do { k \<leftarrow> h_conn w c;
          case c_state k of
            CS_START \<Rightarrow> do { w \<leftarrow> tripc_set_error H c EINVAL (Some ''Should not be sending in START.'') w;
                            Some (NPOS, buf, w) }
          | CS_RESOLVE \<Rightarrow> Some (0, buf, w)
          | CS_OPEN \<Rightarrow> send_once (tripc_send_open H c len buf) c buf w
          | CS_CHAL \<Rightarrow> send_once (tripc_send_chal H c len buf) c buf w
          | CS_PING \<Rightarrow> tripc_send_ping H c len buf w
          | CS_READY \<Rightarrow> Some (tripc_send_data c len buf, buf, w)
          | CS_READY_PING \<Rightarrow> tripc_send_ping H c len buf w
          | CS_END \<Rightarrow> Some (NPOS, buf, w)
          | CS_ERROR \<Rightarrow> Some (NPOS, buf, w)
          | CS_CLOSE \<Rightarrow> do { w \<leftarrow> tripc_set_error H c EINVAL (Some ''Unknown state in send.'') w;
                            Some (NPOS, buf, w) } }"

section \<open>Reading\<close>

text \<open>
  What the two handshake packets carry: the identifier, nonce and key of the peer and its
  limits, in the order the decoder stores them.
\<close>

definition hello_fields :: "uout list \<Rightarrow> (u64 \<times> bytes \<times> bytes \<times> connlim) option" where
  "hello_fields out =
     (case out of
        [O64 i, OBlock n, OBlock key, O32 credit, O32 st, O32 sz, O32 ms] \<Rightarrow>
          Some (i, n, key, \<lparr>lim_credit = credit, lim_stream = st, lim_message_size = sz, lim_message = ms\<rparr>)
      | _ \<Rightarrow> None)"

text \<open>
  Taking them over: the identifier and the limits always, nonce and key unless one of them is
  all zeros. The two allocations are not checked.
\<close>

definition accept_hello :: "host \<Rightarrow> addr \<Rightarrow> u64 \<times> bytes \<times> bytes \<times> connlim \<Rightarrow> world \<Rightarrow> (errno \<times> world) option" where
  "accept_hello H c f w =
     (let (i, n, key, lim) = f in
      do { w \<leftarrow> conn_upd c (\<lambda>k. k\<lparr>c_peer := (c_peer k)\<lparr>peer_id := i, peer_lim := lim\<rparr>\<rparr>) w;
           zn \<leftarrow> are_zeros (noncebytes (ho_crypto H)) n;
           zk \<leftarrow> (if zn then Some True else are_zeros (pkbytes (ho_crypto H)) key);
           if zn \<or> zk then Some (EOK, w)
           else do {
             let (okn, w) = w_ok H w;
             let (okk, w) = w_ok H w;
             if okn \<and> okk
             then do { w \<leftarrow> conn_upd c (\<lambda>k. k\<lparr>c_peer := (c_peer k)\<lparr>peer_nonce := Some n, peer_pk := Some key\<rparr>\<rparr>) w;
                       Some (EOK, w) }
             else None } })"

definition tripc_parse_open :: "host \<Rightarrow> addr \<Rightarrow> u64 \<Rightarrow> bytes \<Rightarrow> world \<Rightarrow> (errno \<times> world) option" where
  "tripc_parse_open H c len buf w =
     do { (olen, out) \<leftarrow> trip_unpack (ho_crypto H) len buf ''QnkIIII'';
          _ \<leftarrow> trip_dump len buf;
          if olen \<noteq> len then Some (EINVAL, w)
          else do { f \<leftarrow> hello_fields out; accept_hello H c f w } }"

definition tripc_parse_chal :: "host \<Rightarrow> addr \<Rightarrow> u64 \<Rightarrow> bytes \<Rightarrow> world \<Rightarrow> (errno \<times> world) option" where
  "tripc_parse_chal H c len buf w =
     do { (olen, out) \<leftarrow> trip_unpack (ho_crypto H) len buf ''oQnkIIIIO'';
          _ \<leftarrow> trip_dump len buf;
          if olen \<noteq> len then Some (EINVAL, w)
          else do { f \<leftarrow> hello_fields out; accept_hello H c f w } }"

definition tripc_parse_data :: "addr \<Rightarrow> errno" where
  "tripc_parse_data c = EINVAL"

definition tripc_parse_disconnect :: "addr \<Rightarrow> errno" where
  "tripc_parse_disconnect c = EINVAL"

text \<open>The arguments of \<open>_tripc_prep_nonce\<close> are swapped here as in \<open>_tripc_send_ping\<close>.\<close>

definition tripc_parse_ping :: "host \<Rightarrow> addr \<Rightarrow> u64 \<Rightarrow> bytes \<Rightarrow> prefix \<Rightarrow> world \<Rightarrow> (errno \<times> world) option" where
  "tripc_parse_ping H c len buf px w =
     do { k \<leftarrow> h_conn w c;
          if c_hassend k \<and> (ping_isactive (c_ping k) \<or> c_incoming k)
          then do {
            w \<leftarrow> conn_upd c (\<lambda>k. k\<lparr>c_hassend := False\<rparr>) w;
            let junk = ho_bytes H (w_tick w) (noncebytes (ho_crypto H));
            n \<leftarrow> tripc_prep_nonce (peer_nonce (c_peer k)) junk (ucast (px_seq px)) (ucast (px_control px));
            w \<leftarrow> conn_upd c (\<lambda>k. k\<lparr>c_peer := (c_peer k)\<lparr>peer_nonce := Some n\<rparr>\<rparr>)
                   (w\<lparr>w_tick := w_tick w + 1\<rparr>);
            (plen, _) \<leftarrow> trip_unpack (ho_crypto H) len buf ''enQIIIE'';
            Some (if plen \<noteq> len then EINVAL else EOK, w) }
          else Some (EINVAL, w) }"

definition tripc_check_seq :: "connection \<Rightarrow> u64 \<Rightarrow> errno" where
  "tripc_check_seq k seq = EOK"

definition tripc_flag_seq :: "addr \<Rightarrow> u64 \<Rightarrow> world \<Rightarrow> world" where
  "tripc_flag_seq c seq w = w"

text \<open>The sequence numbers of \<open>OPEN\<close> packets: a floor that follows the latest.\<close>

definition tripc_check_open_seq :: "connpeer \<Rightarrow> u32 \<Rightarrow> errno" where
  "tripc_check_open_seq p seq = (if ucast seq < peer_seqfloor p then EINVAL else EOK)"

definition tripc_flag_open_seq :: "u32 \<Rightarrow> connpeer \<Rightarrow> connpeer" where
  "tripc_flag_open_seq seq p =
     (let offset = ucast (ucast seq - peer_seqfloor p) :: u32 in
      if offset > peer_window p
      then p\<lparr>peer_seqfloor := peer_seqfloor p + ucast (offset - peer_window p)\<rparr> else p)"

text \<open>
  One handler per state. Each gives the code on which \<open>_tripc_read\<close> returns at once, or
  \<open>EOK\<close> when it goes on to the end.
\<close>

definition and_then :: "(errno \<times> world) option \<Rightarrow> (world \<Rightarrow> world option) \<Rightarrow> (errno \<times> world) option" where
  "and_then r f =
     do { (e, w) \<leftarrow> r;
          if e \<noteq> EOK then Some (EINVAL, w) else do { w \<leftarrow> f w; Some (EOK, w) } }"

definition read_in_chal :: "host \<Rightarrow> addr \<Rightarrow> prefix \<Rightarrow> u64 \<Rightarrow> bytes \<Rightarrow> world \<Rightarrow> (errno \<times> world) option" where
  "read_in_chal H c px len buf w =
     (if px_control px = CONTROL_DATA
      then and_then (Some (tripc_parse_data c, w)) (tripc_set_state H c CS_READY)
      else if px_control px = CONTROL_OPEN
      then and_then (tripc_parse_open H c len buf w) (tripc_set_send H c)
      else if px_control px = CONTROL_PING
      then and_then (tripc_parse_ping H c len buf px w) (tripc_set_send H c)
      else Some (EINVAL, w))"

definition read_in_ready :: "host \<Rightarrow> addr \<Rightarrow> prefix \<Rightarrow> u64 \<Rightarrow> bytes \<Rightarrow> world \<Rightarrow> (errno \<times> world) option" where
  "read_in_ready H c px len buf w =
     (if px_control px = CONTROL_DATA then and_then (Some (tripc_parse_data c, w)) Some
      else if px_control px = CONTROL_PING
      then and_then (tripc_parse_ping H c len buf px w) (tripc_set_state H c CS_READY)
      else if px_control px = CONTROL_DISC
      then and_then (Some (tripc_parse_disconnect c, w)) (tripc_set_state H c CS_CLOSE)
      else Some (EINVAL, w))"

definition read_in_close :: "host \<Rightarrow> addr \<Rightarrow> prefix \<Rightarrow> u64 \<Rightarrow> bytes \<Rightarrow> world \<Rightarrow> (errno \<times> world) option" where
  "read_in_close H c px len buf w =
     (if px_control px = CONTROL_DATA then and_then (Some (tripc_parse_data c, w)) Some
      else if px_control px = CONTROL_PING
      then and_then (tripc_parse_ping H c len buf px w) (tripc_set_state H c CS_READY)
      else if px_control px = CONTROL_DISC then and_then (Some (tripc_parse_disconnect c, w)) Some
      else Some (EINVAL, w))"

definition tripc_read :: "host \<Rightarrow> addr \<Rightarrow> prefix \<Rightarrow> u64 \<Rightarrow> bytes \<Rightarrow> world \<Rightarrow> (errno \<times> world) option" where
  "tripc_read H c px len buf w =
     do { k \<leftarrow> h_conn w c;
          if tripc_check_seq k (px_seq px) \<noteq> EOK then Some (EINVAL, w)
          else do {
            (e, w) \<leftarrow> (case c_state k of
                CS_START \<Rightarrow> Some (EOK, w)
              | CS_OPEN \<Rightarrow> and_then (tripc_parse_chal H c len buf w) (tripc_set_state H c CS_PING)
              | CS_CHAL \<Rightarrow> read_in_chal H c px len buf w
              | CS_PING \<Rightarrow> read_in_ready H c px len buf w
              | CS_READY \<Rightarrow> read_in_ready H c px len buf w
              | CS_READY_PING \<Rightarrow> read_in_ready H c px len buf w
              | CS_CLOSE \<Rightarrow> read_in_close H c px len buf w
              | CS_END \<Rightarrow> Some (EINVAL, w)
              | CS_ERROR \<Rightarrow> Some (EOK, w)
              | CS_RESOLVE \<Rightarrow>
                  do { w \<leftarrow> tripc_set_error H c EINVAL (Some ''Invalid state.'') w; Some (EOK, w) });
            if e \<noteq> EOK then Some (e, w)
            else do { let w = tripc_flag_seq c (px_seq px) w;
                      k \<leftarrow> h_conn w c;
                      Some (c_error k, w) } } }"

section \<open>The public functions\<close>

definition tripc_status :: "connection \<Rightarrow> conn_status" where
  "tripc_status k = c_status k"

definition tripc_close :: "ptr \<Rightarrow> int \<Rightarrow> world \<Rightarrow> world" where
  "tripc_close c gracems w = w"

definition tripc_next_stream :: "connection \<Rightarrow> int" where
  "tripc_next_stream k = 0"

definition tripc_get_errno :: "connection \<Rightarrow> errno" where
  "tripc_get_errno k = c_error k"

definition tripc_get_errmsg :: "host \<Rightarrow> addr \<Rightarrow> world \<Rightarrow> (string option \<times> world) option" where
  "tripc_get_errmsg H c w =
     do { k \<leftarrow> h_conn w c;
          if c_error k \<noteq> EOK \<and> c_errmsg k = None
          then do { let (ok, w) = w_ok H w;
                    let m = (if ok then Some (ho_strerror H (c_error k)) else None);
                    w \<leftarrow> conn_upd c (\<lambda>k. k\<lparr>c_errmsg := m\<rparr>) w;
                    Some (m, w) }
          else Some (c_errmsg k, w) }"

end
