(* ===== verification/Packet_Udp.thy ===== *)
theory Packet_Udp
  imports World
begin

text \<open>
  The default packet interface (\<open>src/packet.c\<close>): checking the port it is given, making and
  freeing it. Binding and unbinding call back into the router and are in the theory \<open>Udp\<close>.
  A C string is the octets of its object, with the terminating zero.
\<close>

definition isdigit :: "u8 \<Rightarrow> bool" where
  "isdigit b \<longleftrightarrow> 48 \<le> b \<and> b \<le> 57"

text \<open>
  The loop over the first five characters: the index at which it stops, or nothing when it
  meets a character that is not a digit. \<open>n\<close> counts the iterations that are left.
\<close>

fun validate_digits :: "nat \<Rightarrow> nat \<Rightarrow> bytes \<Rightarrow> nat option option" where
  "validate_digits i 0 s = Some (Some i)"
| "validate_digits i (Suc n) s =
     (if i < length s
      then (if s ! i = 0 then Some (Some i)
            else if \<not> isdigit (s ! i) then Some None
            else validate_digits (i + 1) n s)
      else None)"

text \<open>\<open>atoi\<close> on a string that starts with digits.\<close>

fun atoi :: "int \<Rightarrow> bytes \<Rightarrow> int" where
  "atoi acc [] = acc"
| "atoi acc (b # s) = (if isdigit b then atoi (acc * 10 + (uint b - 48)) s else acc)"

definition trip_udp_validate_info :: "bytes \<Rightarrow> bool option" where
  "trip_udp_validate_info s =
     do { r \<leftarrow> validate_digits 0 5 s;
          case r of
            None \<Rightarrow> Some False
          | Some i \<Rightarrow>
              if i < length s
              then (if s ! i \<noteq> 0 then Some False
                    else let port = atoi 0 s in Some (\<not> (port > 65535 \<or> port \<le> 0)))
              else None }"

text \<open>\<open>strlen\<close>: the octets before the first zero.\<close>

fun c_strlen :: "bytes \<Rightarrow> nat option" where
  "c_strlen [] = None"
| "c_strlen (b # s) = (if b = 0 then Some 0 else map_option Suc (c_strlen s))"

text \<open>The port 42423, with its terminator.\<close>

definition default_info :: bytes where
  "default_info = [52, 50, 52, 50, 51, 0]"

definition udp_packet :: "bytes \<Rightarrow> packet" where
  "udp_packet s = \<lparr>pkt_data = Some (Ctx_udp \<lparr>udp_info = s, udp_fd = 0\<rparr>), pkt_bind = True, pkt_resolve = False,
     pkt_send = False, pkt_read = False, pkt_unbind = True, pkt_router = False\<rparr>"

definition trip_packet_new_udp :: "host \<Rightarrow> bytes option \<Rightarrow> world \<Rightarrow> (packet option \<times> world) option" where
  "trip_packet_new_udp H info w =
     do { ok \<leftarrow> (case info of None \<Rightarrow> Some True | Some s \<Rightarrow> trip_udp_validate_info s);
          if \<not> ok then Some (None, w)
          else do {
            let s = (case info of None \<Rightarrow> default_info | Some s \<Rightarrow> s);
            let (ok1, w) = w_ok H w;
            if \<not> ok1 then Some (None, w)
            else do {
              len \<leftarrow> c_strlen s;
              let (ok2, w) = w_ok H w;
              if \<not> ok2 then Some (None, w)
              else do {
                let (ok3, w) = w_ok H w;
                if \<not> ok3 then Some (None, w)
                else Some (Some (udp_packet (take (len + 1) s)), w) } } } }"

text \<open>Freeing reads the context of the packet, which has to be there.\<close>

definition trip_packet_free_udp :: "packet option \<Rightarrow> unit option" where
  "trip_packet_free_udp p = do { p \<leftarrow> p; c \<leftarrow> pkt_udp p; Some () }"

section \<open>The port\<close>

text \<open>A decimal number of one to five digits, as a C string.\<close>

definition port_string :: "bytes \<Rightarrow> bool" where
  "port_string ds \<longleftrightarrow> length ds \<le> 5 \<and> (\<forall>d \<in> set ds. isdigit d)"

definition port_value :: "bytes \<Rightarrow> int" where
  "port_value ds = foldl (\<lambda>acc d. acc * 10 + (uint d - 48)) 0 ds"

lemma atoi_digits: "\<forall>d \<in> set ds. isdigit d \<Longrightarrow> atoi acc (ds @ 0 # r) = foldl (\<lambda>acc d. acc * 10 + (uint d - 48)) acc ds"
  by (induction ds arbitrary: acc) (auto simp: isdigit_def)

lemma isdigit_nonzero: "isdigit d \<Longrightarrow> d \<noteq> 0"
  by (auto simp: isdigit_def)

lemma validate_digits_all:
  assumes "\<forall>d \<in> set ds. isdigit d" "length ds \<le> n"
  shows "validate_digits (length ps) n (ps @ ds @ 0 # r) = Some (Some (length (ps @ ds)))"
  using assms
proof (induction ds arbitrary: ps n)
  case Nil
  then show ?case by (cases n) (simp_all add: nth_append)
next
  case (Cons d ds)
  then obtain m where n: "n = Suc m" by (cases n) auto
  have "validate_digits (length (ps @ [d])) m ((ps @ [d]) @ ds @ 0 # r) = Some (Some (length ((ps @ [d]) @ ds)))"
    by (rule Cons.IH) (use Cons.prems n in auto)
  then show ?case using Cons.prems n isdigit_nonzero [of d] by (simp add: nth_append)
qed

lemma validate_digits_bad:
  assumes "\<forall>d \<in> set ds. isdigit d" "length ds < n" "x \<noteq> 0" "\<not> isdigit x"
  shows "validate_digits (length ps) n (ps @ ds @ x # r) = Some None"
  using assms
proof (induction ds arbitrary: ps n)
  case Nil
  then obtain m where "n = Suc m" by (cases n) auto
  with Nil show ?case by (simp add: nth_append)
next
  case (Cons d ds)
  then obtain m where n: "n = Suc m" by (cases n) auto
  have "validate_digits (length (ps @ [d])) m ((ps @ [d]) @ ds @ x # r) = Some None"
    by (rule Cons.IH) (use Cons.prems n in auto)
  then show ?case using Cons.prems n isdigit_nonzero [of d] by (simp add: nth_append)
qed

lemma validate_digits_long:
  assumes "\<forall>d \<in> set ds. isdigit d" "length ds = n"
  shows "validate_digits (length ps) n (ps @ ds @ r) = Some (Some (length ps + n))"
  using assms
proof (induction ds arbitrary: ps n)
  case (Cons d ds)
  then obtain m where n: "n = Suc m" by (cases n) auto
  have "validate_digits (length (ps @ [d])) m ((ps @ [d]) @ ds @ r) = Some (Some (length (ps @ [d]) + m))"
    by (rule Cons.IH) (use Cons.prems n in auto)
  then show ?case using Cons.prems n isdigit_nonzero [of d] by (simp add: nth_append)
qed simp

text \<open>A prefix of digits and what follows it.\<close>

lemma digits_split:
  fixes s :: bytes
  obtains ds r where "s = ds @ r" "\<forall>d \<in> set ds. isdigit d" "r = [] \<or> \<not> isdigit (hd r)"
  using that [of "takeWhile isdigit s" "dropWhile isdigit s"]
  by (metis hd_dropWhile set_takeWhileD takeWhile_dropWhile_id)

text \<open>Which ports are accepted. For every C string the check reads only the string, and it
  accepts exactly the decimal numbers of at most five digits from 1 to 65535.\<close>

theorem udp_validate_exact:
  assumes "0 \<notin> set s"
  shows "trip_udp_validate_info (s @ 0 # r) =
    Some (port_string s \<and> 1 \<le> port_value s \<and> port_value s \<le> 65535)"
proof -
  obtain ds t where s: "s = ds @ t" "\<forall>d \<in> set ds. isdigit d" "t = [] \<or> \<not> isdigit (hd t)"
    by (rule digits_split)
  consider (digits) "t = []" "length ds \<le> 5" | (bad) x u where "t = x # u" "length ds < 5"
    | (long) d5 e where "ds @ t = d5 @ e" "length d5 = 5" "e \<noteq> []" "\<forall>d \<in> set d5. isdigit d"
  proof (cases t)
    case Nil
    show ?thesis
    proof (cases "length ds \<le> 5")
      case False
      with s(2) show ?thesis
        using long [of "take 5 ds" "drop 5 ds @ t"] by (auto dest: in_set_takeD)
    qed (use digits Nil in blast)
  next
    case (Cons x u)
    show ?thesis
    proof (cases "length ds < 5")
      case False
      with s(2) Cons show ?thesis
        using long [of "take 5 ds" "drop 5 ds @ t"] by (auto dest: in_set_takeD)
    qed (use bad Cons in blast)
  qed
  then show ?thesis
  proof cases
    case digits
    then have "validate_digits 0 5 (s @ 0 # r) = Some (Some (length s))"
      using validate_digits_all [of ds 5 "[]" r] s by simp
    moreover have "atoi 0 (s @ 0 # r) = port_value s"
      using atoi_digits [of ds 0 r] s(1,2) digits by (simp add: port_value_def)
    ultimately show ?thesis
      using digits s by (auto simp: trip_udp_validate_info_def port_string_def Let_def)
  next
    case bad
    then have x: "x \<noteq> 0" "\<not> isdigit x" using s assms by auto
    then have "validate_digits 0 5 (s @ 0 # r) = Some None"
      using validate_digits_bad [of ds 5 x "[]" "u @ 0 # r"] s bad by simp
    moreover have "\<not> port_string s" using s bad x by (simp add: port_string_def)
    ultimately show ?thesis by (simp add: trip_udp_validate_info_def)
  next
    case long
    then obtain x u where e: "e = x # u" by (cases e) auto
    then have "x \<noteq> 0" using assms s long by auto
    have "validate_digits 0 5 (s @ 0 # r) = Some (Some 5)"
      using validate_digits_long [of d5 5 "[]" "e @ 0 # r"] s long by simp
    moreover have "(s @ 0 # r) ! 5 = x" "5 < length (s @ 0 # r)"
      using s long e by (simp_all add: nth_append)
    moreover have "\<not> port_string s" using s long e by (simp add: port_string_def)
    ultimately show ?thesis using \<open>x \<noteq> 0\<close> by (simp add: trip_udp_validate_info_def)
  qed
qed

theorem udp_validate_exact_witness:
  "trip_udp_validate_info ([52, 50] @ 0 # []) =
    Some (port_string [52, 50] \<and> 1 \<le> port_value [52, 50] \<and> port_value [52, 50] \<le> 65535)"
  by (rule udp_validate_exact) simp

end
