(* ===== verification/Router.thy ===== *)
theory Router
  imports Conn Packet_Udp
begin

text \<open>
  The router (\<open>src/trip.c\<close>): its state machine, sending and receiving, resolving, options,
  timers, and opening and closing connections. The callbacks on the wheel are dispatched by
  \<open>fire\<close>.
\<close>

section \<open>The packet interface\<close>

text \<open>Calling one of its functions: a null packet or function has no meaning.\<close>

definition call_bind :: "host \<Rightarrow> world \<Rightarrow> world option" where
  "call_bind H w = do { p \<leftarrow> r_packet (w_router w); if pkt_bind p then ho_bind H w else None }"

definition call_unbind :: "host \<Rightarrow> world \<Rightarrow> world option" where
  "call_unbind H w = do { p \<leftarrow> r_packet (w_router w); if pkt_unbind p then ho_unbind H w else None }"

definition call_resolve :: "host \<Rightarrow> int \<Rightarrow> u64 \<Rightarrow> bytes option \<Rightarrow> world \<Rightarrow> world option" where
  "call_resolve H rkey ilen info w =
     do { p \<leftarrow> r_packet (w_router w); if pkt_resolve p then ho_resolve H rkey ilen info w else None }"

definition call_read :: "host \<Rightarrow> int \<Rightarrow> u32 \<Rightarrow> world \<Rightarrow> (errno \<times> world) option" where
  "call_read H fd mx w =
     do { p \<leftarrow> r_packet (w_router w); if pkt_read p then ho_read H fd mx w else None }"

definition call_send :: "host \<Rightarrow> packet option \<Rightarrow> int \<Rightarrow> u64 \<Rightarrow> bytes \<Rightarrow> world \<Rightarrow> (errno \<times> world) option" where
  "call_send H p src len buf w =
     do { p \<leftarrow> p; if pkt_send p then ho_send H src len buf w else None }"

section \<open>The state machine\<close>

text \<open>
  \<open>_trip_close\<close>: the loop over the entries of the connection map, \<open>n\<close> of them left. With
  no grace the connections are freed; \<open>free(NULL)\<close> does nothing.
\<close>

fun close_loop :: "int \<Rightarrow> nat \<Rightarrow> nat \<Rightarrow> world \<Rightarrow> world option" where
  "close_loop gracems i 0 w = Some w"
| "close_loop gracems i (Suc n) w =
     do { c \<leftarrow> connmap_iter_get (r_conn (w_router w)) i;
          let w = tripc_close c gracems w;
          w \<leftarrow> (if gracems = 0
                 then (case c of None \<Rightarrow> Some w | Some a \<Rightarrow> trip_free_connection a w)
                 else Some w);
          close_loop gracems (i + 1) n w }"

definition trip_close :: "int \<Rightarrow> world \<Rightarrow> world option" where
  "trip_close gracems w =
     do { let i = connmap_iter_beg (r_conn (w_router w));
          w \<leftarrow> close_loop gracems i (connmap_iter_end (r_conn (w_router w)) - i) w;
          Some (rt_upd (\<lambda>r. r\<lparr>r_conn := connmap_clear (r_conn r)\<rparr>) w) }"

text \<open>Setting the timer of the router's state.\<close>

definition state_timer :: "host \<Rightarrow> int \<Rightarrow> world \<Rightarrow> world option" where
  "state_timer H ms w =
     do { (t, w) \<leftarrow> trip_set_timeout_priv H ms None CB_timeout_router w;
          Some (rt_upd (\<lambda>r. r\<lparr>r_statetimer := t\<rparr>) w) }"

definition state_deadline :: "host \<Rightarrow> int \<Rightarrow> world \<Rightarrow> world" where
  "state_deadline H ms w =
     (let (d, w) = w_deadline H ms w in rt_upd (\<lambda>r. r\<lparr>r_statedeadline := d\<rparr>) w)"

definition router_leave :: "host \<Rightarrow> world \<Rightarrow> world option" where
  "router_leave H w =
     (case r_state (w_router w) of
        RS_BIND \<Rightarrow> trip_timeout_cancel_state (state_deadline H 0 w)
      | RS_CLOSE \<Rightarrow> trip_timeout_cancel_state (state_deadline H 0 w)
      | RS_UNBIND \<Rightarrow> trip_timeout_cancel_state (state_deadline H 0 w)
      | _ \<Rightarrow> Some w)"

definition router_enter :: "host \<Rightarrow> router_state \<Rightarrow> world \<Rightarrow> world option" where
  "router_enter H st w =
     (case st of
        RS_START \<Rightarrow> Some w
      | RS_BIND \<Rightarrow>
          do { let ms = r_timeout_bind (w_router w);
               w \<leftarrow> state_timer H ms (state_deadline H ms w);
               call_bind H w }
      | RS_LISTEN \<Rightarrow> Some (rt_upd (\<lambda>r. r\<lparr>r_statedeadline := 0\<rparr>) w)
      | RS_CLOSE \<Rightarrow>
          do { let ms = r_timeout_close (w_router w);
               w \<leftarrow> trip_close ms w;
               state_timer H ms (state_deadline H ms w) }
      | RS_UNBIND \<Rightarrow>
          do { w \<leftarrow> trip_close 0 w;
               w \<leftarrow> call_unbind H w;
               let ms = r_timeout_unbind (w_router w);
               state_timer H ms (state_deadline H ms w) }
      | RS_END \<Rightarrow> Some w
      | RS_ERROR \<Rightarrow>
          do { p \<leftarrow> r_packet (w_router w);
               if pkt_router p \<and> r_statetimer (w_router w) = None
               then do { w \<leftarrow> state_timer H (r_timeout_unbind (w_router w)) w; call_unbind H w }
               else Some w })"

definition trip_set_state :: "host \<Rightarrow> router_state \<Rightarrow> world \<Rightarrow> world option" where
  "trip_set_state H st w =
     do { let st = (if r_state (w_router w) = RS_ERROR then RS_ERROR else st);
          w \<leftarrow> router_leave H w;
          router_enter H st (rt_upd (\<lambda>r. r\<lparr>r_state := st\<rparr>) w) }"

definition trip_set_error :: "host \<Rightarrow> errno \<Rightarrow> string option \<Rightarrow> world \<Rightarrow> world option" where
  "trip_set_error H e msg w =
     (if r_state (w_router w) \<noteq> RS_ERROR
      then (let (ok, w) = w_ok H w in
            trip_set_state H RS_ERROR
              (rt_upd (\<lambda>r. r\<lparr>r_error := e,
                 r_errmsg := (if ok then Some (case msg of None \<Rightarrow> '''' | Some m \<Rightarrow> m) else None)\<rparr>) w))
      else Some w)"

definition timeout_router_cb :: "host \<Rightarrow> world \<Rightarrow> world option" where
  "timeout_router_cb H w =
     (let w = rt_upd (\<lambda>r. r\<lparr>r_statetimer := None\<rparr>) w in
      if r_state (w_router w) = RS_ERROR then Some w else trip_set_error H ETIME None w)"

section \<open>Reading and sending\<close>

text \<open>Reading until the packet interface has no more; it may go on for ever.\<close>

partial_function (option) read_loop :: "host \<Rightarrow> int \<Rightarrow> world \<Rightarrow> (errno \<times> world) option" where
  "read_loop H fd w =
     Option.bind (call_read H fd (r_max_packet_read_count (w_router w)) w) (\<lambda>r.
       if fst r = EOK then read_loop H fd (snd r) else Some r)"

declare read_loop.simps [code]

text \<open>
  One connection's turn: up to \<open>n\<close> packets. It ends the whole call (\<open>SR_return\<close>) on an
  error or a full socket, has sent all it may (\<open>SR_requeue\<close>) or has nothing to send.
\<close>

datatype send_res = SR_return | SR_requeue | SR_done

definition r_buffer :: "router \<Rightarrow> bytes" where
  "r_buffer r = (case r_buf r of None \<Rightarrow> [] | Some b \<Rightarrow> b)"

fun conn_turn :: "host \<Rightarrow> packet option \<Rightarrow> addr \<Rightarrow> nat \<Rightarrow> u32 \<Rightarrow> world \<Rightarrow> (send_res \<times> u32 \<times> world) option" where
  "conn_turn H p c 0 sent w = Some (SR_requeue, sent, w)"
| "conn_turn H p c (Suc n) sent w =
     do { (len, buf, w) \<leftarrow> tripc_send H c (r_buflen (w_router w)) (r_buffer (w_router w)) w;
          let w = rt_upd (\<lambda>r. r\<lparr>r_sendlen := len, r_buf := map_option (\<lambda>_. buf) (r_buf r)\<rparr>) w;
          if len = NPOS
          then do { w \<leftarrow> trip_set_error H ECOMM None (rt_upd (\<lambda>r. r\<lparr>r_sendlen := 0\<rparr>) w);
                    Some (SR_return, sent, w) }
          else if len \<noteq> 0
          then do {
            k \<leftarrow> h_conn w c;
            (wcode, w) \<leftarrow> call_send H p (c_src k) len (r_buffer (w_router w)) w;
            if wcode \<noteq> EOK
            then do {
              w \<leftarrow> (if wcode \<noteq> EWOULDBLOCK then trip_set_error H wcode None w
                     else do { k \<leftarrow> h_conn w c; Some (rt_upd (\<lambda>r. r\<lparr>r_sendsrc := c_src k\<rparr>) w) });
              Some (SR_return, sent, w) }
            else conn_turn H p c n (sent + 1) (rt_upd (\<lambda>r. r\<lparr>r_sendlen := 0\<rparr>) w) }
          else Some (SR_done, sent, w) }"

text \<open>Taking the next connection off the send queue.\<close>

definition on_dq :: "world \<Rightarrow> (ptr \<times> world) option" where
  "on_dq w =
     do { (c, q, h) \<leftarrow> sendq_dq (r_sendq (w_router w)) (h_conn w);
          Some (c, (rt_upd (\<lambda>r. r\<lparr>r_sendq := q\<rparr>) w)\<lparr>h_conn := h\<rparr>) }"

partial_function (option) send_loop :: "host \<Rightarrow> packet option \<Rightarrow> ptr \<Rightarrow> u32 \<Rightarrow> world \<Rightarrow> world option" where
  "send_loop H p c sent w =
     (case c of
        None \<Rightarrow> Some w
      | Some a \<Rightarrow>
          Option.bind (conn_turn H p a (unat (r_max_connection_send_count (w_router w))) sent w) (\<lambda>r.
            if fst r = SR_return then Some (snd (snd r))
            else
              Option.bind (if fst r = SR_requeue then on_sendq (sendq_nq a) (snd (snd r)) else Some (snd (snd r))) (\<lambda>w.
                if fst (snd r) > r_max_packet_send_count (w_router w) then Some w
                else Option.bind (on_dq w) (\<lambda>d. send_loop H p (fst d) (fst (snd r)) (snd d)))))"

declare send_loop.simps [code]

text \<open>A packet the socket had no room for is sent again before anything else.\<close>

definition trip_resend :: "host \<Rightarrow> packet option \<Rightarrow> world \<Rightarrow> (bool \<times> u32 \<times> world) option" where
  "trip_resend H p w =
     (if r_sendlen (w_router w) \<noteq> 0
      then do {
        (wcode, w) \<leftarrow> call_send H p (r_sendsrc (w_router w)) (r_sendlen (w_router w)) (r_buffer (w_router w)) w;
        if wcode \<noteq> EOK
        then (if wcode \<noteq> EWOULDBLOCK
              then do { w \<leftarrow> trip_set_error H wcode None w; Some (False, 0, w) }
              else Some (True, 0, w))
        else Some (True, 1, rt_upd (\<lambda>r. r\<lparr>r_sendlen := 0\<rparr>) w) }
      else Some (True, 0, w))"

definition trip_listen_in :: "host \<Rightarrow> int \<Rightarrow> world \<Rightarrow> (bool \<times> world) option" where
  "trip_listen_in H fd w =
     do { (rcode, w) \<leftarrow> read_loop H fd w;
          if rcode \<noteq> EWOULDBLOCK
          then do { w \<leftarrow> trip_set_error H rcode None w; Some (False, w) }
          else Some (True, w) }"

definition trip_listen_out :: "host \<Rightarrow> world \<Rightarrow> world option" where
  "trip_listen_out H w =
     do { let p = r_packet (w_router w);
          (go, sent, w) \<leftarrow> trip_resend H p w;
          if \<not> go then Some w
          else do { (c, w) \<leftarrow> on_dq w; send_loop H p c sent w } }"

text \<open>The events are the bits 1 (in) and 2 (out) of an integer.\<close>

definition trip_listen :: "host \<Rightarrow> int \<Rightarrow> int \<Rightarrow> world \<Rightarrow> world option" where
  "trip_listen H fd events w =
     do { (go, w) \<leftarrow> (if TRIP_IN AND events \<noteq> 0 then trip_listen_in H fd w else Some (True, w));
          if \<not> go then Some w
          else if TRIP_OUT AND events \<noteq> 0 then trip_listen_out H w else Some w }"

definition send_immediately_cb :: "host \<Rightarrow> world \<Rightarrow> world option" where
  "send_immediately_cb H w =
     do { w \<leftarrow> trip_listen H TRIP_SOCKET_TIMEOUT TRIP_INOUT w;
          if trip_has_send w
          then map_option snd (trip_set_timeout_priv H 1 None CB_send_immediately w)
          else Some w }"

section \<open>Receiving a segment\<close>

text \<open>Rejecting does nothing yet, and no source is reported yet.\<close>

definition trip_router_reject :: "int \<Rightarrow> int \<Rightarrow> world \<Rightarrow> world" where
  "trip_router_reject src reason w = w"

definition trip_router_is_reported :: "int \<Rightarrow> world \<Rightarrow> bool" where
  "trip_router_is_reported src w = False"

text \<open>
  The two-entry table of connections by source. The index of the lookup is the C remainder of
  the source, which is negative for a negative odd source.
\<close>

definition trip_router_set_conn_by_src :: "int \<Rightarrow> addr \<Rightarrow> world \<Rightarrow> world option" where
  "trip_router_set_conn_by_src src conn w =
     (let r = w_router w in
      case r_connsrc0 r of
        None \<Rightarrow> Some (rt_upd (\<lambda>r. r\<lparr>r_connsrc0 := Some conn\<rparr>) w)
      | Some a \<Rightarrow>
          do { k \<leftarrow> h_conn w a;
               if c_src k = src then Some w
               else (case r_connsrc1 r of
                   None \<Rightarrow> Some (rt_upd (\<lambda>r. r\<lparr>r_connsrc1 := Some conn\<rparr>) w)
                 | Some b \<Rightarrow> do { _ \<leftarrow> h_conn w b; Some w }) })"

definition trip_router_get_conn_by_src :: "int \<Rightarrow> u64 \<Rightarrow> world \<Rightarrow> ptr option" where
  "trip_router_get_conn_by_src src peerid w =
     do { c \<leftarrow> (if src smod 2 = 0 then Some (r_connsrc0 (w_router w))
                 else if src smod 2 = 1 then Some (r_connsrc1 (w_router w)) else None);
          (case c of
             None \<Rightarrow> Some None
           | Some a \<Rightarrow> do { k \<leftarrow> h_conn w a; Some (if peer_id (c_peer k) = peerid then c else None) }) }"

definition trip_decrypt :: "u64 \<Rightarrow> bytes \<Rightarrow> errno" where
  "trip_decrypt len buf = EINVAL"

definition has_flag :: "u32 \<Rightarrow> world \<Rightarrow> bool" where
  "has_flag f w \<longleftrightarrow> r_flag (w_router w) AND f \<noteq> 0"

text \<open>Adding to the router's connection map.\<close>

definition w_connmap_add :: "host \<Rightarrow> addr \<Rightarrow> world \<Rightarrow> (errno \<times> world) option" where
  "w_connmap_add H c w =
     do { let (ok, w) = w_ok H w;
          let (r1, w) = w_rand H w;
          let (r2, w) = w_rand H w;
          (e, m, h) \<leftarrow> connmap_add ok r1 r2 c (r_conn (w_router w)) (h_conn w);
          Some (e, (rt_upd (\<lambda>r. r\<lparr>r_conn := m\<rparr>) w)\<lparr>h_conn := h\<rparr>) }"

text \<open>
  The connection an \<open>OPEN\<close> packet from an unknown source makes, after the user has screened
  it and its signature was checked; nothing when it is refused.
\<close>

definition segment_new_conn :: "host \<Rightarrow> int \<Rightarrow> u64 \<Rightarrow> bytes \<Rightarrow> screen \<Rightarrow> world \<Rightarrow> (ptr \<times> world) option" where
  "segment_new_conn H src len buf screen w =
     (if \<not> r_screen (w_router w) then None
      else do {
        (screen, w) \<leftarrow> ho_screen H screen w;
        if \<not> sc_allow screen then Some (None, w)
        else do {
          e \<leftarrow> (if sc_signpk screen \<noteq> None \<or> \<not> has_flag FLAG_ALLOW_PLAIN_ISIG w
                 then trip_unsign (ho_crypto H) len buf (sc_signpk screen) else Some EOK);
          if e \<noteq> EOK then Some (None, trip_router_reject src 203 w)
          else do {
            let (c, w) = trip_new_connection H w;
            case c of
              None \<Rightarrow> Some (None, trip_router_reject src 6 w)
            | Some a \<Rightarrow>
                do { w \<leftarrow> conn_upd a (\<lambda>k. k\<lparr>c_src := src\<rparr>) (tripc_init H a True w);
                     (e, w) \<leftarrow> w_connmap_add H a w;
                     if e \<noteq> EOK
                     then do { w \<leftarrow> trip_free_connection a w; Some (None, trip_router_reject src 50 w) }
                     else do { w \<leftarrow> tripc_set_screen H a screen w;
                               w \<leftarrow> tripc_start H a w;
                               Some (Some a, w) } } } } })"

text \<open>The rest of an \<open>OPEN\<close> packet, from octet \<open>end\<close> on. Lengths wrap around as in the code.\<close>

definition segment_read_open :: "host \<Rightarrow> int \<Rightarrow> prefix \<Rightarrow> u64 \<Rightarrow> u64 \<Rightarrow> bytes \<Rightarrow> addr \<Rightarrow> world \<Rightarrow> world option" where
  "segment_read_open H src px end len buf c w =
     do { let len = len - of_nat (signbytes (ho_crypto H));
          _ \<leftarrow> h_conn w c;
          (maclen, _) \<leftarrow> trip_unpack (ho_crypto H) (len - end - of_nat (signbytes (ho_crypto H)))
                          (drop (unat end) buf) ''oO'';
          if maclen = 0 \<or> maclen = NPOS then Some (trip_router_reject src 201 w)
          else do {
            let end = end + maclen;
            (e, w) \<leftarrow> tripc_read H c px (len - end) (drop (unat end) buf) w;
            if e \<noteq> EOK then Some (trip_router_reject src 22 w)
            else tripc_set_send H c w } }"

definition segment_open :: "host \<Rightarrow> int \<Rightarrow> prefix \<Rightarrow> u64 \<Rightarrow> u64 \<Rightarrow> bytes \<Rightarrow> world \<Rightarrow> world option" where
  "segment_open H src px end len buf w =
     (if \<not> has_flag FLAG_ALLOW_IN w then Some (trip_router_reject src 2 w)
      else if \<not> px_encrypted px \<and> \<not> has_flag FLAG_ALLOW_PLAIN_OPEN w then Some (trip_router_reject src 3 w)
      else do {
        (endroute, out) \<leftarrow> trip_unpack (ho_crypto H) (len - end) (drop (unat end) buf) ''Hb'';
        if endroute = 0 \<or> endroute = NPOS then Some (trip_router_reject src 4 w)
        else do {
          (version, routelen, off) \<leftarrow> (case out of [O16 v, O32 n, OPtr p] \<Rightarrow> Some (v, n, p) | _ \<Rightarrow> None);
          let screen = \<lparr>sc_allow = False, sc_version = version, sc_routelen = routelen,
            sc_route = Some (drop (unat end + off) buf), sc_data = None, sc_opensk = None,
            sc_signpk = None, sc_signsk = None\<rparr>;
          let end = end + endroute;
          if version \<noteq> TRIP_VERSION_MAJOR then Some (trip_router_reject src 5 w)
          else do {
            c \<leftarrow> trip_router_get_conn_by_src src (px_id px) w;
            case c of
              None \<Rightarrow>
                do { (c, w) \<leftarrow> segment_new_conn H src len buf screen w;
                     (case c of None \<Rightarrow> Some w
                      | Some a \<Rightarrow> segment_read_open H src px end len buf a w) }
            | Some a \<Rightarrow>
                do { k \<leftarrow> h_conn w a;
                     e \<leftarrow> (if peer_signpk (c_peer k) \<noteq> None \<or> \<not> has_flag FLAG_ALLOW_PLAIN_ISIG w
                            then trip_unsign (ho_crypto H) len buf (peer_signpk (c_peer k)) else Some EOK);
                     if e \<noteq> EOK then Some (trip_router_reject src 203 w)
                     else conn_upd a (\<lambda>k. k\<lparr>c_src := src\<rparr>) w } } } })"

definition segment_other :: "host \<Rightarrow> int \<Rightarrow> prefix \<Rightarrow> u64 \<Rightarrow> u64 \<Rightarrow> bytes \<Rightarrow> world \<Rightarrow> world option" where
  "segment_other H src px end len buf w =
     (if \<not> px_encrypted px \<and> \<not> has_flag FLAG_ALLOW_PLAIN_COMM w then Some (trip_router_reject src 7 w)
      else do {
        c \<leftarrow> connmap_get (px_id px) (r_conn (w_router w)) (h_conn w);
        case c of
          None \<Rightarrow> Some (trip_router_reject src 88 w)
        | Some a \<Rightarrow>
            do { k \<leftarrow> h_conn w a;
                 e \<leftarrow> (if px_control px = CONTROL_CHAL \<and>
                          (peer_signpk (c_peer k) \<noteq> None \<or> \<not> has_flag FLAG_ALLOW_PLAIN_OSIG w)
                        then trip_unsign (ho_crypto H) len buf (peer_signpk (c_peer k)) else Some EOK);
                 if e \<noteq> EOK then Some (trip_router_reject src 203 w)
                 else do {
                   let len = len - of_nat (signbytes (ho_crypto H));
                   (e, w) \<leftarrow> tripc_read H a px (len - end) (drop (unat end) buf) w;
                   Some (if e \<noteq> EOK then trip_router_reject src 79 w else w) } } })"

definition trip_segment :: "host \<Rightarrow> int \<Rightarrow> u64 \<Rightarrow> bytes \<Rightarrow> world \<Rightarrow> world option" where
  "trip_segment H src len buf w =
     (if len < 16 then Some (trip_router_reject src 0 w)
      else if trip_router_is_reported src w then Some w
      else do {
        (end, out) \<leftarrow> trip_unpack (ho_crypto H) len buf ''CQW'';
        if end = NPOS \<or> end = 0 then Some (trip_router_reject src 1 w)
        else do {
          (control, i, seq) \<leftarrow> (case out of [O8 c, O64 i, O64 s] \<Rightarrow> Some (c, i, s) | _ \<Rightarrow> None);
          let px = \<lparr>px_encrypted = control AND PREFIX_EMASK \<noteq> 0,
                    px_control = control AND NOT PREFIX_EMASK, px_id = i, px_seq = seq\<rparr>;
          if px_control px \<ge> CONTROL_MAX then Some (trip_router_reject src 12 w)
          else if px_control px = CONTROL_OPEN then segment_open H src px end len buf w
          else segment_other H src px end len buf w } })"

definition trip_seg :: "host \<Rightarrow> int \<Rightarrow> u64 \<Rightarrow> bytes \<Rightarrow> world \<Rightarrow> world option" where
  "trip_seg H src len buf w =
     (if r_state (w_router w) = RS_LISTEN \<or> r_state (w_router w) = RS_CLOSE
      then trip_segment H src len buf w else Some w)"

section \<open>What the packet interface reports\<close>

definition trip_ready :: "host \<Rightarrow> world \<Rightarrow> world option" where
  "trip_ready H w =
     (if r_state (w_router w) = RS_BIND then trip_set_state H RS_LISTEN w else trip_set_state H RS_ERROR w)"

definition resolve_delay_success_cb :: "host \<Rightarrow> addr \<Rightarrow> world \<Rightarrow> world option" where
  "resolve_delay_success_cb H c w = tripc_resolved H c w"

definition resolve_delay_failure_cb :: "host \<Rightarrow> addr \<Rightarrow> world \<Rightarrow> world option" where
  "resolve_delay_failure_cb H c w = trip_close_connection H c w"

definition trip_resolve :: "host \<Rightarrow> int \<Rightarrow> int \<Rightarrow> errno \<Rightarrow> string option \<Rightarrow> world \<Rightarrow> world option" where
  "trip_resolve H rkey src err emsg w =
     do { (c, q) \<leftarrow> resolveq_pop rkey (r_resolveq (w_router w));
          let w = rt_upd (\<lambda>r. r\<lparr>r_resolveq := q\<rparr>) w;
          case c of
            None \<Rightarrow> Some w
          | Some a \<Rightarrow>
              do { w \<leftarrow> tripc_cancel_timeout a w;
                   w \<leftarrow> conn_upd a (\<lambda>k. k\<lparr>c_src := src\<rparr>) w;
                   if err = EOK \<and> emsg = None
                   then map_option snd (trip_set_timeout_priv H 0 c CB_resolve_success w)
                   else do { w \<leftarrow> tripc_set_error H a err emsg w;
                             map_option snd (trip_set_timeout_priv H 0 c CB_resolve_failure w) } } }"

definition trip_watch :: "host \<Rightarrow> int \<Rightarrow> int \<Rightarrow> world \<Rightarrow> world option" where
  "trip_watch H fd events w =
     (if TRIP_SOCKET_TIMEOUT = fd
      then (if TRIP_REMOVE = events
            then Some (rt_upd (\<lambda>r. r\<lparr>r_flag := r_flag r AND NOT FLAG_ALWAYS_READY\<rparr>) w)
            else let w = rt_upd (\<lambda>r. r\<lparr>r_flag := r_flag r OR FLAG_ALWAYS_READY\<rparr>) w in
                 if sendq_has (r_sendq (w_router w))
                 then map_option snd (trip_set_timeout_priv H 0 None CB_send_immediately w)
                 else Some w)
      else do { data \<leftarrow> sockmap_get fd (r_sockmap (w_router w)); call_watch H fd events data w })"

definition trip_unready :: "host \<Rightarrow> errno \<Rightarrow> world \<Rightarrow> world option" where
  "trip_unready H err w =
     (if err \<noteq> EOK then trip_set_error H err None w else trip_set_state H RS_END w)"

definition trip_error :: "host \<Rightarrow> errno \<Rightarrow> string option \<Rightarrow> world \<Rightarrow> world option" where
  "trip_error H e emsg w = trip_set_error H e emsg w"

section \<open>Options\<close>

text \<open>
  The options with their variadic arguments. A hook is null or not; \<open>OPT_OTHER\<close> is any
  number that is not an option.
\<close>

datatype router_opt =
    OPT_OPEN_KP "bytes option" "bytes option" | OPT_SIGN_KP "bytes option" "bytes option"
  | OPT_USER_DATA ptr | OPT_PACKET "packet option"
  | OPT_WATCH_CB bool | OPT_TIMEOUT_CB bool | OPT_SCREEN_CB bool | OPT_CONNECTION_CB bool
  | OPT_STREAM_CB bool | OPT_MESSAGE_CB bool
  | OPT_ALLOW_PLAIN_OPEN "int option" | OPT_ALLOW_PLAIN_ISIG "int option"
  | OPT_ALLOW_PLAIN_OSIG "int option" | OPT_ALLOW_PLAIN_COMM "int option"
  | OPT_OTHER

definition opt_flag :: "u32 \<Rightarrow> int option \<Rightarrow> router \<Rightarrow> router" where
  "opt_flag f v r =
     (if v \<noteq> None \<and> v \<noteq> Some 0 then r\<lparr>r_flag := r_flag r OR f\<rparr>
      else r\<lparr>r_flag := r_flag r AND NOT f\<rparr>)"

definition opt_hook :: "bool \<Rightarrow> hook option" where
  "opt_hook b = (if b then Some HUser else None)"

definition trip_setopt :: "host \<Rightarrow> router_opt \<Rightarrow> world \<Rightarrow> (errno \<times> world) option" where
  "trip_setopt H opt w =
     (case opt of
        OPT_OPEN_KP pk sk \<Rightarrow> Some (EOK, rt_upd (\<lambda>r. r\<lparr>r_openpk := pk, r_opensk := sk\<rparr>) w)
      | OPT_SIGN_KP pk sk \<Rightarrow> Some (EOK, rt_upd (\<lambda>r. r\<lparr>r_signpub := pk, r_signsec := sk\<rparr>) w)
      | OPT_USER_DATA d \<Rightarrow> Some (EOK, rt_upd (\<lambda>r. r\<lparr>r_data := d\<rparr>) w)
      | OPT_PACKET (Some p) \<Rightarrow> Some (EOK, rt_upd (\<lambda>r. r\<lparr>r_packet := Some p\<rparr>) w)
      | OPT_PACKET None \<Rightarrow>
          do { (p, w) \<leftarrow> trip_packet_new_udp H None w;
               Some (EOK, rt_upd (\<lambda>r. r\<lparr>r_packet := p, r_flag := r_flag r OR FLAG_FREE_PACKET\<rparr>) w) }
      | OPT_WATCH_CB b \<Rightarrow> Some (EOK, rt_upd (\<lambda>r. r\<lparr>r_watch := opt_hook b\<rparr>) w)
      | OPT_TIMEOUT_CB b \<Rightarrow> Some (EOK, rt_upd (\<lambda>r. r\<lparr>r_timeout := opt_hook b\<rparr>) w)
      | OPT_SCREEN_CB b \<Rightarrow> Some (EOK, rt_upd (\<lambda>r. r\<lparr>r_screen := b\<rparr>) w)
      | OPT_CONNECTION_CB b \<Rightarrow> Some (EOK, rt_upd (\<lambda>r. r\<lparr>r_connection := b\<rparr>) w)
      | OPT_STREAM_CB b \<Rightarrow> Some (EOK, rt_upd (\<lambda>r. r\<lparr>r_stream := b\<rparr>) w)
      | OPT_MESSAGE_CB b \<Rightarrow> Some (EOK, rt_upd (\<lambda>r. r\<lparr>r_message := b\<rparr>) w)
      | OPT_ALLOW_PLAIN_OPEN v \<Rightarrow> Some (EOK, rt_upd (opt_flag FLAG_ALLOW_PLAIN_OPEN v) w)
      | OPT_ALLOW_PLAIN_ISIG v \<Rightarrow> Some (EOK, rt_upd (opt_flag FLAG_ALLOW_PLAIN_ISIG v) w)
      | OPT_ALLOW_PLAIN_OSIG v \<Rightarrow> Some (EOK, rt_upd (opt_flag FLAG_ALLOW_PLAIN_OSIG v) w)
      | OPT_ALLOW_PLAIN_COMM v \<Rightarrow> Some (EOK, rt_upd (opt_flag FLAG_ALLOW_PLAIN_COMM v) w)
      | OPT_OTHER \<Rightarrow> Some (EINVAL, w))"

definition trip_fill_missing :: "host \<Rightarrow> world \<Rightarrow> (errno \<times> world) option" where
  "trip_fill_missing H w =
     (if r_packet (w_router w) = None
      then do { (_, w) \<leftarrow> trip_setopt H (OPT_PACKET None) w;
                if r_packet (w_router w) = None
                then do { w \<leftarrow> trip_set_error H EINVAL
                            (Some ''Unable to initialize default UDP packet interface.'') w;
                          Some (EINVAL, w) }
                else Some (EOK, w) }
      else Some (EOK, w))"

definition trip_verify :: "host \<Rightarrow> world \<Rightarrow> (errno \<times> world) option" where
  "trip_verify H w =
     (let r = w_router w in
      if r_watch r = None \<or> r_timeout r = None \<or> \<not> r_connection r \<or> \<not> r_stream r \<or> \<not> r_message r
      then do { w \<leftarrow> trip_set_error H EINVAL (Some ''Required method missing. See documentation.'') w;
                Some (EINVAL, w) }
      else Some (EOK, w))"

section \<open>Making and freeing a router\<close>

datatype preset = PRESET_ROUTER | PRESET_SERVER | PRESET_CLIENT | PRESET_MULTICLIENT

definition router_zero :: router where
  "router_zero = \<lparr>r_data = None, r_screen = False, r_watch = None, r_timeout = None,
     r_connection = False, r_stream = False, r_message = False, r_poll = None,
     r_state = RS_START, r_statedeadline = 0, r_statetimer = None, r_error = EOK, r_errmsg = None,
     r_resolveq = resolveq_init,
     r_conn = \<lparr>cm_mask = 0, cm_size = 0, cm_cap = 0, cm_map = None, cm_free = None\<rparr>,
     r_connsrc0 = None, r_connsrc1 = None, r_sockmap = sockmap_init, r_sendq = sendq_init,
     r_buf = None, r_buflen = 0, r_sendlen = 0, r_sendsrc = 0, r_packet = None,
     r_mindeadline = 0, r_openpk = None, r_opensk = None, r_signpub = None, r_signsec = None,
     r_max_conn = 0, r_max_in = 0, r_max_out = 0, r_max_packet_read_count = 0,
     r_max_packet_send_count = 0, r_max_connection_send_count = 0, r_max_streams = 0,
     r_timeout_data = 0, r_timeout_bind = 0, r_timeout_close = 0, r_timeout_unbind = 0, r_flag = 0\<rparr>"

definition preset_router :: "preset \<Rightarrow> router \<Rightarrow> router" where
  "preset_router p r =
     (case p of
        PRESET_ROUTER \<Rightarrow> r
      | PRESET_SERVER \<Rightarrow> r\<lparr>r_max_out := 0, r_flag := r_flag r AND NOT FLAG_ALLOW_OUT\<rparr>
      | PRESET_CLIENT \<Rightarrow> r\<lparr>r_max_out := 1, r_max_in := 0, r_flag := r_flag r AND NOT FLAG_ALLOW_IN\<rparr>
      | PRESET_MULTICLIENT \<Rightarrow> r\<lparr>r_max_in := 0, r_flag := r_flag r AND NOT FLAG_ALLOW_IN\<rparr>)"

definition trip_new :: "host \<Rightarrow> preset \<Rightarrow> world \<Rightarrow> bool \<times> world" where
  "trip_new H preset w =
     (let (ok, w) = w_ok H w in
      if \<not> ok then (False, w)
      else let (okb, w) = w_ok H w;
               b = (if okb then Some (ho_bytes H (w_tick w) 1200) else None);
               r = router_zero\<lparr>r_timeout_bind := 1000, r_max_conn := DEFAULT_MAX_CONN,
                     r_max_in := DEFAULT_MAX_CONN, r_max_out := DEFAULT_MAX_CONN,
                     r_max_packet_read_count := 1024, r_max_packet_send_count := 1024,
                     r_max_connection_send_count := 128, r_max_streams := DEFAULT_MAX_STREAM,
                     r_flag := FLAG_ALLOW_IN OR FLAG_ALLOW_OUT, r_buflen := 1200, r_buf := b,
                     r_mindeadline := TRIPTIME_END\<rparr>;
               r = preset_router preset r;
               r = r\<lparr>r_resolveq := resolveq_init, r_conn := connmap_init (ucast (r_max_conn r))\<rparr>
           in (True, w\<lparr>w_router := r, w_wheel := timerwheel_init (w_wheel w), w_tick := w_tick w + 1\<rparr>))"

text \<open>The router's own memory is not on a heap, so its last \<open>free\<close> leaves no trace here.\<close>

definition trip_free :: "world \<Rightarrow> world option" where
  "trip_free w =
     do { w \<leftarrow> (if r_flag (w_router w) AND FLAG_FREE_PACKET \<noteq> 0
                 then do { _ \<leftarrow> trip_packet_free_udp (r_packet (w_router w));
                           Some (rt_upd (\<lambda>r. r\<lparr>r_packet := None\<rparr>) w) }
                 else Some w);
          let w = rt_upd (\<lambda>r. r\<lparr>r_poll := tripm_cfree (r_poll r), r_errmsg := tripm_cfree (r_errmsg r),
                                r_buf := tripm_cfree (r_buf r)\<rparr>) w;
          tw \<leftarrow> timerwheel_destroy (w_wheel w);
          Some ((rt_upd (\<lambda>r. r\<lparr>r_conn := connmap_destroy (r_conn r),
                               r_resolveq := resolveq_destroy (r_resolveq r)\<rparr>) w)\<lparr>w_wheel := tw\<rparr>) }"

definition trip_errmsg :: "world \<Rightarrow> string" where
  "trip_errmsg w = (case r_errmsg (w_router w) of None \<Rightarrow> '''' | Some m \<Rightarrow> m)"

definition trip_assign :: "host \<Rightarrow> int \<Rightarrow> ptr \<Rightarrow> world \<Rightarrow> world option" where
  "trip_assign H s data w =
     do { let (ok, w) = w_ok H w;
          (_, m) \<leftarrow> sockmap_put ok s data (r_sockmap (w_router w));
          Some (rt_upd (\<lambda>r. r\<lparr>r_sockmap := m\<rparr>) w) }"

section \<open>Opening connections, starting and stopping\<close>

definition stop_async_cb :: "host \<Rightarrow> world \<Rightarrow> world option" where
  "stop_async_cb H w = trip_set_state H RS_CLOSE w"

definition trip_stop :: "host \<Rightarrow> world \<Rightarrow> (errno \<times> world) option" where
  "trip_stop H w =
     (if r_state (w_router w) \<le> RS_LISTEN
      then do { (t, w) \<leftarrow> trip_set_timeout_priv H 0 None CB_stop_async w;
                if t = None then do { w \<leftarrow> trip_set_state H RS_CLOSE w; Some (EOK, w) }
                else Some (EOK, w) }
      else Some (EINVAL, w))"

text \<open>The connection structure here is on the stack: it is there during the call only.\<close>

definition trip_reject_connection ::
  "host \<Rightarrow> ptr \<Rightarrow> u64 \<Rightarrow> bytes option \<Rightarrow> errno \<Rightarrow> world \<Rightarrow> world option" where
  "trip_reject_connection H data ilen info err w =
     do { let c = w_brk w;
          let w = tripc_init H c False (w\<lparr>w_brk := w_brk w + 1\<rparr>);
          w \<leftarrow> conn_upd c (\<lambda>k. k\<lparr>c_data := data, c_ilen := ilen, c_info := info\<rparr>) w;
          w \<leftarrow> tripc_set_error H c err None w;
          w \<leftarrow> call_connection H c w;
          w \<leftarrow> tripc_destroy c w;
          Some (w\<lparr>h_conn := (h_conn w)(c := None)\<rparr>) }"

definition open_connection_async_cb :: "host \<Rightarrow> addr \<Rightarrow> world \<Rightarrow> world option" where
  "open_connection_async_cb H c w =
     do { _ \<leftarrow> h_conn w c;
          w \<leftarrow> tripc_start H c w;
          k \<leftarrow> h_conn w c;
          call_resolve H (c_resolvekey k) (c_ilen k) (c_info k) w }"

text \<open>Telling the user that a connection failed, and freeing it.\<close>

definition fail_connection :: "host \<Rightarrow> addr \<Rightarrow> errno \<Rightarrow> world \<Rightarrow> world option" where
  "fail_connection H c e w =
     do { w \<leftarrow> tripc_set_error H c e None w; w \<leftarrow> call_connection H c w; trip_free_connection c w }"

definition trip_open_connection :: "host \<Rightarrow> ptr \<Rightarrow> u64 \<Rightarrow> bytes option \<Rightarrow> world \<Rightarrow> world option" where
  "trip_open_connection H data ilen info w =
     (if has_flag FLAG_ALLOW_OUT w
      then let (c, w) = trip_new_connection H w in
        case c of
          None \<Rightarrow> trip_reject_connection H data ilen info ENOMEM w
        | Some a \<Rightarrow>
            do { let w = tripc_init H a False w;
                 w \<leftarrow> conn_upd a (\<lambda>k. k\<lparr>c_data := data, c_ilen := ilen, c_info := info\<rparr>) w;
                 let (ok, w) = w_ok H w;
                 (key, q) \<leftarrow> resolveq_put ok c (r_resolveq (w_router w));
                 w \<leftarrow> conn_upd a (\<lambda>k. k\<lparr>c_resolvekey := key\<rparr>) (rt_upd (\<lambda>r. r\<lparr>r_resolveq := q\<rparr>) w);
                 (e, w) \<leftarrow> w_connmap_add H a w;
                 if e \<noteq> EOK then fail_connection H a EBUSY w
                 else do { (t, w) \<leftarrow> trip_set_timeout_priv H 0 c CB_open_connection w;
                           if t = None then fail_connection H a ENOMEM w else Some w } }
      else trip_reject_connection H data ilen info EINVAL w)"

section \<open>Timers and actions\<close>

text \<open>Running a callback from the wheel. Those of connections need the connection.\<close>

definition fire :: "host \<Rightarrow> timer_cb \<Rightarrow> ptr \<Rightarrow> world \<Rightarrow> world option" where
  "fire H cb data w =
     (case cb of
        CB_send_immediately \<Rightarrow> send_immediately_cb H w
      | CB_timeout_router \<Rightarrow> timeout_router_cb H w
      | CB_stop_async \<Rightarrow> stop_async_cb H w
      | CB_state_resolve \<Rightarrow> do { c \<leftarrow> data; timeout_state_resolve_cb H c w }
      | CB_state_resend \<Rightarrow> do { c \<leftarrow> data; timeout_state_resend_cb H c w }
      | CB_state_ready_ping \<Rightarrow> do { c \<leftarrow> data; timeout_state_ready_ping H c w }
      | CB_resolve_success \<Rightarrow> do { c \<leftarrow> data; resolve_delay_success_cb H c w }
      | CB_resolve_failure \<Rightarrow> do { c \<leftarrow> data; resolve_delay_failure_cb H c w }
      | CB_open_connection \<Rightarrow> do { c \<leftarrow> data; open_connection_async_cb H c w }
      | CB_user n \<Rightarrow> ho_timer H n data w)"

definition walk_timers :: "host \<Rightarrow> u64 \<Rightarrow> world \<Rightarrow> (ptr \<times> world) option" where
  "walk_timers H now w =
     timerwheel_walk_with w_wheel (\<lambda>v w. w\<lparr>w_wheel := v\<rparr>) (fire H) now w"

text \<open>The wait the router asks for: never more than \<open>_TRIPR_MAX_TIMEOUT\<close>.\<close>

definition wait_ms :: "u64 \<Rightarrow> u64 \<Rightarrow> int" where
  "wait_ms mindeadline now =
     (if mindeadline > now + of_int MAX_TIMEOUT then MAX_TIMEOUT
      else sint (ucast (mindeadline - now) :: u32))"

definition trip_timeout :: "host \<Rightarrow> world \<Rightarrow> (errno \<times> world) option" where
  "trip_timeout H w =
     do { let (now, w) = w_now H w;
          (e, w) \<leftarrow> walk_timers H now w;
          d \<leftarrow> (case e of Some a \<Rightarrow> map_option te_deadline (tw_heap (w_wheel w) a) | None \<Rightarrow> Some TRIPTIME_END);
          w \<leftarrow> call_timeout H (wait_ms d now) (rt_upd (\<lambda>r. r\<lparr>r_mindeadline := d\<rparr>) w);
          Some (r_error (w_router w), w) }"

definition action_start :: "host \<Rightarrow> int \<Rightarrow> world \<Rightarrow> world option" where
  "action_start H fd w =
     (if TRIP_SOCKET_TIMEOUT \<noteq> fd
      then trip_set_error H EINVAL (Some ''Invalid descriptor for state START.'') w
      else do { (e, w) \<leftarrow> trip_fill_missing H w;
                if e \<noteq> EOK then Some w
                else do { (e, w) \<leftarrow> trip_verify H w;
                          if e \<noteq> EOK then Some w
                          else do { p \<leftarrow> r_packet (w_router w);
                                    trip_set_state H RS_BIND
                                      (rt_upd (\<lambda>r. r\<lparr>r_packet := Some (p\<lparr>pkt_router := True\<rparr>)\<rparr>) w) } } })"

definition action_bind :: "host \<Rightarrow> int \<Rightarrow> world \<Rightarrow> world option" where
  "action_bind H fd w =
     (if TRIP_SOCKET_TIMEOUT \<noteq> fd
      then trip_set_error H EINVAL (Some ''Invalid descriptor for state BIND.'') w
      else let (now, w) = w_now H w in
           if now > r_statedeadline (w_router w)
           then trip_set_error H ETIME (Some ''Bind timeout.'') w
           else state_timer H (triptime_timeout (r_statedeadline (w_router w)) now) w)"

definition action_deadline :: "host \<Rightarrow> router_state \<Rightarrow> world \<Rightarrow> world option" where
  "action_deadline H st w =
     (let (now, w) = w_now H w in
      if now \<ge> r_statedeadline (w_router w) then trip_set_state H st w else Some w)"

definition trip_action :: "host \<Rightarrow> int \<Rightarrow> int \<Rightarrow> world \<Rightarrow> (errno \<times> world) option" where
  "trip_action H fd events w =
     do { (e, w) \<leftarrow> (if TRIP_SOCKET_TIMEOUT = fd then trip_timeout H w else Some (EOK, w));
          if e \<noteq> EOK then Some (r_error (w_router w), w)
          else do {
            w \<leftarrow> (case r_state (w_router w) of
                RS_START \<Rightarrow> action_start H fd w
              | RS_BIND \<Rightarrow> action_bind H fd w
              | RS_LISTEN \<Rightarrow> trip_listen H fd events w
              | RS_CLOSE \<Rightarrow> do { w \<leftarrow> trip_listen H fd events w; action_deadline H RS_UNBIND w }
              | RS_UNBIND \<Rightarrow> action_deadline H RS_END w
              | RS_END \<Rightarrow> Some w
              | RS_ERROR \<Rightarrow> Some w);
            Some (r_error (w_router w), w) } }"

definition trip_start :: "host \<Rightarrow> world \<Rightarrow> (errno \<times> world) option" where
  "trip_start H w =
     (let w = (if r_state (w_router w) = RS_END then rt_upd (\<lambda>r. r\<lparr>r_state := RS_START\<rparr>) w else w) in
      if r_state (w_router w) = RS_START then trip_action H TRIP_SOCKET_TIMEOUT 0 w
      else Some (EINVAL, w))"

end
