(* ===== verification/Udp.thy ===== *)
theory Udp
  imports Router
begin

text \<open>
  Binding and unbinding the default packet interface (\<open>src/packet.c\<close>). The resolver and the
  sockets of the operating system are the record \<open>sockets\<close>.
\<close>

record addrinfo =
  ai_family :: int
  ai_socktype :: int
  ai_protocol :: int

text \<open>
  \<open>getaddrinfo\<close> on a service (nothing on failure), the protocol number of UDP if it is known,
  a new socket and binding it (negative on failure), closing, and the error number.
\<close>

record sockets =
  so_getaddrinfo :: "bytes \<Rightarrow> addrinfo list option"
  so_getprotobyname :: "int option"
  so_socket :: "int \<Rightarrow> int \<Rightarrow> int \<Rightarrow> int"
  so_bind :: "int \<Rightarrow> addrinfo \<Rightarrow> int"
  so_close :: "int \<Rightarrow> int"
  so_errno :: errno

definition AF_INET :: int where "AF_INET = 2"
definition PF_INET :: int where "PF_INET = 2"
definition PF_INET6 :: int where "PF_INET6 = 10"
definition SOCK_DGRAM :: int where "SOCK_DGRAM = 2"
definition SOCK_NONBLOCK :: int where "SOCK_NONBLOCK = 2048"

definition trip_udp_af_to_pf :: "int \<Rightarrow> int" where
  "trip_udp_af_to_pf f = (if AF_INET = f then PF_INET else PF_INET6)"

text \<open>The first datagram address of the protocol; both families are treated alike.\<close>

fun udp_choose :: "int \<Rightarrow> addrinfo list \<Rightarrow> addrinfo option \<Rightarrow> addrinfo option" where
  "udp_choose protocol [] choice = choice"
| "udp_choose protocol (p # ps) choice =
     udp_choose protocol ps
       (if SOCK_DGRAM = ai_socktype p \<and> protocol = ai_protocol p
        then (if ai_family p = AF_INET
              then (if choice = None then Some p else choice)
              else (if choice = None then Some p else choice))
        else choice)"

text \<open>The descriptor that is bound, or the error and its message.\<close>

definition udp_open :: "sockets \<Rightarrow> bytes \<Rightarrow> errno \<times> string + int" where
  "udp_open S info =
     (case so_getaddrinfo S info of
        None \<Rightarrow> Inl (EINVAL, ''Error from getaddrinfo.'')
      | Some servinfo \<Rightarrow>
          let protocol = (case so_getprotobyname S of None \<Rightarrow> 0 | Some p \<Rightarrow> p) in
          (case udp_choose protocol servinfo None of
             None \<Rightarrow> Inl (EINVAL, ''No valid address to bind to.'')
           | Some choice \<Rightarrow>
               let s = so_socket S (trip_udp_af_to_pf (ai_family choice))
                         (ai_socktype choice OR SOCK_NONBLOCK) (ai_protocol choice) in
               if s < 0 then Inl (so_errno S, ''Error trying to create socket.'')
               else if so_bind S s choice < 0 then Inl (so_errno S, ''Error trying to bind socket.'')
               else Inr s))"

definition trip_udp_bind :: "sockets \<Rightarrow> host \<Rightarrow> world \<Rightarrow> world option" where
  "trip_udp_bind S H w =
     do { p \<leftarrow> r_packet (w_router w);
          c \<leftarrow> pkt_udp p;
          case udp_open S (udp_info c) of
            Inl (e, msg) \<Rightarrow> trip_error H e (Some msg) w
          | Inr s \<Rightarrow>
              do { let w = rt_upd (\<lambda>r. r\<lparr>r_packet := Some (p\<lparr>pkt_data := Some (Ctx_udp (c\<lparr>udp_fd := s\<rparr>))\<rparr>)\<rparr>) w;
                   w \<leftarrow> trip_ready H w;
                   p \<leftarrow> r_packet (w_router w);
                   c \<leftarrow> pkt_udp p;
                   trip_watch H (udp_fd c) TRIP_IN w } }"

definition trip_udp_unbind :: "sockets \<Rightarrow> host \<Rightarrow> world \<Rightarrow> world option" where
  "trip_udp_unbind S H w =
     do { p \<leftarrow> r_packet (w_router w);
          c \<leftarrow> pkt_udp p;
          let e = (if udp_fd c \<ge> 0 then (if so_close S (udp_fd c) < 0 then so_errno S else EOK) else EOK);
          trip_unready H e w }"

end
