(* ===== verification/Trip_Poll.thy ===== *)
theory Trip_Poll
  imports Router
begin

text \<open>
  The poll loop (\<open>src/trip_poll.c\<close>) that drives a router with \<open>epoll\<close>. Creating the
  descriptor and waiting on it are the record \<open>epoll\<close>; the two hooks the loop installs are in
  the theory \<open>World\<close>.
\<close>

text \<open>Waiting gives an error number or the descriptors that are ready with their events.\<close>

record epoll =
  ep_create :: "world \<Rightarrow> int \<times> world"
  ep_wait :: "int \<Rightarrow> int \<Rightarrow> world \<Rightarrow> (errno + (int \<times> u32) list) \<times> world"

definition trip_poll_new :: "epoll \<Rightarrow> host \<Rightarrow> world \<Rightarrow> poll option \<times> world" where
  "trip_poll_new E H w =
     (let (ok, w) = w_ok H w in
      if \<not> ok then (None, w)
      else let (efd, w) = ep_create E w;
               (now, w) = w_now H w
           in (if efd = - 1 then None else Some \<lparr>poll_efd = efd, poll_deadline = now\<rparr>, w))"

text \<open>
  The wait until the nearer of the caller's deadline and the router's. When the router's has
  come it is forgotten.
\<close>

definition next_timeout :: "poll \<Rightarrow> u64 \<Rightarrow> u64 \<Rightarrow> int \<times> poll" where
  "next_timeout p deadline now =
     (if deadline < poll_deadline p
      then (if deadline \<le> now then (0, p)
            else if deadline \<ge> now + of_int MAX_TIMEOUT then (MAX_TIMEOUT, p)
            else (sint (ucast (deadline - now) :: u32), p))
      else (if poll_deadline p \<le> now then (0, p\<lparr>poll_deadline := TRIPTIME_END\<rparr>)
            else if poll_deadline p \<ge> now + of_int MAX_TIMEOUT then (MAX_TIMEOUT, p)
            else (sint (ucast (poll_deadline p - now) :: u32), p)))"

definition w_next_timeout :: "u64 \<Rightarrow> u64 \<Rightarrow> world \<Rightarrow> (int \<times> world) option" where
  "w_next_timeout deadline now w =
     do { p \<leftarrow> r_poll (w_router w);
          let (t, p) = next_timeout p deadline now;
          Some (t, rt_upd (\<lambda>r. r\<lparr>r_poll := Some p\<rparr>) w) }"

definition trip_run_init :: "epoll \<Rightarrow> host \<Rightarrow> world \<Rightarrow> errno \<times> world" where
  "trip_run_init E H w =
     (if r_poll (w_router w) = None
      then let w = rt_upd (\<lambda>r. r\<lparr>r_watch := Some HPoll, r_timeout := Some HPoll\<rparr>) w;
               (p, w) = trip_poll_new E H w
           in (if p = None then (ENOMEM, rt_upd (\<lambda>r. r\<lparr>r_poll := None, r_watch := None, r_timeout := None\<rparr>) w)
               else (EOK, rt_upd (\<lambda>r. r\<lparr>r_poll := p\<rparr>) w))
      else (EOK, w))"

text \<open>One action per ready descriptor, until one fails.\<close>

definition epoll_to_events :: "u32 \<Rightarrow> int" where
  "epoll_to_events evs =
     (if evs AND EPOLLIN \<noteq> 0 then TRIP_IN else 0) OR (if evs AND EPOLLOUT \<noteq> 0 then TRIP_OUT else 0)"

fun run_events :: "host \<Rightarrow> (int \<times> u32) list \<Rightarrow> world \<Rightarrow> (errno \<times> world) option" where
  "run_events H [] w = Some (EOK, w)"
| "run_events H ((fd, evs) # es) w =
     do { (c, w) \<leftarrow> trip_action H fd (epoll_to_events evs) w;
          if c \<noteq> EOK then Some (c, w) else run_events H es w }"

definition run_step :: "epoll \<Rightarrow> host \<Rightarrow> int \<Rightarrow> int \<Rightarrow> world \<Rightarrow> (errno \<times> world) option" where
  "run_step E H efd timeout w =
     (let (r, w) = ep_wait E efd timeout w in
      case r of
        Inl e \<Rightarrow> Some (e, w)
      | Inr [] \<Rightarrow> trip_timeout H w
      | Inr es \<Rightarrow> run_events H es w)"

partial_function (option) run_loop ::
  "epoll \<Rightarrow> host \<Rightarrow> int \<Rightarrow> u64 \<Rightarrow> int \<Rightarrow> world \<Rightarrow> (errno \<times> world) option" where
  "run_loop E H efd deadline timeout w =
     Option.bind (run_step E H efd timeout w) (\<lambda>r.
       if fst r \<noteq> EOK then Some r
       else (let nw = w_now H (snd r) in
             if fst nw \<ge> deadline \<and> TRIPTIME_END \<noteq> deadline then Some (EOK, snd nw)
             else Option.bind (w_next_timeout deadline (fst nw) (snd nw)) (\<lambda>t.
                    run_loop E H efd deadline (fst t) (snd t))))"

declare run_loop.simps [code]

definition trip_run :: "epoll \<Rightarrow> host \<Rightarrow> int \<Rightarrow> world \<Rightarrow> (errno \<times> world) option" where
  "trip_run E H timeout w =
     (case r_poll (w_router w) of
        None \<Rightarrow> Some (EINVAL, w)
      | Some p \<Rightarrow>
          if r_state (w_router w) = RS_END then Some (EHOSTDOWN, w)
          else if r_state (w_router w) = RS_ERROR then Some (r_error (w_router w), w)
          else do {
            let (now, w) = w_now H w;
            let (deadline, w) = (if timeout < 0 then (TRIPTIME_END, w) else w_deadline H timeout w);
            (t, w) \<leftarrow> w_next_timeout deadline now w;
            run_loop E H (poll_efd p) deadline t w })"

section \<open>The wait\<close>

lemma wait_within:
  fixes d now :: u64
  assumes "\<not> d \<le> now" "unat now + 1024 < 2 ^ 64"
  shows "(if d \<ge> now + of_int MAX_TIMEOUT then MAX_TIMEOUT else sint (ucast (d - now) :: u32)) =
    int (min 1024 (unat d - unat now))"
proof -
  have top: "unat (now + 1024) = unat now + 1024" using assms(2) by (simp add: unat_add_lem [THEN iffD1])
  have diff: "unat (d - now) = unat d - unat now" using assms(1) by (simp add: unat_sub_le)
  show ?thesis
  proof (cases "now + 1024 \<le> d")
    case True
    then have "unat now + 1024 \<le> unat d" using top by (simp add: word_le_nat_alt)
    with True show ?thesis by (simp add: MAX_TIMEOUT_def)
  next
    case False
    then have lt: "unat d < unat now + 1024" using top by (simp add: word_le_nat_alt)
    then have "unat (d - now) < 2 ^ 31" using diff by simp
    from sint_low32 [OF this] False lt diff show ?thesis by (simp add: MAX_TIMEOUT_def)
  qed
qed

text \<open>The poll loop waits exactly until the nearer of its two deadlines, the caller's and the
  router's, and at most \<open>_TRIPR_MAX_TIMEOUT\<close> (1024) milliseconds; it does not wait at all for a
  deadline that has passed, and it forgets the router's deadline exactly when that is the
  nearer one and has passed.\<close>

theorem next_timeout_exact:
  assumes "unat now + 1024 < 2 ^ 64"
  shows "next_timeout p deadline now =
    (int (min 1024 (min (unat deadline) (unat (poll_deadline p)) - unat now)),
     if poll_deadline p \<le> deadline \<and> poll_deadline p \<le> now then p\<lparr>poll_deadline := TRIPTIME_END\<rparr> else p)"
proof -
  have 0: "d \<le> now \<Longrightarrow> unat d - unat now = 0" for d :: u64 by (simp add: word_le_nat_alt)
  show ?thesis
  proof (cases "deadline < poll_deadline p")
    case True
    then have "min (unat deadline) (unat (poll_deadline p)) = unat deadline" by (simp add: word_less_nat_alt)
    moreover have "\<not> poll_deadline p \<le> deadline" using True by simp
    ultimately show ?thesis
      using True wait_within [OF _ assms, of deadline] 0 [of deadline]
      by (cases "deadline \<le> now") (simp_all add: next_timeout_def split: if_splits)
  next
    case False
    then have "min (unat deadline) (unat (poll_deadline p)) = unat (poll_deadline p)" by (simp add: word_le_nat_alt not_less)
    moreover have "poll_deadline p \<le> deadline" using False by simp
    ultimately show ?thesis
      using False wait_within [OF _ assms, of "poll_deadline p"] 0 [of "poll_deadline p"]
      by (cases "poll_deadline p \<le> now") (simp_all add: next_timeout_def split: if_splits)
  qed
qed

theorem next_timeout_exact_witness:
  "next_timeout \<lparr>poll_efd = 3, poll_deadline = 40\<rparr> 100 20 = (20, \<lparr>poll_efd = 3, poll_deadline = 40\<rparr>)"
  by (subst next_timeout_exact) simp_all

end
