(* ===== verification/Sticky.thy ===== *)
theory Sticky
  imports Router
begin

text \<open>
  A calculus for what every defined outcome of an operation satisfies, and the contract of a
  host whose callbacks keep a property of the router's state and error: then every operation
  of the library keeps it. The operations of \<open>World\<close>, \<open>Conn\<close> and \<open>Router\<close> are
  gone through once, inside the locales.
\<close>

section \<open>Outcomes\<close>

definition post :: "('a \<Rightarrow> bool) \<Rightarrow> 'a option \<Rightarrow> bool" where
  "post P m \<longleftrightarrow> (\<forall>x. m = Some x \<longrightarrow> P x)"

lemma post_simps [simp]: "post P None" "post P (Some x) \<longleftrightarrow> P x"
  by (simp_all add: post_def)

lemma postD: "post P m \<Longrightarrow> m = Some x \<Longrightarrow> P x"
  by (simp add: post_def)

lemma post_Some: "P x \<Longrightarrow> post P (Some x)"
  by simp

lemma post_bind: "post R m \<Longrightarrow> (\<And>x. R x \<Longrightarrow> post P (f x)) \<Longrightarrow> post P (m \<bind> f)"
  by (cases m) simp_all

lemma post_if: "(b \<Longrightarrow> post P x) \<Longrightarrow> (\<not> b \<Longrightarrow> post P y) \<Longrightarrow> post P (if b then x else y)"
  by simp

lemma post_case_option:
  "(z = None \<Longrightarrow> post P x) \<Longrightarrow> (\<And>a. z = Some a \<Longrightarrow> post P (f a)) \<Longrightarrow>
     post P (case z of None \<Rightarrow> x | Some a \<Rightarrow> f a)"
  by (cases z) simp_all

lemma post_mono: "post P m \<Longrightarrow> (\<And>x. P x \<Longrightarrow> Q x) \<Longrightarrow> post Q m"
  by (simp add: post_def)

lemma post_case_state:
  "post P a0 \<Longrightarrow> post P a1 \<Longrightarrow> post P a2 \<Longrightarrow> post P a3 \<Longrightarrow> post P a4 \<Longrightarrow> post P a5 \<Longrightarrow>
   post P a6 \<Longrightarrow> post P a7 \<Longrightarrow> post P a8 \<Longrightarrow> post P a9 \<Longrightarrow>
     post P (case st of CS_START \<Rightarrow> a0 | CS_RESOLVE \<Rightarrow> a1 | CS_OPEN \<Rightarrow> a2 | CS_CHAL \<Rightarrow> a3
       | CS_PING \<Rightarrow> a4 | CS_READY \<Rightarrow> a5 | CS_READY_PING \<Rightarrow> a6 | CS_CLOSE \<Rightarrow> a7 | CS_END \<Rightarrow> a8
       | CS_ERROR \<Rightarrow> a9)"
  by (cases st) simp_all

lemma post_case_router:
  "post P a0 \<Longrightarrow> post P a1 \<Longrightarrow> post P a2 \<Longrightarrow> post P a3 \<Longrightarrow> post P a4 \<Longrightarrow> post P a5 \<Longrightarrow> post P a6 \<Longrightarrow>
     post P (case st of RS_START \<Rightarrow> a0 | RS_BIND \<Rightarrow> a1 | RS_LISTEN \<Rightarrow> a2 | RS_CLOSE \<Rightarrow> a3
       | RS_UNBIND \<Rightarrow> a4 | RS_END \<Rightarrow> a5 | RS_ERROR \<Rightarrow> a6)"
  by (cases st) simp_all

section \<open>A property of the router's state and error\<close>

definition core :: "world \<Rightarrow> router_state \<times> errno \<times> string option" where
  "core w = (r_state (w_router w), r_error (w_router w), r_errmsg (w_router w))"

definition kept :: "(router_state \<times> errno \<times> string option \<Rightarrow> bool) \<Rightarrow> world \<Rightarrow> bool" where
  "kept Q w \<longleftrightarrow> Q (core w)"

text \<open>Questions to the host that do not touch the router.\<close>

lemma router_ask [simp]:
  "w_router (snd (w_new H w)) = w_router w" "w_router (snd (w_ok H w)) = w_router w"
  "w_router (snd (w_now H w)) = w_router w" "w_router (snd (w_rand H w)) = w_router w"
  "w_router (snd (w_deadline H ms w)) = w_router w"
  by (simp_all add: w_new_def w_ok_def w_now_def w_rand_def w_deadline_def Let_def)

text \<open>
  A bind whose first part gives a world, a result together with a world, or something else,
  tried in this order.
\<close>

lemma bind_world: "post (kept Q) m \<Longrightarrow> (\<And>w. kept Q w \<Longrightarrow> post P (f w)) \<Longrightarrow> post P (m \<bind> f)"
  by (rule post_bind)

lemma bind_result:
  "post (\<lambda>r. kept Q (snd r)) m \<Longrightarrow> (\<And>r. kept Q (snd r) \<Longrightarrow> post P (f r)) \<Longrightarrow> post P (m \<bind> f)"
  by (rule post_bind)

lemma bind_triple:
  "post (\<lambda>r. kept Q (snd (snd r))) m \<Longrightarrow> (\<And>r. kept Q (snd (snd r)) \<Longrightarrow> post P (f r)) \<Longrightarrow> post P (m \<bind> f)"
  by (rule post_bind)

lemma bind_other: "(\<And>x. post P (f x)) \<Longrightarrow> post P (m \<bind> f)"
  by (rule post_bind [where R = "\<lambda>_. True"]) (simp_all add: post_def)

lemma map_snd: "post (\<lambda>r. kept Q (snd r)) m \<Longrightarrow> post (kept Q) (map_option snd m)"
  by (cases m) simp_all

lemma kept_conn_upd: "kept Q w \<Longrightarrow> post (kept Q) (conn_upd c f w)"
  by (auto simp: post_def conn_upd_def kept_def core_def)

lemma kept_free_connection: "kept Q w \<Longrightarrow> post (kept Q) (trip_free_connection c w)"
  by (auto simp: post_def trip_free_connection_def kept_def core_def)

lemma kept_on_sendq: "kept Q w \<Longrightarrow> post (kept Q) (on_sendq f w)"
  unfolding on_sendq_def split_def by (rule bind_other) (simp add: kept_def core_def)

lemma kept_on_dq: "kept Q w \<Longrightarrow> post (\<lambda>r. kept Q (snd r)) (on_dq w)"
  unfolding on_dq_def split_def by (rule bind_other) (simp add: kept_def core_def)

lemma kept_cancel: "kept Q w \<Longrightarrow> post (kept Q) (trip_cancel_timeout_priv e w)"
  by (auto simp: post_def trip_cancel_timeout_priv_def kept_def core_def)

lemmas kept_basic = kept_conn_upd kept_free_connection kept_on_sendq kept_on_dq kept_cancel

section \<open>A host that keeps it\<close>

text \<open>Whatever the callbacks do, they keep \<open>Q\<close> of the router's state, error and message.\<close>

locale keeping_host =
  fixes H :: host and Q :: "router_state \<times> errno \<times> string option \<Rightarrow> bool"
  assumes keeps_screen: "kept Q w \<Longrightarrow> post (\<lambda>r. kept Q (snd r)) (ho_screen H sc w)"
    and keeps_watch: "kept Q w \<Longrightarrow> post (kept Q) (ho_watch H fd ev d w)"
    and keeps_timeout: "kept Q w \<Longrightarrow> post (kept Q) (ho_timeout H ms w)"
    and keeps_connection: "kept Q w \<Longrightarrow> post (kept Q) (ho_connection H c w)"
    and keeps_bind: "kept Q w \<Longrightarrow> post (kept Q) (ho_bind H w)"
    and keeps_resolve: "kept Q w \<Longrightarrow> post (kept Q) (ho_resolve H key len info w)"
    and keeps_send: "kept Q w \<Longrightarrow> post (\<lambda>r. kept Q (snd r)) (ho_send H src len b w)"
    and keeps_read: "kept Q w \<Longrightarrow> post (\<lambda>r. kept Q (snd r)) (ho_read H fd mx w)"
    and keeps_unbind: "kept Q w \<Longrightarrow> post (kept Q) (ho_unbind H w)"
    and keeps_timer: "kept Q w \<Longrightarrow> post (kept Q) (ho_timer H k d w)"
    and keeps_epoll: "kept Q w \<Longrightarrow> kept Q (snd (ho_epoll_ctl H efd oper fd evs w))"
begin

lemmas post_walk = post_Some post_if post_case_option bind_world [where Q = Q]
  bind_result [where Q = Q] bind_triple [where Q = Q] bind_other map_snd [where Q = Q]

lemma watch_cb: "kept Q w \<Longrightarrow> post (kept Q) (trip_watch_cb H fd events d w)"
  unfolding trip_watch_cb_def Let_def split_def
  by (intro post_walk keeps_epoll) simp_all

lemma timeout_cb: "kept Q w \<Longrightarrow> post (kept Q) (trip_timeout_cb H ms w)"
  unfolding trip_timeout_cb_def Let_def split_def
  by (intro post_walk) (simp add: kept_def core_def)

lemma call_watch: "kept Q w \<Longrightarrow> post (kept Q) (call_watch H fd ev d w)"
  by (simp add: call_watch_def keeps_watch watch_cb split: option.split hook.split)

lemma call_timeout: "kept Q w \<Longrightarrow> post (kept Q) (call_timeout H ms w)"
  by (simp add: call_timeout_def keeps_timeout timeout_cb split: option.split hook.split)

lemma call_connection: "kept Q w \<Longrightarrow> post (kept Q) (call_connection H c w)"
  by (simp add: call_connection_def keeps_connection)

lemma set_timeout_priv: "kept Q w \<Longrightarrow> post (\<lambda>r. kept Q (snd r)) (trip_set_timeout_priv H ms d cb w)"
  unfolding trip_set_timeout_priv_def Let_def split_def
  by (intro post_walk call_timeout) (simp_all add: kept_def core_def)

lemma set_timeout: "kept Q w \<Longrightarrow> post (\<lambda>r. kept Q (snd r)) (trip_set_timeout H ms d cb w)"
  unfolding trip_set_timeout_def by (rule set_timeout_priv)

lemma qconnection: "kept Q w \<Longrightarrow> post (kept Q) (trip_qconnection H c w)"
  unfolding trip_qconnection_def
  by (intro post_walk kept_on_sendq set_timeout_priv) simp_all

lemmas world_ops = kept_basic call_watch call_timeout call_connection set_timeout_priv set_timeout qconnection

end

section \<open>Connections\<close>

context keeping_host
begin

lemma tripc_cancel_timeout_kept: "kept Q w \<Longrightarrow> post (kept Q) (tripc_cancel_timeout c w)"
  unfolding tripc_cancel_timeout_def Let_def split_def
  by (intro post_walk world_ops) (simp_all add: kept_def core_def)

lemma tripc_set_timeout_kept: "kept Q w \<Longrightarrow> post (kept Q) (tripc_set_timeout H c ms cb w)"
  unfolding tripc_set_timeout_def Let_def split_def
  by (intro post_walk world_ops) (simp_all add: kept_def core_def)

lemma tripc_set_deadline_kept: "kept Q w \<Longrightarrow> post (kept Q) (tripc_set_deadline H c ms w)"
  unfolding tripc_set_deadline_def Let_def split_def
  by (intro post_walk world_ops) (simp_all add: kept_def core_def)

lemma tripc_set_growth_kept: "kept Q w \<Longrightarrow> post (kept Q) (tripc_set_growth c ms w)"
  unfolding tripc_set_growth_def Let_def split_def
  by (intro post_walk world_ops) (simp_all add: kept_def core_def)

lemma tripc_get_growth_kept: "kept Q w \<Longrightarrow> post (\<lambda>r. kept Q (snd r)) (tripc_get_growth c w)"
  unfolding tripc_get_growth_def Let_def split_def
  by (intro post_walk world_ops) (simp_all add: kept_def core_def)

lemma tripc_set_send_kept: "kept Q w \<Longrightarrow> post (kept Q) (tripc_set_send H c w)"
  unfolding tripc_set_send_def Let_def split_def
  by (intro post_walk world_ops) (simp_all add: kept_def core_def)

lemma tripc_mk_keys_kept: "kept Q w \<Longrightarrow> post (kept Q) (tripc_mk_keys H c w)"
  unfolding tripc_mk_keys_def Let_def split_def
  by (intro post_walk world_ops) (simp_all add: kept_def core_def)

lemma tripc_generate_ping_kept: "kept Q w \<Longrightarrow> post (kept Q) (tripc_generate_ping H c w)"
  unfolding tripc_generate_ping_def Let_def split_def
  by (intro post_walk world_ops) (simp_all add: kept_def core_def)

lemmas conn_basic = tripc_cancel_timeout_kept tripc_set_timeout_kept tripc_set_deadline_kept tripc_set_growth_kept tripc_get_growth_kept tripc_set_send_kept tripc_mk_keys_kept tripc_generate_ping_kept

lemma resend_timer_kept: "kept Q w \<Longrightarrow> post (kept Q) (resend_timer H c w)"
  unfolding resend_timer_def Let_def split_def
  by (intro post_walk world_ops conn_basic) (simp_all add: kept_def core_def)

lemma set_state_leave_kept: "kept Q w \<Longrightarrow> post (kept Q) (set_state_leave c st w)"
  by (cases st) (simp_all add: set_state_leave_def tripc_cancel_timeout_kept)

lemma set_state_enter_kept: "kept Q w \<Longrightarrow> post (kept Q) (set_state_enter H c st w)"
  unfolding set_state_enter_def Let_def split_def
  by (cases st; simp only: conn_state.case)
    (intro post_walk world_ops conn_basic resend_timer_kept; simp)+

lemma tripc_set_state_kept: "kept Q w \<Longrightarrow> post (kept Q) (tripc_set_state H c st w)"
  unfolding tripc_set_state_def Let_def split_def
  by (intro post_walk world_ops set_state_leave_kept set_state_enter_kept)

lemma tripc_set_error_kept: "kept Q w \<Longrightarrow> post (kept Q) (tripc_set_error H c e m w)"
  unfolding tripc_set_error_def Let_def split_def
  by (intro post_walk world_ops tripc_set_state_kept) (simp_all add: kept_def core_def)

lemma tripc_set_screen_kept: "kept Q w \<Longrightarrow> post (kept Q) (tripc_set_screen H c sc w)"
  unfolding tripc_set_screen_def Let_def split_def
  by (intro post_walk world_ops) (simp_all add: kept_def core_def)

lemma trip_unqconnection_kept: "kept Q w \<Longrightarrow> post (kept Q) (trip_unqconnection c w)"
  unfolding trip_unqconnection_def Let_def split_def
  by (intro post_walk world_ops) (simp_all add: kept_def core_def)

lemma tripc_destroy_kept: "kept Q w \<Longrightarrow> post (kept Q) (tripc_destroy c w)"
  unfolding tripc_destroy_def Let_def split_def
  by (intro post_walk world_ops conn_basic trip_unqconnection_kept)

lemma close_connection_kept: "kept Q w \<Longrightarrow> post (kept Q) (trip_close_connection H c w)"
  unfolding trip_close_connection_def Let_def split_def
  by (intro bind_other [where m = "h_conn w c"] post_walk world_ops tripc_destroy_kept)
    (simp_all add: kept_def core_def)

lemma tripc_start_kept: "kept Q w \<Longrightarrow> post (kept Q) (tripc_start H c w)"
  unfolding tripc_start_def Let_def split_def
  by (intro post_walk tripc_set_error_kept tripc_set_state_kept)

lemmas conn_ops = conn_basic resend_timer_kept tripc_set_state_kept tripc_set_error_kept
  tripc_set_screen_kept trip_unqconnection_kept tripc_destroy_kept close_connection_kept tripc_start_kept

lemma timeout_state_resolve_cb_kept: "kept Q w \<Longrightarrow> post (kept Q) (timeout_state_resolve_cb H c w)"
  unfolding timeout_state_resolve_cb_def Let_def split_def
  by (intro post_walk world_ops conn_ops) (simp_all add: kept_def core_def)

lemma timeout_state_resend_cb_kept: "kept Q w \<Longrightarrow> post (kept Q) (timeout_state_resend_cb H c w)"
  unfolding timeout_state_resend_cb_def Let_def split_def
  by (intro post_walk world_ops conn_ops) (simp_all add: kept_def core_def)

lemma timeout_state_ready_ping_kept: "kept Q w \<Longrightarrow> post (kept Q) (timeout_state_ready_ping H c w)"
  unfolding timeout_state_ready_ping_def Let_def split_def
  by (intro post_walk world_ops conn_ops) (simp_all add: kept_def core_def)

lemma tripc_seq_kept: "kept Q w \<Longrightarrow> post (\<lambda>r. kept Q (snd r)) (tripc_seq c w)"
  unfolding tripc_seq_def Let_def split_def
  by (intro post_walk world_ops) (simp_all add: kept_def core_def)

lemma tripc_send_open_kept: "kept Q w \<Longrightarrow> post (\<lambda>r. kept Q (snd (snd r))) (tripc_send_open H c n b w)"
  unfolding tripc_send_open_def Let_def split_def
  by (intro post_walk world_ops tripc_seq_kept) (simp_all add: kept_def core_def)

lemma tripc_send_chal_kept: "kept Q w \<Longrightarrow> post (\<lambda>r. kept Q (snd (snd r))) (tripc_send_chal H c n b w)"
  unfolding tripc_send_chal_def Let_def split_def
  by (intro post_walk world_ops tripc_seq_kept) (simp_all add: kept_def core_def)

lemma tripc_send_ping_kept: "kept Q w \<Longrightarrow> post (\<lambda>r. kept Q (snd (snd r))) (tripc_send_ping H c n b w)"
  unfolding tripc_send_ping_def Let_def split_def
  by (intro post_walk world_ops tripc_seq_kept) (simp_all add: kept_def core_def)

lemma send_once_kept:
  assumes "kept Q w" "post (\<lambda>r. kept Q (snd (snd r))) (send w)"
  shows "post (\<lambda>r. kept Q (snd (snd r))) (send_once send c buf w)"
  unfolding send_once_def Let_def split_def
  by (intro post_walk world_ops assms) (simp_all add: assms)

lemma tripc_send_kept: "kept Q w \<Longrightarrow> post (\<lambda>r. kept Q (snd (snd r))) (tripc_send H c n b w)"
  unfolding tripc_send_def Let_def split_def
  by (intro bind_other [where m = "h_conn w c"] post_case_state post_walk world_ops conn_ops send_once_kept
      tripc_send_open_kept tripc_send_chal_kept tripc_send_ping_kept) simp_all

lemma accept_hello_kept: "kept Q w \<Longrightarrow> post (\<lambda>r. kept Q (snd r)) (accept_hello H c f w)"
  unfolding accept_hello_def Let_def split_def
  by (intro post_walk world_ops) (simp_all add: kept_def core_def)

lemma parse_kept:
  "kept Q w \<Longrightarrow> post (\<lambda>r. kept Q (snd r)) (tripc_parse_open H c n b w)"
  "kept Q w \<Longrightarrow> post (\<lambda>r. kept Q (snd r)) (tripc_parse_chal H c n b w)"
  "kept Q w \<Longrightarrow> post (\<lambda>r. kept Q (snd r)) (tripc_parse_ping H c n b px w)"
  unfolding tripc_parse_open_def tripc_parse_chal_def tripc_parse_ping_def Let_def split_def
  by (intro post_walk world_ops accept_hello_kept; simp add: kept_def core_def)+

lemma and_then_kept:
  "post (\<lambda>r. kept Q (snd r)) m \<Longrightarrow> (\<And>w. kept Q w \<Longrightarrow> post (kept Q) (f w)) \<Longrightarrow>
     post (\<lambda>r. kept Q (snd r)) (and_then m f)"
  unfolding and_then_def Let_def split_def
  by (intro post_walk) (simp_all add: kept_def core_def)

lemma read_in_kept:
  "kept Q w \<Longrightarrow> post (\<lambda>r. kept Q (snd r)) (read_in_chal H c px n b w)"
  "kept Q w \<Longrightarrow> post (\<lambda>r. kept Q (snd r)) (read_in_ready H c px n b w)"
  "kept Q w \<Longrightarrow> post (\<lambda>r. kept Q (snd r)) (read_in_close H c px n b w)"
  unfolding read_in_chal_def read_in_ready_def read_in_close_def
  by (intro post_if and_then_kept post_Some parse_kept conn_ops; simp)+

lemma tripc_read_kept: "kept Q w \<Longrightarrow> post (\<lambda>r. kept Q (snd r)) (tripc_read H c px n b w)"
  unfolding tripc_read_def tripc_flag_seq_def Let_def split_def
  by (intro bind_other [where m = "h_conn w c"] post_case_state post_walk and_then_kept read_in_kept
      parse_kept conn_ops) simp_all

end

end
