(* ===== verification/Sticky_Router.thy ===== *)
theory Sticky_Router
  imports Sticky
begin

text \<open>
  The operations of the router, in the contract of the theory \<open>Sticky\<close>: when a property of
  the router's state and error survives every change of state outside \<open>ERROR\<close> and every first
  error, the whole library keeps it.
\<close>

locale keeping_router = keeping_host +
  assumes state_law: "Q (s, e, m) \<Longrightarrow> s \<noteq> RS_ERROR \<Longrightarrow> Q (st, e, m)"
    and error_law: "Q (s, e, m) \<Longrightarrow> s \<noteq> RS_ERROR \<Longrightarrow> Q (RS_ERROR, e', m')"
begin

lemmas post_walk' = post_case_router post_walk

lemma packet_kept:
  "kept Q w \<Longrightarrow> post (kept Q) (call_bind H w)"
  "kept Q w \<Longrightarrow> post (kept Q) (call_unbind H w)"
  "kept Q w \<Longrightarrow> post (kept Q) (call_resolve H key n info w)"
  "kept Q w \<Longrightarrow> post (\<lambda>r. kept Q (snd r)) (call_read H fd mx w)"
  "kept Q w \<Longrightarrow> post (\<lambda>r. kept Q (snd r)) (call_send H p src n b w)"
  unfolding call_bind_def call_unbind_def call_resolve_def call_read_def call_send_def
  by (intro post_walk keeps_bind keeps_unbind keeps_resolve keeps_read keeps_send; simp)+

lemma close_loop_kept: "kept Q w \<Longrightarrow> post (kept Q) (close_loop g i n w)"
proof (induction n arbitrary: i w)
  case (Suc n)
  then show ?case
    unfolding close_loop.simps Let_def tripc_close_def
    by (intro post_walk world_ops Suc.IH)
qed simp

lemma trip_close_kept: "kept Q w \<Longrightarrow> post (kept Q) (trip_close g w)"
  unfolding trip_close_def Let_def
  by (intro post_walk close_loop_kept) (simp_all add: kept_def core_def)

lemma state_timer_kept: "kept Q w \<Longrightarrow> post (kept Q) (state_timer H ms w)"
  unfolding state_timer_def split_def
  by (intro post_walk world_ops) (simp_all add: kept_def core_def)

lemma state_deadline_core [simp]:
  "r_state (w_router (state_deadline H ms w)) = r_state (w_router w)"
  "r_error (w_router (state_deadline H ms w)) = r_error (w_router w)"
  "r_errmsg (w_router (state_deadline H ms w)) = r_errmsg (w_router w)"
  by (simp_all add: state_deadline_def Let_def split_def)

lemma router_enter_kept: "kept Q w \<Longrightarrow> post (kept Q) (router_enter H st w)"
  unfolding router_enter_def Let_def
  by (intro post_walk' state_timer_kept packet_kept trip_close_kept) (simp_all add: kept_def core_def)

end

text \<open>Leaving a state runs no callback: it touches the deadline and the timer only.\<close>

lemma router_leave_core: "post (\<lambda>w'. core w' = core w) (router_leave H w)"
proof -
  have "post (\<lambda>w'. core w' = core w) (trip_timeout_cancel_state (state_deadline H 0 w))"
    by (auto simp: post_def trip_timeout_cancel_state_def trip_cancel_timeout_priv_def state_deadline_def
        core_def Let_def split_def Option.bind_eq_Some_conv split: option.splits)
  then show ?thesis
    unfolding router_leave_def by (intro post_case_router) simp_all
qed

text \<open>What the callbacks and the changes of the wheel keep, a walk of the timers keeps.\<close>

lemma walk_loop_keeps:
  fixes upd :: "'b timerwheel \<Rightarrow> 'a \<Rightarrow> 'a"
  assumes run: "\<And>cb d s s'. I s \<Longrightarrow> run cb d s = Some s' \<Longrightarrow> I s'"
    and upd: "\<And>v s. I s \<Longrightarrow> I (upd v s)"
    and "walk_loop get upd run now prev cur mn s = Some r" "I s"
  shows "I (snd r)"
proof -
  have "u = upd \<longrightarrow> fr = run \<longrightarrow> I s \<longrightarrow> I (snd r)" if "walk_loop g u fr n prev cur mn s = Some r"
    for g and u :: "'b timerwheel \<Rightarrow> 'a \<Rightarrow> 'a" and fr n prev cur mn s r
    using _ that
  proof (rule walk_loop.raw_induct)
    fix f and g :: "'a \<Rightarrow> 'b timerwheel" and u fr n prev cur mn s r
    assume IH: "\<And>g u fr n prev cur mn s r. f g u fr n prev cur mn s = Some r \<Longrightarrow>
        u = upd \<longrightarrow> fr = run \<longrightarrow> I s \<longrightarrow> I (snd r)"
      and r: "(case cur of
        None \<Rightarrow> Some (mn, s)
      | Some a \<Rightarrow>
          Option.bind (tw_heap (g s) a) (\<lambda>e.
            if n \<ge> te_deadline e \<or> te_canceled e
            then
              Option.bind (tw_on g u (tw_store prev (te_next e)) s) (\<lambda>s.
              Option.bind (case te_cb e of
                  Some cb \<Rightarrow> if te_canceled e then Some s else fr cb (te_data e) s
                | None \<Rightarrow> Some s) (\<lambda>s.
              Option.bind (tw_on g u (tw_free a) s) (\<lambda>s.
              Option.bind (tw_load prev (g s)) (\<lambda>next.
                f g u fr n prev next mn s))))
            else
              Option.bind (tw_min mn a (g s)) (\<lambda>mn.
                f g u fr n (Some a) (te_next e) mn s))) = Some r"
    show "u = upd \<longrightarrow> fr = run \<longrightarrow> I s \<longrightarrow> I (snd r)"
    proof (intro impI)
      assume h: "u = upd" "fr = run" "I s"
      have on: "post I (tw_on g u h s)" if "I s" for h s
        using that upd h(1) by (auto simp: post_def tw_on_def)
      have fr: "post I (fr cb d s)" if "I s" for cb d s
        using that run h(2) by (auto simp: post_def)
      note go = post_Some post_if post_case_option post_bind [where R = I] bind_other
      have "post (\<lambda>r. I (snd r)) (case cur of
        None \<Rightarrow> Some (mn, s)
      | Some a \<Rightarrow>
          Option.bind (tw_heap (g s) a) (\<lambda>e.
            if n \<ge> te_deadline e \<or> te_canceled e
            then
              Option.bind (tw_on g u (tw_store prev (te_next e)) s) (\<lambda>s.
              Option.bind (case te_cb e of
                  Some cb \<Rightarrow> if te_canceled e then Some s else fr cb (te_data e) s
                | None \<Rightarrow> Some s) (\<lambda>s.
              Option.bind (tw_on g u (tw_free a) s) (\<lambda>s.
              Option.bind (tw_load prev (g s)) (\<lambda>next.
                f g u fr n prev next mn s))))
            else
              Option.bind (tw_min mn a (g s)) (\<lambda>mn.
                f g u fr n (Some a) (te_next e) mn s)))"
        apply (intro post_case_option post_Some bind_other [where m = "tw_heap (g s) _"] post_if
            post_bind [OF on] post_bind [where R = I and m = "case_option _ _ _"] on fr h bind_other
            )
        apply (use IH h in \<open>auto simp: post_def\<close>) done
      from postD [OF this r] show "I (snd r)" .
    qed
  qed
  then show ?thesis using assms by blast
qed

lemma walk_keeps:
  assumes "timerwheel_walk_with get upd run now s = Some (m, s')"
    and "I s" "\<And>cb d s s'. I s \<Longrightarrow> run cb d s = Some s' \<Longrightarrow> I s'" "\<And>v s. I s \<Longrightarrow> I (upd v s)"
  shows "I s'"
  using walk_loop_keeps [of I run upd get now None _ None s "(m, s')"] assms
  by (simp add: timerwheel_walk_with_def)

context keeping_router
begin

lemma set_state_gen:
  assumes "core w = (s, e, m)" "Q (if s = RS_ERROR then RS_ERROR else st, e, m)"
  shows "post (kept Q) (trip_set_state H st w)"
proof -
  have "r_state (w_router w) = s" using assms(1) by (simp add: core_def)
  then show ?thesis
    unfolding trip_set_state_def Let_def
    by (intro post_bind [OF router_leave_core] router_enter_kept)
      (use assms in \<open>simp add: kept_def core_def split: if_splits\<close>)
qed

lemma set_state_kept: "kept Q w \<Longrightarrow> post (kept Q) (trip_set_state H st w)"
  by (cases "core w") (auto intro!: set_state_gen simp: kept_def intro: state_law)

lemma set_error_kept:
  assumes "kept Q w"
  shows "post (kept Q) (trip_set_error H e' m' w)"
proof (cases "r_state (w_router w) = RS_ERROR")
  case False
  obtain s e m where c: "core w = (s, e, m)" by (cases "core w")
  with False assms have "Q (RS_ERROR, e', x)" for x
    using error_law [of s e m] by (simp add: kept_def core_def)
  then have "core v = (s, e', x) \<Longrightarrow> post (kept Q) (trip_set_state H RS_ERROR v)" for v x
    by (auto intro: set_state_gen)
  with False c show ?thesis
    unfolding trip_set_error_def Let_def split_def by (simp add: core_def)
qed (use assms in \<open>simp add: trip_set_error_def\<close>)

lemma set_start_kept: "kept Q w \<Longrightarrow> r_state (w_router w) = RS_END \<Longrightarrow>
    kept Q (w\<lparr>w_router := (w_router w)\<lparr>r_state := RS_START\<rparr>\<rparr>)"
  using state_law [of RS_END] by (simp add: kept_def core_def)

lemmas router_basic = world_ops conn_ops packet_kept trip_close_kept state_timer_kept set_state_kept set_error_kept

lemma timeout_router_kept: "kept Q w \<Longrightarrow> post (kept Q) (timeout_router_cb H w)"
  unfolding timeout_router_cb_def Let_def
  by (intro post_if set_error_kept post_Some) (simp_all add: kept_def core_def)

text \<open>The loops that need not end: whenever they do, the property is kept.\<close>

lemma read_loop_kept: "kept Q w \<Longrightarrow> post (\<lambda>r. kept Q (snd r)) (read_loop H fd w)"
proof -
  have "h = H \<longrightarrow> kept Q v \<longrightarrow> kept Q (snd r)" if "read_loop h fd v = Some r" for h v r
    using _ that
  proof (rule read_loop.raw_induct)
    fix f h fd v r
    assume IH: "\<And>h fd v r. f h fd v = Some r \<Longrightarrow> h = H \<longrightarrow> kept Q v \<longrightarrow> kept Q (snd r)"
      and r: "Option.bind (call_read h fd (r_max_packet_read_count (w_router v)) v)
        (\<lambda>r. if fst r = EOK then f h fd (snd r) else Some r) = Some r"
    show "h = H \<longrightarrow> kept Q v \<longrightarrow> kept Q (snd r)"
    proof (intro impI)
      assume h: "h = H" "kept Q v"
      have "post (\<lambda>r. kept Q (snd r)) (Option.bind (call_read H fd (r_max_packet_read_count (w_router v)) v)
        (\<lambda>r. if fst r = EOK then f H fd (snd r) else Some r))"
        by (intro post_walk packet_kept h) (use IH in \<open>auto simp: post_def\<close>)
      from postD [OF this r [unfolded h(1)]] show "kept Q (snd r)" .
    qed
  qed
  then show "kept Q w \<Longrightarrow> ?thesis" by (auto simp: post_def)
qed

lemma conn_turn_kept: "kept Q w \<Longrightarrow> post (\<lambda>r. kept Q (snd (snd r))) (conn_turn H p c n sent w)"
proof (induction n arbitrary: sent w)
  case (Suc n)
  then show ?case
    unfolding conn_turn.simps Let_def split_def
    by (intro post_walk router_basic tripc_send_kept Suc.IH) (simp_all add: kept_def core_def)
qed simp

lemma send_loop_kept: "kept Q w \<Longrightarrow> post (kept Q) (send_loop H p c sent w)"
proof -
  have "h = H \<longrightarrow> kept Q v \<longrightarrow> kept Q r" if "send_loop h p c sent v = Some r" for h p c sent v r
    using _ that
  proof (rule send_loop.raw_induct)
    fix f h p c sent v r
    assume IH: "\<And>h p c sent v r. f h p c sent v = Some r \<Longrightarrow> h = H \<longrightarrow> kept Q v \<longrightarrow> kept Q r"
      and r: "(case c of None \<Rightarrow> Some v
        | Some a \<Rightarrow>
          Option.bind (conn_turn h p a (unat (r_max_connection_send_count (w_router v))) sent v) (\<lambda>r.
            if fst r = SR_return then Some (snd (snd r))
            else
              Option.bind (if fst r = SR_requeue then on_sendq (sendq_nq a) (snd (snd r)) else Some (snd (snd r))) (\<lambda>w.
                if fst (snd r) > r_max_packet_send_count (w_router w) then Some w
                else Option.bind (on_dq w) (\<lambda>d. f h p (fst d) (fst (snd r)) (snd d))))) = Some r"
    show "h = H \<longrightarrow> kept Q v \<longrightarrow> kept Q r"
    proof (intro impI)
      assume h: "h = H" "kept Q v"
      have "post (kept Q) (case c of None \<Rightarrow> Some v
        | Some a \<Rightarrow>
          Option.bind (conn_turn H p a (unat (r_max_connection_send_count (w_router v))) sent v) (\<lambda>r.
            if fst r = SR_return then Some (snd (snd r))
            else
              Option.bind (if fst r = SR_requeue then on_sendq (sendq_nq a) (snd (snd r)) else Some (snd (snd r))) (\<lambda>w.
                if fst (snd r) > r_max_packet_send_count (w_router w) then Some w
                else Option.bind (on_dq w) (\<lambda>d. f H p (fst d) (fst (snd r)) (snd d)))))"
        by (intro post_walk router_basic conn_turn_kept h) (use IH in \<open>auto simp: post_def\<close>)
      from postD [OF this r [unfolded h(1)]] show "kept Q r" .
    qed
  qed
  then show "kept Q w \<Longrightarrow> ?thesis" by (auto simp: post_def)
qed

lemma trip_resend_kept: "kept Q w \<Longrightarrow> post (\<lambda>r. kept Q (snd (snd r))) (trip_resend H p w)"
  unfolding trip_resend_def Let_def split_def
  by (intro post_walk router_basic) (simp_all add: kept_def core_def)

lemma trip_listen_kept: "kept Q w \<Longrightarrow> post (kept Q) (trip_listen H fd events w)"
  unfolding trip_listen_def trip_listen_in_def trip_listen_out_def Let_def split_def
  by (intro post_walk router_basic read_loop_kept send_loop_kept trip_resend_kept) (simp_all add: kept_def core_def)

lemma send_immediately_kept: "kept Q w \<Longrightarrow> post (kept Q) (send_immediately_cb H w)"
  unfolding send_immediately_cb_def
  by (intro post_walk router_basic trip_listen_kept) simp_all

section \<open>Segments\<close>

lemma w_connmap_add_kept: "kept Q w \<Longrightarrow> post (\<lambda>r. kept Q (snd r)) (w_connmap_add H c w)"
  unfolding w_connmap_add_def Let_def split_def
  by (intro post_walk) (simp_all add: kept_def core_def)

lemma segment_new_conn_kept: "kept Q w \<Longrightarrow> post (\<lambda>r. kept Q (snd r)) (segment_new_conn H src len buf sc w)"
  unfolding segment_new_conn_def trip_router_reject_def trip_new_connection_def tripc_init_def Let_def split_def
  by (intro post_walk router_basic keeps_screen w_connmap_add_kept) (simp_all add: kept_def core_def)

lemma segment_read_open_kept: "kept Q w \<Longrightarrow> post (kept Q) (segment_read_open H src px end len buf c w)"
  unfolding segment_read_open_def trip_router_reject_def Let_def split_def
  by (intro bind_other [where m = "h_conn w c"] post_walk router_basic tripc_read_kept) simp_all

lemma segment_open_kept: "kept Q w \<Longrightarrow> post (kept Q) (segment_open H src px end len buf w)"
  unfolding segment_open_def trip_router_reject_def Let_def split_def
  by (intro post_walk router_basic segment_new_conn_kept segment_read_open_kept) simp_all

lemma segment_other_kept: "kept Q w \<Longrightarrow> post (kept Q) (segment_other H src px end len buf w)"
  unfolding segment_other_def trip_router_reject_def Let_def split_def
  by (intro post_walk router_basic tripc_read_kept) simp_all

lemma trip_segment_kept: "kept Q w \<Longrightarrow> post (kept Q) (trip_segment H src len buf w)"
  unfolding trip_segment_def trip_router_reject_def Let_def split_def
  by (intro post_walk segment_open_kept segment_other_kept) simp_all

lemma trip_seg_kept: "kept Q w \<Longrightarrow> post (kept Q) (trip_seg H src len buf w)"
  unfolding trip_seg_def by (intro post_if trip_segment_kept post_Some)

section \<open>The packet interface's reports, options and connections\<close>

lemma trip_ready_kept: "kept Q w \<Longrightarrow> post (kept Q) (trip_ready H w)"
  unfolding trip_ready_def by (intro post_if set_state_kept)

lemma resolve_delay_kept:
  "kept Q w \<Longrightarrow> post (kept Q) (resolve_delay_success_cb H c w)"
  "kept Q w \<Longrightarrow> post (kept Q) (resolve_delay_failure_cb H c w)"
  unfolding resolve_delay_success_cb_def resolve_delay_failure_cb_def tripc_resolved_def
  by (intro conn_ops, assumption)+

lemma trip_resolve_kept: "kept Q w \<Longrightarrow> post (kept Q) (trip_resolve H key src err m w)"
  unfolding trip_resolve_def Let_def split_def
  by (intro post_walk router_basic) (simp_all add: kept_def core_def)

lemma trip_watch_kept: "kept Q w \<Longrightarrow> post (kept Q) (trip_watch H fd events w)"
  unfolding trip_watch_def Let_def
  by (intro post_walk router_basic) (simp_all add: kept_def core_def)

lemma trip_unready_kept: "kept Q w \<Longrightarrow> post (kept Q) (trip_unready H err w)"
  unfolding trip_unready_def by (intro post_if set_state_kept set_error_kept)

lemma trip_error_kept: "kept Q w \<Longrightarrow> post (kept Q) (trip_error H e m w)"
  unfolding trip_error_def by (rule set_error_kept)

lemma new_udp_kept: "kept Q w \<Longrightarrow> post (\<lambda>r. kept Q (snd r)) (trip_packet_new_udp H info w)"
  unfolding trip_packet_new_udp_def Let_def split_def
  by (intro post_walk) (simp_all add: kept_def core_def)

lemma trip_setopt_kept: "kept Q w \<Longrightarrow> post (\<lambda>r. kept Q (snd r)) (trip_setopt H opt w)"
proof (cases opt)
  case (OPT_PACKET p)
  moreover assume "kept Q w"
  ultimately show ?thesis
    by (cases p) (auto simp: trip_setopt_def split_def kept_def core_def intro!: post_bind [OF new_udp_kept, unfolded kept_def core_def])
qed (auto simp: trip_setopt_def kept_def core_def opt_flag_def)

lemma trip_assign_kept: "kept Q w \<Longrightarrow> post (kept Q) (trip_assign H s data w)"
  unfolding trip_assign_def Let_def split_def
  by (intro post_walk) (simp_all add: kept_def core_def)

lemma fill_missing_kept: "kept Q w \<Longrightarrow> post (\<lambda>r. kept Q (snd r)) (trip_fill_missing H w)"
  unfolding trip_fill_missing_def Let_def split_def
  by (intro post_walk trip_setopt_kept set_error_kept) simp_all

lemma verify_kept: "kept Q w \<Longrightarrow> post (\<lambda>r. kept Q (snd r)) (trip_verify H w)"
  unfolding trip_verify_def Let_def
  by (intro post_walk set_error_kept) simp_all

lemma trip_stop_kept: "kept Q w \<Longrightarrow> post (\<lambda>r. kept Q (snd r)) (trip_stop H w)"
  unfolding trip_stop_def Let_def split_def
  by (intro post_walk router_basic) simp_all

lemma reject_connection_kept: "kept Q w \<Longrightarrow> post (kept Q) (trip_reject_connection H data ilen info err w)"
  unfolding trip_reject_connection_def tripc_init_def Let_def
  by (intro post_walk router_basic) (simp_all add: kept_def core_def)

lemma open_async_kept: "kept Q w \<Longrightarrow> post (kept Q) (open_connection_async_cb H c w)"
  unfolding open_connection_async_cb_def Let_def split_def
  by (intro bind_other [where m = "h_conn w c"] post_walk router_basic)

lemma fail_connection_kept: "kept Q w \<Longrightarrow> post (kept Q) (fail_connection H c e w)"
  unfolding fail_connection_def by (intro post_walk router_basic)

lemma open_connection_kept: "kept Q w \<Longrightarrow> post (kept Q) (trip_open_connection H data ilen info w)"
  unfolding trip_open_connection_def trip_new_connection_def tripc_init_def Let_def split_def
  by (intro post_walk router_basic reject_connection_kept fail_connection_kept w_connmap_add_kept)
    (simp_all add: kept_def core_def)

section \<open>Timers and actions\<close>

lemma stop_async_kept: "kept Q w \<Longrightarrow> post (kept Q) (stop_async_cb H w)"
  unfolding stop_async_cb_def by (rule set_state_kept)

lemma fire_kept: "kept Q w \<Longrightarrow> post (kept Q) (fire H cb data w)"
  unfolding fire_def
  by (cases cb; simp only: timer_cb.case)
    (intro post_walk send_immediately_kept timeout_router_kept resolve_delay_kept open_async_kept
      timeout_state_resolve_cb_kept timeout_state_resend_cb_kept timeout_state_ready_ping_kept keeps_timer
      stop_async_kept; assumption?)+

lemma walk_timers_kept: "kept Q w \<Longrightarrow> post (\<lambda>r. kept Q (snd r)) (walk_timers H now w)"
proof -
  have "kept Q w \<Longrightarrow> walk_timers H now w = Some (m, w') \<Longrightarrow> kept Q w'" for m w'
    unfolding walk_timers_def
    by (erule walk_keeps [where I = "kept Q"], assumption, erule (1) postD [OF fire_kept])
      (simp add: kept_def core_def)
  then show "kept Q w \<Longrightarrow> ?thesis" by (auto simp: post_def)
qed

lemma trip_timeout_kept: "kept Q w \<Longrightarrow> post (\<lambda>r. kept Q (snd r)) (trip_timeout H w)"
  unfolding trip_timeout_def Let_def split_def
  by (intro post_walk walk_timers_kept call_timeout) (simp_all add: kept_def core_def)

lemma action_kept:
  "kept Q w \<Longrightarrow> post (kept Q) (action_start H fd w)"
  "kept Q w \<Longrightarrow> post (kept Q) (action_bind H fd w)"
  "kept Q w \<Longrightarrow> post (kept Q) (action_deadline H st w)"
  unfolding action_start_def action_bind_def action_deadline_def Let_def split_def
  by (intro post_walk router_basic fill_missing_kept verify_kept; simp add: kept_def core_def)+

lemma trip_action_kept: "kept Q w \<Longrightarrow> post (\<lambda>r. kept Q (snd r)) (trip_action H fd events w)"
  unfolding trip_action_def Let_def split_def
  by (intro post_case_router post_walk action_kept trip_listen_kept trip_timeout_kept) simp_all

lemma trip_start_kept: "kept Q w \<Longrightarrow> post (\<lambda>r. kept Q (snd r)) (trip_start H w)"
  unfolding trip_start_def Let_def
  by (intro post_if trip_action_kept post_Some) (auto intro: set_start_kept)

end

end
