(* ===== verification/Hosts.thy ===== *)
theory Hosts
  imports Udp
begin

text \<open>
  Concrete hosts and worlds, on which the contracts of the following theories are interpreted
  and their properties applied: a program whose callbacks do nothing, one that
  records what it sends, and one with the default packet interface of \<open>src/packet.c\<close>. At the end
  a walk of the router's timers on such a program.
\<close>

text \<open>
  Every allocation succeeds, the clock stands at \<open>t\<close>, sending succeeds, reading finds
  nothing and every peer is let in.
\<close>

definition still_host :: "nat \<Rightarrow> host" where
  "still_host t = \<lparr>ho_clock = \<lambda>_. Some (of_nat t, 0), ho_alloc = \<lambda>_. True, ho_rand = \<lambda>n. of_nat n,
     ho_bytes = \<lambda>n k. replicate k (of_nat n), ho_kp = \<lambda>_. (replicate 32 1, replicate 32 2),
     ho_crypto = sodium,
     ho_screen = \<lambda>s w. Some (s\<lparr>sc_allow := True, sc_signpk := None, sc_signsk := None\<rparr>, w), ho_watch = \<lambda>fd ev d w. Some w,
     ho_timeout = \<lambda>ms w. Some w, ho_connection = \<lambda>c w. Some w, ho_bind = Some,
     ho_resolve = \<lambda>k n i w. Some w, ho_send = \<lambda>s n b w. Some (EOK, w),
     ho_read = \<lambda>fd m w. Some (EWOULDBLOCK, w), ho_unbind = Some, ho_timer = \<lambda>n d w. Some w,
     ho_strerror = \<lambda>_. [], ho_epoll_ctl = \<lambda>e oper fd ev w. (0, w)\<rparr>"

text \<open>A send that hands the packet to the network.\<close>

definition network_send :: "int \<Rightarrow> u64 \<Rightarrow> bytes \<Rightarrow> world \<Rightarrow> (errno \<times> world) option" where
  "network_send src n b w = Some (EOK, w\<lparr>w_sent := w_sent w @ [(src, take (unat n) b)]\<rparr>)"

definition network_host :: "nat \<Rightarrow> host" where
  "network_host t = (still_host t)\<lparr>ho_send := network_send\<rparr>"

text \<open>The packet interface of \<open>src/packet.c\<close> on such a program.\<close>

definition udp_host :: "sockets \<Rightarrow> host \<Rightarrow> host" where
  "udp_host S B = B\<lparr>ho_bind := trip_udp_bind S B, ho_unbind := trip_udp_unbind S B\<rparr>"

text \<open>A world with nothing in it yet.\<close>

definition blank_world :: world where
  "blank_world = \<lparr>h_conn = \<lambda>_. None, h_strm = \<lambda>_. None, h_msg = \<lambda>_. None,
     w_router = router_zero, w_wheel = \<lparr>tw_head = None, tw_heap = \<lambda>_. None\<rparr>,
     w_brk = 1, w_tick = 0, w_epoll = \<lambda>_. None, w_sent = []\<rparr>"

text \<open>All the functions a packet interface can have.\<close>

definition full_packet :: packet where
  "full_packet = \<lparr>pkt_data = None, pkt_bind = True, pkt_resolve = True, pkt_send = True,
     pkt_read = True, pkt_unbind = True, pkt_router = True\<rparr>"

text \<open>A router that listens, driven by the poll loop, and lets everything pass in the clear.\<close>

definition listening_world :: world where
  "listening_world = rt_upd (\<lambda>r. r\<lparr>r_screen := True, r_timeout := Some HPoll, r_watch := Some HPoll,
     r_poll := Some \<lparr>poll_efd = 3, poll_deadline = 0\<rparr>, r_state := RS_LISTEN,
     r_conn := connmap_init 4, r_max_streams := 8, r_packet := Some full_packet, r_flag := 0xFF\<rparr>) blank_world"

text \<open>The same with a connection at 1 that is about to send its opening packet.\<close>

definition opening_conn :: connection where
  "opening_conn = (connection_zero 24)\<lparr>c_state := CS_OPEN, c_hassend := True, c_insend := False,
     c_maxstatems := 3000, c_statems := 100\<rparr>"

definition opening_world :: world where
  "opening_world = (rt_upd (\<lambda>r. r\<lparr>r_conn := \<lparr>cm_mask = 3, cm_size = 1, cm_cap = 1, cm_map = Some [Used 1],
     cm_free = None\<rparr>\<rparr>) listening_world)\<lparr>h_conn := [1 \<mapsto> opening_conn], w_brk := 2\<rparr>"

section \<open>A walk of the router's timers\<close>

text \<open>
  A program that sets timers of its own, whose callback sends an octet; and a wheel with a ping
  that is not due yet, two of the program's timers that are, and a retry that was cancelled.
\<close>

definition ticking_host :: host where
  "ticking_host = (network_host 0)\<lparr>ho_timer := \<lambda>n d w. map_option snd (network_send 0 1 [of_nat n] w)\<rparr>"

definition ticking_world :: world where
  "ticking_world = blank_world\<lparr>w_wheel := \<lparr>tw_head = Some 1, tw_heap =
     [1 \<mapsto> \<lparr>te_deadline = 50, te_data = Some 9, te_cb = Some CB_state_ready_ping, te_next = Some 2, te_canceled = False\<rparr>,
      2 \<mapsto> \<lparr>te_deadline = 5, te_data = None, te_cb = Some (CB_user 8), te_next = Some 3, te_canceled = False\<rparr>,
      3 \<mapsto> \<lparr>te_deadline = 5, te_data = Some 9, te_cb = Some CB_state_resend, te_next = Some 4, te_canceled = True\<rparr>,
      4 \<mapsto> \<lparr>te_deadline = 6, te_data = None, te_cb = Some (CB_user 9), te_next = None, te_canceled = False\<rparr>]\<rparr>\<rparr>"

theorem timerwheel_walk_exact_witness:
  "\<exists>w. timerwheel_walk_with w_wheel (\<lambda>v w. w\<lparr>w_wheel := v\<rparr>) (fire ticking_host) 10 ticking_world = Some (Some 1, w) \<and>
     w_sent w = [(0, [8]), (0, [9])] \<and> tw_rep (w_wheel w) [1] \<and> dom (tw_heap (w_wheel w)) = {1}"
proof -
  let ?upd = "\<lambda>v (w :: world). w\<lparr>w_wheel := v\<rparr>" and ?as = "[1, 2, 3, 4] :: addr list"
  have view: "wheel_view w_wheel ?upd" by unfold_locales simp_all
  have due: "due 10 (entries (w_wheel ticking_world) ?as) = [(CB_user 8, None), (CB_user 9, None)]"
    by (simp add: due_def ticking_world_def)
  have user: "fire ticking_host (CB_user n) d w = Some (w\<lparr>w_sent := w_sent w @ [(0, [of_nat n])]\<rparr>)" for n d w
    by (simp add: fire_def ticking_host_def network_send_def)
  have blind: "wheel_view.blind ?upd (set (due 10 (entries (w_wheel ticking_world) ?as))) (fire ticking_host)"
    unfolding due by (simp add: wheel_view.blind_def [OF view] user)
  have rep: "tw_rep (w_wheel ticking_world) ?as" by (simp add: tw_rep_def ticking_world_def chain_def field_def)
  let ?w = "ticking_world\<lparr>w_sent := [(0, [8]), (0, [9])]\<rparr>"
  have "w_sent ticking_world = []" by (simp add: ticking_world_def blank_world_def)
  then have run: "fire_all (fire ticking_host) (due 10 (entries (w_wheel ticking_world) ?as)) ticking_world = Some ?w"
    unfolding due by (simp add: user)
  have keep: "[1] = filter (\<lambda>a. \<not> expired 10 (the (tw_heap (w_wheel ticking_world) a))) ?as"
    by (simp add: expired_def ticking_world_def)
  have dom: "dom (tw_heap (w_wheel ticking_world)) - (set ?as - set [1]) = {1}" by (auto simp: ticking_world_def)
  obtain m v where mv: "timerwheel_walk_with w_wheel ?upd (fire ticking_host) 10 ticking_world = Some (m, ?upd v ?w)"
    "tw_rep v [1]" "case m of None \<Rightarrow> [1 :: addr] = [] | Some x \<Rightarrow> x \<in> set [1]" "dom (tw_heap v) = {1}"
    using timerwheel_walk_exact [OF view blind rep run keep] unfolding dom by (auto split: option.splits)
  then have "m = Some 1" by (cases m) simp_all
  with mv show ?thesis by (intro exI [of _ "?upd v ?w"]) simp
qed

end
