(* ===== verification/Api.thy ===== *)
theory Api
  imports Sticky_Router Hosts
begin

text \<open>
  The public functions of the router as calls of a program, hosts whose callbacks make such
  calls in their turn, and what no sequence of calls can undo: the first error.
\<close>

section \<open>Programs that use the library\<close>

datatype api = A_start | A_stop | A_setopt router_opt | A_assign int ptr | A_action int int
  | A_timeout | A_open ptr u64 "bytes option" | A_seg int u64 bytes | A_ready
  | A_resolve int int errno "string option" | A_watch int int | A_unready errno
  | A_error errno "string option" | A_set_timeout int ptr nat | A_cancel_timeout ptr

definition api_call :: "host \<Rightarrow> api \<Rightarrow> world \<Rightarrow> world option" where
  "api_call H a w =
     (case a of
        A_start \<Rightarrow> map_option snd (trip_start H w)
      | A_stop \<Rightarrow> map_option snd (trip_stop H w)
      | A_setopt opt \<Rightarrow> map_option snd (trip_setopt H opt w)
      | A_assign s data \<Rightarrow> trip_assign H s data w
      | A_action fd events \<Rightarrow> map_option snd (trip_action H fd events w)
      | A_timeout \<Rightarrow> map_option snd (trip_timeout H w)
      | A_open data len info \<Rightarrow> trip_open_connection H data len info w
      | A_seg src len buf \<Rightarrow> trip_seg H src len buf w
      | A_ready \<Rightarrow> trip_ready H w
      | A_resolve key src err msg \<Rightarrow> trip_resolve H key src err msg w
      | A_watch fd events \<Rightarrow> trip_watch H fd events w
      | A_unready err \<Rightarrow> trip_unready H err w
      | A_error err msg \<Rightarrow> trip_error H err msg w
      | A_set_timeout ms data n \<Rightarrow> map_option snd (trip_set_timeout H ms data (CB_user n) w)
      | A_cancel_timeout t \<Rightarrow> trip_cancel_timeout t w)"

text \<open>Every defined outcome of every callback is in the relation \<open>R\<close> to where it started.\<close>

definition callbacks :: "(world \<Rightarrow> world \<Rightarrow> bool) \<Rightarrow> host \<Rightarrow> bool" where
  "callbacks R H \<longleftrightarrow>
     (\<forall>sc w. post (\<lambda>r. R w (snd r)) (ho_screen H sc w)) \<and>
     (\<forall>fd ev d w. post (R w) (ho_watch H fd ev d w)) \<and>
     (\<forall>ms w. post (R w) (ho_timeout H ms w)) \<and>
     (\<forall>c w. post (R w) (ho_connection H c w)) \<and>
     (\<forall>w. post (R w) (ho_bind H w)) \<and>
     (\<forall>key n info w. post (R w) (ho_resolve H key n info w)) \<and>
     (\<forall>src n b w. post (\<lambda>r. R w (snd r)) (ho_send H src n b w)) \<and>
     (\<forall>fd mx w. post (\<lambda>r. R w (snd r)) (ho_read H fd mx w)) \<and>
     (\<forall>w. post (R w) (ho_unbind H w)) \<and>
     (\<forall>k d w. post (R w) (ho_timer H k d w)) \<and>
     (\<forall>e oper fd ev w. R w (snd (ho_epoll_ctl H e oper fd ev w)))"

text \<open>
  A program at work: it makes calls of the library, and between them changes whatever it likes
  but the router's state, error and message.
\<close>

inductive acts :: "host \<Rightarrow> world \<Rightarrow> world \<Rightarrow> bool" for H where
  touch: "core w' = core w \<Longrightarrow> acts H w w'"
| call: "acts H w u \<Longrightarrow> api_call H a u = Some v \<Longrightarrow> core w' = core v \<Longrightarrow> acts H w w'"

text \<open>
  The programs that use the library through its functions alone: their callbacks do not touch
  the router's state, or are such programs at work in their turn. The nesting of calls is finite.
\<close>

inductive layered :: "host \<Rightarrow> bool" where
  quiet: "callbacks (\<lambda>w w'. core w' = core w) H \<Longrightarrow> layered H"
| nested: "layered B \<Longrightarrow> callbacks (acts B) H \<Longrightarrow> layered H"

section \<open>What they keep\<close>

lemma callbacks_keep:
  assumes "callbacks R H" "\<And>w w'. R w w' \<Longrightarrow> kept Q w \<Longrightarrow> kept Q w'"
  shows "keeping_host H Q"
proof -
  have *: "post (R w) m \<Longrightarrow> kept Q w \<Longrightarrow> post (kept Q) m" for w m
    using assms(2) by (auto simp: post_def)
  have **: "post (\<lambda>r. R w (snd r)) m \<Longrightarrow> kept Q w \<Longrightarrow> post (\<lambda>r. kept Q (snd r)) m" for w and m :: "('a \<times> world) option"
    using assms(2) by (auto simp: post_def)
  show ?thesis
    by unfold_locales
      (erule * [rotated] ** [rotated] assms(2) [rotated], use assms(1) in \<open>simp add: callbacks_def\<close>)+
qed

context keeping_router
begin

lemma trip_cancel_timeout_kept: "kept Q w \<Longrightarrow> post (kept Q) (trip_cancel_timeout t w)"
  by (simp add: trip_cancel_timeout_def kept_cancel split: option.split)

lemma api_call_kept: "kept Q w \<Longrightarrow> post (kept Q) (api_call H a w)"
  unfolding api_call_def
  by (cases a; simp only: api.case)
    (intro map_snd trip_start_kept trip_stop_kept trip_setopt_kept trip_assign_kept trip_action_kept
      trip_timeout_kept open_connection_kept trip_seg_kept trip_ready_kept trip_resolve_kept
      trip_watch_kept trip_unready_kept trip_error_kept set_timeout trip_cancel_timeout_kept; assumption?)+

lemma acts_kept: "acts H w w' \<Longrightarrow> kept Q w \<Longrightarrow> kept Q w'"
  by (induction rule: acts.induct) (use postD [OF api_call_kept] in \<open>fastforce simp: kept_def\<close>)+

end

text \<open>What a property has to satisfy for a layered program to keep it.\<close>

lemma layered_keeps:
  assumes "layered H"
    and s: "\<And>s e m st. Q (s, e, m) \<Longrightarrow> s \<noteq> RS_ERROR \<Longrightarrow> Q (st, e, m)"
    and e: "\<And>s e m e' m'. Q (s, e, m) \<Longrightarrow> s \<noteq> RS_ERROR \<Longrightarrow> Q (RS_ERROR, e', m')"
  shows "keeping_router H Q"
  using assms(1)
proof induction
  case (quiet H)
  show ?case
  proof (rule keeping_router.intro)
    show "keeping_host H Q" by (rule callbacks_keep [OF quiet]) (simp add: kept_def)
    show "keeping_router_axioms Q" by (rule keeping_router_axioms.intro) (fact s, fact e)
  qed
next
  case (nested B H)
  show ?case
  proof (rule keeping_router.intro)
    show "keeping_host H Q" by (rule callbacks_keep [OF nested(2)]) (rule keeping_router.acts_kept [OF nested.IH])
    show "keeping_router_axioms Q" by (rule keeping_router_axioms.intro) (fact s, fact e)
  qed
qed

definition failed :: "errno \<Rightarrow> string option \<Rightarrow> router_state \<times> errno \<times> string option \<Rightarrow> bool" where
  "failed e m c \<longleftrightarrow> c = (RS_ERROR, e, m)"

definition coherent :: "router_state \<times> errno \<times> string option \<Rightarrow> bool" where
  "coherent c \<longleftrightarrow> (fst (snd c) \<noteq> EOK \<longrightarrow> fst c = RS_ERROR)"

lemma failed_keeps: "layered H \<Longrightarrow> keeping_router H (failed e m)"
  by (rule layered_keeps) (simp_all add: failed_def)

lemma coherent_keeps: "layered H \<Longrightarrow> keeping_router H coherent"
  by (rule layered_keeps) (simp_all add: coherent_def)

lemma quiet_still: "callbacks (\<lambda>w w'. core w' = core w) (still_host t)"
  by (simp add: callbacks_def still_host_def)

lemma still_layered: "layered (still_host t)"
  by (rule quiet, rule quiet_still)

lemma quiet_udp: "callbacks (\<lambda>w w'. core w' = core w) B \<Longrightarrow> callbacks (acts B) (udp_host S B)"
proof -
  assume B: "callbacks (\<lambda>w w'. core w' = core w) B"
  have bind: "acts B w w'" if b: "trip_udp_bind S B w = Some w'" for w w'
  proof -
    from b obtain p c where pc: "r_packet (w_router w) = Some p" "pkt_udp p = Some c"
      by (auto simp: trip_udp_bind_def Option.bind_eq_Some_conv)
    show ?thesis
    proof (cases "udp_open S (udp_info c)")
      case (Inl r)
      with b pc have "api_call B (A_error (fst r) (Some (snd r))) w = Some w'"
        by (simp add: trip_udp_bind_def api_call_def split: prod.splits)
      then show ?thesis by (rule acts.call [OF acts.touch [OF refl]]) simp
    next
      case (Inr fd)
      let ?w = "rt_upd (\<lambda>r. r\<lparr>r_packet := Some (p\<lparr>pkt_data := Some (Ctx_udp (c\<lparr>udp_fd := fd\<rparr>))\<rparr>)\<rparr>) w"
      from b pc Inr obtain v and c' :: udp where v: "trip_ready B ?w = Some v" "trip_watch B (udp_fd c') TRIP_IN v = Some w'"
        by (simp add: trip_udp_bind_def Let_def Option.bind_eq_Some_conv) blast
      have "acts B w ?w" by (rule acts.touch) (simp add: core_def)
      then have "acts B w v" by (rule acts.call [where a = A_ready]) (use v in \<open>simp_all add: api_call_def\<close>)
      then show ?thesis
        by (rule acts.call [where a = "A_watch (udp_fd c') TRIP_IN"]) (use v in \<open>simp_all add: api_call_def\<close>)
    qed
  qed
  have unbind: "acts B w w'" if b: "trip_udp_unbind S B w = Some w'" for w w'
  proof -
    from b obtain e where "api_call B (A_unready e) w = Some w'"
      by (auto simp: trip_udp_unbind_def Let_def Option.bind_eq_Some_conv api_call_def)
    then show ?thesis by (rule acts.call [OF acts.touch [OF refl]]) simp
  qed
  show ?thesis
    using B bind unbind by (simp add: callbacks_def post_def udp_host_def acts.touch)
qed

lemma udp_layered: "layered (udp_host S (still_host t))"
  by (rule nested [OF still_layered quiet_udp [OF quiet_still]])

text \<open>The library with its own packet interface fulfils the contract of both properties.\<close>

interpretation udp_failed: keeping_router "udp_host S (still_host t)" "failed e m" for S t e m
  by (rule failed_keeps [OF udp_layered])

interpretation udp_coherent: keeping_router "udp_host S (still_host t)" coherent for S t
  by (rule coherent_keeps [OF udp_layered])

section \<open>The first error\<close>

text \<open>C5: the first error is final. Once the router is in the state \<open>ERROR\<close>, no sequence of
  calls of the library, made by the program or by its callbacks, brings it out of that state or
  changes the error number or the message it reports.\<close>

theorem error_final:
  assumes "layered H" "r_state (w_router w) = RS_ERROR" "acts H w w'"
  shows "r_state (w_router w') = RS_ERROR \<and> r_error (w_router w') = r_error (w_router w) \<and>
    r_errmsg (w_router w') = r_errmsg (w_router w)"
  using keeping_router.acts_kept [OF failed_keeps [OF assms(1)] assms(3),
      of "r_error (w_router w)" "r_errmsg (w_router w)"] assms(2)
  by (simp add: kept_def failed_def core_def)

definition failed_world :: world where
  "failed_world = rt_upd (\<lambda>r. r\<lparr>r_state := RS_ERROR, r_error := ETIME, r_packet := Some full_packet\<rparr>) blank_world"

lemma failed_world_ready:
  "\<exists>w'. trip_ready (still_host 0) failed_world = Some w' \<and> r_statetimer (w_router w') = Some 1"
  by (simp add: trip_ready_def failed_world_def trip_set_state_def router_leave_def router_enter_def
      blank_world_def router_zero_def full_packet_def state_timer_def trip_set_timeout_priv_def w_new_def w_now_def
      timerwheel_add_def call_unbind_def still_host_def triptime_deadline_def call_timeout_def)

theorem error_final_witness:
  "\<exists>w'. trip_ready (still_host 0) failed_world = Some w' \<and> r_statetimer (w_router w') = Some 1 \<and>
     r_state (w_router w') = RS_ERROR \<and> r_error (w_router w') = ETIME \<and> r_errmsg (w_router w') = None"
proof -
  obtain w' where w': "trip_ready (still_host 0) failed_world = Some w'" "r_statetimer (w_router w') = Some 1"
    using failed_world_ready by blast
  then have "acts (still_host 0) failed_world w'"
    by (intro acts.call [OF acts.touch [OF refl], where a = A_ready]) (simp_all add: api_call_def)
  then show ?thesis
    using error_final [OF still_layered, of failed_world 0 w'] w'
    by (simp add: failed_world_def blank_world_def router_zero_def)
qed

text \<open>C6: an error number is reported from the state \<open>ERROR\<close> only. From a router without
  error, whatever the program and its callbacks do, an action returns the router's error number,
  and one other than zero means that the state is \<open>ERROR\<close>.\<close>

theorem error_reported:
  assumes "layered H" "r_error (w_router w) = EOK" "acts H w w'" "trip_action H fd events w' = Some (e, v)"
  shows "e = r_error (w_router v) \<and> (e \<noteq> EOK \<longrightarrow> r_state (w_router v) = RS_ERROR)"
proof
  note k = coherent_keeps [OF assms(1)]
  have "kept coherent w" using assms(2) by (simp add: kept_def coherent_def core_def)
  then have "kept coherent w'" by (rule keeping_router.acts_kept [OF k assms(3)])
  then have "kept coherent v"
    using postD [OF keeping_router.trip_action_kept [OF k] assms(4)] by simp
  moreover show "e = r_error (w_router v)"
    using assms(4) by (auto simp: trip_action_def Option.bind_eq_Some_conv split_def split: if_splits)
  ultimately show "e \<noteq> EOK \<longrightarrow> r_state (w_router v) = RS_ERROR"
    by (simp add: kept_def coherent_def core_def)
qed

theorem error_reported_witness:
  "\<exists>e v. trip_action (still_host 0) 5 0 (rt_upd (\<lambda>r. r\<lparr>r_packet := Some full_packet\<rparr>) blank_world) = Some (e, v) \<and>
     e = EINVAL \<and> r_error (w_router v) = EINVAL \<and> r_state (w_router v) = RS_ERROR"
proof -
  let ?w = "rt_upd (\<lambda>r. r\<lparr>r_packet := Some full_packet\<rparr>) blank_world"
  obtain v where v: "trip_action (still_host 0) 5 0 ?w = Some (EINVAL, v)"
    by (simp add: trip_action_def action_start_def TRIP_SOCKET_TIMEOUT_def trip_set_error_def trip_set_state_def
        router_leave_def router_enter_def w_ok_def
        blank_world_def router_zero_def full_packet_def state_timer_def trip_set_timeout_priv_def w_new_def w_now_def
        timerwheel_add_def call_unbind_def still_host_def triptime_deadline_def call_timeout_def)
  have "r_error (w_router ?w) = EOK" by (simp add: blank_world_def router_zero_def)
  from error_reported [OF still_layered this acts.touch [OF refl] v] v show ?thesis
    by simp
qed

end
