(* ===== verification/Hello.thy ===== *)
theory Hello
  imports Conn
begin

text \<open>
  What the two handshake packets look like on the wire, and that the decoder reads back what
  the encoder wrote. Their formats mix the specifiers of the theory \<open>Wire\<close> with a binary
  string, a sealed part and a signature.
\<close>

section \<open>Single steps of the encoder\<close>

definition sig_of :: "crypto \<Rightarrow> bytes option \<Rightarrow> bytes \<Rightarrow> bytes" where
  "sig_of cr sk msg = (case sk of None \<Rightarrow> replicate (signbytes cr) 0 | Some k \<Rightarrow> sign_detached cr msg k)"

lemma length_sig_of [simp]: "sodium_laws cr \<Longrightarrow> length (sig_of cr sk msg) = signbytes cr"
  by (simp add: sig_of_def sodium_laws_def split: option.split)

lemma pk_next_loop:
  assumes "pk_next pos mem args mk (pack_step cr cap ch st)"
  obtains st' where "pack_loop cr cap (ch # f) st = pack_loop cr cap f st'" "pk_at pos mem args st'"
    "pk_marks st' = mk"
  using assms by (auto simp: pk_next_def)

lemma put_at_app: "put_at (length a) b (a @ c) = a @ b @ drop (length b) c"
  by (simp add: put_at_def)

lemma step_s:
  "pk_at pos mem args st \<Longrightarrow>
     pk_next pos mem args (fst (pk_marks st), pos) (pack_step cr cap CHR ''s'' st)"
  by (simp add: pack_step_def pk_next_def pk_at_def pk_marks_def)

lemma step_b_empty:
  assumes "pk_at pos mem (AInt 0 # APtr p # args) st" "pos + 1 \<le> unat cap" "unat cap \<le> length mem" "unat cap < 2 ^ 63"
  shows "pk_next (pos + 1) (put_at pos [0] mem) args (pk_marks st) (pack_step cr cap CHR ''b'' st)"
proof -
  have room: "pk_room cap k (st\<lparr>pk_args := as\<rparr>) rest = rest (st\<lparr>pk_args := as, pk_size := of_nat (pos + 1)\<rparr>)"
    if "k = 1" for k as rest
    using pk_room_next [of "st\<lparr>pk_args := as\<rparr>" 1 cap k rest] assms that by (simp add: pk_at_def)
  have u: "trip_uvar_len 0 = 0" by code_simp
  show ?thesis
    using assms
    by (simp add: pack_step_def pack_b_def va_int_def va_ptr_def pk_at_def u room pk_next_def pk_emit_eq
        pk_put_def pk_marks_def put_at_def Let_def)
qed

lemma step_o:
  assumes "pk_at pos mem (APtr key # args) st" "pos + sealbytes cr \<le> unat cap" "unat cap < 2 ^ 63" "sodium_laws cr"
  shows "pk_next (pos + sealbytes cr) mem args (pos, snd (pk_marks st)) (pack_step cr cap CHR ''o'' st)"
proof -
  have room: "pk_room cap (of_nat (sealbytes cr)) st rest = rest (st\<lparr>pk_size := of_nat (pos + sealbytes cr)\<rparr>)" for rest
    using pk_room_next [of st "sealbytes cr" cap "of_nat (sealbytes cr)" rest] assms
    by (simp add: pk_at_def sodium_laws_def)
  show ?thesis
    using assms(1)
    by (simp add: pack_step_def pack_o_def room va_ptr_def pk_at_def pk_next_def pk_marks_def)
qed

lemma step_O:
  assumes "pk_at pos mem args st" "pk_marks st = (cs, ss)" "cs + sealbytes cr \<le> length mem"
  shows "pk_next pos (put_at cs (replicate (sealbytes cr) 0) mem) args (cs, ss) (pack_step cr cap CHR ''O'' st)"
  using assms
  by (auto simp: pack_step_def pack_O_def pk_at_def pk_next_def pk_marks_def put_at_def write_at_def)

lemma step_S:
  assumes "pk_at pos mem (APtr sk # args) st" "pk_marks st = (cs, ss)" "ss \<le> pos"
    "pos + signbytes cr \<le> unat cap" "unat cap \<le> length mem" "unat cap < 2 ^ 63" "sodium_laws cr"
  shows "pk_next (pos + signbytes cr) (put_at pos (sig_of cr sk (take (pos - ss) (drop ss mem))) mem) args (cs, ss)
    (pack_step cr cap CHR ''S'' st)"
proof -
  have room: "pk_room cap (of_nat (signbytes cr)) st rest = rest (st\<lparr>pk_size := of_nat (pos + signbytes cr)\<rparr>)" for rest
    using pk_room_next [of st "signbytes cr" cap "of_nat (signbytes cr)" rest] assms
    by (simp add: pk_at_def sodium_laws_def)
  show ?thesis
    using assms
    by (cases sk) (auto simp: pack_step_def pack_S_def room va_ptr_def pk_at_def pk_next_def pk_marks_def
        put_at_def write_at_def read_at_def sig_of_def sodium_laws_def)
qed

section \<open>The two packets\<close>

text \<open>
  A sealed part: \<open>bd\<close> after the room for the seal, which the encoder fills with zeros
  whatever the key, and the signature of all the octets before it.
\<close>

definition hello_octets :: "crypto \<Rightarrow> bytes \<Rightarrow> bytes \<Rightarrow> bytes option \<Rightarrow> bytes" where
  "hello_octets cr p bd sk =
     (let m = p @ replicate (sealbytes cr) 0 @ bd in m @ sig_of cr sk m)"

lemma length_hello_octets [simp]:
  "sodium_laws cr \<Longrightarrow> length (hello_octets cr p bd sk) = length p + sealbytes cr + length bd + signbytes cr"
  by (simp add: hello_octets_def Let_def)

text \<open>From the \<open>o\<close> on, both formats are the same.\<close>

lemma pack_sealed:
  assumes at: "pk_at (length p) (p @ r) (APtr key # args @ [APtr sk]) st" and mk: "snd (pk_marks st) = 0"
    and w: "wire cr format args = Some (bd, outs)" and cr: "sodium_laws cr"
    and fit: "length (hello_octets cr p bd sk) \<le> unat cap" and cap: "unat cap \<le> length (p @ r)" "unat cap < 2 ^ 63"
  shows "\<exists>st'. pack_loop cr cap (CHR ''o'' # format @ ''OS'') st = Some st' \<and>
    pk_at (length (hello_octets cr p bd sk))
      (hello_octets cr p bd sk @ drop (sealbytes cr + length bd + signbytes cr) r) [] st'"
proof -
  let ?z = "replicate (sealbytes cr) (0 :: u8)"
  have fit': "length p + sealbytes cr + length bd + signbytes cr \<le> unat cap" using fit cr by simp
  obtain st1 where 1: "pack_loop cr cap (CHR ''o'' # format @ ''OS'') st = pack_loop cr cap (format @ ''OS'') st1"
    "pk_at (length p + sealbytes cr) (p @ r) (args @ [APtr sk]) st1" "pk_marks st1 = (length p, 0)"
    by (rule pk_next_loop [OF step_o [OF at _ cap(2) cr], of "format @ ''OS''"])
      (use fit' mk in \<open>simp_all del: pack_loop.simps\<close>)
  define g where "g = take (sealbytes cr) r"
  define r1 where "r1 = drop (sealbytes cr) r"
  have r: "r = g @ r1" "length g = sealbytes cr"
    using fit' cap by (simp_all add: g_def r1_def)
  have put: "put_at (length p + sealbytes cr) bd (p @ r) = p @ g @ bd @ drop (length bd) r1"
    using put_at_app [of "p @ g" bd r1] r by simp
  obtain st2 where 2: "pack_loop cr cap (format @ ''OS'') st1 = pack_loop cr cap ''OS'' st2"
    "pk_at (length p + sealbytes cr + length bd) (p @ g @ bd @ drop (length bd) r1) [APtr sk] st2"
    "pk_marks st2 = (length p, 0)"
    using pack_loop_wire_then [OF w 1(2) _ cap cr, of "''OS''"] fit' 1(3) put by auto
  have put: "put_at (length p) ?z (p @ g @ bd @ drop (length bd) r1) = p @ ?z @ bd @ drop (length bd) r1"
    using put_at_app [of p ?z "g @ bd @ drop (length bd) r1"] r(2) by simp
  obtain st3 where 3: "pack_loop cr cap ''OS'' st2 = pack_loop cr cap ''S'' st3"
    "pk_at (length p + sealbytes cr + length bd) (p @ ?z @ bd @ drop (length bd) r1) [APtr sk] st3"
    "pk_marks st3 = (length p, 0)"
    by (rule pk_next_loop [OF step_O [OF 2(2,3), of cr cap], of "''S''"])
      (use r put in \<open>simp_all del: pack_loop.simps\<close>)
  let ?m = "p @ ?z @ bd"
  let ?m = "p @ ?z @ bd"
  let ?n = "length p + sealbytes cr + length bd"
  have sg: "put_at ?n (sig_of cr sk (take (?n - 0) (drop 0 (p @ ?z @ bd @ drop (length bd) r1)))) (p @ ?z @ bd @ drop (length bd) r1)
      = hello_octets cr p bd sk @ drop (signbytes cr) (drop (length bd) r1)"
    using put_at_app [of ?m "sig_of cr sk ?m" "drop (length bd) r1"] cr by (simp add: hello_octets_def Let_def add.assoc)
  obtain st4 where 4: "pack_loop cr cap ''S'' st3 = pack_loop cr cap [] st4"
    "pk_at (?n + signbytes cr) (hello_octets cr p bd sk @ drop (signbytes cr) (drop (length bd) r1)) [] st4"
    by (rule pk_next_loop [OF step_S [OF 3(2,3) _ _ _ cap(2) cr, unfolded sg], of "[]"])
      (use fit' cap r in \<open>simp_all del: pack_loop.simps\<close>)
  have "pack_loop cr cap (CHR ''o'' # format @ ''OS'') st = Some st4"
    by (simp only: 1(1) 2(1) 3(1) 4(1) pack_loop.simps(1))
  moreover have "drop (signbytes cr) (drop (length bd) r1) = drop (sealbytes cr + length bd + signbytes cr) r"
    by (simp add: r1_def ac_simps)
  ultimately show ?thesis using 4(2) cr by (intro exI [of _ st4]) simp
qed

definition pk_start :: "bytes \<Rightarrow> varg list \<Rightarrow> packst" where
  "pk_start buf args = \<lparr>pk_size = 0, pk_pos = 0, pk_mem = buf, pk_sigstart = 0, pk_cryptstart = 0,
     pk_key = None, pk_args = args\<rparr>"

lemma trip_pack_start:
  "pack_loop cr cap format (pk_start buf args) = Some st \<Longrightarrow> pk_at n mem [] st \<Longrightarrow>
     trip_pack cr cap buf format args = Some (of_nat n, mem)"
  by (simp add: trip_pack_def pk_start_def pk_at_def)

lemma pack_hello_start:
  assumes w: "wire cr format args = Some (p, outs)" and cr: "sodium_laws cr"
    and fit: "length p \<le> unat cap" "unat cap \<le> length buf" "unat cap < 2 ^ 63"
  obtains st where
    "pack_loop cr cap (CHR ''s'' # format @ rest) (pk_start buf (args @ extra)) = pack_loop cr cap rest st"
    "pk_at (length p) (p @ drop (length p) buf) extra st" "snd (pk_marks st) = 0"
proof -
  have at: "pk_at 0 buf (args @ extra) (pk_start buf (args @ extra))"
    by (simp add: pk_start_def pk_at_def)
  obtain st1 where 1: "pack_loop cr cap (CHR ''s'' # format @ rest) (pk_start buf (args @ extra)) =
      pack_loop cr cap (format @ rest) st1"
    "pk_at 0 buf (args @ extra) st1" "snd (pk_marks st1) = 0"
    by (rule pk_next_loop [OF step_s [OF at, of cr cap], of "format @ rest"])
      (simp_all del: pack_loop.simps)
  have "put_at 0 p buf = p @ drop (length p) buf" by (simp add: put_at_def)
  then show ?thesis
    using pack_loop_wire_then [OF w 1(2) _ fit(2,3) cr, of rest] fit(1) 1 that by auto
qed

lemma pack_open:
  assumes p: "wire cr ''CQWH'' a1 = Some (p, o1)" and bd: "wire cr ''QnkIIII'' a2 = Some (bd, o2)"
    and cr: "sodium_laws cr" and n: "n = length (hello_octets cr (p @ [0]) bd sk)"
    and fit: "n \<le> unat cap" "unat cap \<le> length buf" "unat cap < 2 ^ 63"
  shows "trip_pack cr cap buf open_format (a1 @ AInt 0 # APtr None # APtr key # a2 @ [APtr sk]) =
    Some (of_nat n, hello_octets cr (p @ [0]) bd sk @ drop n buf)"
proof -
  have n': "n = length p + 1 + sealbytes cr + length bd + signbytes cr" using n cr by simp
  have f: "open_format = CHR ''s'' # ''CQWH'' @ CHR ''b'' # CHR ''o'' # ''QnkIIII'' @ ''OS''"
    by (simp add: open_format_def)
  obtain st where 1: "pack_loop cr cap open_format (pk_start buf (a1 @ AInt 0 # APtr None # APtr key # a2 @ [APtr sk])) =
      pack_loop cr cap (CHR ''b'' # CHR ''o'' # ''QnkIIII'' @ ''OS'') st"
    "pk_at (length p) (p @ drop (length p) buf) (AInt 0 # APtr None # APtr key # a2 @ [APtr sk]) st"
    "snd (pk_marks st) = 0"
    unfolding f using n' fit by (elim pack_hello_start [OF p cr, rotated 3]) simp_all
  have put: "put_at (length p) [0] (p @ drop (length p) buf) = (p @ [0]) @ drop (Suc (length p)) buf"
    using put_at_app [of p "[0]"] by simp
  obtain st1 where 2: "pack_loop cr cap (CHR ''b'' # CHR ''o'' # ''QnkIIII'' @ ''OS'') st =
      pack_loop cr cap (CHR ''o'' # ''QnkIIII'' @ ''OS'') st1"
    "pk_at (length (p @ [0])) ((p @ [0]) @ drop (Suc (length p)) buf) (APtr key # a2 @ [APtr sk]) st1"
    "snd (pk_marks st1) = 0"
    by (rule pk_next_loop [OF step_b_empty [OF 1(2)], of cap cr "CHR ''o'' # ''QnkIIII'' @ ''OS''"])
      (use n' fit put 1(3) in \<open>simp_all del: pack_loop.simps\<close>)
  have d: "drop (sealbytes cr + length bd + signbytes cr) (drop (Suc (length p)) buf) = drop n buf"
    by (simp add: n' ac_simps)
  have "unat cap \<le> length ((p @ [0]) @ drop (Suc (length p)) buf)" using n' fit by simp
  from pack_sealed [OF 2(2,3) bd cr _ this fit(3)] obtain st2 where
    "pack_loop cr cap (CHR ''o'' # ''QnkIIII'' @ ''OS'') st1 = Some st2"
    "pk_at n (hello_octets cr (p @ [0]) bd sk @ drop n buf) [] st2"
    unfolding d n [symmetric] using fit by blast
  then show ?thesis by (intro trip_pack_start) (simp_all only: 1(1) 2(1))
qed

lemma pack_chal:
  assumes p: "wire cr ''CQW'' a1 = Some (p, o1)" and bd: "wire cr ''QnkIIII'' a2 = Some (bd, o2)"
    and cr: "sodium_laws cr" and n: "n = length (hello_octets cr p bd sk)"
    and fit: "n \<le> unat cap" "unat cap \<le> length buf" "unat cap < 2 ^ 63"
  shows "trip_pack cr cap buf chal_format (a1 @ APtr key # a2 @ [APtr sk]) =
    Some (of_nat n, hello_octets cr p bd sk @ drop n buf)"
proof -
  have n': "n = length p + sealbytes cr + length bd + signbytes cr" using n cr by simp
  have f: "chal_format = CHR ''s'' # ''CQW'' @ CHR ''o'' # ''QnkIIII'' @ ''OS''"
    by (simp add: chal_format_def)
  obtain st where 1: "pack_loop cr cap chal_format (pk_start buf (a1 @ APtr key # a2 @ [APtr sk])) =
      pack_loop cr cap (CHR ''o'' # ''QnkIIII'' @ ''OS'') st"
    "pk_at (length p) (p @ drop (length p) buf) (APtr key # a2 @ [APtr sk]) st"
    "snd (pk_marks st) = 0"
    unfolding f using n' fit by (elim pack_hello_start [OF p cr, rotated 3]) simp_all
  have d: "drop (sealbytes cr + length bd + signbytes cr) (drop (length p) buf) = drop n buf"
    by (simp add: n' ac_simps)
  have "unat cap \<le> length (p @ drop (length p) buf)" using n' fit by simp
  from pack_sealed [OF 1(2,3) bd cr _ this fit(3)] obtain st2 where
    "pack_loop cr cap (CHR ''o'' # ''QnkIIII'' @ ''OS'') st = Some st2"
    "pk_at n (hello_octets cr p bd sk @ drop n buf) [] st2"
    unfolding d n [symmetric] using fit by blast
  then show ?thesis by (intro trip_pack_start) (simp_all only: 1(1))
qed

section \<open>What the decoder makes of them\<close>

text \<open>The sizes of libsodium, and signatures that verify.\<close>

definition sodium_sizes :: "crypto \<Rightarrow> bool" where
  "sodium_sizes cr \<longleftrightarrow> sodium_laws cr \<and> sealbytes cr = 48 \<and> signbytes cr = 64 \<and> noncebytes cr = 24 \<and>
     pkbytes cr = 32"

definition verifies :: "crypto \<Rightarrow> bytes option \<Rightarrow> bytes option \<Rightarrow> bool" where
  "verifies cr sk pk \<longleftrightarrow>
     (\<forall>key. pk = Some key \<longrightarrow> (\<exists>k. sk = Some k \<and> (\<forall>m. verify_detached cr (sign_detached cr m k) m key)))"

definition hello_limits :: connlim where
  "hello_limits = \<lparr>lim_credit = 128000, lim_stream = 8, lim_message_size = 65536, lim_message = 128\<rparr>"

definition body_args :: "u64 \<Rightarrow> bytes option \<Rightarrow> bytes option \<Rightarrow> varg list" where
  "body_args i nonce pk = [ALong i, APtr nonce, APtr pk, AInt 128000, AInt 8, AInt 65536, AInt 128]"

lemma wire_body:
  assumes "sodium_sizes cr" "copy_or_zero 24 nonce = Some nb" "copy_or_zero 32 pk = Some kb"
  obtains bd outs where "wire cr ''QnkIIII'' (body_args i nonce pk) = Some (bd, outs)" "length bd = 80"
    "hello_fields outs = Some (i, nb, kb, hello_limits)" "length nb = 24" "length kb = 32"
proof -
  have "length nb = 24" "length kb = 32" using assms(2,3) by (simp_all add: copy_or_zero_length)
  then show ?thesis
    using assms that by (simp add: sodium_sizes_def body_args_def wire_item_code hello_fields_def hello_limits_def)
qed

lemma wire_prefix:
  assumes "seq < 256"
  obtains p where "wire cr ''CQW'' [AInt x, ALong i, ALong seq] = Some (p, [O8 (ucast x), O64 i, O64 seq])"
    "10 \<le> length p" "length p \<le> 11"
proof -
  have "trip_uvar_len seq \<le> 1"
    by (rule trip_uvar_len_bound) (use assms in simp_all)
  then show ?thesis
    using that assms by (simp add: wire_item_code Let_def uvar_read_W)
qed

text \<open>An empty binary string, and the room for a seal.\<close>

lemma word_not_less_le: "k \<le> (b :: u64) \<Longrightarrow> (b < k) = False"
  by simp

lemma unpack_Hb:
  "3 \<le> blen \<Longrightarrow> trip_unpack cr blen (0 # 0 # 0 # r) ''Hb'' = Some (3, [O16 0, O32 0, OPtr 3])"
proof -
  assume b: "3 \<le> blen"
  then have "2 \<le> blen" by (simp add: word_le_nat_alt)
  with b show ?thesis
    by (simp add: trip_unpack_def unpack_step_def unpack_H_def unpack_b_def up_need_def up_give_def Let_def
        word_not_less_le read_at_def read_uvar_def TRIPPACK_MAX_VAR_def)
qed

lemma unpack_oO: "sealbytes cr = 48 \<Longrightarrow> 48 \<le> blen \<Longrightarrow> trip_unpack cr blen buf ''oO'' = Some (48, [])"
  by (simp add: trip_unpack_def unpack_step_def unpack_o_def up_need_def word_not_less_le)

lemma unpack_sealed_body:
  assumes "wire cr ''QnkIIII'' args = Some (bd, outs)" "sealbytes cr = 48" "length bd = 80"
  shows "trip_unpack cr 128 (replicate 48 z @ bd @ r) ''oQnkIIIIO'' = Some (128, outs)"
proof -
  have f: "''oQnkIIIIO'' = CHR ''o'' # ''QnkIIII'' @ ''O''" by simp
  have at: "up_at 48 [] \<lparr>up_len = 48, up_pos = 48, up_out = []\<rparr>" by (simp add: up_at_def)
  have "\<exists>st'. unpack_loop cr 128 (replicate 48 z @ bd @ r) (''QnkIIII'' @ ''O'') \<lparr>up_len = 48, up_pos = 48, up_out = []\<rparr>
      = unpack_loop cr 128 (replicate 48 z @ bd @ r) ''O'' st' \<and> up_at (48 + length bd) ([] @ outs) st'"
    by (rule unpack_loop_wire_then [OF assms(1) at, where pre = "replicate 48 z"]) (use assms in simp_all)
  then obtain st' where st': "unpack_loop cr 128 (replicate 48 z @ bd @ r) (''QnkIIII'' @ ''O'')
      \<lparr>up_len = 48, up_pos = 48, up_out = []\<rparr> = Some st'" "up_at 128 outs st'"
    using assms(3) by (auto simp: unpack_step_def)
  have "unpack_loop cr 128 buf (CHR ''o'' # g) \<lparr>up_len = 0, up_pos = 0, up_out = []\<rparr> =
      unpack_loop cr 128 buf g \<lparr>up_len = 48, up_pos = 48, up_out = []\<rparr>" for buf g
    using assms(2) by (simp add: unpack_step_def unpack_o_def up_need_def)
  then show ?thesis
    unfolding trip_unpack_def f using st' by (simp only: option.map up_at_def) simp
qed

text \<open>The signature of a handshake packet verifies.\<close>

lemma unsign_hello:
  assumes "sodium_laws cr" "verifies cr sk pk" "pk \<noteq> None" "p \<noteq> []"
    and n: "n = length (hello_octets cr p bd sk)" "n < 2 ^ 63"
  shows "trip_unsign cr (of_nat n) (hello_octets cr p bd sk @ r) pk = Some EOK"
proof -
  obtain key k where k: "pk = Some key" "sk = Some k" "\<And>m. verify_detached cr (sign_detached cr m k) m key"
    using assms by (auto simp: verifies_def)
  let ?m = "p @ replicate (sealbytes cr) 0 @ bd"
  have n': "n = length ?m + signbytes cr" using assms by simp
  have u: "unat (of_nat n :: u64) = n" "unat (of_nat (signbytes cr) :: u64) = signbytes cr"
    using n n' by (simp_all add: unat_of_nat_small)
  have "(of_nat n :: u64) - of_nat (signbytes cr) = of_nat (length ?m)"
    by (simp add: n')
  moreover have "unat (of_nat (length ?m) :: u64) = length ?m"
    using n n' by (intro unat_of_nat_small) simp
  moreover have "\<not> (of_nat n :: u64) \<le> of_nat (signbytes cr)"
    unfolding word_le_nat_alt u using n' assms(4) by (cases p) simp_all
  moreover have "read_at (length ?m) (signbytes cr) (hello_octets cr p bd sk @ r) = Some (sig_of cr sk ?m)"
    "read_at 0 (length ?m) (hello_octets cr p bd sk @ r) = Some ?m"
    using assms(1) by (simp_all add: hello_octets_def Let_def read_at_def)
  ultimately show ?thesis using k by (simp add: trip_unsign_def Let_def sig_of_def)
qed

section \<open>Sending and reading them\<close>

text \<open>What a connection says of itself: the octets before and after the seal.\<close>

definition says :: "crypto \<Rightarrow> u32 \<Rightarrow> u64 \<Rightarrow> connself \<Rightarrow> bytes \<Rightarrow> bytes \<Rightarrow> uout list \<Rightarrow> u64 \<times> bytes \<times> bytes \<times> connlim \<Rightarrow> bool" where
  "says cr ctl i k p bd outs f \<longleftrightarrow>
     wire cr ''CQW'' [AInt ctl, ALong i, ALong (self_sequence k)] =
       Some (p, [O8 (ucast ctl), O64 i, O64 (self_sequence k)]) \<and> 10 \<le> length p \<and> length p \<le> 11 \<and>
     wire cr ''QnkIIII'' (body_args (self_id k) (self_nonce k) (self_pk k)) = Some (bd, outs) \<and>
     length bd = 80 \<and> hello_fields outs = Some f \<and> (\<exists>nb kb. f = (self_id k, nb, kb, hello_limits) \<and>
       length nb = 24 \<and> length kb = 32 \<and> copy_or_zero 24 (self_nonce k) = Some nb \<and> copy_or_zero 32 (self_pk k) = Some kb)"

lemma says_ex:
  assumes "sodium_sizes cr" "self_sequence k < 256"
    "copy_or_zero 24 (self_nonce k) \<noteq> None" "copy_or_zero 32 (self_pk k) \<noteq> None"
  obtains p bd outs f where "says cr ctl i k p bd outs f"
proof -
  obtain nb kb where nk: "copy_or_zero 24 (self_nonce k) = Some nb" "copy_or_zero 32 (self_pk k) = Some kb"
    using assms by blast
  obtain p where "wire cr ''CQW'' [AInt ctl, ALong i, ALong (self_sequence k)] =
       Some (p, [O8 (ucast ctl), O64 i, O64 (self_sequence k)])" "10 \<le> length p" "length p \<le> 11"
    using wire_prefix [OF assms(2)] by blast
  moreover obtain bd outs where "wire cr ''QnkIIII'' (body_args (self_id k) (self_nonce k) (self_pk k)) = Some (bd, outs)"
    "length bd = 80" "hello_fields outs = Some (self_id k, nb, kb, hello_limits)" "length nb = 24" "length kb = 32"
    using wire_body [OF assms(1) nk, of "self_id k"] by blast
  ultimately show ?thesis using that nk by (auto simp: says_def)
qed

abbreviation sent_one :: "addr \<Rightarrow> connection \<Rightarrow> world \<Rightarrow> world" where
  "sent_one c k w \<equiv> w\<lparr>h_conn := (h_conn w)(c \<mapsto> k\<lparr>c_self := (c_self k)\<lparr>self_sequence :=
     self_sequence (c_self k) + 1\<rparr>, c_hassend := False\<rparr>)\<rparr>"

definition open_control :: "connection \<Rightarrow> u32" where
  "open_control k = ucast (CONTROL_OPEN OR (if peer_openpk (c_peer k) \<noteq> None then PREFIX_EMASK else 0))"

definition chal_control :: "connection \<Rightarrow> u32" where
  "chal_control k = ucast (CONTROL_CHAL OR (if peer_pk (c_peer k) \<noteq> None then PREFIX_EMASK else 0))"

lemma trip_dump_ok: "unat len \<le> length buf \<Longrightarrow> trip_dump len buf = Some ()"
  by (simp add: trip_dump_def read_at_def)

lemma packi16_0: "packi16 0 = [0, 0]"
  by code_simp

lemma send_open_octets:
  assumes cr: "sodium_sizes (ho_crypto H)" and k: "h_conn w c = Some k" "c_state k = CS_OPEN" "c_hassend k"
    and s: "says (ho_crypto H) (open_control k) (self_id (c_self k)) (c_self k) p bd outs f"
    and buf: "1200 \<le> length buf" and n: "n = length p + 195"
  shows "tripc_send H c 1200 buf w = Some (of_nat n,
    hello_octets (ho_crypto H) (p @ [0, 0, 0]) bd (self_signsk (c_self k)) @ drop n buf, sent_one c k w)"
proof -
  let ?cr = "ho_crypto H"
  let ?a = "[AInt (open_control k), ALong (self_id (c_self k)), ALong (self_sequence (c_self k)), AInt 0]"
  have p: "wire ?cr ''CQWH'' ?a = Some (p @ [0, 0],
      [O8 (ucast (open_control k)), O64 (self_id (c_self k)), O64 (self_sequence (c_self k)), O16 0])"
  proof -
    have w: "wire ?cr ''CQWH'' ?a = do { (x, ox) \<leftarrow> wire ?cr ''CQW'' (take 3 ?a); Some (x @ [0, 0], ox @ [O16 0]) }"
      by (simp add: wire_item_code Let_def packi16_0 split: Option.bind_split)
    show ?thesis unfolding w using s by (simp add: says_def)
  qed
  have bd: "wire ?cr ''QnkIIII'' (body_args (self_id (c_self k)) (self_nonce (c_self k)) (self_pk (c_self k))) = Some (bd, outs)"
    "length bd = 80" "10 \<le> length p" "length p \<le> 11"
    using s by (simp_all add: says_def)
  have cr': "sodium_laws ?cr" using cr by (simp add: sodium_sizes_def)
  have n': "n = length (hello_octets ?cr ((p @ [0, 0]) @ [0]) bd (self_signsk (c_self k)))"
    using n bd cr cr' by (simp add: sodium_sizes_def)
  have args: "open_args k (self_sequence (c_self k)) = ?a @ AInt 0 # APtr None # APtr (peer_openpk (c_peer k)) #
      body_args (self_id (c_self k)) (self_nonce (c_self k)) (self_pk (c_self k)) @ [APtr (self_signsk (c_self k))]"
    by (simp add: open_args_def body_args_def open_control_def TRIP_VERSION_MAJOR_def)
  have u: "unat (of_nat n :: u64) = n" using n bd by (intro unat_of_nat_small) simp
  have d: "trip_dump (of_nat n) (hello_octets ?cr ((p @ [0, 0]) @ [0]) bd (self_signsk (c_self k)) @ drop n buf) = Some ()"
    by (rule trip_dump_ok) (use u n' in simp)
  have "trip_pack ?cr 1200 buf open_format (open_args k (self_sequence (c_self k))) =
      Some (of_nat n, hello_octets ?cr ((p @ [0, 0]) @ [0]) bd (self_signsk (c_self k)) @ drop n buf)"
    unfolding args by (rule pack_open [OF p bd(1) cr' n']) (use n bd buf in simp_all)
  then show ?thesis
    using k d
    by (simp add: tripc_send_def send_once_def tripc_send_open_def tripc_seq_def conn_upd_def heap_upd_def)
qed

lemma send_chal_octets:
  assumes cr: "sodium_sizes (ho_crypto H)" and k: "h_conn w c = Some k" "c_state k = CS_CHAL" "c_hassend k"
    and s: "says (ho_crypto H) (chal_control k) (peer_id (c_peer k)) (c_self k) p bd outs f"
    and buf: "1200 \<le> length buf" and n: "n = length p + 192"
  shows "tripc_send H c 1200 buf w = Some (of_nat n,
    hello_octets (ho_crypto H) p bd (self_signsk (c_self k)) @ drop n buf, sent_one c k w)"
proof -
  let ?cr = "ho_crypto H"
  let ?a = "[AInt (chal_control k), ALong (peer_id (c_peer k)), ALong (self_sequence (c_self k))]"
  have p: "wire ?cr ''CQW'' ?a = Some (p,
      [O8 (ucast (chal_control k)), O64 (peer_id (c_peer k)), O64 (self_sequence (c_self k))])"
    and bd: "wire ?cr ''QnkIIII'' (body_args (self_id (c_self k)) (self_nonce (c_self k)) (self_pk (c_self k))) = Some (bd, outs)"
    "length bd = 80" "10 \<le> length p" "length p \<le> 11"
    using s by (simp_all add: says_def)
  have cr': "sodium_laws ?cr" using cr by (simp add: sodium_sizes_def)
  have n': "n = length (hello_octets ?cr p bd (self_signsk (c_self k)))"
    using n bd cr cr' by (simp add: sodium_sizes_def)
  have args: "chal_args k (self_sequence (c_self k)) = ?a @ APtr (peer_openpk (c_peer k)) #
      body_args (self_id (c_self k)) (self_nonce (c_self k)) (self_pk (c_self k)) @ [APtr (self_signsk (c_self k))]"
    by (simp add: chal_args_def body_args_def chal_control_def)
  have u: "unat (of_nat n :: u64) = n" using n bd by (intro unat_of_nat_small) simp
  have d: "trip_dump (of_nat n) (hello_octets ?cr p bd (self_signsk (c_self k)) @ drop n buf) = Some ()"
    by (rule trip_dump_ok) (use u n' in simp)
  have "trip_pack ?cr 1200 buf chal_format (chal_args k (self_sequence (c_self k))) =
      Some (of_nat n, hello_octets ?cr p bd (self_signsk (c_self k)) @ drop n buf)"
    unfolding args by (rule pack_chal [OF p bd(1) cr' n']) (use n bd buf in simp_all)
  then show ?thesis
    using k d
    by (simp add: tripc_send_def send_once_def tripc_send_chal_def tripc_seq_def conn_upd_def heap_upd_def)
qed

text \<open>What a connection makes of what its peer says.\<close>

definition accepted :: "u64 \<times> bytes \<times> bytes \<times> connlim \<Rightarrow> connpeer \<Rightarrow> connpeer" where
  "accepted f p = (let (i, nb, kb, lim) = f; p = p\<lparr>peer_id := i, peer_lim := lim\<rparr> in
     if (\<forall>b \<in> set nb. b = 0) \<or> (\<forall>b \<in> set kb. b = 0) then p
     else p\<lparr>peer_nonce := Some nb, peer_pk := Some kb\<rparr>)"

abbreviation heard :: "addr \<Rightarrow> connection \<Rightarrow> u64 \<times> bytes \<times> bytes \<times> connlim \<Rightarrow> world \<Rightarrow> nat \<Rightarrow> world" where
  "heard c k f w t \<equiv> w\<lparr>h_conn := (h_conn w)(c \<mapsto> k\<lparr>c_peer := accepted f (c_peer k)\<rparr>), w_tick := t\<rparr>"

lemma accept_hello_eq:
  assumes "h_conn w c = Some k" "f = (i, nb, kb, lim)" "length nb = 24" "length kb = 32"
    "sodium_sizes (ho_crypto H)" "\<forall>n. ho_alloc H n"
  obtains t where "accept_hello H c f w = Some (EOK, heard c k f w t)"
proof -
  have "are_zeros 24 nb = Some (\<forall>b \<in> set nb. b = 0)" "are_zeros 32 kb = Some (\<forall>b \<in> set kb. b = 0)"
    using assms by (simp_all add: are_zeros_eq)
  then have "accept_hello H c f w = Some (EOK, heard c k f w
      (if (\<forall>b \<in> set nb. b = 0) \<or> (\<forall>b \<in> set kb. b = 0) then w_tick w else w_tick w + 2))"
    using assms
    by (auto simp: accept_hello_def accepted_def sodium_sizes_def conn_upd_def heap_upd_def w_ok_def Let_def)
  then show ?thesis by (rule that)
qed

lemma parse_open_hello:
  assumes "h_conn w c = Some k" "says (ho_crypto H) ctl i s p bd outs f"
    "sodium_sizes (ho_crypto H)" "\<forall>n. ho_alloc H n"
  obtains t where "tripc_parse_open H c 80 (bd @ r) w = Some (EOK, heard c k f w t)"
proof -
  from assms(2) obtain nb kb where f: "f = (self_id s, nb, kb, hello_limits)" "length nb = 24" "length kb = 32"
    and bd: "wire (ho_crypto H) ''QnkIIII'' (body_args (self_id s) (self_nonce s) (self_pk s)) = Some (bd, outs)"
    "length bd = 80" "hello_fields outs = Some f"
    by (auto simp: says_def)
  have "trip_unpack (ho_crypto H) 80 (bd @ r) ''QnkIIII'' = Some (80, outs)"
    using trip_unpack_wire [OF bd(1), of 80 r] bd(2) by simp
  moreover have "trip_dump 80 (bd @ r) = Some ()"
    by (rule trip_dump_ok) (use bd in simp)
  ultimately show ?thesis
    using accept_hello_eq [OF assms(1) f assms(3,4)] bd(3) that by (auto simp: tripc_parse_open_def)
qed

lemma parse_chal_hello:
  assumes "h_conn w c = Some k" "says (ho_crypto H) ctl i s p bd outs f"
    "sodium_sizes (ho_crypto H)" "\<forall>n. ho_alloc H n"
  obtains t where "tripc_parse_chal H c 128 (replicate 48 0 @ bd @ r) w = Some (EOK, heard c k f w t)"
proof -
  from assms(2) obtain nb kb where f: "f = (self_id s, nb, kb, hello_limits)" "length nb = 24" "length kb = 32"
    and bd: "wire (ho_crypto H) ''QnkIIII'' (body_args (self_id s) (self_nonce s) (self_pk s)) = Some (bd, outs)"
    "length bd = 80" "hello_fields outs = Some f"
    by (auto simp: says_def)
  have "trip_unpack (ho_crypto H) 128 (replicate 48 0 @ bd @ r) ''oQnkIIIIO'' = Some (128, outs)"
    by (rule unpack_sealed_body [OF bd(1)]) (use assms bd in \<open>simp_all add: sodium_sizes_def\<close>)
  moreover have "trip_dump 128 (replicate 48 0 @ bd @ r) = Some ()"
    by (rule trip_dump_ok) (use bd in simp)
  ultimately show ?thesis
    using accept_hello_eq [OF assms(1) f assms(3,4)] bd(3) that by (auto simp: tripc_parse_chal_def)
qed

end
