(* ===== verification/Handshake.thy ===== *)
theory Handshake
  imports Router Hosts Hello
begin

text \<open>
  The handshake between two routers: what one sends to open a connection makes the other one
  hold a connection that knows its peer, and the answer brings the first one to its ping.
\<close>

section \<open>Connections but for the send queue\<close>

text \<open>Two heaps that agree but for the fields in which the send queue lives.\<close>

definition bare :: "connection \<Rightarrow> connection" where
  "bare k = k\<lparr>c_next := None, c_insend := False, c_hassend := False\<rparr>"

definition heap_sim :: "connection heap \<Rightarrow> connection heap \<Rightarrow> bool" where
  "heap_sim h h' \<longleftrightarrow> (\<forall>a. map_option bare (h a) = map_option bare (h' a))"

lemma bare_field: "bare k = bare k' \<Longrightarrow> (\<And>x. f (bare x) = f x) \<Longrightarrow> f k = f k'"
  by metis

lemma bare_self: "bare k = bare k' \<Longrightarrow> c_self k = c_self k'"
  by (rule bare_field) (simp_all add: bare_def)

lemma heap_sim_refl [simp]: "heap_sim h h"
  by (simp add: heap_sim_def)

lemma heap_sim_trans: "heap_sim h h' \<Longrightarrow> heap_sim h' h'' \<Longrightarrow> heap_sim h h''"
  by (simp add: heap_sim_def)

lemma heap_simD: "heap_sim h h' \<Longrightarrow> h a = Some k \<Longrightarrow> \<exists>k'. h' a = Some k' \<and> bare k' = bare k"
  unfolding heap_sim_def by (metis map_option_eq_Some)

lemma heap_sim_id: "heap_sim h h' \<Longrightarrow> conn_id h' = conn_id h"
proof
  fix a
  assume "heap_sim h h'"
  then have "map_option bare (h a) = map_option bare (h' a)" by (simp add: heap_sim_def)
  then show "conn_id h' a = conn_id h a"
    by (cases "h a"; cases "h' a") (auto simp: conn_id_def dest: bare_self)
qed

text \<open>The connection map sees the identifiers only.\<close>

lemma connmap_same_ids:
  assumes "conn_id h' = conn_id h"
  shows "connmap_ok h' m \<longleftrightarrow> connmap_ok h m" "cm_holds h' m = cm_holds h m"
  using assms by (simp_all add: connmap_ok_def cm_holds_def [abs_def])

lemma connmap_more_conns:
  assumes "connmap_ok h m" "h a = None"
  shows "connmap_ok (h(a \<mapsto> k)) m" "cm_holds (h(a \<mapsto> k)) m x c \<longleftrightarrow> cm_holds h m x c"
proof -
  have live: "conn_id h c \<noteq> None" if "i < cm_cap m" "cm_slots m ! i = Used c" for i c
    using connmap_ok_live [OF assms(1) that] by auto
  then have off: "c \<noteq> a" if "i < cm_cap m" "cm_slots m ! i = Used c" for i c
    using live [OF that] assms(2) by (auto simp: conn_id_def)
  then have "conn_id (h(a \<mapsto> k)) c = conn_id h c" if "i < cm_cap m" "cm_slots m ! i = Used c" for i c
    using that by (auto simp: conn_id_def)
  then show "connmap_ok (h(a \<mapsto> k)) m" "cm_holds (h(a \<mapsto> k)) m x c \<longleftrightarrow> cm_holds h m x c"
    using assms(1) unfolding connmap_ok_def cm_holds_def by metis+
qed

section \<open>Asking to send\<close>

text \<open>A host that has memory, with the poll loop's timeout hook or none needed.\<close>

definition runs_fine :: "host \<Rightarrow> router \<Rightarrow> bool" where
  "runs_fine H r \<longleftrightarrow> (\<forall>n. ho_alloc H n) \<and> r_timeout r = Some HPoll \<and> r_poll r \<noteq> None"

text \<open>The router but for the send queue and the deadline of the poll loop.\<close>

definition bare_router :: "router \<Rightarrow> router" where
  "bare_router r = r\<lparr>r_sendq := sendq_init, r_poll := None\<rparr>"

definition stays :: "router \<Rightarrow> router \<Rightarrow> bool" where
  "stays r r' \<longleftrightarrow> bare_router r' = bare_router r \<and> (r_poll r \<noteq> None \<longrightarrow> r_poll r' \<noteq> None)"

lemma stays_field: "stays r r' \<Longrightarrow> (\<And>x. f (bare_router x) = f x) \<Longrightarrow> f r' = f r"
  by (metis stays_def)

lemma stays_refl [simp]: "stays r r"
  by (simp add: stays_def)

lemma stays_trans: "stays r r' \<Longrightarrow> stays r' r'' \<Longrightarrow> stays r r''"
  by (auto simp: stays_def)

lemma stays_fine: "stays r r' \<Longrightarrow> runs_fine H r \<Longrightarrow> runs_fine H r'"
  using stays_field [of r r' r_timeout] by (simp add: runs_fine_def stays_def bare_router_def)

text \<open>Setting a timer touches the poll loop's deadline, the wheel and the counters.\<close>

definition quiet_step :: "world \<Rightarrow> world \<Rightarrow> bool" where
  "quiet_step w w' \<longleftrightarrow> h_conn w' = h_conn w \<and> h_strm w' = h_strm w \<and> h_msg w' = h_msg w \<and>
     stays (w_router w) (w_router w') \<and> r_sendq (w_router w') = r_sendq (w_router w) \<and> w_brk w \<le> w_brk w'"

definition timer_at :: "host \<Rightarrow> nat \<Rightarrow> int \<Rightarrow> ptr \<Rightarrow> timer_cb \<Rightarrow> ptr \<Rightarrow> timer_cb timer_entry" where
  "timer_at H i ms data cb n = \<lparr>te_deadline = triptime_deadline (triptime_now (ho_clock H i)) ms, te_data = data,
     te_cb = Some cb, te_next = n, te_canceled = False\<rparr>"

definition wheel_push :: "addr \<Rightarrow> 'cb timer_entry \<Rightarrow> 'cb timerwheel \<Rightarrow> 'cb timerwheel" where
  "wheel_push a e tw = tw\<lparr>tw_head := Some a, tw_heap := (tw_heap tw)(a \<mapsto> e)\<rparr>"

lemma wheel_push_simps [simp]:
  "tw_head (wheel_push a e tw) = Some a" "tw_heap (wheel_push a e tw) = (tw_heap tw)(a \<mapsto> e)"
  by (simp_all add: wheel_push_def)

lemma set_timeout_wheel:
  assumes "runs_fine H (w_router w)"
  obtains n p i where "trip_set_timeout_priv H ms data cb w = Some (Some (w_brk w),
      w\<lparr>w_brk := Suc (w_brk w), w_wheel := wheel_push (w_brk w) (timer_at H i ms data cb (tw_head (w_wheel w))) (w_wheel w),
        w_tick := n, w_router := (w_router w)\<lparr>r_poll := Some p\<rparr>\<rparr>)" "w_tick w \<le> i" "i \<le> n"
proof -
  obtain p where p: "r_timeout (w_router w) = Some HPoll" "r_poll (w_router w) = Some p" "\<And>n. ho_alloc H n"
    using assms by (auto simp: runs_fine_def)
  let ?e = "timer_at H (Suc (w_tick w)) ms data cb (tw_head (w_wheel w))"
  let ?tw = "wheel_push (w_brk w) ?e (w_wheel w)"
  let ?w = "w\<lparr>w_brk := Suc (w_brk w), w_tick := Suc (Suc (w_tick w)), w_wheel := ?tw\<rparr>"
  have set: "trip_set_timeout_priv H ms data cb w =
      map_option (Pair (Some (w_brk w))) (if te_deadline ?e < r_mindeadline (w_router ?w) then call_timeout H ms ?w else Some ?w)"
    using p(3) by (simp add: trip_set_timeout_priv_def w_new_def w_now_def timerwheel_add_def wheel_push_def timer_at_def Let_def map_conv_bind_option comp_def)
  show thesis
  proof (cases "te_deadline ?e < r_mindeadline (w_router ?w)")
    case True
    have "call_timeout H ms ?w = Some (?w\<lparr>w_tick := Suc (Suc (Suc (w_tick w))), w_router := (w_router w)\<lparr>r_poll := Some (p\<lparr>poll_deadline :=
        triptime_deadline (triptime_now (ho_clock H (Suc (Suc (w_tick w))))) ms\<rparr>)\<rparr>\<rparr>)"
      using p by (simp add: call_timeout_def trip_timeout_cb_def w_deadline_def w_now_def)
    with set True show thesis
      by (intro that [where n = "Suc (Suc (Suc (w_tick w)))" and i = "Suc (w_tick w)"]) simp_all
  next
    case False
    have "?w = w\<lparr>w_brk := Suc (w_brk w), w_wheel := ?tw, w_tick := Suc (Suc (w_tick w)),
        w_router := (w_router w)\<lparr>r_poll := Some p\<rparr>\<rparr>"
      using p(2) by (intro world.equality) simp_all
    with set False show thesis
      by (intro that [where n = "Suc (Suc (w_tick w))" and i = "Suc (w_tick w)" and p = p]) simp_all
  qed
qed

lemma set_timeout_exact:
  assumes "runs_fine H (w_router w)"
  obtains n p tw where "trip_set_timeout_priv H ms data cb w = Some (Some (w_brk w),
      w\<lparr>w_brk := Suc (w_brk w), w_wheel := tw, w_tick := n, w_router := (w_router w)\<lparr>r_poll := Some p\<rparr>\<rparr>)"
    "tw_heap tw (w_brk w) \<noteq> None" "tw_head tw = Some (w_brk w)"
  by (rule set_timeout_wheel [OF assms]) (rule that, assumption, simp_all)

lemma set_timeout_quiet:
  assumes "runs_fine H (w_router w)"
  obtains w' where "trip_set_timeout_priv H ms data cb w = Some (Some (w_brk w), w')" "quiet_step w w'"
proof -
  obtain n p tw where "trip_set_timeout_priv H ms data cb w = Some (Some (w_brk w),
      w\<lparr>w_brk := Suc (w_brk w), w_wheel := tw, w_tick := n, w_router := (w_router w)\<lparr>r_poll := Some p\<rparr>\<rparr>)"
    by (rule set_timeout_exact [OF assms])
  then show thesis by (rule that) (simp add: quiet_step_def stays_def bare_router_def)
qed

text \<open>Asking to send: at the end of the queue once, whoever asks again.\<close>

definition queued :: "addr \<Rightarrow> addr list \<Rightarrow> addr list" where
  "queued c cs = (if c \<in> set cs then cs else cs @ [c])"

definition sends :: "world \<Rightarrow> addr list \<Rightarrow> bool" where
  "sends w cs \<longleftrightarrow> sq_rep (r_sendq (w_router w)) (h_conn w) cs"

lemma sq_rep_same:
  assumes "sq_rep q h cs" "h c = Some k" "c_next k' = c_next k" "c_insend k' = c_insend k"
  shows "sq_rep q (h(c \<mapsto> k')) cs"
  using assms chain_upd_same [of c_next h "sq_head q" cs c k k'] by (auto simp: sq_rep_def)

lemma sendq_nq_effect:
  assumes "sq_rep q h cs" "h c = Some k"
  obtains q' h' where "sendq_nq c q h = Some (q', h')" "sq_rep q' h' (queued c cs)" "heap_sim h h'"
proof (cases "c \<in> set cs")
  case True
  then show ?thesis using sendq_nq_in [OF assms(1)] assms(1) that by (simp add: queued_def)
next
  case False
  obtain q' h' where q: "sendq_nq c q h = Some (q', h')" "sq_rep q' h' (cs @ [c])"
    by (rule sendq_nq_rep [OF assms False])
  have upd: "heap_sim h (h(a \<mapsto> k'))" if "h a = Some x" "bare k' = bare x" for h :: "connection heap" and a x k'
    using that by (simp add: heap_sim_def)
  have k: "\<not> c_insend k" using assms False by (simp add: sq_rep_def)
  have "heap_sim h h'"
  proof (cases "sq_tail q")
    case None
    with q(1) assms(2) k have "h' = h(c \<mapsto> k\<lparr>c_next := None, c_insend := True\<rparr>)"
      by (simp add: sendq_nq_def heap_upd_def)
    then show ?thesis using upd [where h = h and a = c, OF assms(2)] by (simp add: bare_def)
  next
    case (Some t)
    with q(1) assms(2) k obtain x where x: "h t = Some x"
      by (auto simp: sendq_nq_def heap_upd_def split: option.splits)
    let ?h = "h(t \<mapsto> x\<lparr>c_next := Some c\<rparr>)"
    obtain y where y: "?h c = Some y" using assms(2) by (cases "c = t") simp_all
    with Some q(1) assms(2) k x have "h' = ?h(c \<mapsto> y\<lparr>c_next := None, c_insend := True\<rparr>)"
      by (auto simp: sendq_nq_def heap_upd_def)
    then show ?thesis
      using upd [where h = h and a = t, OF x, of "x\<lparr>c_next := Some c\<rparr>"]
        upd [where h = ?h and a = c, OF y, of "y\<lparr>c_next := None, c_insend := True\<rparr>"]
      by (auto simp: bare_def intro: heap_sim_trans)
  qed
  with q False that show ?thesis by (simp add: queued_def)
qed

lemma set_send_effect:
  assumes "runs_fine H (w_router w)" "sends w cs" "h_conn w c = Some k"
  obtains w' k' where "tripc_set_send H c w = Some w'" "sends w' (queued c cs)" "heap_sim (h_conn w) (h_conn w')"
    "stays (w_router w) (w_router w')" "h_conn w' c = Some k'" "c_hassend k'" "bare k' = bare k"
proof -
  obtain q h where q: "sendq_nq c (r_sendq (w_router w)) (h_conn w) = Some (q, h)" "sq_rep q h (queued c cs)"
    "heap_sim (h_conn w) h"
    by (rule sendq_nq_effect [OF assms(2) [unfolded sends_def] assms(3)])
  let ?w = "(rt_upd (\<lambda>r. r\<lparr>r_sendq := q\<rparr>) w)\<lparr>h_conn := h\<rparr>"
  have "runs_fine H (w_router ?w)" using assms(1) by (simp add: runs_fine_def)
  then obtain w1 where w1: "trip_set_timeout_priv H 0 None CB_send_immediately ?w = Some (Some (w_brk ?w), w1)"
    "quiet_step ?w w1"
    by (rule set_timeout_quiet)
  obtain k1 where k1: "h c = Some k1" "bare k1 = bare k" using heap_simD [OF q(3) assms(3)] by blast
  let ?w' = "w1\<lparr>h_conn := (h_conn w1)(c \<mapsto> k1\<lparr>c_hassend := True\<rparr>)\<rparr>"
  have h1: "h_conn w1 = h" using w1(2) by (simp add: quiet_step_def)
  have "tripc_set_send H c w = Some ?w'"
    using q(1) w1(1) k1(1) h1
    by (simp add: tripc_set_send_def trip_qconnection_def on_sendq_def flag_always_ready conn_upd_def heap_upd_def)
  moreover have "sends ?w' (queued c cs)"
    using w1(2) sq_rep_same [OF q(2) k1(1)] by (simp add: sends_def quiet_step_def)
  moreover have "heap_sim (h_conn w) (h_conn ?w')"
    using q(3) k1 h1 by (auto simp: heap_sim_def bare_def)
  moreover have "stays (w_router w) (w_router ?w')"
    using w1(2) by (auto simp: quiet_step_def stays_def bare_router_def)
  moreover have "bare (k1\<lparr>c_hassend := True\<rparr>) = bare k" using k1(2) by (simp add: bare_def)
  ultimately show ?thesis using that by simp
qed

section \<open>A new connection for a packet that opens one\<close>

text \<open>
  The user's screen lets the peer in, with the keys to check its signature and to sign
  answers, or none. The signature has to verify, or the router does without.
\<close>

definition admits :: "host \<Rightarrow> world \<Rightarrow> bytes option \<Rightarrow> bytes option \<Rightarrow> bool" where
  "admits H w spk ssk \<longleftrightarrow> r_screen (w_router w) \<and>
     (\<forall>sc. sc_signpk sc = None \<and> sc_signsk sc = None \<longrightarrow> ho_screen H sc w = Some (sc\<lparr>sc_allow := True, sc_signpk := spk, sc_signsk := ssk\<rparr>, w))"

text \<open>The map and the queue are sound, there is room for one more, and its address is free.\<close>

definition has_room :: "world \<Rightarrow> addr list \<Rightarrow> bool" where
  "has_room w cs \<longleftrightarrow> connmap_ok (h_conn w) (r_conn (w_router w)) \<and> sends w cs \<and> h_conn w (w_brk w) = None \<and>
     cm_size (r_conn (w_router w)) \<noteq> unat (connmap_max (r_conn (w_router w)))"

text \<open>The connection that comes of it: a challenge is due.\<close>

definition newcomer :: "int \<Rightarrow> u64 \<Rightarrow> bytes option \<Rightarrow> bytes option \<Rightarrow> connection \<Rightarrow> bool" where
  "newcomer src x spk ssk k \<longleftrightarrow> c_state k = CS_CHAL \<and> c_src k = src \<and> c_incoming k \<and> c_error k = EOK \<and>
     c_self k = connself_zero\<lparr>self_id := x, self_signsk := ssk\<rparr> \<and> c_peer k = connpeer_zero\<lparr>peer_signpk := spk\<rparr> \<and>
     c_statetimer k = None \<and> \<not> c_encrypted k"

lemma sq_rep_new: "sq_rep q h cs \<Longrightarrow> h a = None \<Longrightarrow> \<not> c_insend k \<Longrightarrow> sq_rep q (h(a \<mapsto> k)) cs"
proof -
  assume s: "sq_rep q h cs" "h a = None" "\<not> c_insend k"
  then have "a \<notin> set cs" by (auto simp: sq_rep_def chain_def)
  with s show ?thesis by (auto simp: sq_rep_def chain_upd_off)
qed

lemma connmap_add_room:
  assumes "connmap_ok h m" "h a = None" "cm_size m \<noteq> unat (connmap_max m)"
  obtains m' x where
    "connmap_add True r1 r2 a m (h(a \<mapsto> k)) = Some (EOK, m', h(a \<mapsto> k\<lparr>c_self := (c_self k)\<lparr>self_id := x\<rparr>\<rparr>))"
    "connmap_ok (h(a \<mapsto> k\<lparr>c_self := (c_self k)\<lparr>self_id := x\<rparr>\<rparr>)) m'"
    "\<And>y c. cm_holds (h(a \<mapsto> k\<lparr>c_self := (c_self k)\<lparr>self_id := x\<rparr>\<rparr>)) m' y c \<longleftrightarrow>
       cm_holds h m y c \<or> y = x \<and> c = a"
    "\<And>c. \<not> cm_holds h m x c" "cm_size m' = cm_size m + 1" "connmap_max m' = connmap_max m"
proof -
  have ok: "connmap_ok (h(a \<mapsto> k)) m" "\<And>x c. cm_holds (h(a \<mapsto> k)) m x c \<longleftrightarrow> cm_holds h m x c"
    using connmap_more_conns [OF assms(1,2)] by blast+
  have "\<not> cm_holds (h(a \<mapsto> k)) m x a" for x
    using assms(2) by (simp add: ok(2)) (simp add: cm_holds_def conn_id_def)
  from connmap_add_ok [OF ok(1) fun_upd_same this, of True r1 r2] obtain e m' h' where
    r: "connmap_add True r1 r2 a m (h(a \<mapsto> k)) = Some (e, m', h')" "connmap_ok h' m'"
      "if e = EOK
       then \<exists>x. h' = (h(a \<mapsto> k))(a \<mapsto> k\<lparr>c_self := (c_self k)\<lparr>self_id := x\<rparr>\<rparr>) \<and>
         (\<forall>c. \<not> cm_holds (h(a \<mapsto> k)) m x c) \<and>
         (\<forall>y c. cm_holds h' m' y c \<longleftrightarrow> cm_holds (h(a \<mapsto> k)) m y c \<or> y = x \<and> c = a) \<and>
         cm_size m' = cm_size m + 1 \<and> cm_mask m' = cm_mask m
       else m' = m \<and> h' = h(a \<mapsto> k)"
      "e = ENOSPC \<longleftrightarrow> cm_size m = unat (connmap_max m)" "e \<in> {EOK, ENOSPC, ENOMEM}" "e \<noteq> ENOMEM"
    by blast
  then have "e = EOK" using assms(3) by blast
  with r ok(2) that show ?thesis by (auto simp: connmap_max_def)
qed

lemma new_conn_effect:
  assumes fine: "runs_fine H (w_router w)" and adm: "admits H w spk ssk" and room: "has_room w cs"
    and sig: "(if spk \<noteq> None \<or> \<not> has_flag FLAG_ALLOW_PLAIN_ISIG w then trip_unsign (ho_crypto H) len buf spk
      else Some EOK) = Some EOK" and sc: "sc_routelen sc = 0" "sc_opensk sc = None" "sc_signpk sc = None" "sc_signsk sc = None"
  obtains w1 m x k where "segment_new_conn H src len buf sc w = Some (Some (w_brk w), w1)"
    "h_conn w1 = (h_conn w)(w_brk w \<mapsto> k)" "newcomer src x spk ssk k" "w_router w1 = (w_router w)\<lparr>r_conn := m\<rparr>"
    "connmap_ok (h_conn w1) m" "\<And>y c. cm_holds (h_conn w1) m y c \<longleftrightarrow> cm_holds (h_conn w) (r_conn (w_router w)) y c \<or> y = x \<and> c = w_brk w"
    "sends w1 cs" "\<And>c. \<not> cm_holds (h_conn w) (r_conn (w_router w)) x c"
proof -
  let ?a = "w_brk w" and ?h = "h_conn w" and ?t = "Suc (w_tick w)"
  let ?k = "(tripc_init_rec H (w_router w) True)\<lparr>c_src := src\<rparr>"
  have h: "connmap_ok ?h (r_conn (w_router w))" "?h ?a = None"
    "cm_size (r_conn (w_router w)) \<noteq> unat (connmap_max (r_conn (w_router w)))"
    using room by (simp_all add: has_room_def)
  obtain m x where add: "connmap_add True (ho_rand H (Suc ?t)) (ho_rand H (Suc (Suc ?t))) ?a (r_conn (w_router w)) (?h(?a \<mapsto> ?k)) =
      Some (EOK, m, ?h(?a \<mapsto> ?k\<lparr>c_self := (c_self ?k)\<lparr>self_id := x\<rparr>\<rparr>))"
    and ok: "connmap_ok (?h(?a \<mapsto> ?k\<lparr>c_self := (c_self ?k)\<lparr>self_id := x\<rparr>\<rparr>)) m"
    and holds: "\<And>y c. cm_holds (?h(?a \<mapsto> ?k\<lparr>c_self := (c_self ?k)\<lparr>self_id := x\<rparr>\<rparr>)) m y c \<longleftrightarrow>
       cm_holds ?h (r_conn (w_router w)) y c \<or> y = x \<and> c = ?a"
    and fresh: "\<And>c. \<not> cm_holds ?h (r_conn (w_router w)) x c"
    by (rule connmap_add_room [OF h]) blast
  let ?k1 = "?k\<lparr>c_self := connself_zero\<lparr>self_id := x, self_opensk := sc_opensk sc, self_signsk := ssk\<rparr>,
    c_data := sc_data sc, c_rlen := 0, c_route := None, c_peer := connpeer_zero\<lparr>peer_signpk := spk\<rparr>, c_state := CS_CHAL\<rparr>"
  let ?w1 = "w\<lparr>w_brk := Suc ?a, w_tick := Suc (Suc (Suc ?t)), w_router := (w_router w)\<lparr>r_conn := m\<rparr>,
    h_conn := ?h(?a \<mapsto> ?k1)\<rparr>"
  have alloc: "\<And>n. ho_alloc H n" using fine by (simp add: runs_fine_def)
  let ?c = "spk \<noteq> None \<or> \<not> has_flag FLAG_ALLOW_PLAIN_ISIG w"
  note run = segment_new_conn_def trip_new_connection_def w_new_def tripc_init_def conn_upd_def heap_upd_def
    w_connmap_add_def w_ok_def w_rand_def tripc_set_screen_def tripm_bdup_def tripc_start_def tripc_init_rec_def
    connection_zero_def tripc_set_state_def set_state_leave_def set_state_enter_def tripc_cancel_timeout_def
    tripc_mk_keys_def Let_def split_def
  have screen: "r_screen (w_router w)"
    "ho_screen H sc w = Some (sc\<lparr>sc_allow := True, sc_signpk := spk, sc_signsk := ssk\<rparr>, w)"
    using adm sc(3,4) by (simp_all add: admits_def)
  have "segment_new_conn H src len buf sc w = Some (Some ?a, ?w1)"
  proof (cases ?c)
    case True
    with sig have "trip_unsign (ho_crypto H) len buf spk = Some EOK" by (simp only: if_True)
    with True screen sc alloc add show ?thesis by (simp add: run)
  next
    case False
    with screen sc alloc add show ?thesis by (simp add: run)
  qed
  moreover have "newcomer src x spk ssk ?k1"
    using sc by (simp add: newcomer_def tripc_init_rec_def connection_zero_def connself_zero_def)
  moreover have ids: "conn_id (h_conn ?w1) = conn_id (?h(?a \<mapsto> ?k\<lparr>c_self := (c_self ?k)\<lparr>self_id := x\<rparr>\<rparr>))"
    by (auto simp: conn_id_def)
  moreover have "sends ?w1 cs"
    using room sq_rep_new [of "r_sendq (w_router w)" ?h cs ?a ?k1] h(2)
    by (simp add: has_room_def sends_def tripc_init_rec_def connection_zero_def)
  ultimately show thesis
    using that [of ?w1 ?k1 x m] ok holds fresh connmap_same_ids [OF ids, of m] by simp
qed

lemma newcomer_bare:
  assumes "bare k' = bare (k\<lparr>c_peer := q\<rparr>)"
  shows "newcomer src x spk ssk (k'\<lparr>c_peer := r\<rparr>) \<longleftrightarrow> newcomer src x spk ssk (k\<lparr>c_peer := r\<rparr>)"
proof -
  have "f k' = f (k\<lparr>c_peer := q\<rparr>)" if "\<And>x. f (bare x) = f x" for f :: "connection \<Rightarrow> 'b"
    by (rule bare_field [where f = f, OF assms]) (rule that)
  note f = this [of c_state] this [of c_src] this [of c_incoming] this [of c_error] this [of c_self]
    this [of c_statetimer] this [of c_encrypted]
  show ?thesis using f by (simp add: newcomer_def bare_def)
qed

lemma sends_same:
  "sends w cs \<Longrightarrow> h_conn w c = Some k \<Longrightarrow> c_next k' = c_next k \<Longrightarrow> c_insend k' = c_insend k \<Longrightarrow>
     w_router w' = w_router w \<Longrightarrow> h_conn w' = (h_conn w)(c \<mapsto> k') \<Longrightarrow> sends w' cs"
  by (simp add: sends_def sq_rep_same)

lemma read_open_effect:
  assumes fine: "runs_fine H (w_router w)" "sodium_sizes (ho_crypto H)" and q: "sends w cs"
    and k: "h_conn w c = Some k" "c_state k = CS_CHAL" "c_error k = EOK" and px: "px_control px = CONTROL_OPEN"
    and s: "says (ho_crypto H) ctl i ks p bd outs f"
  obtains w' k' where "tripc_read H c px 80 (bd @ r) w = Some (EOK, w')" "sends w' (queued c cs)"
    "heap_sim ((h_conn w)(c \<mapsto> k\<lparr>c_peer := accepted f (c_peer k)\<rparr>)) (h_conn w')"
    "stays (w_router w) (w_router w')" "h_conn w' c = Some k'" "c_hassend k'"
    "bare k' = bare (k\<lparr>c_peer := accepted f (c_peer k)\<rparr>)"
proof -
  let ?k = "k\<lparr>c_peer := accepted f (c_peer k)\<rparr>"
  obtain t where t: "tripc_parse_open H c 80 (bd @ r) w = Some (EOK, heard c k f w t)"
    by (rule parse_open_hello [OF k(1) s fine(2)]) (use fine(1) in \<open>auto simp: runs_fine_def\<close>)
  have q1: "sends (heard c k f w t) cs" by (rule sends_same [OF q k(1)]) simp_all
  have f1: "runs_fine H (w_router (heard c k f w t))" using fine by simp
  obtain w' k' where w': "tripc_set_send H c (heard c k f w t) = Some w'" "sends w' (queued c cs)"
    "heap_sim ((h_conn w)(c \<mapsto> ?k)) (h_conn w')" "stays (w_router w) (w_router w')"
    "h_conn w' c = Some k'" "c_hassend k'" "bare k' = bare ?k"
    by (rule set_send_effect [OF f1 q1, of c ?k]) simp_all
  have "c_error k' = c_error ?k"
    by (rule bare_field [OF w'(7)]) (simp add: bare_def)
  then have "tripc_read H c px 80 (bd @ r) w = Some (EOK, w')"
    using k px t w'(1,5)
    by (simp add: tripc_read_def tripc_check_seq_def read_in_chal_def and_then_def tripc_flag_seq_def
        CONTROL_OPEN_def CONTROL_DATA_def)
  then show ?thesis using that w' by blast
qed

lemma control_of:
  fixes e :: bool
  defines "c \<equiv> \<lambda>x. ucast (ucast (x OR (if e then PREFIX_EMASK else 0) :: u8) :: u32) :: u8"
  shows "c CONTROL_OPEN AND NOT PREFIX_EMASK = CONTROL_OPEN" "c CONTROL_OPEN AND PREFIX_EMASK \<noteq> 0 \<longleftrightarrow> e"
    "c CONTROL_CHAL AND NOT PREFIX_EMASK = CONTROL_CHAL" "c CONTROL_CHAL AND PREFIX_EMASK \<noteq> 0 \<longleftrightarrow> e"
  unfolding c_def by (cases e; simp add: CONTROL_OPEN_def CONTROL_CHAL_def PREFIX_EMASK_def)+

text \<open>The open packet: its length and what follows each of its parts.\<close>

lemma hello_parts:
  assumes "sodium_sizes cr"
  shows "hello_octets cr (p @ [0, 0, 0]) bd sk @ r =
    p @ 0 # 0 # 0 # replicate 48 0 @ bd @ sig_of cr sk (p @ [0, 0, 0] @ replicate 48 0 @ bd) @ r"
    "hello_octets cr p bd sk @ r = p @ replicate 48 0 @ bd @ sig_of cr sk (p @ replicate 48 0 @ bd) @ r"
  using assms by (simp_all add: hello_octets_def Let_def sodium_sizes_def)

text \<open>Lengths stay small, so the arithmetic of the code is that of the natural numbers.\<close>

lemma small_u64 [simp]: "n < 2000 \<Longrightarrow> unat (of_nat n :: u64) = n"
  by (intro unat_of_nat_small) simp

lemma u64_le: "m < 2000 \<Longrightarrow> n < 2000 \<Longrightarrow> (of_nat m :: u64) \<le> of_nat n \<longleftrightarrow> m \<le> n"
  by (simp add: word_le_nat_alt)

lemma u64_less: "m < 2000 \<Longrightarrow> n < 2000 \<Longrightarrow> (of_nat m :: u64) < of_nat n \<longleftrightarrow> m < n"
  by (simp add: word_less_nat_alt)

lemma u64_minus: "n \<le> m \<Longrightarrow> (of_nat m :: u64) - of_nat n = of_nat (m - n)"
  by simp

lemma read_prefix:
  assumes "says cr ctl i ks p bd outs f" "length p \<le> n" "n < 2000"
  shows "trip_unpack cr (of_nat n) (p @ r) ''CQW'' = Some (of_nat (length p), [O8 (ucast ctl), O64 i, O64 (self_sequence ks)])"
proof (rule trip_unpack_wire)
  show "wire cr ''CQW'' [AInt ctl, ALong i, ALong (self_sequence ks)] = Some (p, [O8 (ucast ctl), O64 i, O64 (self_sequence ks)])"
    using assms(1) by (simp only: says_def)
qed (use assms in simp_all)

lemma segment_open_run:
  assumes "has_flag FLAG_ALLOW_IN w" "px_encrypted px \<or> has_flag FLAG_ALLOW_PLAIN_OPEN w"
    "trip_unpack (ho_crypto H) (len - end) (drop (unat end) buf) ''Hb'' = Some (3, [O16 0, O32 0, OPtr 3])"
    "trip_router_get_conn_by_src src (px_id px) w = Some None"
    "segment_new_conn H src len buf \<lparr>sc_allow = False, sc_version = 0, sc_routelen = 0,
      sc_route = Some (drop (unat end + 3) buf), sc_data = None, sc_opensk = None,
      sc_signpk = None, sc_signsk = None\<rparr> w = Some (Some a, w1)"
    "segment_read_open H src px (end + 3) len buf a w1 = Some w3"
  shows "segment_open H src px end len buf w = Some w3"
  using assms by (auto simp: segment_open_def TRIP_VERSION_MAJOR_def NPOS_def)

text \<open>What the packet of an opening connection does to a router that lets it in.\<close>

lemma segment_open_effect:
  assumes fine: "runs_fine H (w_router w)" "sodium_sizes (ho_crypto H)"
    and flags: "has_flag FLAG_ALLOW_IN w" "e \<or> has_flag FLAG_ALLOW_PLAIN_OPEN w"
    and adm: "admits H w spk ssk" and room: "has_room w cs" and src: "0 \<le> src"
    and tab: "r_connsrc0 (w_router w) = None" "r_connsrc1 (w_router w) = None"
    and sig: "verifies (ho_crypto H) sk spk" "spk \<noteq> None \<or> has_flag FLAG_ALLOW_PLAIN_ISIG w"
    and s: "says (ho_crypto H) ctl i ks p bd outs f" and n: "n = length p + 195"
    and px: "px_control px = CONTROL_OPEN" "px_encrypted px = e"
  obtains w' k m x where
    "segment_open H src px (of_nat (length p)) (of_nat n) (hello_octets (ho_crypto H) (p @ [0, 0, 0]) bd sk @ r) w = Some w'"
    "h_conn w' (w_brk w) = Some k" "c_hassend k" "newcomer src x spk ssk (k\<lparr>c_peer := connpeer_zero\<lparr>peer_signpk := spk\<rparr>\<rparr>)"
    "c_peer k = accepted f (connpeer_zero\<lparr>peer_signpk := spk\<rparr>)"
    "stays ((w_router w)\<lparr>r_conn := m\<rparr>) (w_router w')" "sends w' (cs @ [w_brk w])"
    "connmap_ok (h_conn w') m" "\<And>y c. cm_holds (h_conn w') m y c \<longleftrightarrow>
       cm_holds (h_conn w) (r_conn (w_router w)) y c \<or> y = x \<and> c = w_brk w"
    "heap_sim ((h_conn w)(w_brk w := h_conn w' (w_brk w))) (h_conn w')"
    "\<And>c. \<not> cm_holds (h_conn w) (r_conn (w_router w)) x c"
proof -
  let ?cr = "ho_crypto H" and ?a = "w_brk w" and ?L = "length p"
  let ?buf = "hello_octets ?cr (p @ [0, 0, 0]) bd sk @ r"
  have cr: "sodium_laws ?cr" and sz: "signbytes ?cr = 64" "sealbytes ?cr = 48"
    using fine(2) by (simp_all add: sodium_sizes_def)
  have L: "10 \<le> ?L" "?L \<le> 11" and bd: "length bd = 80" using s by (simp_all add: says_def)
  define r1 where "r1 = sig_of ?cr sk (p @ [0, 0, 0] @ replicate 48 0 @ bd) @ r"
  have buf: "?buf = p @ 0 # 0 # 0 # replicate 48 0 @ bd @ r1"
    using hello_parts(1) [OF fine(2)] by (simp add: r1_def)
  have Hb: "trip_unpack ?cr (of_nat n - of_nat ?L) (drop (unat (of_nat ?L :: u64)) ?buf) ''Hb'' = Some (3, [O16 0, O32 0, OPtr 3])"
    using L n u64_minus [of ?L n] u64_le [of 3 "n - ?L"] by (simp add: buf unpack_Hb)
  have src': "src smod 2 = 0 \<or> src smod 2 = 1"
    using src by (simp add: signed_modulo_int_def sgn_if) presburger
  then have get: "trip_router_get_conn_by_src src (px_id px) w = Some None"
    using tab by (auto simp: trip_router_get_conn_by_src_def)
  define sc where "sc = \<lparr>sc_allow = False, sc_version = 0, sc_routelen = 0,
      sc_route = Some (drop (unat (of_nat ?L :: u64) + 3) ?buf), sc_data = None, sc_opensk = None,
      sc_signpk = None, sc_signsk = None\<rparr>"
  have sc0: "sc_routelen sc = 0" "sc_opensk sc = None" "sc_signpk sc = None" "sc_signsk sc = None" by (simp_all add: sc_def)
  have n': "n = length (hello_octets ?cr (p @ [0, 0, 0]) bd sk)" using n bd sz cr by simp
  have usig: "(if spk \<noteq> None \<or> \<not> has_flag FLAG_ALLOW_PLAIN_ISIG w then trip_unsign ?cr (of_nat n) ?buf spk
      else Some EOK) = Some EOK"
    using unsign_hello [OF cr sig(1) _ _ n'] sig(2) n L by auto
  obtain w1 m x k where new: "segment_new_conn H src (of_nat n) ?buf sc w = Some (Some ?a, w1)"
    "h_conn w1 = (h_conn w)(?a \<mapsto> k)" "newcomer src x spk ssk k" "w_router w1 = (w_router w)\<lparr>r_conn := m\<rparr>"
    "connmap_ok (h_conn w1) m" "\<And>y c. cm_holds (h_conn w1) m y c \<longleftrightarrow> cm_holds (h_conn w) (r_conn (w_router w)) y c \<or> y = x \<and> c = ?a"
    "sends w1 cs" "\<And>c. \<not> cm_holds (h_conn w) (r_conn (w_router w)) x c"
    by (rule new_conn_effect [where src = src, OF fine(1) adm room usig sc0]) (rule that)
  have k: "c_state k = CS_CHAL" "c_error k = EOK" "c_peer k = connpeer_zero\<lparr>peer_signpk := spk\<rparr>"
    using new(3) by (simp_all add: newcomer_def)
  have hk: "h_conn w1 ?a = Some k" using new(2) by simp
  have f1: "runs_fine H (w_router w1)" using fine(1) new(4) by (simp add: runs_fine_def)
  obtain w2 k2 where rd: "tripc_read H ?a px 80 (bd @ r1) w1 = Some (EOK, w2)" "sends w2 (queued ?a cs)"
    "heap_sim ((h_conn w1)(?a \<mapsto> k\<lparr>c_peer := accepted f (c_peer k)\<rparr>)) (h_conn w2)"
    "stays (w_router w1) (w_router w2)" "h_conn w2 ?a = Some k2" "c_hassend k2"
    "bare k2 = bare (k\<lparr>c_peer := accepted f (c_peer k)\<rparr>)"
    by (rule read_open_effect [OF f1 fine(2) new(7) hk k(1,2) px(1) s])
  obtain w3 k3 where st: "tripc_set_send H ?a w2 = Some w3" "sends w3 (queued ?a (queued ?a cs))"
    "heap_sim (h_conn w2) (h_conn w3)" "stays (w_router w2) (w_router w3)" "h_conn w3 ?a = Some k3"
    "c_hassend k3" "bare k3 = bare k2"
    by (rule set_send_effect [OF stays_fine [OF rd(4) f1] rd(2,5)])
  have maclen: "(of_nat n - 64 - (of_nat ?L + 3) - 64 :: u64) = 64" "(of_nat n - 64 - (of_nat ?L + 3 + 48) :: u64) = 80"
    using n by simp_all
  have "unat (of_nat ?L + 3 + 48 :: u64) = ?L + 51"
    using small_u64 [of "?L + 51"] L by (simp add: add.assoc)
  then have rest: "drop (unat (of_nat ?L + 3 + 48 :: u64)) ?buf = bd @ r1"
    by (simp add: buf)
  have oO: "trip_unpack ?cr 64 (drop (unat (of_nat ?L + 3 :: u64)) ?buf) ''oO'' = Some (48, [])"
    by (rule unpack_oO) (use sz in simp_all)
  have m48: "((48 :: u64) = 0 \<or> 48 = NPOS) = False" by (simp add: NPOS_def)
  have ro: "segment_read_open H src px (of_nat ?L + 3) (of_nat n) ?buf ?a w1 = Some w3"
    unfolding segment_read_open_def Let_def sz of_nat_numeral
    by (simp only: hk maclen oO bind.bind_lunit prod.case m48 if_False rest rd(1) st(1) simp_thms)
  have "segment_open H src px (of_nat ?L) (of_nat n) ?buf w = Some w3"
    by (rule segment_open_run [OF flags(1) _ Hb get new(1) [unfolded sc_def] ro]) (use flags(2) px in simp)
  moreover have sim: "heap_sim ((h_conn w1)(?a \<mapsto> k\<lparr>c_peer := accepted f (c_peer k)\<rparr>)) (h_conn w3)"
    by (rule heap_sim_trans [OF rd(3) st(3)])
  moreover have "map_option bare (((h_conn w)(?a := h_conn w3 ?a)) b) = map_option bare (h_conn w3 b)" for b
    using sim new(2) unfolding heap_sim_def by (cases "b = ?a") (auto dest: spec [of _ b])
  then have "heap_sim ((h_conn w)(?a := h_conn w3 ?a)) (h_conn w3)"
    by (simp only: heap_sim_def) simp
  moreover from heap_sim_id [OF sim] have ids: "conn_id (h_conn w3) = conn_id (h_conn w1)"
    using hk by (auto simp: conn_id_def)
  moreover have "?a \<notin> set cs"
    using room by (auto simp: has_room_def sends_def sq_rep_def chain_def)
  moreover have b3: "bare k3 = bare (k\<lparr>c_peer := accepted f (c_peer k)\<rparr>)" using st(7) rd(7) by simp
  moreover have "c_peer k3 = c_peer (k\<lparr>c_peer := accepted f (c_peer k)\<rparr>)"
    by (rule bare_field [OF b3]) (simp add: bare_def)
  moreover have "newcomer src x spk ssk (k3\<lparr>c_peer := connpeer_zero\<lparr>peer_signpk := spk\<rparr>\<rparr>)"
    using new(3) by (simp add: newcomer_bare [OF b3]) (simp add: newcomer_def)
  ultimately show thesis
    using that [of w3 k3 x m] st(2,5,6) stays_trans [OF rd(4) st(4)] new(2,4,5,6,8) k(3) connmap_same_ids [OF ids, of m]
    by (auto simp: queued_def)
qed

section \<open>The answer\<close>

text \<open>A step that changes one connection, not its place in the queue, and otherwise timers only.\<close>

definition touches :: "addr \<Rightarrow> connection \<Rightarrow> world \<Rightarrow> world \<Rightarrow> bool" where
  "touches c k w w' \<longleftrightarrow> h_conn w' = (h_conn w)(c \<mapsto> k) \<and> stays (w_router w) (w_router w') \<and>
     r_sendq (w_router w') = r_sendq (w_router w)"

lemma touches_trans: "touches c k w w' \<Longrightarrow> touches c k' w' w'' \<Longrightarrow> touches c k' w w''"
  by (auto simp: touches_def intro: stays_trans)

lemma touches_sends:
  "touches c k' w w' \<Longrightarrow> sends w cs \<Longrightarrow> h_conn w c = Some k \<Longrightarrow> c_next k' = c_next k \<Longrightarrow>
     c_insend k' = c_insend k \<Longrightarrow> sends w' cs"
  by (simp add: touches_def sends_def sq_rep_same)

lemma cancel_touches:
  assumes "h_conn w c = Some k" "\<And>t. c_statetimer k = Some t \<Longrightarrow> tw_heap (w_wheel w) t \<noteq> None"
  obtains w' where "tripc_cancel_timeout c w = Some w'" "touches c (k\<lparr>c_statetimer := None\<rparr>) w w'"
proof (cases "c_statetimer k")
  case None
  then have "k\<lparr>c_statetimer := None\<rparr> = k" by simp
  then show ?thesis
    using None assms(1) that [of w] by (simp add: tripc_cancel_timeout_def touches_def fun_upd_idem)
next
  case (Some t)
  with assms obtain e where "tw_heap (w_wheel w) t = Some e" by blast
  with Some assms(1) that show ?thesis
    by (simp add: tripc_cancel_timeout_def trip_cancel_timeout_priv_def timerwheel_cancel_def heap_upd_def
        conn_upd_def touches_def)
qed

lemma set_timeout_touches:
  assumes "runs_fine H (w_router w)" "h_conn w c = Some k"
  obtains w' where "tripc_set_timeout H c ms cb w = Some w'" "touches c (k\<lparr>c_statetimer := Some (w_brk w)\<rparr>) w w'"
proof -
  obtain w1 where w1: "trip_set_timeout_priv H ms (Some c) cb w = Some (Some (w_brk w), w1)" "quiet_step w w1"
    by (rule set_timeout_quiet [OF assms(1)])
  then show ?thesis
    using assms(2) that
    by (simp add: tripc_set_timeout_def trip_set_timeout_def conn_upd_def heap_upd_def touches_def quiet_step_def)
qed

text \<open>Entering the ping state.\<close>

lemma set_ping_effect:
  assumes fine: "runs_fine H (w_router w)" and q: "sends w cs" and k: "h_conn w c = Some k"
    and timer: "\<And>t. c_statetimer k = Some t \<Longrightarrow> tw_heap (w_wheel w) t \<noteq> None"
    and ms: "0 \<le> ping_ms (c_ping k)" "ping_ms (c_ping k) \<le> 1000000000"
  obtains w' k' i where "tripc_set_state H c CS_PING w = Some w'" "h_conn w' c = Some k'" "c_state k' = CS_PING"
    "c_hassend k'" "c_self k' = c_self k" "c_peer k' = c_peer k" "c_error k' = c_error k"
    "sends w' (queued c cs)" "stays (w_router w) (w_router w')"
    "heap_sim ((h_conn w)(c := h_conn w' c)) (h_conn w')"
    "c_statedeadline k' = triptime_deadline (triptime_now (ho_clock H i)) (ping_maxms (c_ping k))"
proof -
  obtain w1 where w1: "tripc_cancel_timeout c w = Some w1" "touches c (k\<lparr>c_statetimer := None\<rparr>) w w1"
    by (rule cancel_touches [OF k timer]) blast
  let ?n = "ho_bytes H (w_tick w1) (noncebytes (ho_crypto H))"
  let ?now = "triptime_now (ho_clock H (Suc (w_tick w1)))"
  let ?p = "(c_ping k)\<lparr>ping_nonce := ?n, ping_timestamp := ?now\<rparr>"
  let ?dl = "triptime_deadline (triptime_now (ho_clock H (Suc (Suc (w_tick w1))))) (ping_maxms (c_ping k))"
  let ?g = "ping_ms (c_ping k) + ping_ms (c_ping k) sdiv 2"
  define G where "G = (if ?g > c_maxstatems k then c_maxstatems k else ?g)"
  let ?k2 = "k\<lparr>c_statetimer := None, c_state := CS_PING, c_ping := ?p, c_statedeadline := ?dl,
    c_growms := G, c_retry := 1\<rparr>"
  let ?w2 = "w1\<lparr>w_tick := Suc (Suc (Suc (w_tick w1))), h_conn := (h_conn w1)(c \<mapsto> ?k2)\<rparr>"
  have h1: "h_conn w1 c = Some (k\<lparr>c_statetimer := None\<rparr>)" using w1(2) by (simp add: touches_def)
  have "0 \<le> ping_ms (c_ping k) sdiv 2" "ping_ms (c_ping k) sdiv 2 \<le> ping_ms (c_ping k)"
    using ms by (simp_all add: signed_divide_int_def sgn_if) presburger
  then have g: "get_growth k0 = Some (ping_ms (c_ping k), k0\<lparr>c_growms := G, c_retry := 1\<rparr>)"
    if "c_growms k0 = ping_ms (c_ping k)" "c_maxstatems k0 = c_maxstatems k" "c_retry k0 = 0" for k0
    using ms that by (simp add: get_growth_def cint_def G_def Let_def)
  have t2: "touches c ?k2 w ?w2" using w1(2) by (simp add: touches_def)
  have f2: "runs_fine H (w_router ?w2)" using stays_fine [OF _ fine] t2 by (auto simp: touches_def)
  obtain w3 where w3: "tripc_set_timeout H c (ping_ms (c_ping k)) CB_state_resend ?w2 = Some w3"
    "touches c (?k2\<lparr>c_statetimer := Some (w_brk ?w2)\<rparr>) ?w2 w3"
    by (rule set_timeout_touches [OF f2, of c ?k2]) simp_all
  let ?k3 = "?k2\<lparr>c_statetimer := Some (w_brk ?w2)\<rparr>"
  have t3: "touches c ?k3 w w3" by (rule touches_trans [OF t2 w3(2)])
  have f3: "runs_fine H (w_router w3)" using stays_fine [OF _ fine] t3 by (auto simp: touches_def)
  have q3: "sends w3 cs" by (rule touches_sends [OF t3 q k]) simp_all
  have h3: "h_conn w3 c = Some ?k3" using t3 by (simp add: touches_def)
  obtain w4 k4 where w4: "tripc_set_send H c w3 = Some w4" "sends w4 (queued c cs)" "heap_sim (h_conn w3) (h_conn w4)"
    "stays (w_router w3) (w_router w4)" "h_conn w4 c = Some k4" "c_hassend k4" "bare k4 = bare ?k3"
    by (rule set_send_effect [OF f3 q3 h3])
  have "tripc_set_state H c CS_PING w = Some w4"
    using w1(1) h1 w3(1) w4(1) g
    by (simp add: tripc_set_state_def set_state_leave_def set_state_enter_def conn_upd_def heap_upd_def
        tripc_generate_ping_def tripc_set_deadline_def w_deadline_def w_now_def tripc_set_growth_def resend_timer_def
        tripc_get_growth_def Let_def)
  moreover have "heap_sim ((h_conn w)(c := h_conn w4 c)) (h_conn w4)"
  proof -
    have "map_option bare (((h_conn w)(c := h_conn w4 c)) b) = map_option bare (h_conn w4 b)" for b
      using w4(3) t3 unfolding heap_sim_def touches_def by (cases "b = c") (auto dest: spec [of _ b])
    then show ?thesis by (simp only: heap_sim_def) simp
  qed
  moreover have "f k4 = f ?k3" if "\<And>x. f (bare x) = f x" for f :: "connection \<Rightarrow> 'b"
    by (rule bare_field [where f = f, OF w4(7)]) (rule that)
  note f = this [of c_state] this [of c_self] this [of c_peer] this [of c_error] this [of c_statedeadline]
  have "c_state k4 = CS_PING" "c_self k4 = c_self k" "c_peer k4 = c_peer k" "c_error k4 = c_error k" "c_statedeadline k4 = ?dl"
    using f by (simp_all add: bare_def)
  moreover have "stays (w_router w) (w_router w4)"
    using t3 w4(4) by (auto simp: touches_def intro: stays_trans)
  ultimately show thesis using that w4(2,5,6) by blast
qed

text \<open>A connection that waits for the answer to its packet, which it is about to send.\<close>

definition opener :: "host \<Rightarrow> world \<Rightarrow> addr \<Rightarrow> connection \<Rightarrow> addr list \<Rightarrow> bool" where
  "opener H w a k cs \<longleftrightarrow> runs_fine H (w_router w) \<and> r_state (w_router w) = RS_LISTEN \<and>
     has_flag FLAG_ALLOW_PLAIN_COMM w \<and> (peer_signpk (c_peer k) \<noteq> None \<or> has_flag FLAG_ALLOW_PLAIN_OSIG w) \<and>
     sends w cs \<and> connmap_ok (h_conn w) (r_conn (w_router w)) \<and> h_conn w a = Some k \<and>
     cm_holds (h_conn w) (r_conn (w_router w)) (self_id (c_self k)) a \<and> c_state k = CS_OPEN \<and> c_error k = EOK \<and>
     (\<forall>t. c_statetimer k = Some t \<longrightarrow> tw_heap (w_wheel w) t \<noteq> None) \<and>
     0 \<le> ping_ms (c_ping k) \<and> ping_ms (c_ping k) \<le> 1000000000"

lemma segment_other_run:
  assumes "px_encrypted px \<or> has_flag FLAG_ALLOW_PLAIN_COMM w"
    "connmap_get (px_id px) (r_conn (w_router w)) (h_conn w) = Some (Some a)" "h_conn w a = Some k"
    "px_control px = CONTROL_CHAL \<Longrightarrow> (if peer_signpk (c_peer k) \<noteq> None \<or> \<not> has_flag FLAG_ALLOW_PLAIN_OSIG w
      then trip_unsign (ho_crypto H) len buf (peer_signpk (c_peer k)) else Some EOK) = Some EOK"
    "tripc_read H a px (len - of_nat (signbytes (ho_crypto H)) - end) (drop (unat end) buf) w = Some (EOK, w')"
  shows "segment_other H src px end len buf w = Some w'"
proof -
  have "(if px_control px = CONTROL_CHAL \<and> (peer_signpk (c_peer k) \<noteq> None \<or> \<not> has_flag FLAG_ALLOW_PLAIN_OSIG w)
      then trip_unsign (ho_crypto H) len buf (peer_signpk (c_peer k)) else Some EOK) = Some EOK"
    using assms(4) by (cases "px_control px = CONTROL_CHAL") (simp_all only: simp_thms if_False)
  with assms(1,2,3,5) show ?thesis
    by (auto simp: segment_other_def Let_def simp del: split_paired_Ex)
qed

lemma segment_chal_effect:
  assumes op: "opener H w a k cs" and cr: "sodium_sizes (ho_crypto H)"
    and sig: "px_control px = CONTROL_CHAL \<Longrightarrow> verifies (ho_crypto H) sk (peer_signpk (c_peer k))"
    and s: "says (ho_crypto H) ctl i ks p bd outs f" and n: "n = length p + 192"
    and px: "px_id px = self_id (c_self k)"
  obtains w' k' where
    "segment_other H src px (of_nat (length p)) (of_nat n) (hello_octets (ho_crypto H) p bd sk @ r) w = Some w'"
    "h_conn w' a = Some k'" "c_state k' = CS_PING" "c_hassend k'" "c_self k' = c_self k"
    "c_peer k' = accepted f (c_peer k)" "c_error k' = EOK" "sends w' (queued a cs)"
    "stays (w_router w) (w_router w')" "heap_sim ((h_conn w)(a := h_conn w' a)) (h_conn w')"
proof -
  let ?cr = "ho_crypto H" and ?L = "length p"
  let ?buf = "hello_octets ?cr p bd sk @ r" and ?k = "k\<lparr>c_peer := accepted f (c_peer k)\<rparr>"
  have fine: "runs_fine H (w_router w)" and q: "sends w cs" and hk: "h_conn w a = Some k"
    and st: "c_state k = CS_OPEN" "c_error k = EOK"
    using op by (simp_all add: opener_def)
  have crl: "sodium_laws ?cr" and sz: "signbytes ?cr = 64" "sealbytes ?cr = 48"
    using cr by (simp_all add: sodium_sizes_def)
  have L: "10 \<le> ?L" "?L \<le> 11" and bd: "length bd = 80" using s by (simp_all add: says_def)
  have pne: "p \<noteq> []" using L by auto
  define r1 where "r1 = sig_of ?cr sk (p @ replicate 48 0 @ bd) @ r"
  have buf: "?buf = p @ replicate 48 0 @ bd @ r1"
    using hello_parts(2) [OF cr] by (simp add: r1_def)
  have n': "n = length (hello_octets ?cr p bd sk)" using n bd sz crl by simp
  have usig: "(if peer_signpk (c_peer k) \<noteq> None \<or> \<not> has_flag FLAG_ALLOW_PLAIN_OSIG w
      then trip_unsign ?cr (of_nat n) ?buf (peer_signpk (c_peer k)) else Some EOK) = Some EOK"
    if "px_control px = CONTROL_CHAL"
    using unsign_hello [OF crl sig [OF that] _ pne n'] op n L by (auto simp: opener_def)
  have get: "connmap_get (px_id px) (r_conn (w_router w)) (h_conn w) = Some (Some a)"
    using connmap_get_ok [of "h_conn w" "r_conn (w_router w)" "px_id px"] op px by (auto simp: opener_def)
  obtain t where t: "tripc_parse_chal H a 128 (replicate 48 0 @ bd @ r1) w = Some (EOK, heard a k f w t)"
    by (rule parse_chal_hello [OF hk s cr]) (use fine in \<open>auto simp: runs_fine_def\<close>)
  let ?w1 = "heard a k f w t"
  have q1: "sends ?w1 cs" by (rule sends_same [OF q hk]) simp_all
  have f1: "runs_fine H (w_router ?w1)" using fine by simp
  have tm: "c_statetimer ?k = Some t' \<Longrightarrow> tw_heap (w_wheel ?w1) t' \<noteq> None" for t'
    using op by (simp add: opener_def)
  have ms: "0 \<le> ping_ms (c_ping ?k)" "ping_ms (c_ping ?k) \<le> 1000000000" using op by (simp_all add: opener_def)
  obtain w2 k2 i where w2: "tripc_set_state H a CS_PING ?w1 = Some w2" "h_conn w2 a = Some k2" "c_state k2 = CS_PING"
    "c_hassend k2" "c_self k2 = c_self ?k" "c_peer k2 = c_peer ?k" "c_error k2 = c_error ?k"
    "sends w2 (queued a cs)" "stays (w_router ?w1) (w_router w2)"
    "heap_sim ((h_conn ?w1)(a := h_conn w2 a)) (h_conn w2)"
    "c_statedeadline k2 = triptime_deadline (triptime_now (ho_clock H i)) (ping_maxms (c_ping ?k))"
    by (rule set_ping_effect [OF f1 q1, of a ?k]) (use tm ms in simp_all)
  have "tripc_read H a px 128 (replicate 48 0 @ bd @ r1) w = Some (EOK, w2)"
    using hk st t w2(1,2,7) by (simp add: tripc_read_def tripc_check_seq_def and_then_def tripc_flag_seq_def)
  moreover have "(of_nat n - 64 - of_nat ?L :: u64) = 128" using n by simp
  moreover have "drop (unat (of_nat ?L :: u64)) ?buf = replicate 48 0 @ bd @ r1" using L by (simp add: buf)
  ultimately have "tripc_read H a px (of_nat n - of_nat (signbytes ?cr) - of_nat ?L) (drop (unat (of_nat ?L :: u64)) ?buf) w = Some (EOK, w2)"
    by (simp only: sz of_nat_numeral)
  then have "segment_other H src px (of_nat ?L) (of_nat n) ?buf w = Some w2"
    by (intro segment_other_run [OF _ get hk usig]) (use op in \<open>simp_all add: opener_def\<close>)
  then show thesis
    using that w2(2-10) st by simp
qed

section \<open>Both together\<close>

lemma trip_seg_run:
  assumes "r_state (w_router w) = RS_LISTEN" "16 \<le> n" "n < 2000" "length p \<le> n" "10 \<le> length p"
    "says (ho_crypto H) ctl i ks p bd outs f" "buf = p @ r"
    and px: "px = \<lparr>px_encrypted = ucast ctl AND PREFIX_EMASK \<noteq> 0, px_control = ucast ctl AND NOT PREFIX_EMASK,
      px_id = i, px_seq = self_sequence ks\<rparr>"
    and ctl: "px_control px < CONTROL_MAX"
  shows "trip_seg H src (of_nat n) buf w =
    (if px_control px = CONTROL_OPEN then segment_open H src px (of_nat (length p)) (of_nat n) buf w
     else segment_other H src px (of_nat (length p)) (of_nat n) buf w)"
proof -
  have u: "trip_unpack (ho_crypto H) (of_nat n) buf ''CQW'' =
      Some (of_nat (length p), [O8 (ucast ctl), O64 i, O64 (self_sequence ks)])"
    unfolding assms(7) by (rule read_prefix [OF assms(6,4,3)])
  have "\<not> (of_nat n :: u64) < 16" using assms(2,3) u64_less [of n 16] by simp
  moreover have "(of_nat (length p) :: u64) \<noteq> 0" "(of_nat (length p) :: u64) \<noteq> NPOS"
  proof -
    have "unat (of_nat (length p) :: u64) = length p" using assms(3,4) by simp
    moreover have "unat NPOS \<ge> 2000" by (simp add: NPOS_def unsigned_minus_1_eq_mask mask_eq_exp_minus_1)
    ultimately show "(of_nat (length p) :: u64) \<noteq> 0" "(of_nat (length p) :: u64) \<noteq> NPOS"
      using assms(3-5) by (metis unat_0 not_numeral_le_zero, metis le_less_trans not_le)
  qed
  moreover have "\<not> CONTROL_MAX \<le> ucast ctl AND NOT PREFIX_EMASK" using ctl px by simp
  ultimately show ?thesis
    using assms(1) u px
    by (simp add: trip_seg_def trip_segment_def trip_router_is_reported_def)
qed

text \<open>A router that takes in what the peer of \<open>k\<close> sends, from where \<open>src\<close> stands.\<close>

definition listener :: "host \<Rightarrow> world \<Rightarrow> bytes option \<Rightarrow> bytes option \<Rightarrow> addr list \<Rightarrow> bool" where
  "listener H w spk ssk cs \<longleftrightarrow> runs_fine H (w_router w) \<and> r_state (w_router w) = RS_LISTEN \<and>
     has_flag FLAG_ALLOW_IN w \<and> has_flag FLAG_ALLOW_PLAIN_OPEN w \<and>
     (spk \<noteq> None \<or> has_flag FLAG_ALLOW_PLAIN_ISIG w) \<and> admits H w spk ssk \<and> has_room w cs \<and>
     r_connsrc0 (w_router w) = None \<and> r_connsrc1 (w_router w) = None"

text \<open>What the opener says of itself fits the packet, and its sequence number is small.\<close>

definition speaks :: "connection \<Rightarrow> bool" where
  "speaks k \<longleftrightarrow> c_hassend k \<and> self_sequence (c_self k) < 256 \<and> copy_or_zero 24 (self_nonce (c_self k)) \<noteq> None \<and>
     copy_or_zero 32 (self_pk (c_self k)) \<noteq> None"

lemma open_received:
  assumes li: "listener S w spk ssk cs" and src: "0 \<le> src" and cr: "sodium_sizes (ho_crypto S)"
    and sig: "verifies (ho_crypto S) sk spk" and s: "says (ho_crypto S) (open_control k) i ks p bd outs f"
    and n: "n = length p + 195"
  obtains w' k' m x where
    "trip_seg S src (of_nat n) (hello_octets (ho_crypto S) (p @ [0, 0, 0]) bd sk @ r) w = Some w'"
    "h_conn w' (w_brk w) = Some k'" "c_hassend k'" "newcomer src x spk ssk (k'\<lparr>c_peer := connpeer_zero\<lparr>peer_signpk := spk\<rparr>\<rparr>)"
    "c_peer k' = accepted f (connpeer_zero\<lparr>peer_signpk := spk\<rparr>)"
    "r_conn (w_router w') = m" "sends w' (cs @ [w_brk w])"
    "connmap_ok (h_conn w') m" "\<And>y c. cm_holds (h_conn w') m y c \<longleftrightarrow>
       cm_holds (h_conn w) (r_conn (w_router w)) y c \<or> y = x \<and> c = w_brk w"
    "\<And>c. \<not> cm_holds (h_conn w) (r_conn (w_router w)) x c"
    "stays ((w_router w)\<lparr>r_conn := m\<rparr>) (w_router w')"
proof -
  define px where "px = \<lparr>px_encrypted = (ucast (open_control k) :: u8) AND PREFIX_EMASK \<noteq> 0,
    px_control = ucast (open_control k) AND NOT PREFIX_EMASK, px_id = i, px_seq = self_sequence ks\<rparr>"
  have px: "px_control px = CONTROL_OPEN"
    using control_of(1) [of "peer_openpk (c_peer k) \<noteq> None"] by (simp only: px_def open_control_def prefix.simps)
  have L: "10 \<le> length p" "length p \<le> 11" using s by (simp_all add: says_def)
  have ls: "runs_fine S (w_router w)" "has_flag FLAG_ALLOW_IN w" "px_encrypted px \<or> has_flag FLAG_ALLOW_PLAIN_OPEN w"
    "admits S w spk ssk" "has_room w cs" "r_connsrc0 (w_router w) = None" "r_connsrc1 (w_router w) = None"
    "spk \<noteq> None \<or> has_flag FLAG_ALLOW_PLAIN_ISIG w" "r_state (w_router w) = RS_LISTEN"
    using li by (simp_all add: listener_def)
  let ?buf = "hello_octets (ho_crypto S) (p @ [0, 0, 0]) bd sk @ r"
  obtain w' k' m x where so:
    "segment_open S src px (of_nat (length p)) (of_nat n) ?buf w = Some w'"
    "h_conn w' (w_brk w) = Some k'" "c_hassend k'" "newcomer src x spk ssk (k'\<lparr>c_peer := connpeer_zero\<lparr>peer_signpk := spk\<rparr>\<rparr>)"
    "c_peer k' = accepted f (connpeer_zero\<lparr>peer_signpk := spk\<rparr>)"
    "stays ((w_router w)\<lparr>r_conn := m\<rparr>) (w_router w')" "sends w' (cs @ [w_brk w])"
    "connmap_ok (h_conn w') m" "\<And>y c. cm_holds (h_conn w') m y c \<longleftrightarrow>
       cm_holds (h_conn w) (r_conn (w_router w)) y c \<or> y = x \<and> c = w_brk w"
    "heap_sim ((h_conn w)(w_brk w := h_conn w' (w_brk w))) (h_conn w')"
    "\<And>c. \<not> cm_holds (h_conn w) (r_conn (w_router w)) x c"
    by (rule segment_open_effect [OF ls(1) cr ls(2,3,4,5) src ls(6,7) sig ls(8) s n px refl]) blast
  have "trip_seg S src (of_nat n) ?buf w = Some w'"
    using trip_seg_run [OF ls(9) _ _ _ L(1) s hello_parts(1) [OF cr] px_def, of n src] L n px so(1)
    by (simp add: CONTROL_OPEN_def CONTROL_MAX_def)
  moreover have "r_conn (w_router w') = m"
    using stays_field [OF so(6), of r_conn] by (simp add: bare_router_def)
  ultimately show thesis using that so by blast
qed

lemma chal_received:
  assumes op: "opener C w a k cs" and cr: "sodium_sizes (ho_crypto C)"
    and sig: "verifies (ho_crypto C) sk (peer_signpk (c_peer k))"
    and s: "says (ho_crypto C) (chal_control kb) (self_id (c_self k)) ks p bd outs f" and n: "n = length p + 192"
  obtains w' k' where
    "trip_seg C src (of_nat n) (hello_octets (ho_crypto C) p bd sk @ r) w = Some w'"
    "h_conn w' a = Some k'" "c_state k' = CS_PING" "c_hassend k'" "c_self k' = c_self k"
    "c_peer k' = accepted f (c_peer k)" "sends w' (queued a cs)" "stays (w_router w) (w_router w')"
    "heap_sim ((h_conn w)(a := h_conn w' a)) (h_conn w')"
proof -
  define px where "px = \<lparr>px_encrypted = (ucast (chal_control kb) :: u8) AND PREFIX_EMASK \<noteq> 0,
    px_control = ucast (chal_control kb) AND NOT PREFIX_EMASK, px_id = self_id (c_self k), px_seq = self_sequence ks\<rparr>"
  have px: "px_control px = CONTROL_CHAL" "px_id px = self_id (c_self k)"
    using control_of(3) [of "peer_pk (c_peer kb) \<noteq> None"] by (simp_all only: px_def chal_control_def prefix.simps)
  have L: "10 \<le> length p" "length p \<le> 11" using s by (simp_all add: says_def)
  have st: "r_state (w_router w) = RS_LISTEN" using op by (simp add: opener_def)
  let ?buf = "hello_octets (ho_crypto C) p bd sk @ r"
  obtain w' k' where so: "segment_other C src px (of_nat (length p)) (of_nat n) ?buf w = Some w'"
    "h_conn w' a = Some k'" "c_state k' = CS_PING" "c_hassend k'" "c_self k' = c_self k" "c_peer k' = accepted f (c_peer k)"
    "sends w' (queued a cs)" "stays (w_router w) (w_router w')" "heap_sim ((h_conn w)(a := h_conn w' a)) (h_conn w')"
    by (rule segment_chal_effect [OF op cr sig s n px(2)]) blast
  have "trip_seg C src (of_nat n) ?buf w = Some w'"
    using trip_seg_run [OF st _ _ _ L(1) s hello_parts(2) [OF cr] px_def, of n src] L n px so(1)
    by (simp add: CONTROL_OPEN_def CONTROL_CHAL_def CONTROL_MAX_def)
  then show thesis using that so by blast
qed

text \<open>C1: the handshake. A connection in \<open>OPEN\<close> on a router that listens, and another router
  that listens and lets it in, without signatures or with ones that verify: the packet the
  first one sends makes the second one hold a new connection in \<open>CHAL\<close>, which is in its
  connection map under a fresh identifier, is queued to send, and has the identifier and the
  limits of the first one. The packet it then sends brings the first connection to
  \<open>PING\<close>, and that connection has the new one's identifier and limits.\<close>

theorem handshake_completes:
  assumes "opener C wc a k qs" "speaks k" "listener S ws spk ssk cs" "0 \<le> src"
    "sodium_sizes (ho_crypto C)" "ho_crypto S = ho_crypto C"
    "verifies (ho_crypto C) (self_signsk (c_self k)) spk"
    "verifies (ho_crypto C) ssk (peer_signpk (c_peer k))"
    "1200 \<le> length bufc" "1200 \<le> length bufs" "b = w_brk ws"
  shows "\<exists>n pkt wc1 ws1 m pkt' ws2 wc2 ka kb.
    tripc_send C a 1200 bufc wc = Some (n, pkt, wc1) \<and> trip_seg S src n pkt ws = Some ws1 \<and>
    tripc_send S b 1200 bufs ws1 = Some (m, pkt', ws2) \<and> trip_seg C src' m pkt' wc1 = Some wc2 \<and>
    sends ws1 (cs @ [b]) \<and> h_conn ws2 b = Some kb \<and> c_state kb = CS_CHAL \<and> c_src kb = src \<and>
    connmap_get (self_id (c_self kb)) (r_conn (w_router ws2)) (h_conn ws2) = Some (Some b) \<and>
    (\<forall>d. \<not> cm_holds (h_conn ws) (r_conn (w_router ws)) (self_id (c_self kb)) d) \<and>
    peer_id (c_peer kb) = self_id (c_self k) \<and> peer_lim (c_peer kb) = hello_limits \<and>
    h_conn wc2 a = Some ka \<and> c_state ka = CS_PING \<and> c_hassend ka \<and>
    self_id (c_self ka) = self_id (c_self k) \<and>
    peer_id (c_peer ka) = self_id (c_self kb) \<and> peer_lim (c_peer ka) = hello_limits"
proof -
  let ?cr = "ho_crypto C"
  let ?k1 = "k\<lparr>c_self := (c_self k)\<lparr>self_sequence := self_sequence (c_self k) + 1\<rparr>, c_hassend := False\<rparr>"
  have hk: "h_conn wc a = Some k" "c_state k = CS_OPEN" "c_hassend k"
    using assms(1,2) by (simp_all add: opener_def speaks_def)
  obtain p bd outs f where s: "says ?cr (open_control k) (self_id (c_self k)) (c_self k) p bd outs f"
    by (rule says_ex [OF assms(5), of "c_self k"]) (use assms(2) in \<open>simp_all add: speaks_def\<close>)
  define n where "n = length p + 195"
  have L: "10 \<le> length p" "length p \<le> 11" using s by (simp_all add: says_def)
  let ?pkt = "hello_octets ?cr (p @ [0, 0, 0]) bd (self_signsk (c_self k)) @ drop n bufc"
  let ?wc1 = "sent_one a k wc"
  have send1: "tripc_send C a 1200 bufc wc = Some (of_nat n, ?pkt, ?wc1)"
    by (rule send_open_octets [OF assms(5) hk s assms(9) n_def])
  obtain ws1 k1 x where o:
    "trip_seg S src (of_nat n) ?pkt ws = Some ws1"
    "h_conn ws1 b = Some k1" "c_hassend k1" "newcomer src x spk ssk (k1\<lparr>c_peer := connpeer_zero\<lparr>peer_signpk := spk\<rparr>\<rparr>)"
    "c_peer k1 = accepted f (connpeer_zero\<lparr>peer_signpk := spk\<rparr>)" "sends ws1 (cs @ [b])"
    "connmap_ok (h_conn ws1) (r_conn (w_router ws1))" "cm_holds (h_conn ws1) (r_conn (w_router ws1)) x b"
    "\<And>c. \<not> cm_holds (h_conn ws) (r_conn (w_router ws)) x c"
    by (rule open_received [OF assms(3,4), of "self_signsk (c_self k)" k "self_id (c_self k)" "c_self k" p bd outs f n "drop n bufc"])
      (use assms(5-7,11) s n_def in auto)
  have f: "\<exists>nb kb. f = (self_id (c_self k), nb, kb, hello_limits)" using s by (auto simp: says_def)
  have acc: "peer_id (accepted g q) = j" "peer_lim (accepted g q) = lim" if "g = (j, nb, kb, lim)" for g q j nb kb lim
    using that by (simp_all add: accepted_def Let_def)
  have k1: "c_state k1 = CS_CHAL" "c_src k1 = src" "c_self k1 = connself_zero\<lparr>self_id := x, self_signsk := ssk\<rparr>"
    "peer_id (c_peer k1) = self_id (c_self k)" "peer_lim (c_peer k1) = hello_limits"
    using o(4,5) f acc by (auto simp: newcomer_def)
  have crS: "sodium_sizes (ho_crypto S)" using assms(5,6) by simp
  obtain p2 bd2 outs2 f2 where s2: "says (ho_crypto S) (chal_control k1) (peer_id (c_peer k1)) (c_self k1) p2 bd2 outs2 f2"
    by (rule says_ex [OF crS, of "c_self k1"]) (use k1(3) in \<open>simp_all add: connself_zero_def copy_or_zero_def\<close>)
  define m where "m = length p2 + 192"
  let ?pkt' = "hello_octets ?cr p2 bd2 ssk @ drop m bufs"
  let ?ws2 = "sent_one b k1 ws1"
  have send2: "tripc_send S b 1200 bufs ws1 = Some (of_nat m, ?pkt', ?ws2)"
    using send_chal_octets [OF crS o(2) k1(1) o(3) s2 assms(10) m_def] k1(3) assms(6) by simp
  have f2: "\<exists>nb kb. f2 = (x, nb, kb, hello_limits)" using s2 k1(3) by (auto simp: says_def)
  have ids: "conn_id (h_conn ?wc1) = conn_id (h_conn wc)" "conn_id (h_conn ?ws2) = conn_id (h_conn ws1)"
    using hk(1) o(2) by (auto simp: conn_id_def)
  have "sends ?wc1 qs"
    by (rule sends_same [of wc qs a k ?k1]) (use assms(1) in \<open>simp_all add: opener_def\<close>)
  then have op: "opener C ?wc1 a ?k1 qs"
    using assms(1) connmap_same_ids [OF ids(1), of "r_conn (w_router wc)"]
    by (simp add: opener_def has_flag_def)
  obtain wc2 ka where c: "trip_seg C src' (of_nat m) ?pkt' ?wc1 = Some wc2"
    "h_conn wc2 a = Some ka" "c_state ka = CS_PING" "c_hassend ka" "c_self ka = c_self ?k1"
    "c_peer ka = accepted f2 (c_peer ?k1)"
    by (rule chal_received [OF op assms(5), of ssk k1 "c_self k1" p2 bd2 outs2 f2 m src' "drop m bufs"])
      (use assms(6,8) s2 k1(4) m_def in auto)
  have "connmap_get x (r_conn (w_router ?ws2)) (h_conn ?ws2) = Some (Some b)"
    using connmap_get_ok [of "h_conn ?ws2" "r_conn (w_router ?ws2)" x] o(7,8)
      connmap_same_ids [OF ids(2), of "r_conn (w_router ws1)"] by auto
  note get = this
  let ?kb = "k1\<lparr>c_self := (c_self k1)\<lparr>self_sequence := self_sequence (c_self k1) + 1\<rparr>, c_hassend := False\<rparr>"
  have x: "self_id (c_self ?kb) = x" using k1(3) by simp
  obtain nb kb where "f2 = (x, nb, kb, hello_limits)" using f2 by blast
  note peer = acc [OF this, of "c_peer k"]
  show ?thesis
  proof (intro exI conjI allI)
    show "tripc_send C a 1200 bufc wc = Some (of_nat n, ?pkt, ?wc1)" by (rule send1)
    show "trip_seg S src (of_nat n) ?pkt ws = Some ws1" by (rule o(1))
    show "tripc_send S b 1200 bufs ws1 = Some (of_nat m, ?pkt', ?ws2)" by (rule send2)
    show "trip_seg C src' (of_nat m) ?pkt' ?wc1 = Some wc2" by (rule c(1))
    show "sends ws1 (cs @ [b])" by (rule o(6))
    show "h_conn ?ws2 b = Some ?kb" by simp
    show "c_state ?kb = CS_CHAL" "c_src ?kb = src" using k1 by simp_all
    show "connmap_get (self_id (c_self ?kb)) (r_conn (w_router ?ws2)) (h_conn ?ws2) = Some (Some b)"
      unfolding x by (rule get)
    show "\<not> cm_holds (h_conn ws) (r_conn (w_router ws)) (self_id (c_self ?kb)) d" for d
      unfolding x by (rule o(9))
    show "peer_id (c_peer ?kb) = self_id (c_self k)" "peer_lim (c_peer ?kb) = hello_limits" using k1 by simp_all
    show "h_conn wc2 a = Some ka" "c_state ka = CS_PING" "c_hassend ka" by (fact c)+
    show "self_id (c_self ka) = self_id (c_self k)" using c(5) by simp
    show "peer_id (c_peer ka) = self_id (c_self ?kb)" "peer_lim (c_peer ka) = hello_limits"
      unfolding x using c(6) peer by simp_all
  qed
qed

lemma flags_on: "has_flag FLAG_ALLOW_IN listening_world" "has_flag FLAG_ALLOW_PLAIN_OPEN listening_world"
  "has_flag FLAG_ALLOW_PLAIN_ISIG listening_world" "has_flag FLAG_ALLOW_PLAIN_OSIG listening_world"
  "has_flag FLAG_ALLOW_PLAIN_COMM listening_world"
  by (simp_all add: has_flag_def listening_world_def flag_defs)

lemma listening_listener: "listener (still_host t) listening_world None None []"
proof -
  have "connmap_ok (h_conn listening_world) (r_conn (w_router listening_world))"
    by (simp add: listening_world_def connmap_init_ok)
  moreover have "cm_size (connmap_init 4) \<noteq> unat (connmap_max (connmap_init 4))" by code_simp
  moreover have "sends listening_world []"
    by (simp add: sends_def listening_world_def blank_world_def router_zero_def sq_rep_init)
  ultimately have "has_room listening_world []"
    by (simp add: has_room_def) (simp add: listening_world_def blank_world_def)
  then show ?thesis
    using flags_on
    by (simp add: listener_def runs_fine_def admits_def)
      (simp add: still_host_def listening_world_def blank_world_def router_zero_def)
qed

lemma opening_opener: "opener (still_host t) opening_world 1 opening_conn []"
proof -
  have h: "h_conn opening_world = [1 \<mapsto> opening_conn]" by (simp add: opening_world_def)
  have "slots_ok [Used (1 :: nat)] None" by (auto simp: slots_ok_None free_set_def nth_Cons')
  moreover have "\<exists>k. pow_mask 3 k \<and> (\<exists>j \<le> k. (1 :: nat) = 2 ^ j)"
    by (intro exI [of _ 2] conjI exI [of _ 0]) (simp_all add: pow_mask_def)
  moreover have "{i. i = 0 \<and> (\<exists>x. [Used (Suc 0)] ! i = Used x)} = {0 :: nat}" by auto
  then have "used_count [Used (1 :: nat)] = 1" by (simp add: used_count_def)
  ultimately have "connmap_ok (h_conn opening_world) (r_conn (w_router opening_world))"
    unfolding connmap_ok_def
    by (auto simp: opening_world_def cm_slots_def connmap_index_def conn_id_def opening_conn_def
        connection_zero_def connself_zero_def)
  moreover have "cm_holds (h_conn opening_world) (r_conn (w_router opening_world)) (self_id (c_self opening_conn)) 1"
    by (simp add: cm_holds_def conn_id_def opening_world_def cm_slots_def)
  moreover have "sends opening_world []"
    by (simp add: sends_def opening_world_def listening_world_def blank_world_def router_zero_def sq_rep_init opening_conn_def)
  ultimately show ?thesis
    using flags_on unfolding opener_def h
    by (simp add: runs_fine_def has_flag_def opening_world_def)
      (simp add: still_host_def listening_world_def blank_world_def router_zero_def opening_conn_def connection_zero_def
        ping_zero_def)
qed

theorem handshake_completes_witness:
  "\<exists>n pkt wc1 ws1 m pkt' ws2 wc2 ka kb.
    tripc_send (still_host 5) 1 1200 (replicate 1200 9) opening_world = Some (n, pkt, wc1) \<and>
    trip_seg (still_host 6) 0 n pkt listening_world = Some ws1 \<and>
    tripc_send (still_host 6) 1 1200 (replicate 1200 0) ws1 = Some (m, pkt', ws2) \<and>
    trip_seg (still_host 5) 7 m pkt' wc1 = Some wc2 \<and>
    h_conn ws2 1 = Some kb \<and> c_state kb = CS_CHAL \<and> h_conn wc2 1 = Some ka \<and> c_state ka = CS_PING \<and>
    peer_id (c_peer ka) = self_id (c_self kb)"
proof -
  have "speaks opening_conn"
    by (simp add: speaks_def opening_conn_def connection_zero_def connself_zero_def copy_or_zero_def)
  moreover have "sodium_sizes (ho_crypto (still_host 5))" "ho_crypto (still_host 6) = ho_crypto (still_host 5)"
    using sodium_ok by (simp_all add: still_host_def sodium_sizes_def) (simp_all add: sodium_def)
  moreover have "peer_signpk (c_peer opening_conn) = None"
    by (simp add: opening_conn_def connection_zero_def connpeer_zero_def)
  moreover have "(1 :: nat) = w_brk listening_world" by (simp add: listening_world_def blank_world_def)
  ultimately show ?thesis
    using handshake_completes [OF opening_opener _ listening_listener, of 0 5 6 "replicate 1200 9" "replicate 1200 0" 1 7]
    by (fastforce simp: verifies_def)
qed

end
