(* ===== verification/Segments.thy ===== *)
theory Segments
  imports Handshake
begin

text \<open>
  What a packet can do to a router before it belongs to a connection (\<open>_trip_segment\<close> of
  \<open>src/trip.c\<close>): stray packets change nothing, and the packets that read outside their
  memory.
\<close>

section \<open>Decoding the prefix\<close>

lemma unpack_CQW_shape:
  assumes "trip_unpack cr blen buf ''CQW'' = Some (len, outs)" "len \<noteq> NPOS"
  shows "\<exists>c i s. outs = [O8 c, O64 i, O64 s]"
  using assms
  by (auto simp: trip_unpack_def unpack_step_def unpack_c_def unpack_Q_def unpack_W_def up_need_def up_give_def
      up_fail_def Let_def Option.bind_eq_Some_conv split: if_splits option.splits flow.splits)

text \<open>The prefix of a packet and its length, if it can be decoded.\<close>

definition seg_prefix :: "crypto \<Rightarrow> u64 \<Rightarrow> bytes \<Rightarrow> (prefix \<times> u64) option" where
  "seg_prefix cr len buf =
     (case trip_unpack cr len buf ''CQW'' of
        Some (end, [O8 c, O64 i, O64 s]) \<Rightarrow>
          if end = NPOS \<or> end = 0 then None
          else Some (\<lparr>px_encrypted = c AND PREFIX_EMASK \<noteq> 0, px_control = c AND NOT PREFIX_EMASK,
                      px_id = i, px_seq = s\<rparr>, end)
      | _ \<Rightarrow> None)"

lemma trip_unpack_safe_ex:
  assumes "sodium_laws cr" "unat blen \<le> length buf" "unat blen < 2 ^ 63"
  shows "\<exists>len outs. trip_unpack cr blen buf format = Some (len, outs)"
proof -
  have "up_inv blen \<lparr>up_len = 0, up_pos = 0, up_out = []\<rparr>" by (simp add: up_inv_def)
  from unpack_loop_safe [OF this assms(3,2,1), of format] show ?thesis
    by (auto simp: trip_unpack_def)
qed

lemma trip_seg_prefix:
  assumes "sodium_laws (ho_crypto H)" "unat len \<le> length buf" "unat len < 2 ^ 63"
  shows "trip_seg H src len buf w =
    (if r_state (w_router w) \<noteq> RS_LISTEN \<and> r_state (w_router w) \<noteq> RS_CLOSE \<or> len < 16 then Some w
     else case seg_prefix (ho_crypto H) len buf of
         None \<Rightarrow> Some w
       | Some (px, end) \<Rightarrow>
           if px_control px \<ge> CONTROL_MAX then Some w
           else if px_control px = CONTROL_OPEN then segment_open H src px end len buf w
           else segment_other H src px end len buf w)"
proof -
  obtain n outs where u: "trip_unpack (ho_crypto H) len buf ''CQW'' = Some (n, outs)"
    using trip_unpack_safe_ex [OF assms] by blast
  show ?thesis
  proof (cases "n = NPOS \<or> n = 0")
    case True
    with u show ?thesis
      by (auto simp: trip_seg_def trip_segment_def trip_router_is_reported_def trip_router_reject_def seg_prefix_def
          split: list.split uout.split)
  next
    case False
    with unpack_CQW_shape [OF u] obtain c i s where "outs = [O8 c, O64 i, O64 s]" by blast
    with u False show ?thesis
      by (simp add: trip_seg_def trip_segment_def trip_router_is_reported_def trip_router_reject_def seg_prefix_def)
  qed
qed

section \<open>Stray packets\<close>

text \<open>A packet that no router should act upon, in its state and with what it allows.\<close>

definition stray :: "host \<Rightarrow> u64 \<Rightarrow> bytes \<Rightarrow> world \<Rightarrow> bool" where
  "stray H len buf w \<longleftrightarrow>
     r_state (w_router w) \<noteq> RS_LISTEN \<and> r_state (w_router w) \<noteq> RS_CLOSE \<or> len < 16 \<or>
     (case seg_prefix (ho_crypto H) len buf of
        None \<Rightarrow> True
      | Some (px, _) \<Rightarrow>
          px_control px \<ge> CONTROL_MAX \<or>
          (if px_control px = CONTROL_OPEN
           then \<not> has_flag FLAG_ALLOW_IN w \<or> \<not> px_encrypted px \<and> \<not> has_flag FLAG_ALLOW_PLAIN_OPEN w
           else \<not> px_encrypted px \<and> \<not> has_flag FLAG_ALLOW_PLAIN_COMM w \<or>
             connmap_get (px_id px) (r_conn (w_router w)) (h_conn w) = Some None))"

text \<open>C13: stray packets change nothing. Whatever its octets, a packet that is too short, has no
  prefix that can be decoded or an unknown control, asks to open a connection of a router that
  does not allow it, is in the clear where that is not allowed, or is for an identifier without
  a connection, is dropped: the router reads only the packet, and the world after it is the
  world before.\<close>

theorem stray_packet_ignored:
  assumes "sodium_laws (ho_crypto H)" "unat len \<le> length buf" "unat len < 2 ^ 63" "stray H len buf w"
  shows "trip_seg H src len buf w = Some w"
  using assms(4) unfolding trip_seg_prefix [OF assms(1-3)] stray_def
  by (auto simp: segment_open_def segment_other_def trip_router_reject_def split: option.splits if_splits)

theorem stray_packet_ignored_witness:
  "trip_seg (still_host 0) 7 16 (0x80 # 0 # 0 # 0 # 0 # 0 # 0 # 0 # 5 # replicate 7 0) opening_world = Some opening_world"
proof (rule stray_packet_ignored)
  have "seg_prefix (ho_crypto (still_host 0)) 16 (0x80 # 0 # 0 # 0 # 0 # 0 # 0 # 0 # 5 # replicate 7 0) =
      Some (\<lparr>px_encrypted = True, px_control = 0, px_id = 5, px_seq = 0\<rparr>, 10)"
    by (simp add: still_host_def) code_simp
  moreover have "connmap_get 5 (r_conn (w_router opening_world)) (h_conn opening_world) = Some None"
    by (simp add: connmap_get_def connmap_index_def opening_world_def)
  ultimately show "stray (still_host 0) 16 (0x80 # 0 # 0 # 0 # 0 # 0 # 0 # 0 # 5 # replicate 7 0) opening_world"
    by (simp add: stray_def CONTROL_OPEN_def)
qed (simp_all add: still_host_def sodium_ok)

section \<open>Packets for a connection that waits for its answer\<close>

text \<open>
  A connection in \<open>OPEN\<close> takes every packet for it as the answer, but only one whose control
  is that of an answer has its signature checked.
\<close>

lemma unpacku64_short: "length bs < 8 \<Longrightarrow> unpacku64 bs = None"
  by (cases bs rule: unpacku64.cases) simp_all

lemma unpack_short:
  assumes "sealbytes cr = 48" "length buf < 56" "56 \<le> blen"
  shows "trip_unpack cr blen buf ''oQnkIIIIO'' = None"
proof -
  have "48 \<le> blen" using assms(3) by (simp add: word_le_nat_alt)
  with assms show ?thesis
    by (simp add: trip_unpack_def unpack_step_def unpack_o_def unpack_Q_def up_need_def Let_def word_not_less_le
        unpacku64_short)
qed

text \<open>C37: an answer without a signature is taken. The packet of a peer that says what it likes
  in the format of an answer, but under the control of data, a ping or a disconnection and with
  zeros for a signature, brings a connection in \<open>OPEN\<close> to \<open>PING\<close> with that peer's
  identifier and limits, also when the connection knows the key its peer signs with.\<close>

theorem forged_answer_taken:
  assumes "opener H w a k cs" "sodium_sizes (ho_crypto H)"
    "says (ho_crypto H) ctl (self_id (c_self k)) ks p bd outs f"
    "ucast ctl AND NOT PREFIX_EMASK \<in> {CONTROL_DATA, CONTROL_PING, CONTROL_DISC}" "n = length p + 192"
  shows "\<exists>w' k'. trip_seg H src (of_nat n) (hello_octets (ho_crypto H) p bd None @ r) w = Some w' \<and>
    h_conn w' a = Some k' \<and> c_state k' = CS_PING \<and> peer_id (c_peer k') = self_id ks \<and>
    peer_signpk (c_peer k') = peer_signpk (c_peer k)"
proof -
  define px where "px = \<lparr>px_encrypted = (ucast ctl :: u8) AND PREFIX_EMASK \<noteq> 0,
    px_control = ucast ctl AND NOT PREFIX_EMASK, px_id = self_id (c_self k), px_seq = self_sequence ks\<rparr>"
  have px: "px_control px \<noteq> CONTROL_CHAL" "px_control px \<noteq> CONTROL_OPEN" "px_control px < CONTROL_MAX"
    "px_id px = self_id (c_self k)"
    using assms(4) by (auto simp: px_def CONTROL_DATA_def CONTROL_PING_def CONTROL_DISC_def CONTROL_CHAL_def
        CONTROL_OPEN_def CONTROL_MAX_def)
  have L: "10 \<le> length p" "length p \<le> 11" using assms(3) by (simp_all add: says_def)
  have st: "r_state (w_router w) = RS_LISTEN" using assms(1) by (simp add: opener_def)
  let ?buf = "hello_octets (ho_crypto H) p bd None @ r"
  obtain w' k' where so: "segment_other H src px (of_nat (length p)) (of_nat n) ?buf w = Some w'"
    "h_conn w' a = Some k'" "c_state k' = CS_PING" "c_peer k' = accepted f (c_peer k)"
    by (rule segment_chal_effect [OF assms(1,2) _ assms(3,5) px(4)]) (use px(1) in blast)+
  have "trip_seg H src (of_nat n) ?buf w = Some w'"
    using trip_seg_run [OF st _ _ _ L(1) assms(3) hello_parts(2) [OF assms(2)] px_def, of n src] L assms(5) px so(1)
    by simp
  moreover have "\<exists>nb kb. f = (self_id ks, nb, kb, hello_limits)" using assms(3) by (auto simp: says_def)
  ultimately show ?thesis using so by (auto simp: accepted_def Let_def)
qed

theorem forged_answer_taken_witness:
  "\<exists>n pkt w' k'. trip_seg (still_host 0) 9 n pkt opening_world = Some w' \<and>
    h_conn w' 1 = Some k' \<and> c_state k' = CS_PING \<and> peer_id (c_peer k') = 77"
proof -
  let ?k = "connself_zero\<lparr>self_id := 77\<rparr>"
  have cr: "sodium_sizes (ho_crypto (still_host 0))"
    using sodium_ok by (simp add: still_host_def sodium_sizes_def) (simp add: sodium_def)
  obtain p bd outs f where s: "says (ho_crypto (still_host 0)) 0 (self_id (c_self opening_conn)) ?k p bd outs f"
    by (rule says_ex [OF cr, of ?k]) (simp_all add: connself_zero_def copy_or_zero_def)
  from forged_answer_taken [OF opening_opener cr s _ refl, of 9 "[]"] show ?thesis
    by (auto simp: CONTROL_DATA_def connself_zero_def)
qed

lemma wrapped_length:
  assumes "len < 56" "unat end \<le> unat len"
  shows "56 \<le> len - 64 - (end :: u64)"
proof (rule ccontr)
  let ?x = "len - 64 - end"
  assume "\<not> ?thesis"
  then have x: "unat ?x < 56" by (simp add: word_le_nat_alt)
  have l: "unat len < 56" using assms(1) by (simp add: word_less_nat_alt)
  have "unat (?x + of_nat (unat end + 64)) = unat ?x + (unat end + 64)"
    by (rule unat_add_of_nat) (use x l assms(2) in simp)
  then have "unat len = unat ?x + (unat end + 64)" by simp
  with l show False by simp
qed

lemma seg_prefix_end:
  assumes "seg_prefix cr len buf = Some (px, end)" "sodium_laws cr" "unat len \<le> length buf" "unat len < 2 ^ 63"
  shows "unat end \<le> unat len"
proof -
  have "up_inv len \<lparr>up_len = 0, up_pos = 0, up_out = []\<rparr>" by (simp add: up_inv_def)
  from unpack_loop_safe [OF this assms(4,3,2), of "''CQW''"] assms(1) show ?thesis
    by (auto simp: trip_unpack_def seg_prefix_def split: if_splits option.splits list.splits uout.splits)
qed

text \<open>C38: a short packet for such a connection is read past its end. Sixteen to fifty-five
  octets whose prefix carries the connection's identifier and any control but \<open>OPEN\<close> and
  \<open>CHAL\<close>: the length of what follows is computed by subtracting the size of a signature
  that is not there, wraps around, and the decoder reads on after the last octet.\<close>

theorem short_packet_overread:
  assumes "opener H w a k cs" "sodium_sizes (ho_crypto H)" "16 \<le> len" "len < 56" "unat len = length buf"
    "seg_prefix (ho_crypto H) len buf = Some (px, end)" "px_id px = self_id (c_self k)"
    "px_control px < CONTROL_MAX" "px_control px \<notin> {CONTROL_OPEN, CONTROL_CHAL}"
  shows "trip_seg H src len buf w = None"
proof -
  have cr: "sodium_laws (ho_crypto H)" and sz: "signbytes (ho_crypto H) = 64" "sealbytes (ho_crypto H) = 48"
    using assms(2) by (simp_all add: sodium_sizes_def)
  have l: "length buf < 56" using assms(4,5) by (simp add: word_less_nat_alt)
  have get: "connmap_get (px_id px) (r_conn (w_router w)) (h_conn w) = Some (Some a)"
    using connmap_get_ok [of "h_conn w" "r_conn (w_router w)" "px_id px"] assms(1,7) by (auto simp: opener_def)
  have "unat end \<le> unat len"
    by (rule seg_prefix_end [OF assms(6) cr]) (use assms(5) l in simp_all)
  then have "trip_unpack (ho_crypto H) (len - 64 - end) (drop (unat end) buf) ''oQnkIIIIO'' = None"
    by (intro unpack_short wrapped_length) (use sz l assms(4) in simp_all)
  then have "tripc_read H a px (len - 64 - end) (drop (unat end) buf) w = None"
    using assms(1) by (simp add: tripc_read_def tripc_check_seq_def opener_def tripc_parse_chal_def and_then_def)
  then have "segment_other H src px end len buf w = None"
    using assms(1,9) get sz unfolding segment_other_def Let_def by (simp add: opener_def)
  moreover have "r_state (w_router w) = RS_LISTEN" using assms(1) by (simp add: opener_def)
  moreover have "\<not> len < 16" "\<not> CONTROL_MAX \<le> px_control px" using assms(3,8) by simp_all
  ultimately show ?thesis
    using trip_seg_prefix [OF cr, of len buf src w] assms(5,6,9) l by simp
qed

theorem short_packet_overread_witness:
  "trip_seg (still_host 0) 7 16 (0x80 # replicate 15 0) opening_world = None"
proof (rule short_packet_overread [OF opening_opener])
  show "sodium_sizes (ho_crypto (still_host 0))"
    using sodium_ok by (simp add: still_host_def sodium_sizes_def) (simp add: sodium_def)
  show "seg_prefix (ho_crypto (still_host 0)) 16 (0x80 # replicate 15 0) =
      Some (\<lparr>px_encrypted = True, px_control = 0, px_id = 0, px_seq = 0\<rparr>, 10)"
    by (simp add: still_host_def) code_simp
qed (simp_all add: opening_conn_def connection_zero_def connself_zero_def CONTROL_OPEN_def CONTROL_CHAL_def CONTROL_MAX_def)

section \<open>A ping in the wrong moment\<close>

text \<open>C39: A ping before the challenge is sent crashes the router. A connection a peer has opened
  without a nonce (every connection in the clear) still has to send its challenge; until then
  any packet of 16 octets or more with its identifier and the control of a ping makes the parser
  copy a null nonce, before anything of the packet but its prefix is looked at.\<close>

theorem early_ping_crashes:
  assumes "sodium_laws (ho_crypto H)" "unat len = length buf" "16 \<le> len" "unat len < 2 ^ 63"
    and "r_state (w_router w) = RS_LISTEN" "has_flag FLAG_ALLOW_PLAIN_COMM w"
    and "connmap_ok (h_conn w) (r_conn (w_router w))" "cm_holds (h_conn w) (r_conn (w_router w)) (px_id px) a"
    and k: "h_conn w a = Some k" "c_state k = CS_CHAL" "c_incoming k" "c_hassend k" "peer_nonce (c_peer k) = None"
    and "seg_prefix (ho_crypto H) len buf = Some (px, end)" "px_control px = CONTROL_PING"
  shows "trip_seg H src len buf w = None"
proof -
  have get: "connmap_get (px_id px) (r_conn (w_router w)) (h_conn w) = Some (Some a)"
    using connmap_get_ok [OF assms(7), of "px_id px"] assms(8) by auto
  have px: "px_control px \<noteq> CONTROL_OPEN" "px_control px \<noteq> CONTROL_CHAL" "px_control px \<noteq> CONTROL_DATA"
    "\<not> CONTROL_MAX \<le> px_control px"
    using assms(15) by (simp_all add: CONTROL_PING_def CONTROL_OPEN_def CONTROL_CHAL_def CONTROL_DATA_def CONTROL_MAX_def)
  have "tripc_parse_ping H a n b px w = None" for n b
    using k by (simp add: tripc_parse_ping_def conn_upd_def heap_upd_def tripc_prep_nonce_def)
  then have "tripc_read H a px n b w = None" for n b
    using k px assms(15) by (simp add: tripc_read_def tripc_check_seq_def read_in_chal_def and_then_def)
  then have "segment_other H src px end len buf w = None"
    using k px assms(6) get by (simp add: segment_other_def)
  moreover have "\<not> len < 16" using assms(3) by simp
  ultimately show ?thesis
    using trip_seg_prefix [OF assms(1), of len buf src w] assms(2,4,5,14) px by simp
qed

theorem early_ping_crashes_witness:
  "trip_seg (still_host 0) 7 16 (3 # replicate 15 0)
     (opening_world\<lparr>h_conn := [1 \<mapsto> opening_conn\<lparr>c_state := CS_CHAL, c_incoming := True\<rparr>]\<rparr>) = None"
proof (rule early_ping_crashes [where a = 1 and k = "opening_conn\<lparr>c_state := CS_CHAL, c_incoming := True\<rparr>" and px = "\<lparr>px_encrypted = False, px_control = 3, px_id = 0, px_seq = 0\<rparr>"])
  show "seg_prefix (ho_crypto (still_host 0)) 16 (3 # replicate 15 0) =
      Some (\<lparr>px_encrypted = False, px_control = 3, px_id = 0, px_seq = 0\<rparr>, 10)"
    by (simp add: still_host_def) code_simp
  let ?h = "[1 \<mapsto> opening_conn\<lparr>c_state := CS_CHAL, c_incoming := True\<rparr>]"
  have ids: "conn_id ?h = conn_id (h_conn opening_world)"
    by (rule ext) (simp add: conn_id_def opening_world_def)
  show "connmap_ok (h_conn (opening_world\<lparr>h_conn := ?h\<rparr>)) (r_conn (w_router (opening_world\<lparr>h_conn := ?h\<rparr>)))"
    "cm_holds (h_conn (opening_world\<lparr>h_conn := ?h\<rparr>)) (r_conn (w_router (opening_world\<lparr>h_conn := ?h\<rparr>)))
      (px_id \<lparr>px_encrypted = False, px_control = 3, px_id = 0, px_seq = 0\<rparr>) 1"
    using opening_opener [of 0] connmap_same_ids [OF ids]
    by (simp_all add: opener_def opening_conn_def connection_zero_def connself_zero_def)
  show "has_flag FLAG_ALLOW_PLAIN_COMM (opening_world\<lparr>h_conn := ?h\<rparr>)" "r_state (w_router (opening_world\<lparr>h_conn := ?h\<rparr>)) = RS_LISTEN"
    using opening_opener [of 0] by (simp_all add: opener_def has_flag_def)
qed (simp_all add: still_host_def sodium_ok opening_conn_def connection_zero_def connpeer_zero_def CONTROL_PING_def)

end
