(* ===== verification/Starting.thy ===== *)
theory Starting
  imports Handshake
begin

text \<open>
  Starting a router on the default packet interface: the action, the bind, the report of the
  packet interface and the watch of its descriptor, in one call.
\<close>

text \<open>
  The library's packet interface, with calls nested as deep as they go: the bind reports a
  failure, and the router unbinds before that call returns.
\<close>

definition udp_program :: "sockets \<Rightarrow> host \<Rightarrow> host" where
  "udp_program S B = udp_host S (udp_host S B)"

lemma udp_host_simps [simp]:
  "ho_alloc (udp_host S B) = ho_alloc B" "ho_clock (udp_host S B) = ho_clock B" "ho_bind (udp_host S B) = trip_udp_bind S B"
  "ho_unbind (udp_host S B) = trip_udp_unbind S B" "ho_epoll_ctl (udp_host S B) = ho_epoll_ctl B"
  "runs_fine (udp_host S B) = runs_fine B"
  by (simp_all add: udp_host_def runs_fine_def fun_eq_iff)

lemma state_timer_exact:
  assumes "runs_fine H (w_router w)"
  obtains n p tw where "state_timer H ms w = Some (w\<lparr>w_brk := Suc (w_brk w), w_wheel := tw, w_tick := n,
      w_router := (w_router w)\<lparr>r_poll := Some p, r_statetimer := Some (w_brk w)\<rparr>\<rparr>)"
    "tw_heap tw (w_brk w) \<noteq> None" "tw_head tw = Some (w_brk w)"
proof -
  obtain n p tw where t: "trip_set_timeout_priv H ms None CB_timeout_router w = Some (Some (w_brk w),
      w\<lparr>w_brk := Suc (w_brk w), w_wheel := tw, w_tick := n, w_router := (w_router w)\<lparr>r_poll := Some p\<rparr>\<rparr>)"
    "tw_heap tw (w_brk w) \<noteq> None" "tw_head tw = Some (w_brk w)"
    by (rule set_timeout_exact [OF assms])
  show thesis
    by (rule that [where tw = tw and n = n and p = p]) (use t in \<open>simp_all add: state_timer_def\<close>)
qed

text \<open>A walk of an empty wheel, and the wait it leads to.\<close>

lemma timeout_idle:
  assumes "r_timeout (w_router w) = Some HPoll" "r_poll (w_router w) = Some p" "tw_head (w_wheel w) = None"
  obtains n p' where "trip_timeout H w = Some (r_error (w_router w),
      w\<lparr>w_tick := n, w_router := (w_router w)\<lparr>r_mindeadline := TRIPTIME_END, r_poll := Some p'\<rparr>\<rparr>)"
proof -
  have "walk_timers H now w = Some (None, w)" if "tw_head (w_wheel w) = None" for now w
    using that by (simp add: walk_timers_def timerwheel_walk_with_def walk_loop.simps)
  then show thesis
    using assms that
    by (simp add: trip_timeout_def w_now_def w_deadline_def call_timeout_def trip_timeout_cb_def Let_def)
qed

text \<open>Leaving \<open>BIND\<close> for another state: the timer of the state is cancelled.\<close>

lemma leave_bind:
  assumes "r_state (w_router w) = RS_BIND" "r_statetimer (w_router w) = Some t" "tw_heap (w_wheel w) t \<noteq> None"
  obtains d n tw where "router_leave H w = Some (w\<lparr>w_tick := n, w_wheel := tw,
      w_router := (w_router w)\<lparr>r_statedeadline := d, r_statetimer := None\<rparr>\<rparr>)"
proof -
  obtain e where "tw_heap (w_wheel w) t = Some e" using assms(3) by blast
  with assms(1,2) that show thesis
    by (simp add: router_leave_def state_deadline_def w_deadline_def w_now_def trip_timeout_cancel_state_def
        trip_cancel_timeout_priv_def timerwheel_cancel_def heap_upd_def)
qed

text \<open>The descriptor was bound: the router listens, and the descriptor is watched.\<close>

definition adds_watch :: "host \<Rightarrow> bool" where
  "adds_watch B \<longleftrightarrow> (\<forall>efd fd ev w. w_epoll w fd = None \<longrightarrow>
     ho_epoll_ctl B efd EPOLL_CTL_ADD fd ev w = (0, w\<lparr>w_epoll := (w_epoll w)(fd \<mapsto> ev)\<rparr>))"

lemma bind_listens:
  assumes st: "r_state (w_router w) = RS_BIND" "r_statetimer (w_router w) = Some t" "tw_heap (w_wheel w) t \<noteq> None"
    and hooks: "r_watch (w_router w) = Some HPoll" "r_poll (w_router w) \<noteq> None"
    and pk: "r_packet (w_router w) = Some k" "pkt_udp k = Some c" "udp_open S (udp_info c) = Inr fd"
    and fd: "fd \<noteq> TRIP_SOCKET_TIMEOUT" "sockmap_get fd (r_sockmap (w_router w)) \<noteq> None" "w_epoll w fd = None"
    and B: "adds_watch B"
  obtains w' where "trip_udp_bind S B w = Some w'" "r_state (w_router w') = RS_LISTEN"
    "r_error (w_router w') = r_error (w_router w)" "r_statetimer (w_router w') = None"
    "r_packet (w_router w') = Some (k\<lparr>pkt_data := Some (Ctx_udp (c\<lparr>udp_fd := fd\<rparr>))\<rparr>)" "w_epoll w' fd = Some EPOLLIN"
proof -
  let ?w = "rt_upd (\<lambda>r. r\<lparr>r_packet := Some (k\<lparr>pkt_data := Some (Ctx_udp (c\<lparr>udp_fd := fd\<rparr>))\<rparr>)\<rparr>) w"
  obtain d n tw where lv: "router_leave B ?w = Some (?w\<lparr>w_tick := n, w_wheel := tw,
      w_router := (w_router ?w)\<lparr>r_statedeadline := d, r_statetimer := None\<rparr>\<rparr>)"
    by (rule leave_bind [of ?w t B]) (use st in simp_all)
  obtain p where p: "r_poll (w_router w) = Some p" using hooks by blast
  obtain data where data: "sockmap_get fd (r_sockmap (w_router w)) = Some data" using fd by blast
  have ev: "trip_fd_events_to_epoll TRIP_IN = EPOLLIN"
    by (simp add: trip_fd_events_to_epoll_def TRIP_IN_def TRIP_OUT_def TRIP_REMOVE_def)
  have set: "trip_ready B ?w = Some (?w\<lparr>w_tick := n, w_wheel := tw,
      w_router := (w_router ?w)\<lparr>r_statetimer := None, r_state := RS_LISTEN, r_statedeadline := 0\<rparr>\<rparr>)"
    using lv st by (simp add: trip_ready_def trip_set_state_def router_enter_def)
  have "EEXIST \<noteq> 0" "TRIP_REMOVE \<noteq> TRIP_IN" by (simp_all add: EEXIST_def TRIP_REMOVE_def TRIP_IN_def)
  then show thesis
    using that pk set data p fd hooks(1) B ev
    by (simp add: trip_udp_bind_def trip_watch_def call_watch_def trip_watch_cb_def adds_watch_def)
qed

text \<open>A failed bind: the router is in \<open>ERROR\<close> with the number and the message.\<close>

lemma bind_fails:
  assumes st: "r_state (w_router w) = RS_BIND" "r_statetimer (w_router w) = Some t" "tw_heap (w_wheel w) t \<noteq> None"
    and fine: "runs_fine B (w_router w)"
    and pk: "r_packet (w_router w) = Some k" "pkt_udp k = Some c" "udp_open S (udp_info c) = Inl (e, msg)"
      "pkt_router k" "pkt_unbind k"
  obtains w' where "trip_udp_bind S (udp_host S B) w = Some w'" "r_state (w_router w') = RS_ERROR"
    "r_error (w_router w') = e" "r_errmsg (w_router w') = Some msg"
proof -
  let ?B = "udp_host S B"
  let ?w = "w\<lparr>w_tick := Suc (w_tick w), w_router := (w_router w)\<lparr>r_error := e, r_errmsg := Some msg\<rparr>\<rparr>"
  obtain d n tw where lv: "router_leave ?B ?w = Some (?w\<lparr>w_tick := n, w_wheel := tw,
      w_router := (w_router ?w)\<lparr>r_statedeadline := d, r_statetimer := None\<rparr>\<rparr>)"
    by (rule leave_bind [of ?w t ?B]) (use st in simp_all)
  let ?r = "(w_router ?w)\<lparr>r_statedeadline := d, r_statetimer := None, r_state := RS_ERROR\<rparr>"
  let ?w1 = "?w\<lparr>w_tick := n, w_wheel := tw, w_router := ?r\<rparr>"
  have "runs_fine B (w_router ?w1)" using fine by (simp add: runs_fine_def)
  then obtain n2 p2 tw2 where tm: "state_timer ?B (r_timeout_unbind (w_router ?w1)) ?w1 = Some (?w1\<lparr>w_brk := Suc (w_brk ?w1),
      w_wheel := tw2, w_tick := n2, w_router := (w_router ?w1)\<lparr>r_poll := Some p2, r_statetimer := Some (w_brk ?w1)\<rparr>\<rparr>)"
    using state_timer_exact [of ?B ?w1] by (simp only: udp_host_simps) blast
  let ?w2 = "?w1\<lparr>w_brk := Suc (w_brk ?w1),
      w_wheel := tw2, w_tick := n2, w_router := (w_router ?w1)\<lparr>r_poll := Some p2, r_statetimer := Some (w_brk ?w1)\<rparr>\<rparr>"
  have un: "trip_unready B x ?w2 = Some ?w2" for x
    using pk(1,4) by (simp add: trip_unready_def trip_set_error_def trip_set_state_def router_leave_def router_enter_def)
  have "trip_udp_unbind S B ?w2 = Some ?w2"
    using pk un by (simp add: trip_udp_unbind_def)
  then have "router_enter ?B RS_ERROR ?w1 = Some ?w2"
    using pk tm by (simp add: router_enter_def call_unbind_def)
  moreover have "ho_alloc B (w_tick w)" using fine by (simp add: runs_fine_def)
  ultimately have "trip_error ?B e (Some msg) w = Some ?w2"
    using st lv by (simp add: trip_error_def trip_set_error_def trip_set_state_def w_ok_def Let_def)
  then show thesis
    using that [of ?w2] pk by (simp add: trip_udp_bind_def)
qed

text \<open>What a program has set up before it starts its router, but for the packet interface.\<close>

definition can_start :: "host \<Rightarrow> world \<Rightarrow> bool" where
  "can_start B w \<longleftrightarrow> r_state (w_router w) = RS_START \<and> r_error (w_router w) = EOK \<and>
     runs_fine B (w_router w) \<and> r_watch (w_router w) = Some HPoll \<and>
     r_connection (w_router w) \<and> r_stream (w_router w) \<and> r_message (w_router w) \<and> tw_head (w_wheel w) = None"

text \<open>Starting comes down to the bind of the packet interface, in the state \<open>BIND\<close> with its timer set.\<close>

lemma start_enters:
  assumes up: "can_start H w" and pk: "r_packet (w_router w) = Some k" "pkt_bind k"
  obtains w' t d p where "trip_start H w = map_option (\<lambda>v. (r_error (w_router v), v)) (ho_bind H w')"
    "w_router w' = (w_router w)\<lparr>r_mindeadline := TRIPTIME_END, r_poll := Some p, r_packet := Some (k\<lparr>pkt_router := True\<rparr>),
       r_state := RS_BIND, r_statedeadline := d, r_statetimer := Some t\<rparr>"
    "tw_heap (w_wheel w') t \<noteq> None" "h_conn w' = h_conn w" "w_brk w \<le> w_brk w'" "w_epoll w' = w_epoll w"
proof -
  obtain p where p: "r_poll (w_router w) = Some p" using up by (auto simp: can_start_def runs_fine_def)
  obtain n p' where idle: "trip_timeout H w = Some (r_error (w_router w),
      w\<lparr>w_tick := n, w_router := (w_router w)\<lparr>r_mindeadline := TRIPTIME_END, r_poll := Some p'\<rparr>\<rparr>)"
    by (rule timeout_idle [of w p H]) (use up p in \<open>simp_all add: can_start_def runs_fine_def\<close>)
  let ?w0 = "w\<lparr>w_tick := n, w_router := (w_router w)\<lparr>r_mindeadline := TRIPTIME_END, r_poll := Some p'\<rparr>\<rparr>"
  let ?w1 = "w\<lparr>w_tick := n, w_router := (w_router w)\<lparr>r_mindeadline := TRIPTIME_END, r_poll := Some p',
      r_packet := Some (k\<lparr>pkt_router := True\<rparr>), r_state := RS_BIND\<rparr>\<rparr>"
  let ?w2 = "state_deadline H (r_timeout_bind (w_router w)) ?w1"
  obtain d m where w2: "?w2 = ?w1\<lparr>w_tick := m, w_router := (w_router ?w1)\<lparr>r_statedeadline := d\<rparr>\<rparr>"
    by (simp add: state_deadline_def w_deadline_def w_now_def)
  have "runs_fine H (w_router ?w2)" using up unfolding w2 by (simp add: can_start_def runs_fine_def)
  then obtain n3 p3 tw where tm: "state_timer H (r_timeout_bind (w_router w)) ?w2 = Some (?w2\<lparr>w_brk := Suc (w_brk ?w2),
      w_wheel := tw, w_tick := n3, w_router := (w_router ?w2)\<lparr>r_poll := Some p3, r_statetimer := Some (w_brk ?w2)\<rparr>\<rparr>)"
    and el: "tw_heap tw (w_brk ?w2) \<noteq> None"
    by (rule state_timer_exact)
  let ?w3 = "?w2\<lparr>w_brk := Suc (w_brk ?w2),
      w_wheel := tw, w_tick := n3, w_router := (w_router ?w2)\<lparr>r_poll := Some p3, r_statetimer := Some (w_brk ?w2)\<rparr>\<rparr>"
  have bind: "call_bind H ?w3 = ho_bind H ?w3"
    using pk unfolding w2 by (simp add: call_bind_def)
  have set: "trip_set_state H RS_BIND (rt_upd (\<lambda>r. r\<lparr>r_packet := Some (k\<lparr>pkt_router := True\<rparr>)\<rparr>) ?w0) = ho_bind H ?w3"
  proof -
    have "router_enter H RS_BIND ?w1 = ho_bind H ?w3"
      using tm bind by (simp add: router_enter_def Let_def)
    with up show ?thesis by (simp add: trip_set_state_def router_leave_def can_start_def)
  qed
  have "action_start H TRIP_SOCKET_TIMEOUT ?w0 = ho_bind H ?w3"
    using up pk(1) by (simp add: action_start_def trip_fill_missing_def trip_verify_def can_start_def runs_fine_def flip: set)
  then have run: "trip_start H w = map_option (\<lambda>v. (r_error (w_router v), v)) (ho_bind H ?w3)"
    using up idle by (simp add: trip_start_def trip_action_def can_start_def map_conv_bind_option comp_def)
  show thesis
    by (rule that [OF run, of "w_brk ?w2" d p3]) (use el in \<open>simp_all add: w2\<close>)
qed

lemma start_binds:
  assumes up: "can_start B w" and pk: "r_packet (w_router w) = Some k" "pkt_bind k"
  obtains w' t where "trip_start (udp_program S B) w =
      map_option (\<lambda>v. (r_error (w_router v), v)) (trip_udp_bind S (udp_host S B) w')"
    "r_state (w_router w') = RS_BIND" "r_statetimer (w_router w') = Some t" "tw_heap (w_wheel w') t \<noteq> None"
    "r_watch (w_router w') = Some HPoll" "runs_fine B (w_router w')" "r_error (w_router w') = EOK"
    "r_packet (w_router w') = Some (k\<lparr>pkt_router := True\<rparr>)" "r_sockmap (w_router w') = r_sockmap (w_router w)"
    "w_epoll w' = w_epoll w"
proof -
  have "can_start (udp_program S B) w" using up by (simp add: can_start_def udp_program_def)
  then obtain w' t d p where w': "trip_start (udp_program S B) w = map_option (\<lambda>v. (r_error (w_router v), v)) (ho_bind (udp_program S B) w')"
    "w_router w' = (w_router w)\<lparr>r_mindeadline := TRIPTIME_END, r_poll := Some p, r_packet := Some (k\<lparr>pkt_router := True\<rparr>),
       r_state := RS_BIND, r_statedeadline := d, r_statetimer := Some t\<rparr>"
    "tw_heap (w_wheel w') t \<noteq> None" "h_conn w' = h_conn w" "w_brk w \<le> w_brk w'" "w_epoll w' = w_epoll w"
    by (rule start_enters [OF _ pk])
  show thesis
    by (rule that [of w' t]) (use w' up in \<open>simp_all add: udp_program_def can_start_def runs_fine_def\<close>)
qed

text \<open>C10: Starting a router on the default UDP interface, from the first timeout to the watched
  descriptor. If the socket is opened and bound, one call of \<open>trip_start\<close> reports success, the
  router listens without a timer for its state, the interface holds the descriptor, and the
  poll loop waits on it for input. If the address, the socket or the bind fails, the call
  reports the error number of that failure and the router keeps its message in state \<open>ERROR\<close>.\<close>

theorem udp_start:
  assumes up: "can_start B w" and pk: "r_packet (w_router w) = Some k" "pkt_bind k" "pkt_unbind k" "pkt_udp k = Some c"
    and B: "adds_watch B"
    and fd: "\<And>fd. udp_open S (udp_info c) = Inr fd \<Longrightarrow>
      fd \<noteq> TRIP_SOCKET_TIMEOUT \<and> sockmap_get fd (r_sockmap (w_router w)) \<noteq> None \<and> w_epoll w fd = None"
  shows "\<exists>w'. case udp_open S (udp_info c) of
      Inr fd \<Rightarrow> trip_start (udp_program S B) w = Some (EOK, w') \<and> r_state (w_router w') = RS_LISTEN \<and>
        r_statetimer (w_router w') = None \<and>
        map_option pkt_udp (r_packet (w_router w')) = Some (Some (c\<lparr>udp_fd := fd\<rparr>)) \<and> w_epoll w' fd = Some EPOLLIN
    | Inl (e, msg) \<Rightarrow> trip_start (udp_program S B) w = Some (e, w') \<and> r_state (w_router w') = RS_ERROR \<and>
        trip_errmsg w' = msg"
proof -
  obtain w1 t where w1: "trip_start (udp_program S B) w =
      map_option (\<lambda>v. (r_error (w_router v), v)) (trip_udp_bind S (udp_host S B) w1)"
    "r_state (w_router w1) = RS_BIND" "r_statetimer (w_router w1) = Some t" "tw_heap (w_wheel w1) t \<noteq> None"
    "r_watch (w_router w1) = Some HPoll" "runs_fine B (w_router w1)" "r_error (w_router w1) = EOK"
    "r_packet (w_router w1) = Some (k\<lparr>pkt_router := True\<rparr>)" "r_sockmap (w_router w1) = r_sockmap (w_router w)"
    "w_epoll w1 = w_epoll w"
    by (rule start_binds [OF up pk(1,2)])
  show ?thesis
  proof (cases "udp_open S (udp_info c)")
    case (Inr fd)
    have watch: "adds_watch (udp_host S B)" using B by (simp add: adds_watch_def)
    obtain w' where "trip_udp_bind S (udp_host S B) w1 = Some w'" "r_state (w_router w') = RS_LISTEN"
      "r_error (w_router w') = r_error (w_router w1)" "r_statetimer (w_router w') = None"
      "r_packet (w_router w') = Some (k\<lparr>pkt_router := True, pkt_data := Some (Ctx_udp (c\<lparr>udp_fd := fd\<rparr>))\<rparr>)" "w_epoll w' fd = Some EPOLLIN"
      by (rule bind_listens [where k = "k\<lparr>pkt_router := True\<rparr>" and c = c and S = S and fd = fd, OF w1(2-5)])
        (use w1 pk fd [OF Inr] Inr watch in \<open>simp_all add: runs_fine_def\<close>)
    with w1(1,7) Inr show ?thesis by (intro exI [of _ w']) simp
  next
    case (Inl em)
    obtain e msg where em: "em = (e, msg)" by (cases em)
    obtain w' where "trip_udp_bind S (udp_host S B) w1 = Some w'" "r_state (w_router w') = RS_ERROR"
      "r_error (w_router w') = e" "r_errmsg (w_router w') = Some msg"
      by (rule bind_fails [where k = "k\<lparr>pkt_router := True\<rparr>" and c = c and S = S and e = e and msg = msg, OF w1(2-4,6)])
        (use w1 pk Inl em in simp_all)
    with w1(1) Inl em show ?thesis by (intro exI [of _ w']) (simp add: trip_errmsg_def)
  qed
qed

text \<open>A program that has set everything up, on a system with one address for the service.\<close>

definition watching_host :: host where
  "watching_host = (still_host 0)\<lparr>ho_epoll_ctl := \<lambda>efd oper fd ev w. (0, w\<lparr>w_epoll := (w_epoll w)(fd \<mapsto> ev)\<rparr>)\<rparr>"

definition one_address :: "int \<Rightarrow> sockets" where
  "one_address bound = \<lparr>so_getaddrinfo = \<lambda>_. Some [\<lparr>ai_family = AF_INET, ai_socktype = SOCK_DGRAM, ai_protocol = 17\<rparr>],
     so_getprotobyname = Some 17, so_socket = \<lambda>_ _ _. 5, so_bind = \<lambda>_ _. bound, so_close = \<lambda>_. 0, so_errno = EBUSY\<rparr>"

definition ready_world :: world where
  "ready_world = rt_upd (\<lambda>r. r\<lparr>r_state := RS_START, r_connection := True, r_stream := True, r_message := True,
     r_packet := Some (udp_packet [])\<rparr>) listening_world"

lemmas ready_simps = ready_world_def listening_world_def blank_world_def router_zero_def udp_packet_def pkt_udp_def
  can_start_def runs_fine_def watching_host_def still_host_def

lemma one_address_open [simp]:
  "udp_open (one_address b) i = (if b < 0 then Inl (EBUSY, ''Error trying to bind socket.'') else Inr 5)"
  by (simp add: udp_open_def one_address_def)

theorem udp_start_witness:
  "(\<exists>w'. trip_start (udp_program (one_address 0) watching_host) ready_world = Some (EOK, w') \<and>
     r_state (w_router w') = RS_LISTEN \<and> w_epoll w' 5 = Some EPOLLIN) \<and>
   (\<exists>w'. trip_start (udp_program (one_address (- 1)) watching_host) ready_world = Some (EBUSY, w') \<and>
     trip_errmsg w' = ''Error trying to bind socket.'')"
proof -
  have get: "sockmap_get 5 (r_sockmap (w_router ready_world)) \<noteq> None"
    by (simp add: ready_simps sockmap_init_def sockmap_get_def)
  have w: "can_start watching_host ready_world"
    "r_packet (w_router ready_world) = Some (udp_packet [])"
    "adds_watch watching_host" "w_epoll ready_world 5 = None"
    by (simp_all add: ready_simps adds_watch_def)
  have u: "\<exists>w'. case udp_open (one_address b) (udp_info \<lparr>udp_info = [], udp_fd = 0\<rparr>) of
      Inr fd \<Rightarrow> trip_start (udp_program (one_address b) watching_host) ready_world = Some (EOK, w') \<and> r_state (w_router w') = RS_LISTEN \<and>
        r_statetimer (w_router w') = None \<and>
        map_option pkt_udp (r_packet (w_router w')) = Some (Some (\<lparr>udp_info = [], udp_fd = 0\<rparr>\<lparr>udp_fd := fd\<rparr>)) \<and> w_epoll w' fd = Some EPOLLIN
    | Inl (e, msg) \<Rightarrow> trip_start (udp_program (one_address b) watching_host) ready_world = Some (e, w') \<and> r_state (w_router w') = RS_ERROR \<and>
        trip_errmsg w' = msg" for b
    by (rule udp_start [OF w(1,2) _ _ _ w(3)])
      (use get w(4) in \<open>auto simp: udp_packet_def pkt_udp_def TRIP_SOCKET_TIMEOUT_def split: if_splits\<close>)
  show ?thesis using u [of 0] u [of "- 1"] by (auto split: if_splits)
qed

end
