(* ===== verification/Stopping.thy ===== *)
theory Stopping
  imports Starting Trip_Poll
begin

text \<open>
  Stopping a router that has no connections: what \<open>trip_stop\<close> asks for (\<open>src/trip.c\<close>) and what
  the poll loop (\<open>src/trip_poll.c\<close>) then makes of it.
\<close>

section \<open>Walking over a due timer\<close>

lemma walk_end [simp]: "walk_loop get upd fi now prev None mn w = Some (mn, w)"
  by (simp add: walk_loop.simps)

lemma walk_due:
  assumes "tw_heap (w_wheel w) a = Some e" "te_deadline e \<le> now" "\<not> te_canceled e" "te_cb e = Some cb"
    "fire H cb (te_data e) (w\<lparr>w_wheel := (w_wheel w)\<lparr>tw_head := te_next e\<rparr>\<rparr>) = Some w'" "tw_heap (w_wheel w') a \<noteq> None"
  shows "walk_loop w_wheel (\<lambda>v w. w\<lparr>w_wheel := v\<rparr>) (fire H) now None (Some a) mn w =
    walk_loop w_wheel (\<lambda>v w. w\<lparr>w_wheel := v\<rparr>) (fire H) now None (tw_head (w_wheel w')) mn
      (w'\<lparr>w_wheel := (w_wheel w')\<lparr>tw_heap := (tw_heap (w_wheel w'))(a := None)\<rparr>\<rparr>)"
proof -
  obtain x where "tw_heap (w_wheel w') a = Some x" using assms(6) by blast
  with assms(1-5) show ?thesis
    by (subst walk_loop.simps) (simp add: tw_on_def tw_store_def tw_free_def tw_load_def)
qed

lemma walk_later:
  assumes "tw_heap (w_wheel w) a = Some e" "now < te_deadline e" "\<not> te_canceled e" "te_next e = None"
  shows "walk_loop w_wheel (\<lambda>v w. w\<lparr>w_wheel := v\<rparr>) (fire H) now None (Some a) None w = Some (Some a, w)"
proof -
  have "\<not> te_deadline e \<le> now" using assms(2) by simp
  with assms show ?thesis by (subst walk_loop.simps) (simp add: tw_min_def)
qed

section \<open>The timer of a closing router\<close>

definition can_unbind :: "router \<Rightarrow> bool" where
  "can_unbind r \<longleftrightarrow> (\<exists>k c. r_packet r = Some k \<and> pkt_udp k = Some c \<and> pkt_unbind k \<and> pkt_router k)"

text \<open>Unbinding in the state \<open>ERROR\<close> with a timer already set changes nothing more.\<close>

lemma unbind_in_error:
  assumes "can_unbind (w_router w)" "r_state (w_router w) = RS_ERROR" "r_statetimer (w_router w) \<noteq> None"
  shows "call_unbind (udp_program S B) w = Some w"
proof -
  obtain k c where k: "r_packet (w_router w) = Some k" "pkt_udp k = Some c" "pkt_unbind k"
    using assms(1) by (auto simp: can_unbind_def)
  obtain t where t: "r_statetimer (w_router w) = Some t" using assms(3) by blast
  have same: "rt_upd (r_state_update (\<lambda>_. RS_ERROR)) w = w"
    by (intro world.equality router.equality) (simp_all add: assms(2))
  have "trip_unready H x w = Some w" for H x
    using k(1) t assms(2) same by (simp add: trip_unready_def trip_set_error_def trip_set_state_def router_leave_def router_enter_def)
  with k show ?thesis by (simp add: call_unbind_def udp_program_def trip_udp_unbind_def Let_def)
qed

text \<open>It ends in \<open>ERROR\<close>, with one more timer at the head of the wheel.\<close>

lemma close_timer_fires:
  assumes st: "r_state (w_router w) = RS_CLOSE" and un: "can_unbind (w_router w)" and fine: "runs_fine B (w_router w)"
  obtains w' i ms where "timeout_router_cb (udp_program S B) w = Some w'" "r_state (w_router w') = RS_ERROR"
    "r_error (w_router w') = ETIME" "runs_fine B (w_router w')"
    "w_wheel w' = wheel_push (w_brk w) (timer_at B i ms None CB_timeout_router (tw_head (w_wheel w))) (w_wheel w)"
proof -
  let ?H = "udp_program S B"
  let ?w = "w\<lparr>w_tick := Suc (w_tick w), w_router := (w_router w)\<lparr>r_statetimer := None, r_error := ETIME, r_errmsg := Some ''''\<rparr>\<rparr>"
  obtain d where lv: "router_leave ?H ?w = Some (?w\<lparr>w_tick := Suc (w_tick ?w), w_router := (w_router ?w)\<lparr>r_statedeadline := d\<rparr>\<rparr>)"
    using st by (simp add: router_leave_def state_deadline_def w_deadline_def w_now_def trip_timeout_cancel_state_def)
  let ?w1 = "?w\<lparr>w_tick := Suc (w_tick ?w), w_router := (w_router ?w)\<lparr>r_statedeadline := d, r_state := RS_ERROR\<rparr>\<rparr>"
  let ?ms = "r_timeout_unbind (w_router w)"
  have "runs_fine ?H (w_router ?w1)" using fine by (simp add: udp_program_def runs_fine_def)
  then obtain n p i where tm: "trip_set_timeout_priv ?H ?ms None CB_timeout_router ?w1 = Some (Some (w_brk ?w1),
      ?w1\<lparr>w_brk := Suc (w_brk ?w1), w_wheel := wheel_push (w_brk ?w1) (timer_at ?H i ?ms None CB_timeout_router (tw_head (w_wheel ?w1))) (w_wheel ?w1),
        w_tick := n, w_router := (w_router ?w1)\<lparr>r_poll := Some p\<rparr>\<rparr>)"
    by (rule set_timeout_wheel)
  let ?w2 = "?w1\<lparr>w_brk := Suc (w_brk ?w1), w_wheel := wheel_push (w_brk ?w1) (timer_at ?H i ?ms None CB_timeout_router (tw_head (w_wheel ?w1))) (w_wheel ?w1),
        w_tick := n, w_router := (w_router ?w1)\<lparr>r_poll := Some p, r_statetimer := Some (w_brk ?w1)\<rparr>\<rparr>"
  have unb: "call_unbind ?H ?w2 = Some ?w2" by (rule unbind_in_error) (use un in \<open>simp_all add: can_unbind_def\<close>)
  obtain k where k: "r_packet (w_router w) = Some k" "pkt_router k" using un by (auto simp: can_unbind_def)
  have "router_enter ?H RS_ERROR ?w1 = Some ?w2"
    using k tm unb by (simp add: router_enter_def state_timer_def)
  moreover have "ho_alloc ?H (w_tick w)" using fine by (simp add: runs_fine_def udp_program_def)
  ultimately have run: "timeout_router_cb ?H w = Some ?w2"
    using st lv by (simp add: timeout_router_cb_def trip_set_error_def trip_set_state_def w_ok_def Let_def)
  show thesis
    by (rule that [OF run, where i = i and ms = ?ms]) (use fine in \<open>simp_all add: runs_fine_def timer_at_def udp_program_def\<close>)
qed

text \<open>A router in \<open>CLOSE\<close> that only waits for the timer of that state, set without grace at the
  \<open>i\<close>-th reading of the clock.\<close>

definition closing :: "host \<Rightarrow> nat \<Rightarrow> world \<Rightarrow> addr \<Rightarrow> bool" where
  "closing B i w a \<longleftrightarrow> r_state (w_router w) = RS_CLOSE \<and> r_error (w_router w) = EOK \<and> can_unbind (w_router w) \<and>
     runs_fine B (w_router w) \<and> a < w_brk w \<and> tw_head (w_wheel w) = Some a \<and>
     tw_heap (w_wheel w) a = Some (timer_at B i 0 None CB_timeout_router None)"

abbreviation walk_on :: "host \<Rightarrow> u64 \<Rightarrow> ptr \<Rightarrow> world \<Rightarrow> (ptr \<times> world) option" where
  "walk_on H now cur w \<equiv> walk_loop w_wheel (\<lambda>v w. w\<lparr>w_wheel := v\<rparr>) (fire H) now None cur None w"

definition live_timer :: "world \<Rightarrow> ptr \<Rightarrow> bool" where
  "live_timer w m \<longleftrightarrow> (case m of None \<Rightarrow> True | Some x \<Rightarrow> tw_heap (w_wheel w) x \<noteq> None)"

lemma live_timer_simps [simp]: "live_timer w None" "live_timer w (Some x) \<longleftrightarrow> tw_heap (w_wheel w) x \<noteq> None"
  by (simp_all add: live_timer_def)

lemma error_timer_walk:
  assumes "r_state (w_router w) = RS_ERROR" "tw_heap (w_wheel w) a = Some (timer_at B i ms None CB_timeout_router None)"
  obtains m w' where "walk_on H now (Some a) w = Some (m, w')" "r_state (w_router w') = RS_ERROR"
    "r_error (w_router w') = r_error (w_router w)" "r_timeout (w_router w') = r_timeout (w_router w)"
    "r_poll (w_router w') = r_poll (w_router w)" "live_timer w' m"
proof (cases "te_deadline (timer_at B i ms None CB_timeout_router None) \<le> now")
  case True
  let ?v = "(rt_upd (\<lambda>r. r\<lparr>r_statetimer := None\<rparr>) w)\<lparr>w_wheel := (w_wheel w)\<lparr>tw_head := None\<rparr>\<rparr>"
  let ?u = "?v\<lparr>w_wheel := (w_wheel ?v)\<lparr>tw_heap := (tw_heap (w_wheel ?v))(a := None)\<rparr>\<rparr>"
  have "walk_on H now (Some a) w = walk_on H now (tw_head (w_wheel ?v)) ?u"
    by (rule walk_due [where cb = CB_timeout_router, OF assms(2) True]) (use assms in \<open>simp_all add: timer_at_def fire_def timeout_router_cb_def\<close>)
  then show thesis by (intro that [of None ?u]) (use assms in simp_all)
next
  case False
  have "walk_on H now (Some a) w = Some (Some a, w)"
    by (rule walk_later [OF assms(2)]) (use False in \<open>simp_all add: timer_at_def\<close>)
  then show thesis by (rule that) (use assms in simp_all)
qed

lemma closing_walk:
  assumes cl: "closing B i w a" and due: "triptime_now (ho_clock B i) \<le> now"
  obtains m w' where "walk_on (udp_program S B) now (Some a) w = Some (m, w')" "r_state (w_router w') = RS_ERROR"
    "r_error (w_router w') = ETIME" "runs_fine B (w_router w')" "live_timer w' m"
proof -
  let ?H = "udp_program S B"
  have entry: "tw_heap (w_wheel w) a = Some (timer_at B i 0 None CB_timeout_router None)"
    using cl by (simp add: closing_def)
  let ?w = "w\<lparr>w_wheel := (w_wheel w)\<lparr>tw_head := None\<rparr>\<rparr>"
  have "r_state (w_router ?w) = RS_CLOSE" "can_unbind (w_router ?w)" "runs_fine B (w_router ?w)"
    using cl by (simp_all add: closing_def)
  then obtain w' j ms where w': "timeout_router_cb ?H ?w = Some w'" "r_state (w_router w') = RS_ERROR"
    "r_error (w_router w') = ETIME" "runs_fine B (w_router w')"
    "w_wheel w' = wheel_push (w_brk ?w) (timer_at B j ms None CB_timeout_router (tw_head (w_wheel ?w))) (w_wheel ?w)"
    by (rule close_timer_fires)
  let ?w2 = "w'\<lparr>w_wheel := (w_wheel w')\<lparr>tw_heap := (tw_heap (w_wheel w'))(a := None)\<rparr>\<rparr>"
  have ne: "a \<noteq> w_brk w" using cl by (simp add: closing_def)
  have step: "walk_on ?H now (Some a) w = walk_on ?H now (tw_head (w_wheel w')) ?w2"
    by (rule walk_due [where cb = CB_timeout_router, OF entry]) (use due entry w' ne in \<open>simp_all add: timer_at_def fire_def\<close>)
  have "r_state (w_router ?w2) = RS_ERROR"
    "tw_heap (w_wheel ?w2) (w_brk w) = Some (timer_at B j ms None CB_timeout_router None)"
    using w' ne by simp_all
  then obtain m v where "walk_on ?H now (Some (w_brk w)) ?w2 = Some (m, v)" "r_state (w_router v) = RS_ERROR"
    "r_error (w_router v) = r_error (w_router ?w2)" "r_timeout (w_router v) = r_timeout (w_router ?w2)"
    "r_poll (w_router v) = r_poll (w_router ?w2)" "live_timer v m"
    by (rule error_timer_walk)
  then show thesis
    by (intro that [of m v]) (use step w' in \<open>simp_all add: runs_fine_def\<close>)
qed

text \<open>What a walk leads to, for the poll loop.\<close>

lemma timeout_after_walk:
  assumes "walk_timers H (triptime_now (ho_clock H (w_tick w))) (w\<lparr>w_tick := Suc (w_tick w)\<rparr>) = Some (m, v)"
    "live_timer v m" "runs_fine B (w_router v)"
  obtains d n p where "trip_timeout H w = Some (r_error (w_router v),
      v\<lparr>w_tick := n, w_router := (w_router v)\<lparr>r_mindeadline := d, r_poll := Some p\<rparr>\<rparr>)" "w_tick v \<le> n"
proof -
  obtain q where "r_timeout (w_router v) = Some HPoll" "r_poll (w_router v) = Some q"
    using assms(3) by (auto simp: runs_fine_def)
  then show thesis
    using that assms(1,2)
    by (cases m) (auto simp: trip_timeout_def w_now_def w_deadline_def call_timeout_def trip_timeout_cb_def Let_def)
qed

text \<open>Out of time, and still on its poll loop.\<close>

definition timed_out :: "world \<Rightarrow> bool" where
  "timed_out w \<longleftrightarrow> r_state (w_router w) = RS_ERROR \<and> r_error (w_router w) = ETIME \<and> r_poll (w_router w) \<noteq> None"

lemma timeout_in_error:
  assumes "walk_timers H (triptime_now (ho_clock H (w_tick w))) (w\<lparr>w_tick := Suc (w_tick w)\<rparr>) = Some (m, v)"
    "r_state (w_router v) = RS_ERROR" "r_error (w_router v) = ETIME" "runs_fine B (w_router v)" "live_timer v m"
  obtains w' where "trip_timeout H w = Some (ETIME, w')" "timed_out w'"
proof -
  from timeout_after_walk [OF assms(1,5,4)] obtain d n p where "trip_timeout H w = Some (r_error (w_router v),
      v\<lparr>w_tick := n, w_router := (w_router v)\<lparr>r_mindeadline := d, r_poll := Some p\<rparr>\<rparr>)"
    by blast
  then show thesis
    by (intro that [of "v\<lparr>w_tick := n, w_router := (w_router v)\<lparr>r_mindeadline := d, r_poll := Some p\<rparr>\<rparr>"])
      (use assms in \<open>simp_all add: timed_out_def\<close>)
qed

section \<open>From the request to the error\<close>

definition clock_advances :: "host \<Rightarrow> bool" where
  "clock_advances B \<longleftrightarrow> (\<forall>i j. i \<le> j \<longrightarrow> triptime_now (ho_clock B i) \<le> triptime_now (ho_clock B j))"

lemma closing_timeout:
  assumes cl: "closing B i w a" and clock: "clock_advances B" "i \<le> w_tick w"
  obtains w' where "trip_timeout (udp_program S B) w = Some (ETIME, w')" "timed_out w'"
proof -
  let ?H = "udp_program S B"
  let ?now = "triptime_now (ho_clock ?H (w_tick w))" and ?w = "w\<lparr>w_tick := Suc (w_tick w)\<rparr>"
  have "closing B i ?w a" "triptime_now (ho_clock B i) \<le> ?now"
    using cl clock by (simp_all add: closing_def clock_advances_def udp_program_def)
  then obtain m v where v: "walk_on ?H ?now (Some a) ?w = Some (m, v)" "r_state (w_router v) = RS_ERROR"
    "r_error (w_router v) = ETIME" "runs_fine B (w_router v)" "live_timer v m"
    by (rule closing_walk)
  have "walk_timers ?H ?now ?w = Some (m, v)"
    using v(1) cl by (simp add: walk_timers_def timerwheel_walk_with_def closing_def)
  from this v(2-5) show thesis by (rule timeout_in_error) (rule that)
qed

text \<open>A listening router that has no connections and no timers, and closes without grace.\<close>

definition at_rest :: "host \<Rightarrow> world \<Rightarrow> bool" where
  "at_rest B w \<longleftrightarrow> r_state (w_router w) = RS_LISTEN \<and> r_error (w_router w) = EOK \<and> can_unbind (w_router w) \<and>
     runs_fine B (w_router w) \<and> r_timeout_close (w_router w) = 0 \<and> cm_cap (r_conn (w_router w)) = 0 \<and>
     tw_head (w_wheel w) = None"

lemma stop_callback:
  assumes "at_rest B w"
  obtains w' i where "stop_async_cb (udp_program S B) w = Some w'" "closing B i w' (w_brk w)" "i \<le> w_tick w'"
    "tw_heap (w_wheel w') = (tw_heap (w_wheel w))(w_brk w \<mapsto> timer_at B i 0 None CB_timeout_router None)"
proof -
  let ?H = "udp_program S B"
  let ?w = "rt_upd (\<lambda>r. r\<lparr>r_state := RS_CLOSE, r_conn := connmap_clear (r_conn r)\<rparr>) w"
  have cl: "trip_close 0 (rt_upd (\<lambda>r. r\<lparr>r_state := RS_CLOSE\<rparr>) w) = Some ?w"
    using assms by (simp add: trip_close_def connmap_iter_beg_def connmap_iter_end_def at_rest_def Let_def)
  obtain d where sd: "state_deadline ?H 0 ?w = ?w\<lparr>w_tick := Suc (w_tick ?w), w_router := (w_router ?w)\<lparr>r_statedeadline := d\<rparr>\<rparr>"
    by (simp add: state_deadline_def w_deadline_def w_now_def)
  let ?w1 = "?w\<lparr>w_tick := Suc (w_tick ?w), w_router := (w_router ?w)\<lparr>r_statedeadline := d\<rparr>\<rparr>"
  have "runs_fine ?H (w_router ?w1)" using assms by (simp add: at_rest_def udp_program_def runs_fine_def)
  then obtain n p i where tm: "trip_set_timeout_priv ?H 0 None CB_timeout_router ?w1 = Some (Some (w_brk ?w1),
      ?w1\<lparr>w_brk := Suc (w_brk ?w1), w_wheel := wheel_push (w_brk ?w1) (timer_at ?H i 0 None CB_timeout_router (tw_head (w_wheel ?w1))) (w_wheel ?w1),
        w_tick := n, w_router := (w_router ?w1)\<lparr>r_poll := Some p\<rparr>\<rparr>)" "i \<le> n"
    by (rule set_timeout_wheel)
  let ?w2 = "?w1\<lparr>w_brk := Suc (w_brk ?w1), w_wheel := wheel_push (w_brk ?w1) (timer_at ?H i 0 None CB_timeout_router (tw_head (w_wheel ?w1))) (w_wheel ?w1),
        w_tick := n, w_router := (w_router ?w1)\<lparr>r_poll := Some p, r_statetimer := Some (w_brk ?w1)\<rparr>\<rparr>"
  have run: "stop_async_cb ?H w = Some ?w2"
    using assms cl sd tm(1)
    by (simp add: stop_async_cb_def trip_set_state_def router_leave_def router_enter_def state_timer_def at_rest_def Let_def)
  show thesis
    by (rule that [OF run, where i = i])
      (use assms tm(2) in \<open>simp_all add: closing_def at_rest_def can_unbind_def runs_fine_def timer_at_def udp_program_def\<close>)
qed

text \<open>The first timeout after the request: the router closes, and may already be out of time.\<close>

definition stop_asked :: "host \<Rightarrow> nat \<Rightarrow> world \<Rightarrow> addr \<Rightarrow> bool" where
  "stop_asked B i w b \<longleftrightarrow> at_rest B (w\<lparr>w_wheel := (w_wheel w)\<lparr>tw_head := None\<rparr>\<rparr>) \<and> b < w_brk w \<and>
     tw_head (w_wheel w) = Some b \<and> tw_heap (w_wheel w) b = Some (timer_at B i 0 None CB_stop_async None)"

lemma stop_timeout:
  assumes st: "stop_asked B i w b" and clock: "clock_advances B" "i \<le> w_tick w"
  obtains w' where "trip_timeout (udp_program S B) w = Some (ETIME, w')" "timed_out w'"
  | w' j a where "trip_timeout (udp_program S B) w = Some (EOK, w')" "closing B j w' a" "j \<le> w_tick w'"
proof -
  let ?H = "udp_program S B"
  let ?now = "triptime_now (ho_clock ?H (w_tick w))"
  let ?w = "w\<lparr>w_tick := Suc (w_tick w)\<rparr>"
  let ?v = "?w\<lparr>w_wheel := (w_wheel ?w)\<lparr>tw_head := None\<rparr>\<rparr>"
  have "at_rest B ?v" using st by (simp add: stop_asked_def at_rest_def)
  then obtain w1 j where w1: "stop_async_cb ?H ?v = Some w1" "closing B j w1 (w_brk ?v)" "j \<le> w_tick w1"
    "tw_heap (w_wheel w1) = (tw_heap (w_wheel ?v))(w_brk ?v \<mapsto> timer_at B j 0 None CB_timeout_router None)"
    by (rule stop_callback)
  let ?a = "w_brk w"
  let ?w2 = "w1\<lparr>w_wheel := (w_wheel w1)\<lparr>tw_heap := (tw_heap (w_wheel w1))(b := None)\<rparr>\<rparr>"
  have ne: "b \<noteq> ?a" and entry: "tw_heap (w_wheel ?w) b = Some (timer_at B i 0 None CB_stop_async None)"
    using st by (simp_all add: stop_asked_def)
  have due: "te_deadline (timer_at B i 0 None CB_stop_async None) \<le> ?now"
    using clock by (simp add: timer_at_def clock_advances_def udp_program_def)
  have step: "walk_on ?H ?now (Some b) ?w = walk_on ?H ?now (tw_head (w_wheel w1)) ?w2"
    by (rule walk_due [where cb = CB_stop_async, OF entry due])
      (use w1 st ne in \<open>simp_all add: timer_at_def fire_def stop_asked_def\<close>)
  have cl: "closing B j ?w2 ?a" using w1(2,4) ne by (simp add: closing_def)
  have walk: "walk_timers ?H ?now ?w = walk_on ?H ?now (Some ?a) ?w2"
    using st step w1(2) by (simp add: walk_timers_def timerwheel_walk_with_def stop_asked_def closing_def)
  show thesis
  proof (cases "triptime_now (ho_clock B j) \<le> ?now")
    case True
    obtain m v where v: "walk_on ?H ?now (Some ?a) ?w2 = Some (m, v)" "r_state (w_router v) = RS_ERROR"
      "r_error (w_router v) = ETIME" "runs_fine B (w_router v)" "live_timer v m"
      by (rule closing_walk [OF cl True])
    from walk [unfolded v(1)] v(2-5) show thesis by (rule timeout_in_error) (rule that(1))
  next
    case False
    have "tw_heap (w_wheel ?w2) ?a = Some (timer_at B j 0 None CB_timeout_router None)"
      using cl by (simp add: closing_def)
    then have "walk_on ?H ?now (Some ?a) ?w2 = Some (Some ?a, ?w2)"
      by (rule walk_later) (use cl False in \<open>simp_all add: closing_def timer_at_def\<close>)
    moreover have "live_timer ?w2 (Some ?a)" "runs_fine B (w_router ?w2)" "r_error (w_router ?w2) = EOK"
      using cl by (simp_all add: closing_def)
    ultimately obtain d n p where run: "trip_timeout ?H w = Some (EOK,
        ?w2\<lparr>w_tick := n, w_router := (w_router ?w2)\<lparr>r_mindeadline := d, r_poll := Some p\<rparr>\<rparr>)" "w_tick ?w2 \<le> n"
      using timeout_after_walk [of ?H w "Some ?a" ?w2 B] walk by metis
    show thesis
      by (rule that(2) [OF run(1), of j ?a])
        (use cl w1(3) run(2) in \<open>simp_all add: closing_def can_unbind_def runs_fine_def\<close>)
  qed
qed

text \<open>A descriptor on which nothing happens: every wait runs until its time is over.\<close>

definition idle_poll :: "epoll \<Rightarrow> bool" where
  "idle_poll E \<longleftrightarrow> (\<forall>efd ms w. \<exists>n \<ge> w_tick w. ep_wait E efd ms w = (Inr [], w\<lparr>w_tick := n\<rparr>))"

lemma run_step_idle:
  assumes "idle_poll E"
  obtains n where "run_step E H efd ms w = trip_timeout H (w\<lparr>w_tick := n\<rparr>)" "w_tick w \<le> n"
proof -
  obtain n where "w_tick w \<le> n" "ep_wait E efd ms w = (Inr [], w\<lparr>w_tick := n\<rparr>)"
    using assms unfolding idle_poll_def by meson
  then show thesis by (intro that [of n]) (simp_all add: run_step_def)
qed

lemma run_loop_closing:
  assumes E: "idle_poll E" and cl: "closing B i w a" and clock: "clock_advances B" "i \<le> w_tick w"
  obtains w' where "run_loop E (udp_program S B) efd deadline ms w = Some (ETIME, w')" "timed_out w'"
proof -
  obtain n where n: "run_step E (udp_program S B) efd ms w = trip_timeout (udp_program S B) (w\<lparr>w_tick := n\<rparr>)" "w_tick w \<le> n"
    by (rule run_step_idle [OF E])
  have "closing B i (w\<lparr>w_tick := n\<rparr>) a" "i \<le> w_tick (w\<lparr>w_tick := n\<rparr>)"
    using cl n(2) clock(2) by (simp_all add: closing_def)
  then obtain w' where "trip_timeout (udp_program S B) (w\<lparr>w_tick := n\<rparr>) = Some (ETIME, w')" "timed_out w'"
    using closing_timeout clock(1) by metis
  with n(1) show thesis by (intro that) (subst run_loop.simps, simp_all)
qed

lemma run_loop_stop:
  assumes E: "idle_poll E" and st: "stop_asked B i w b" and clock: "clock_advances B" "i \<le> w_tick w"
  obtains w' where "run_loop E (udp_program S B) efd TRIPTIME_END ms w = Some (ETIME, w')" "timed_out w'"
proof -
  let ?H = "udp_program S B"
  obtain n where n: "run_step E ?H efd ms w = trip_timeout ?H (w\<lparr>w_tick := n\<rparr>)" "w_tick w \<le> n"
    by (rule run_step_idle [OF E])
  have "stop_asked B i (w\<lparr>w_tick := n\<rparr>) b" "i \<le> w_tick (w\<lparr>w_tick := n\<rparr>)"
    using st n(2) clock(2) by (simp_all add: stop_asked_def at_rest_def)
  then show thesis
  proof (rule stop_timeout [OF _ clock(1), where S = S])
    fix w' assume "trip_timeout ?H (w\<lparr>w_tick := n\<rparr>) = Some (ETIME, w')" "timed_out w'"
    with n(1) show thesis by (intro that) (subst run_loop.simps, simp_all)
  next
    fix w1 j a assume w1: "trip_timeout ?H (w\<lparr>w_tick := n\<rparr>) = Some (EOK, w1)" "closing B j w1 a" "j \<le> w_tick w1"
    obtain p where p: "r_poll (w_router w1) = Some p" using w1(2) by (auto simp: closing_def runs_fine_def)
    let ?nt = "next_timeout p TRIPTIME_END (triptime_now (ho_clock ?H (w_tick w1)))"
    let ?w2 = "w1\<lparr>w_tick := Suc (w_tick w1), w_router := (w_router w1)\<lparr>r_poll := Some (snd ?nt)\<rparr>\<rparr>"
    have step: "run_loop E ?H efd TRIPTIME_END ms w = run_loop E ?H efd TRIPTIME_END (fst ?nt) ?w2"
      using n(1) w1(1) p by (subst run_loop.simps) (simp add: w_now_def w_next_timeout_def case_prod_unfold Let_def)
    have "closing B j ?w2 a" "j \<le> w_tick ?w2" using w1(2,3) by (simp_all add: closing_def can_unbind_def runs_fine_def)
    then obtain w' where "run_loop E ?H efd TRIPTIME_END (fst ?nt) ?w2 = Some (ETIME, w')" "timed_out w'"
      using run_loop_closing [OF E _ clock(1)] by metis
    with step show thesis by (intro that) simp_all
  qed
qed

lemma stop_request:
  assumes "at_rest B w"
  obtains w' i where "trip_stop (udp_program S B) w = Some (EOK, w')" "stop_asked B i w' (w_brk w)" "i \<le> w_tick w'"
proof -
  let ?H = "udp_program S B"
  have "runs_fine ?H (w_router w)" using assms by (simp add: at_rest_def udp_program_def)
  then obtain n p i where t: "trip_set_timeout_priv ?H 0 None CB_stop_async w = Some (Some (w_brk w),
      w\<lparr>w_brk := Suc (w_brk w), w_wheel := wheel_push (w_brk w) (timer_at ?H i 0 None CB_stop_async (tw_head (w_wheel w))) (w_wheel w),
        w_tick := n, w_router := (w_router w)\<lparr>r_poll := Some p\<rparr>\<rparr>)" "i \<le> n"
    by (rule set_timeout_wheel)
  let ?w = "w\<lparr>w_brk := Suc (w_brk w), w_wheel := wheel_push (w_brk w) (timer_at ?H i 0 None CB_stop_async (tw_head (w_wheel w))) (w_wheel w),
        w_tick := n, w_router := (w_router w)\<lparr>r_poll := Some p\<rparr>\<rparr>"
  have run: "trip_stop ?H w = Some (EOK, ?w)"
    using assms t(1) by (simp add: trip_stop_def at_rest_def)
  show thesis
    by (rule that [OF run, where i = i])
      (use assms t(2) in \<open>simp_all add: stop_asked_def at_rest_def can_unbind_def runs_fine_def timer_at_def udp_program_def\<close>)
qed

text \<open>C11: A router that is stopped does not reach its state \<open>END\<close> but the state \<open>ERROR\<close>. A listening
  router on the UDP interface, without connections and timers and with the default grace of zero
  milliseconds, accepts the request to stop. When nothing more happens on its descriptor and
  \<open>trip_run\<close> is called to see the router through, that call does return, but it returns
  \<open>ETIME\<close> with the router in \<open>ERROR\<close>, however the clock advances and whatever the address:
  the timer of \<open>CLOSE\<close> comes first, and only a socket event would take the next step. Later
  calls report the same error, and the router cannot be started again.\<close>

theorem stop_times_out:
  assumes rest: "at_rest B w" and clock: "clock_advances B" and E: "idle_poll E" and ms: "ms < 0"
  shows "\<exists>w1 w2. trip_stop (udp_program S B) w = Some (EOK, w1) \<and>
    trip_run E (udp_program S B) ms w1 = Some (ETIME, w2) \<and> r_state (w_router w2) = RS_ERROR \<and>
    trip_run E (udp_program S B) ms w2 = Some (ETIME, w2) \<and> trip_start (udp_program S B) w2 = Some (EINVAL, w2)"
proof -
  let ?H = "udp_program S B"
  obtain w1 i where w1: "trip_stop ?H w = Some (EOK, w1)" "stop_asked B i w1 (w_brk w)" "i \<le> w_tick w1"
    by (rule stop_request [OF rest])
  obtain p where p: "r_poll (w_router w1) = Some p" using w1(2) by (auto simp: stop_asked_def at_rest_def runs_fine_def)
  let ?nt = "next_timeout p TRIPTIME_END (triptime_now (ho_clock ?H (w_tick w1)))"
  let ?v = "w1\<lparr>w_tick := Suc (w_tick w1), w_router := (w_router w1)\<lparr>r_poll := Some (snd ?nt)\<rparr>\<rparr>"
  have "stop_asked B i ?v (w_brk w)" "i \<le> w_tick ?v"
    using w1(2,3) by (simp_all add: stop_asked_def at_rest_def can_unbind_def runs_fine_def)
  then obtain w2 where w2: "run_loop E ?H (poll_efd p) TRIPTIME_END (fst ?nt) ?v = Some (ETIME, w2)"
    "timed_out w2"
    using run_loop_stop [OF E _ clock] by metis
  have "trip_run E ?H ms w1 = Some (ETIME, w2)"
    using w1(2) p w2(1) ms
    by (simp add: trip_run_def w_now_def w_next_timeout_def case_prod_unfold Let_def stop_asked_def at_rest_def)
  with w1(1) w2(2) show ?thesis
    by (intro exI [of _ w1] exI [of _ w2]) (auto simp: trip_run_def trip_start_def timed_out_def)
qed

text \<open>A router that rests on the descriptor of its interface, and a clock that advances once.\<close>

definition resting_world :: world where
  "resting_world = rt_upd (\<lambda>r. r\<lparr>r_packet := Some ((udp_packet [])\<lparr>pkt_router := True\<rparr>)\<rparr>) listening_world"

definition moving_host :: host where
  "moving_host = (still_host 0)\<lparr>ho_clock := \<lambda>n. Some (if n < 6 then 1 else 2, 0)\<rparr>"

definition silent_poll :: epoll where
  "silent_poll = \<lparr>ep_create = \<lambda>w. (3, w), ep_wait = \<lambda>efd ms w. (Inr [], w\<lparr>w_tick := w_tick w + 7\<rparr>)\<rparr>"

theorem stop_times_out_witness:
  "\<exists>w1 w2. trip_stop (udp_program (one_address 0) moving_host) resting_world = Some (EOK, w1) \<and>
    trip_run silent_poll (udp_program (one_address 0) moving_host) (- 1) w1 = Some (ETIME, w2) \<and>
    r_state (w_router w2) = RS_ERROR"
proof -
  have "at_rest moving_host resting_world" "clock_advances moving_host"
    by (simp_all add: at_rest_def resting_world_def can_unbind_def listening_world_def blank_world_def router_zero_def
        udp_packet_def pkt_udp_def runs_fine_def moving_host_def still_host_def clock_advances_def triptime_now_def connmap_init_def)
  moreover have "idle_poll silent_poll"
  proof -
    have "\<exists>n \<ge> w_tick w. ep_wait silent_poll efd ms w = (Inr [], w\<lparr>w_tick := n\<rparr>)" for efd ms w
      by (rule exI [of _ "w_tick w + 7"]) (simp add: silent_poll_def)
    then show ?thesis by (simp add: idle_poll_def)
  qed
  ultimately show ?thesis using stop_times_out [of moving_host resting_world silent_poll "- 1" "one_address 0"] by auto
qed

end
