(* ===== verification/Retry.thy ===== *)
theory Retry
  imports Handshake
begin

text \<open>
  Retries (\<open>src/conn.c\<close>): how the delay between two packets of a handshake grows, and what the
  timer of a retry does while the peer has time left to answer, and after that.
\<close>

section \<open>The delays\<close>

text \<open>A connection whose delays can be computed without leaving the range of \<open>int\<close>.\<close>

definition can_grow :: "nat \<Rightarrow> connection \<Rightarrow> bool" where
  "can_grow n k \<longleftrightarrow> 0 < c_growms k \<and> c_growms k \<le> c_maxstatems k \<and> c_maxstatems k \<le> 2 ^ 30 \<and>
     0 \<le> c_retry k \<and> c_retry k + int n < 2 ^ 31"

lemma get_growth_step:
  assumes "can_grow (Suc n) k"
  obtains k' where "get_growth k = Some (c_growms k, k')" "can_grow n k'"
    "k' = k\<lparr>c_growms := min (c_maxstatems k) (c_growms k + c_growms k div 2), c_retry := c_retry k + 1\<rparr>"
proof -
  let ?g = "c_growms k"
  have s: "?g sdiv 2 = ?g div 2" using assms by (simp add: can_grow_def signed_divide_int_def sgn_if)
  have "get_growth k = Some (?g, k\<lparr>c_growms := min (c_maxstatems k) (?g + ?g div 2), c_retry := c_retry k + 1\<rparr>)"
  proof -
    have "0 < ?g" "?g \<le> 2 ^ 30" using assms by (auto simp: can_grow_def)
    then have "- 2147483648 \<le> ?g + ?g div 2" "?g + ?g div 2 \<le> 2147483647" by simp_all
    then show ?thesis using assms by (simp add: get_growth_def s cint_def can_grow_def min_def)
  qed
  moreover have "can_grow n (k\<lparr>c_growms := min (c_maxstatems k) (?g + ?g div 2), c_retry := c_retry k + 1\<rparr>)"
    using assms by (auto simp: can_grow_def)
  ultimately show thesis by (rule that) simp
qed

text \<open>The delays of the next retries.\<close>

fun growths :: "nat \<Rightarrow> connection \<Rightarrow> (int list \<times> connection) option" where
  "growths 0 k = Some ([], k)"
| "growths (Suc n) k =
     do { (d, k) \<leftarrow> get_growth k;
          (ds, k) \<leftarrow> growths n k;
          Some (d # ds, k) }"

text \<open>Retries back off. As long as the retries can be counted, the delays never decrease, they
  stay between the first one and the longest allowed, and from the start value on they gain at
  least a millisecond each time until they have reached the longest: the growth cannot stop
  before that, nor leave the range of \<open>int\<close>.\<close>

theorem backoff:
  assumes "can_grow n k"
  shows "\<exists>ds k'. growths n k = Some (ds, k') \<and> length ds = n \<and> sorted ds \<and> c_retry k' = c_retry k + int n \<and>
    (\<forall>d \<in> set ds. c_growms k \<le> d \<and> d \<le> c_maxstatems k) \<and>
    (2 \<le> c_growms k \<longrightarrow> (\<forall>i < n. min (c_maxstatems k) (c_growms k + int i) \<le> ds ! i))"
  using assms
proof (induction n arbitrary: k)
  case (Suc n)
  let ?g = "c_growms k"
  obtain k1 where k1: "get_growth k = Some (?g, k1)" "can_grow n k1"
    "k1 = k\<lparr>c_growms := min (c_maxstatems k) (?g + ?g div 2), c_retry := c_retry k + 1\<rparr>"
    by (rule get_growth_step [OF Suc.prems])
  obtain ds k' where ds: "growths n k1 = Some (ds, k')" "length ds = n" "sorted ds" "c_retry k' = c_retry k1 + int n"
    "\<forall>d \<in> set ds. c_growms k1 \<le> d \<and> d \<le> c_maxstatems k1"
    "2 \<le> c_growms k1 \<longrightarrow> (\<forall>i < n. min (c_maxstatems k1) (c_growms k1 + int i) \<le> ds ! i)"
    using Suc.IH [OF k1(2)] by blast
  have g: "0 < ?g" "?g \<le> c_maxstatems k" using Suc.prems by (simp_all add: can_grow_def)
  then have up: "?g \<le> c_growms k1" using k1(3) by simp
  have "min (c_maxstatems k) (?g + int i) \<le> (?g # ds) ! i" if "2 \<le> ?g" "i < Suc n" for i
  proof (cases i)
    case (Suc j)
    have "2 \<le> c_growms k1" using up that(1) by simp
    then have "min (c_maxstatems k1) (c_growms k1 + int j) \<le> ds ! j" using ds(6) Suc that(2) by simp
    moreover have "min (c_maxstatems k) (?g + int i) \<le> min (c_maxstatems k1) (c_growms k1 + int j)"
      using k1(3) Suc that(1) by (simp add: min_def) linarith
    ultimately show ?thesis by (simp only: Suc nth_Cons_Suc)
  qed simp
  then show ?case using k1 ds g up by (intro exI [of _ "?g # ds"] exI [of _ k']) auto
qed simp

theorem backoff_witness:
  "\<exists>ds k'. growths 12 (opening_conn\<lparr>c_growms := 100\<rparr>) = Some (ds, k') \<and> sorted ds \<and> last ds \<le> 3000"
proof -
  have "can_grow 12 (opening_conn\<lparr>c_growms := 100\<rparr>)"
    by (simp add: can_grow_def opening_conn_def connection_zero_def)
  from backoff [OF this] obtain ds k' where "growths 12 (opening_conn\<lparr>c_growms := 100\<rparr>) = Some (ds, k')"
    "length ds = 12" "sorted ds" "\<forall>d \<in> set ds. d \<le> c_maxstatems (opening_conn\<lparr>c_growms := 100\<rparr>)" by blast
  moreover have "last ds \<in> set ds" using \<open>length ds = 12\<close> by (intro last_in_set) auto
  ultimately show ?thesis by (auto simp: opening_conn_def)
qed

section \<open>The ping has no time\<close>

text \<open>
  No code sets the limits of the ping, which are zero from \<open>_tripc_init\<close> on. A connection that
  enters \<open>PING\<close> has until now, so the timer of its first retry gives it up as soon as the clock
  has moved on (\<open>resend_too_late\<close> below).
\<close>

theorem ping_deadline_now:
  assumes "runs_fine H (w_router w)" "sends w cs" "h_conn w c = Some k" "c_ping k = c_ping (tripc_init_rec H r b)"
    "\<And>t. c_statetimer k = Some t \<Longrightarrow> tw_heap (w_wheel w) t \<noteq> None"
  shows "\<exists>w' k' i. tripc_set_state H c CS_PING w = Some w' \<and> h_conn w' c = Some k' \<and> c_state k' = CS_PING \<and>
    c_statedeadline k' = triptime_now (ho_clock H i)"
proof -
  have z: "ping_ms (c_ping k) = 0" "ping_maxms (c_ping k) = 0"
    using assms(4) by (simp_all add: tripc_init_rec_def connection_zero_def ping_zero_def)
  obtain w' k' i where "tripc_set_state H c CS_PING w = Some w'" "h_conn w' c = Some k'" "c_state k' = CS_PING"
    "c_statedeadline k' = triptime_deadline (triptime_now (ho_clock H i)) (ping_maxms (c_ping k))"
    by (rule set_ping_effect [OF assms(1,2,3,5)]) (simp_all add: z)
  then show ?thesis unfolding z triptime_deadline_0 by blast
qed

section \<open>A connection that waits for an answer\<close>

definition waiting :: "host \<Rightarrow> world \<Rightarrow> addr \<Rightarrow> connection \<Rightarrow> addr list \<Rightarrow> bool" where
  "waiting H w c k cs \<longleftrightarrow> runs_fine H (w_router w) \<and> r_connection (w_router w) \<and> h_conn w c = Some k \<and>
     c_state k \<noteq> CS_ERROR \<and> can_grow 1 k \<and> sends w cs \<and> c \<notin> set cs \<and>
     connmap_ok (h_conn w) (r_conn (w_router w)) \<and>
     cm_holds (h_conn w) (r_conn (w_router w)) (self_id (c_self k)) c \<and>
     (\<forall>t. c_statetimer k = Some t \<longrightarrow> tw_heap (w_wheel w) t \<noteq> None)"

text \<open>The timer that was set, whatever the hook for the wait does to the poll loop.\<close>

lemma set_timeout_entry:
  assumes "trip_set_timeout_priv H ms data cb w = Some (Some a, w')" "r_timeout (w_router w) = Some HPoll"
  obtains e i where "tw_heap (w_wheel w') a = Some e" "te_cb e = Some cb" "te_data e = data" "\<not> te_canceled e"
    "te_deadline e = triptime_deadline (triptime_now (ho_clock H i)) ms"
proof -
  have "\<exists>e i. tw_heap (w_wheel w') a = Some e \<and> te_cb e = Some cb \<and> te_data e = data \<and> \<not> te_canceled e \<and>
      te_deadline e = triptime_deadline (triptime_now (ho_clock H i)) ms"
    using assms
    by (auto simp: trip_set_timeout_priv_def w_new_def w_now_def timerwheel_add_def Let_def call_timeout_def
        trip_timeout_cb_def w_deadline_def split: if_splits Option.bind_splits)
  with that show thesis by blast
qed

text \<open>In time: the packet is queued again, and the timer for the next retry is set.\<close>

lemma resend_in_time:
  assumes wt: "waiting H w c k cs" and now: "triptime_now (ho_clock H (w_tick w)) \<le> c_statedeadline k"
  obtains w' k' t e i where "timeout_state_resend_cb H c w = Some w'" "sends w' (cs @ [c])" "h_conn w' c = Some k'"
    "c_hassend k'" "c_state k' = c_state k" "c_statetimer k' = Some t" "tw_heap (w_wheel w') t = Some e"
    "te_cb e = Some CB_state_resend" "te_data e = Some c" "\<not> te_canceled e"
    "te_deadline e = triptime_deadline (triptime_now (ho_clock H i)) (c_growms k)"
    "c_growms k' = min (c_maxstatems k) (c_growms k + c_growms k div 2)" "heap_sim ((h_conn w)(c \<mapsto> k')) (h_conn w')"
proof -
  let ?w = "w\<lparr>w_tick := Suc (w_tick w)\<rparr>"
  have fine: "runs_fine H (w_router ?w)" and q: "sends ?w cs" and hk: "h_conn ?w c = Some k" and out: "c \<notin> set cs"
    and grow: "can_grow (Suc 0) k"
    using wt by (simp_all add: waiting_def sends_def)
  obtain w1 k1 where w1: "tripc_set_send H c ?w = Some w1" "sends w1 (queued c cs)" "heap_sim (h_conn ?w) (h_conn w1)"
    "stays (w_router ?w) (w_router w1)" "h_conn w1 c = Some k1" "c_hassend k1" "bare k1 = bare k"
    by (rule set_send_effect [OF fine q hk])
  have eq: "c_growms k1 = c_growms k" "c_maxstatems k1 = c_maxstatems k" "c_retry k1 = c_retry k" "c_state k1 = c_state k"
    by (rule bare_field [OF w1(7)], simp add: bare_def)+
  have "can_grow (Suc 0) k1" using grow eq by (simp add: can_grow_def)
  then obtain k2 where k2: "get_growth k1 = Some (c_growms k1, k2)"
    "k2 = k1\<lparr>c_growms := min (c_maxstatems k1) (c_growms k1 + c_growms k1 div 2), c_retry := c_retry k1 + 1\<rparr>"
    by (rule get_growth_step)
  let ?w2 = "w1\<lparr>h_conn := (h_conn w1)(c \<mapsto> k2)\<rparr>"
  have "runs_fine H (w_router ?w2)" using stays_fine [OF w1(4) fine] by simp
  then obtain w3 where w3: "trip_set_timeout_priv H (c_growms k1) (Some c) CB_state_resend ?w2 = Some (Some (w_brk ?w2), w3)"
    "quiet_step ?w2 w3"
    by (rule set_timeout_quiet)
  obtain e i where e: "tw_heap (w_wheel w3) (w_brk ?w2) = Some e" "te_cb e = Some CB_state_resend" "te_data e = Some c"
    "\<not> te_canceled e" "te_deadline e = triptime_deadline (triptime_now (ho_clock H i)) (c_growms k1)"
    by (rule set_timeout_entry [OF w3(1)]) (use \<open>runs_fine H (w_router ?w2)\<close> in \<open>simp add: runs_fine_def\<close>)
  let ?k3 = "k2\<lparr>c_statetimer := Some (w_brk ?w2)\<rparr>"
  let ?w4 = "w3\<lparr>h_conn := (h_conn w3)(c \<mapsto> ?k3)\<rparr>"
  have h3: "h_conn w3 = (h_conn w1)(c \<mapsto> k2)" "r_sendq (w_router w3) = r_sendq (w_router w1)"
    using w3(2) by (simp_all add: quiet_step_def)
  have run: "timeout_state_resend_cb H c w = Some ?w4"
    using w1(1,5) now [THEN leD] hk k2(1) w3(1) h3
    by (simp add: timeout_state_resend_cb_def w_now_def resend_timer_def tripc_get_growth_def tripc_set_timeout_def
        trip_set_timeout_def conn_upd_def heap_upd_def)
  have q4: "sends ?w4 (cs @ [c])"
    using sq_rep_same [of "r_sendq (w_router w1)" "h_conn w1" "cs @ [c]" c k1 ?k3] w1(2,5) out h3 k2(2)
    by (simp add: sends_def queued_def)
  have sim: "heap_sim ((h_conn w)(c \<mapsto> ?k3)) (h_conn ?w4)"
    using w1(3) h3 by (simp add: heap_sim_def)
  show thesis
    by (rule that [OF run q4 _ _ _ _ _ e(2-4) _ _ sim]) (use e w1(6) eq k2(2) in simp_all)
qed

text \<open>Too late: the user is told, and nothing is left of the connection.\<close>

lemma cm_without:
  assumes "connmap_ok h m" "\<And>y. \<not> cm_holds h m y c"
  shows "connmap_ok (h(c := None)) m" "cm_holds (h(c := None)) m y d \<longleftrightarrow> cm_holds h m y d"
proof -
  have "c' \<noteq> c" if "i < cm_cap m" "cm_slots m ! i = Used c'" for i c'
    using connmap_ok_live [OF assms(1) that] assms(2) that by (auto simp: cm_holds_def)
  then have "conn_id (h(c := None)) c' = conn_id h c'" if "i < cm_cap m" "cm_slots m ! i = Used c'" for i c'
    using that by (simp add: conn_id_def)
  then show "connmap_ok (h(c := None)) m" "cm_holds (h(c := None)) m y d \<longleftrightarrow> cm_holds h m y d"
    using assms(1) unfolding connmap_ok_def cm_holds_def by metis+
qed

text \<open>What the library does not keep in the router, the wheel and the connections.\<close>

definition outside :: "world \<Rightarrow> strm heap \<times> msg heap \<times> addr \<times> nat \<times> (int \<Rightarrow> u32 option) \<times> (int \<times> bytes) list" where
  "outside w = (h_strm w, h_msg w, w_brk w, w_tick w, w_epoll w, w_sent w)"

lemma cancel_outside: "tripc_cancel_timeout c w = Some w' \<Longrightarrow> outside w' = outside w"
  by (auto simp: tripc_cancel_timeout_def trip_cancel_timeout_priv_def conn_upd_def outside_def
      split: option.splits Option.bind_splits)

lemma close_frees:
  assumes live: "h_conn u c \<noteq> None" and conn: "call_connection H c u = Some w" and hk: "h_conn w c = Some k"
    and q: "sends w cs" "c \<notin> set cs"
    and map: "connmap_ok (h_conn w) (r_conn (w_router w))"
      "cm_holds (h_conn w) (r_conn (w_router w)) (self_id (c_self k)) c"
    and tm: "\<And>t. c_statetimer k = Some t \<Longrightarrow> tw_heap (w_wheel w) t \<noteq> None"
  obtains w' where "trip_close_connection H c u = Some w'" "h_conn w' = (h_conn w)(c := None)" "sends w' cs"
    "connmap_ok (h_conn w') (r_conn (w_router w'))"
    "\<And>y d. cm_holds (h_conn w') (r_conn (w_router w')) y d \<longleftrightarrow> cm_holds (h_conn w) (r_conn (w_router w)) y d \<and> d \<noteq> c"
    "outside w' = outside w"
proof -
  let ?x = "self_id (c_self k)" and ?m = "r_conn (w_router w)"
  obtain r m where del: "connmap_del ?x ?m (h_conn w) = Some (r, m)" "connmap_ok (h_conn w) m"
    "\<forall>y d. cm_holds (h_conn w) m y d \<longleftrightarrow> cm_holds (h_conn w) ?m y d \<and> y \<noteq> ?x"
    using connmap_del_ok [OF map(1)] by blast
  have own: "cm_holds (h_conn w) ?m y d \<Longrightarrow> y = ?x \<longleftrightarrow> d = c" for y d
    using map(2) cm_holds_index [OF map(1)] hk by (auto simp: conn_id_def)
  then have gone: "\<not> cm_holds (h_conn w) m y c" for y using del(3) by blast
  let ?k1 = "k\<lparr>c_streams := streammap_destroy (c_streams k)\<rparr>"
  let ?w1 = "w\<lparr>w_router := (w_router w)\<lparr>r_conn := m\<rparr>, h_conn := (h_conn w)(c \<mapsto> ?k1)\<rparr>"
  obtain w2 where w2: "tripc_cancel_timeout c ?w1 = Some w2" "touches c (?k1\<lparr>c_statetimer := None\<rparr>) ?w1 w2"
    by (rule cancel_touches [of ?w1 c ?k1]) (use tm in simp_all)
  let ?k2 = "?k1\<lparr>c_statetimer := None\<rparr>"
  have h2: "h_conn w2 = (h_conn w)(c \<mapsto> ?k2)" "r_sendq (w_router w2) = r_sendq (w_router w)" "r_conn (w_router w2) = m"
    using w2(2) stays_field [of "w_router ?w1" "w_router w2" r_conn] by (simp_all add: touches_def bare_router_def)
  have q2: "sq_rep (r_sendq (w_router w2)) (h_conn w2) cs"
    using q(1) sq_rep_same [of "r_sendq (w_router w)" "h_conn w" cs c k ?k2] hk h2 by (simp add: sends_def)
  have un: "sendq_del c (r_sendq (w_router w2)) (h_conn w2) = Some (r_sendq (w_router w2), (h_conn w2)(c \<mapsto> ?k2\<lparr>c_insend := False\<rparr>))"
    by (rule sendq_del_out [OF q2 _ q(2)]) (simp add: h2)
  let ?w' = "w2\<lparr>h_conn := (h_conn w)(c := None)\<rparr>"
  have "trip_close_connection H c u = Some ?w'"
    using live hk conn del(1) w2(1) un h2
    by (auto simp add: trip_close_connection_def tripc_destroy_def conn_upd_def heap_upd_def trip_unqconnection_def
        on_sendq_def trip_free_connection_def heap_free_def)
  moreover have "sends ?w' cs"
    using q(1,2) h2 by (auto simp: sends_def sq_rep_def intro: chain_free_off)
  moreover have "cm_holds (h_conn ?w') m y d \<longleftrightarrow> cm_holds (h_conn w) ?m y d \<and> d \<noteq> c" for y d
    using cm_without(2) [OF del(2) gone, of y d] del(3) own [of y d] by auto
  ultimately show thesis
    using that [of ?w'] h2 cm_without(1) [OF del(2) gone] cancel_outside [OF w2(1)] by (simp add: outside_def)
qed

text \<open>
  The world in which the user is told that time is up: the connection is in state \<open>ERROR\<close>, for
  \<open>ETIME\<close>, and still in its place. What the callback returns with has to be the same for the
  router, its timers and its connections; to everything else it may have done anything.
\<close>

definition given_up :: "addr \<Rightarrow> connection \<Rightarrow> world \<Rightarrow> world" where
  "given_up c k w = w\<lparr>w_tick := w_tick w + 2,
     h_conn := (h_conn w)(c \<mapsto> k\<lparr>c_error := ETIME, c_errmsg := Some '''', c_state := CS_ERROR\<rparr>)\<rparr>"

definition looks_on :: "world \<Rightarrow> world \<Rightarrow> bool" where
  "looks_on w v \<longleftrightarrow> h_conn v = h_conn w \<and> w_router v = w_router w \<and> w_wheel v = w_wheel w"

lemma resend_given_up:
  assumes wt: "waiting H w c k cs" and now: "c_statedeadline k < triptime_now (ho_clock H (w_tick w))"
  shows "timeout_state_resend_cb H c w = trip_close_connection H c (given_up c k w)"
proof -
  have hk: "h_conn w c = Some k" and st: "c_state k \<noteq> CS_ERROR" and al: "\<And>n. ho_alloc H n"
    using wt by (simp_all add: waiting_def runs_fine_def)
  have "tripc_set_error H c ETIME None (w\<lparr>w_tick := Suc (w_tick w)\<rparr>) = Some (given_up c k w)"
    using hk st al
    by (simp add: tripc_set_error_def w_ok_def conn_upd_def heap_upd_def tripc_set_state_def set_state_leave_def
        set_state_enter_def given_up_def)
  then show ?thesis using now hk by (simp add: timeout_state_resend_cb_def w_now_def)
qed

lemma resend_too_late:
  assumes wt: "waiting H w c k cs" and now: "c_statedeadline k < triptime_now (ho_clock H (w_tick w))"
    and told: "ho_connection H c (given_up c k w) = Some v" "looks_on (given_up c k w) v"
  obtains w' where "timeout_state_resend_cb H c w = Some w'" "h_conn w' = (h_conn w)(c := None)" "sends w' cs"
    "connmap_ok (h_conn w') (r_conn (w_router w'))"
    "\<And>y d. cm_holds (h_conn w') (r_conn (w_router w')) y d \<longleftrightarrow> cm_holds (h_conn w) (r_conn (w_router w)) y d \<and> d \<noteq> c"
    "outside w' = outside v"
proof -
  let ?k = "k\<lparr>c_error := ETIME, c_errmsg := Some '''', c_state := CS_ERROR\<rparr>"
  have v: "h_conn v = (h_conn w)(c \<mapsto> ?k)" "w_router v = w_router w" "w_wheel v = w_wheel w"
    using told(2) by (simp_all add: looks_on_def given_up_def)
  have hk: "h_conn w c = Some k" using wt by (simp add: waiting_def)
  have ids: "conn_id (h_conn v) = conn_id (h_conn w)" using hk v(1) by (auto simp: conn_id_def)
  have conn: "call_connection H c (given_up c k w) = Some v"
    using wt told(1) by (simp add: call_connection_def waiting_def given_up_def)
  have q: "sends v cs"
    using wt sq_rep_same [of "r_sendq (w_router w)" "h_conn w" cs c k ?k] by (simp add: waiting_def sends_def v)
  have live: "h_conn (given_up c k w) c \<noteq> None" by (simp add: given_up_def)
  obtain w' where w': "trip_close_connection H c (given_up c k w) = Some w'" "h_conn w' = (h_conn v)(c := None)" "sends w' cs"
    "connmap_ok (h_conn w') (r_conn (w_router w'))"
    "\<And>y d. cm_holds (h_conn w') (r_conn (w_router w')) y d \<longleftrightarrow> cm_holds (h_conn v) (r_conn (w_router v)) y d \<and> d \<noteq> c"
    "outside w' = outside v"
    by (rule close_frees [OF live conn, of ?k cs])
      (use wt q connmap_same_ids [OF ids] v in \<open>simp_all add: waiting_def\<close>)
  have "timeout_state_resend_cb H c w = Some w'" using resend_given_up [OF wt now] w'(1) by simp
  with w' that connmap_same_ids [OF ids] v show thesis by simp
qed

text \<open>Whatever the callback is: if it has no meaning, neither has what called it.\<close>

lemma resend_untold:
  assumes wt: "waiting H w c k cs" and now: "c_statedeadline k < triptime_now (ho_clock H (w_tick w))"
    and told: "ho_connection H c (given_up c k w) = None"
  shows "timeout_state_resend_cb H c w = None"
  using resend_given_up [OF wt now] told by (simp add: trip_close_connection_def call_connection_def)

text \<open>C9: What the timer of a handshake packet does when no answer has come. Before the deadline of
  the state, the packet is put at the end of the send queue again, the state stays, the delay
  grows by half up to its limit, and the timer is set anew with the old delay. After the
  deadline, the user's callback is called, in the world where the connection is in state
  \<open>ERROR\<close> with the error \<open>ETIME\<close> and otherwise everything is as it was; what follows
  follows from the world the callback returns. If it has left the router, its timers and its
  connections alone, the identifier is given back, the connection is freed, nothing else in the
  map, in the queue or among the connections has changed, and what the callback did to the rest
  of the world stands.\<close>

theorem resend_or_give_up:
  assumes "waiting H w c k cs"
  shows "if triptime_now (ho_clock H (w_tick w)) \<le> c_statedeadline k
     then \<exists>w'. timeout_state_resend_cb H c w = Some w' \<and> sends w' (cs @ [c]) \<and>
       (\<exists>k' t e i. h_conn w' c = Some k' \<and> c_hassend k' \<and> c_state k' = c_state k \<and>
         c_growms k' = min (c_maxstatems k) (c_growms k + c_growms k div 2) \<and>
         c_statetimer k' = Some t \<and> tw_heap (w_wheel w') t = Some e \<and> te_cb e = Some CB_state_resend \<and>
         te_data e = Some c \<and> \<not> te_canceled e \<and>
         te_deadline e = triptime_deadline (triptime_now (ho_clock H i)) (c_growms k) \<and>
         heap_sim ((h_conn w)(c \<mapsto> k')) (h_conn w'))
     else case ho_connection H c (given_up c k w) of
         None \<Rightarrow> timeout_state_resend_cb H c w = None
       | Some v \<Rightarrow> looks_on (given_up c k w) v \<longrightarrow>
           (\<exists>w'. timeout_state_resend_cb H c w = Some w' \<and> outside w' = outside v \<and>
             sends w' cs \<and> h_conn w' = (h_conn w)(c := None) \<and> connmap_ok (h_conn w') (r_conn (w_router w')) \<and>
             (\<forall>y d. cm_holds (h_conn w') (r_conn (w_router w')) y d \<longleftrightarrow>
               cm_holds (h_conn w) (r_conn (w_router w)) y d \<and> d \<noteq> c))"
proof (cases "triptime_now (ho_clock H (w_tick w)) \<le> c_statedeadline k")
  case True
  show ?thesis
    unfolding if_P [OF True] by (rule resend_in_time [OF assms True]) blast
next
  case False
  then have late: "c_statedeadline k < triptime_now (ho_clock H (w_tick w))" by simp
  show ?thesis
  proof (cases "ho_connection H c (given_up c k w)")
    case None
    with False resend_untold [OF assms late None] show ?thesis by simp
  next
    case (Some v)
    have "\<exists>w'. timeout_state_resend_cb H c w = Some w' \<and> outside w' = outside v \<and>
        sends w' cs \<and> h_conn w' = (h_conn w)(c := None) \<and> connmap_ok (h_conn w') (r_conn (w_router w')) \<and>
        (\<forall>y d. cm_holds (h_conn w') (r_conn (w_router w')) y d \<longleftrightarrow> cm_holds (h_conn w) (r_conn (w_router w)) y d \<and> d \<noteq> c)"
      if "looks_on (given_up c k w) v"
      by (rule resend_too_late [OF assms late Some that]) blast
    with False Some show ?thesis by simp
  qed
qed

text \<open>A connection whose opening packet was sent at time 0.\<close>

definition waiting_conn :: connection where
  "waiting_conn = opening_conn\<lparr>c_growms := 100\<rparr>"

definition waiting_world :: world where
  "waiting_world = (rt_upd (\<lambda>r. r\<lparr>r_connection := True\<rparr>) opening_world)\<lparr>h_conn := [1 \<mapsto> waiting_conn]\<rparr>"

lemma waiting_waits: "waiting (still_host t) waiting_world 1 waiting_conn []"
proof -
  have ids: "conn_id [1 \<mapsto> waiting_conn] = conn_id (h_conn opening_world)"
    by (rule ext) (simp add: conn_id_def opening_world_def waiting_conn_def)
  have "sends waiting_world []"
    by (simp add: sends_def waiting_world_def opening_world_def listening_world_def blank_world_def router_zero_def
        sq_rep_init waiting_conn_def opening_conn_def connection_zero_def)
  then show ?thesis
    using opening_opener [of t] connmap_same_ids [OF ids]
    by (auto simp: waiting_def opener_def can_grow_def waiting_world_def waiting_conn_def opening_conn_def
        connection_zero_def runs_fine_def cm_holds_def)
qed

text \<open>A program whose callback tells its own peer, in two octets, which connection was lost.\<close>

definition telling_host :: "nat \<Rightarrow> host" where
  "telling_host t = (still_host t)\<lparr>ho_connection := \<lambda>c w. map_option snd (network_send 7 2 [1, of_nat c] w)\<rparr>"

lemma telling_waits: "waiting (telling_host t) waiting_world 1 waiting_conn []"
  using waiting_waits [of t] by (simp add: waiting_def telling_host_def runs_fine_def)

theorem resend_or_give_up_witness:
  "(\<exists>w'. timeout_state_resend_cb (telling_host 0) 1 waiting_world = Some w' \<and> sends w' [1]) \<and>
   (\<exists>w'. timeout_state_resend_cb (telling_host 1) 1 waiting_world = Some w' \<and> h_conn w' = Map.empty \<and>
     w_sent w' = [(7, [1, 1])])"
proof -
  note u = resend_or_give_up [OF telling_waits]
  have clock: "triptime_now (ho_clock (telling_host 0) n) \<le> c_statedeadline waiting_conn"
    "\<not> triptime_now (ho_clock (telling_host 1) n) \<le> c_statedeadline waiting_conn" for n
    by (simp_all add: telling_host_def still_host_def triptime_now_def waiting_conn_def opening_conn_def connection_zero_def)
  let ?u = "given_up 1 waiting_conn waiting_world"
  let ?v = "?u\<lparr>w_sent := [(7, [1, 1])]\<rparr>"
  have "w_sent ?u = []"
    by (simp add: given_up_def waiting_world_def opening_world_def listening_world_def blank_world_def)
  then have "ho_connection (telling_host 1) 1 ?u = Some ?v"
    by (simp add: telling_host_def network_send_def)
  moreover have "looks_on ?u ?v" by (simp add: looks_on_def)
  ultimately obtain w' where "timeout_state_resend_cb (telling_host 1) 1 waiting_world = Some w'" "outside w' = outside ?v"
      "h_conn w' = (h_conn waiting_world)(1 := None)"
    using u [of 1] clock(2) by auto
  moreover have "(h_conn waiting_world)(1 := None) = Map.empty" by (simp add: waiting_world_def)
  moreover obtain w2 where "timeout_state_resend_cb (telling_host 0) 1 waiting_world = Some w2" "sends w2 [1]"
    using u [of 0] clock(1) by auto
  ultimately show ?thesis by (auto simp: outside_def)
qed

end
