(* ===== verification/Packet_Path.thy ===== *)
theory Packet_Path
  imports Sticky Hosts
begin

text \<open>
  What a packet does on its way through the library, for any property of the world that the
  small steps on that way keep: the interface \<open>conn_path\<close> for the operations on one
  connection, and \<open>segment_path\<close> for a whole packet (\<open>_trip_segment\<close> of \<open>src/trip.c\<close>
  and \<open>_tripc_read\<close> of \<open>src/conn.c\<close>).
\<close>

section \<open>Operations on one connection\<close>

lemma conns_ask [simp]:
  "h_conn (snd (w_ok H w)) = h_conn w" "h_conn (snd (w_now H w)) = h_conn w"
  "h_conn (snd (w_new H w)) = h_conn w" "h_conn (snd (w_rand H w)) = h_conn w"
  "h_conn (snd (w_deadline H ms w)) = h_conn w"
  by (simp_all add: w_ok_def w_now_def w_new_def w_rand_def w_deadline_def Let_def)

lemma wheel_ask [simp]: "w_wheel (snd (w_ok H w)) = w_wheel w" "w_wheel (snd (w_rand H w)) = w_wheel w"
  by (simp_all add: w_ok_def w_rand_def)

lemma bind_fact: "(\<And>x. m = Some x \<Longrightarrow> post P (f x)) \<Longrightarrow> post P (m \<bind> f)"
  by (cases m) simp_all

text \<open>What matters of a connection: its state, whether a ping is active, and who opened it.\<close>

definition phase :: "connection \<Rightarrow> conn_state \<times> bool \<times> bool" where
  "phase k = (c_state k, ping_isactive (c_ping k), c_incoming k)"

text \<open>
  \<open>tgt\<close> are the connections the operations may work on; whatever they change of these keeps
  \<open>I\<close>, but for a change of phase, which is up to the client.
\<close>

locale conn_path =
  fixes H :: host and I :: "world \<Rightarrow> bool" and tgt :: "addr \<Rightarrow> bool"
  assumes upd_law: "I w \<Longrightarrow> tgt a \<Longrightarrow> (\<And>k. phase (f k) = phase k) \<Longrightarrow> post I (conn_upd a f w)"
    and router_law [simp]: "I (w\<lparr>w_router := r\<rparr>) = I w"
    and tick_law [simp]: "I (w\<lparr>w_tick := n\<rparr>) = I w"
    and brk_law [simp]: "I (w\<lparr>w_brk := b\<rparr>) = I w"
    and nq_law: "I w \<Longrightarrow> tgt a \<Longrightarrow> post I (on_sendq (sendq_nq a) w)"
    and hook_law: "I w \<Longrightarrow> post I (call_timeout H ms w)"
    and add_timer_law: "I w \<Longrightarrow> I (w\<lparr>w_wheel := snd (timerwheel_add te now ms d cb (w_wheel w))\<rparr>)"
    and cancel_law: "I w \<Longrightarrow> post I (trip_cancel_timeout_priv e w)"
begin

lemma bind_I: "post I m \<Longrightarrow> (\<And>w. I w \<Longrightarrow> post P (f w)) \<Longrightarrow> post P (m \<bind> f)"
  by (rule post_bind)

lemma bind_I_snd: "post (\<lambda>r. I (snd r)) m \<Longrightarrow> (\<And>r. I (snd r) \<Longrightarrow> post P (f r)) \<Longrightarrow> post P (m \<bind> f)"
  by (rule post_bind)

lemma map_snd_I: "post (\<lambda>r. I (snd r)) m \<Longrightarrow> post I (map_option snd m)"
  by (cases m) simp_all

lemmas walk = post_Some post_if post_case_option bind_I bind_I_snd bind_other

lemma ask_law [simp]:
  "I (snd (w_ok H' w)) = I w" "I (snd (w_now H' w)) = I w" "I (snd (w_new H' w)) = I w" "I (snd (w_rand H' w)) = I w"
  "I (snd (w_deadline H' ms w)) = I w"
  by (simp_all add: w_ok_def w_now_def w_new_def w_rand_def w_deadline_def Let_def)

lemma set_timeout_keeps: "I w \<Longrightarrow> post (\<lambda>r. I (snd r)) (trip_set_timeout_priv H ms d cb w)"
  unfolding trip_set_timeout_priv_def Let_def split_def
  by (intro walk hook_law add_timer_law) simp_all

lemma set_send_keeps: "I w \<Longrightarrow> tgt a \<Longrightarrow> post I (tripc_set_send H a w)"
  unfolding tripc_set_send_def trip_qconnection_def
  by (intro walk upd_law map_snd_I set_timeout_keeps nq_law) (simp_all add: phase_def)

lemma tripc_set_timeout_keeps: "I w \<Longrightarrow> tgt a \<Longrightarrow> post I (tripc_set_timeout H a ms cb w)"
  unfolding tripc_set_timeout_def trip_set_timeout_def split_def
  by (intro walk upd_law set_timeout_keeps) (simp_all add: phase_def)

lemma tripc_cancel_keeps: "I w \<Longrightarrow> tgt a \<Longrightarrow> post I (tripc_cancel_timeout a w)"
  unfolding tripc_cancel_timeout_def
  by (intro bind_other [where m = "h_conn w a"] walk upd_law cancel_law) (simp_all add: phase_def)

lemma small_keeps:
  "I w \<Longrightarrow> tgt a \<Longrightarrow> post I (tripc_mk_keys H a w)" "I w \<Longrightarrow> tgt a \<Longrightarrow> post I (tripc_generate_ping H a w)"
  "I w \<Longrightarrow> tgt a \<Longrightarrow> post I (tripc_set_deadline H a ms w)" "I w \<Longrightarrow> tgt a \<Longrightarrow> post I (tripc_set_growth a ms w)"
  unfolding tripc_mk_keys_def tripc_generate_ping_def tripc_set_deadline_def tripc_set_growth_def Let_def split_def
  by (intro bind_other [where m = "h_conn w a"] walk upd_law; simp add: phase_def)+

lemma get_growth_keeps:
  assumes "I w" "tgt a"
  shows "post (\<lambda>r. I (snd r)) (tripc_get_growth a w)"
proof (cases "Option.bind (h_conn w a) get_growth")
  case None
  then show ?thesis by (auto simp: tripc_get_growth_def split: Option.bind_splits)
next
  case (Some r)
  then obtain k ms k' where k: "h_conn w a = Some k" "get_growth k = Some (ms, k')"
    by (cases r) (auto split: Option.bind_splits)
  let ?f = "\<lambda>x. x\<lparr>c_growms := c_growms k', c_retry := c_retry k'\<rparr>"
  have "?f k = k'" using k(2) by (auto simp: get_growth_def Let_def split: Option.bind_splits)
  then have "conn_upd a (\<lambda>_. k') w = conn_upd a ?f w" using k(1) by (simp add: conn_upd_def heap_upd_def)
  moreover have "post I (conn_upd a ?f w)" by (rule upd_law) (use assms in \<open>simp_all add: phase_def\<close>)
  ultimately have "post I (conn_upd a (\<lambda>_. k') w)" by (simp only:)
  then show ?thesis
    unfolding tripc_get_growth_def k(1) bind.bind_lunit k(2) prod.case by (intro bind_I) simp_all
qed

lemma resend_keeps: "I w \<Longrightarrow> tgt a \<Longrightarrow> post I (resend_timer H a w)"
  unfolding resend_timer_def split_def
  by (intro walk get_growth_keeps tripc_set_timeout_keeps) simp_all

lemma set_state_keeps:
  assumes "I w" "tgt a" "\<And>v. I v \<Longrightarrow> post I (conn_upd a (\<lambda>k. k\<lparr>c_state := st\<rparr>) v)"
  shows "post I (tripc_set_state H a st w)"
proof -
  have "post I (set_state_leave a st w)"
    unfolding set_state_leave_def by (intro post_case_state tripc_cancel_keeps post_Some assms(1,2))
  moreover have "post I (set_state_enter H a st v)" if "I v" for v
    unfolding set_state_enter_def Let_def
    by (cases st; simp only: conn_state.case)
      (intro bind_other [where m = "h_conn v a"] walk small_keeps set_send_keeps resend_keeps tripc_set_timeout_keeps that assms(2); simp)+
  ultimately show ?thesis unfolding tripc_set_state_def by (intro bind_I assms(3))
qed

lemma set_error_keeps:
  assumes "I w" "tgt a" "\<And>v. I v \<Longrightarrow> post I (conn_upd a (\<lambda>k. k\<lparr>c_state := CS_ERROR\<rparr>) v)"
  shows "post I (tripc_set_error H a e m w)"
  unfolding tripc_set_error_def Let_def split_def
  by (intro bind_other [where m = "h_conn w a"] post_if post_Some bind_I upd_law [where a = a] set_state_keeps assms) (use assms in \<open>simp_all add: phase_def\<close>)

lemma hello_keeps: "I w \<Longrightarrow> tgt a \<Longrightarrow> post (\<lambda>r. I (snd r)) (accept_hello H a f w)"
  unfolding accept_hello_def Let_def split_def
  by (intro walk upd_law) (simp_all add: phase_def)

lemma parse_keeps:
  "I w \<Longrightarrow> tgt a \<Longrightarrow> post (\<lambda>r. I (snd r)) (tripc_parse_open H a n bs w)"
  "I w \<Longrightarrow> tgt a \<Longrightarrow> post (\<lambda>r. I (snd r)) (tripc_parse_chal H a n bs w)"
  "I w \<Longrightarrow> tgt a \<Longrightarrow> post (\<lambda>r. I (snd r)) (tripc_parse_ping H a n bs px w)"
  unfolding tripc_parse_open_def tripc_parse_chal_def tripc_parse_ping_def Let_def split_def
  by (intro walk upd_law hello_keeps; simp add: phase_def)+

lemma and_then_keeps:
  "post (\<lambda>r. I (snd r)) m \<Longrightarrow> (\<And>w. I w \<Longrightarrow> post I (f w)) \<Longrightarrow> post (\<lambda>r. I (snd r)) (and_then m f)"
  unfolding and_then_def split_def by (intro walk) simp_all

lemma set_screen_keeps: "I w \<Longrightarrow> tgt a \<Longrightarrow> post I (tripc_set_screen H a sc w)"
  unfolding tripc_set_screen_def Let_def split_def
  by (intro walk upd_law) (simp_all add: phase_def)

text \<open>Reading, for a client to whom every change of phase of its targets is fine.\<close>

lemma read_keeps:
  assumes "I w" "tgt a" "\<And>st v. I v \<Longrightarrow> post I (conn_upd a (\<lambda>k. k\<lparr>c_state := st\<rparr>) v)"
  shows "post (\<lambda>r. I (snd r)) (tripc_read H a px n bs w)"
proof -
  note steps = and_then_keeps parse_keeps set_state_keeps set_error_keeps set_send_keeps assms
  have 1: "post (\<lambda>r. I (snd r)) (read_in_chal H a px n bs w)"
    "post (\<lambda>r. I (snd r)) (read_in_ready H a px n bs w)" "post (\<lambda>r. I (snd r)) (read_in_close H a px n bs w)"
    unfolding read_in_chal_def read_in_ready_def read_in_close_def
    by (intro post_if post_Some steps; simp add: assms(1))+
  show ?thesis
    unfolding tripc_read_def Let_def split_def tripc_check_seq_def tripc_flag_seq_def
    by (intro bind_other [where m = "h_conn w a"] bind_I_snd post_if post_Some post_case_state 1 steps bind_I bind_other;
        simp add: assms(1))
qed

end

section \<open>A whole packet\<close>

text \<open>The identifier of the connection a packet is for; one that opens a connection is for none.\<close>

definition packet_id :: "crypto \<Rightarrow> u64 \<Rightarrow> bytes \<Rightarrow> u64 option" where
  "packet_id cr len buf =
     (case trip_unpack cr len buf ''CQW'' of
        Some (_, [O8 c, O64 i, O64 s]) \<Rightarrow> if c AND NOT PREFIX_EMASK = CONTROL_OPEN then None else Some i
      | _ \<Rightarrow> None)"

locale segment_path = conn_path +
  assumes read_law: "I w \<Longrightarrow> tgt a \<Longrightarrow> post (\<lambda>r. I (snd r)) (tripc_read H a px n bs w)"
    and start_law: "I w \<Longrightarrow> tgt a \<Longrightarrow> post I (tripc_start H a w)"
    and init_law: "I w \<Longrightarrow> tgt a \<Longrightarrow> I (tripc_init H a True w)"
    and free_law: "I w \<Longrightarrow> tgt a \<Longrightarrow> post I (trip_free_connection a w)"
    and enter_law: "I w \<Longrightarrow> tgt a \<Longrightarrow> post (\<lambda>r. I (snd r)) (w_connmap_add H a w)"
    and screen_law: "I w \<Longrightarrow> tgt (w_brk w) \<Longrightarrow> post (\<lambda>r. I (snd r) \<and> tgt (w_brk (snd r))) (ho_screen H sc w)"
begin

lemma new_conn_keeps:
  assumes "I w" "tgt (w_brk w)"
  shows "post (\<lambda>r. I (snd r) \<and> (\<forall>a. fst r = Some a \<longrightarrow> tgt a)) (segment_new_conn H src len buf sc w)"
proof -
  have rest: "post (\<lambda>r. I (snd r) \<and> (\<forall>a. fst r = Some a \<longrightarrow> tgt a))
      (do { v \<leftarrow> conn_upd a (\<lambda>k. k\<lparr>c_src := src\<rparr>) (tripc_init H a True v);
            r \<leftarrow> w_connmap_add H a v;
            if fst r \<noteq> EOK then do { w \<leftarrow> trip_free_connection a (snd r); Some (None, trip_router_reject src 50 w) }
            else do { w \<leftarrow> tripc_set_screen H a sc (snd r); w \<leftarrow> tripc_start H a w; Some (Some a, w) } })"
    if "I v" "tgt a" for v a sc
    unfolding trip_router_reject_def
    by (intro bind_I [OF upd_law] bind_I_snd [OF enter_law] post_if bind_I [OF free_law] bind_I [OF set_screen_keeps]
        bind_I [OF start_law] init_law that post_Some) (simp_all add: phase_def that)
  have new: "fst (trip_new_connection H v) = Some a \<Longrightarrow> a = w_brk v" "I (snd (trip_new_connection H v)) = I v" for v a
    by (auto simp: trip_new_connection_def w_new_def Let_def split: if_splits)
  show ?thesis
    unfolding segment_new_conn_def Let_def split_def
    by (intro post_if post_bind [OF screen_law [OF assms]] bind_other [where m = "if _ then _ else _"] post_case_option rest)
      (auto simp: new(2) trip_router_reject_def dest: new(1))
qed

lemma read_open_keeps: "I w \<Longrightarrow> tgt a \<Longrightarrow> post I (segment_read_open H src px end len buf a w)"
  unfolding segment_read_open_def trip_router_reject_def Let_def split_def
  by (intro bind_other [where m = "h_conn w a"] walk read_law set_send_keeps) simp_all

lemma open_keeps:
  assumes w: "I w" "tgt (w_brk w)" and src: "\<And>i a. trip_router_get_conn_by_src src i w = Some (Some a) \<Longrightarrow> tgt a"
  shows "post I (segment_open H src px end len buf w)"
proof -
  have old: "post I (do { k \<leftarrow> h_conn w a;
      e \<leftarrow> (if peer_signpk (c_peer k) \<noteq> None \<or> \<not> has_flag FLAG_ALLOW_PLAIN_ISIG w
             then trip_unsign (ho_crypto H) len buf (peer_signpk (c_peer k)) else Some EOK);
      if e \<noteq> EOK then Some w else conn_upd a (\<lambda>k. k\<lparr>c_src := src\<rparr>) w })" if "tgt a" for a
    by (intro bind_other post_if post_Some upd_law w that) (simp add: phase_def)
  have new: "post I (do { r \<leftarrow> segment_new_conn H src len buf sc w;
      case fst r of None \<Rightarrow> Some (snd r) | Some a \<Rightarrow> segment_read_open H src px e len buf a (snd r) })" for sc e
    by (intro post_bind [OF new_conn_keeps [OF w]] post_case_option post_Some read_open_keeps) simp_all
  have one: "post I (case c of None \<Rightarrow> do { r \<leftarrow> segment_new_conn H src len buf sc w;
        case fst r of None \<Rightarrow> Some (snd r) | Some a \<Rightarrow> segment_read_open H src px e len buf a (snd r) }
      | Some a \<Rightarrow> do { k \<leftarrow> h_conn w a;
        e \<leftarrow> (if peer_signpk (c_peer k) \<noteq> None \<or> \<not> has_flag FLAG_ALLOW_PLAIN_ISIG w
               then trip_unsign (ho_crypto H) len buf (peer_signpk (c_peer k)) else Some EOK);
        if e \<noteq> EOK then Some w else conn_upd a (\<lambda>k. k\<lparr>c_src := src\<rparr>) w })"
    if "trip_router_get_conn_by_src src i w = Some c" for i c sc e
    using old new src that by (cases c) simp_all
  show ?thesis
    unfolding segment_open_def trip_router_reject_def Let_def split_def
    by (intro post_if post_Some bind_other bind_fact [where m = "trip_router_get_conn_by_src src (px_id px) w"] one w) assumption?
qed

lemma other_keeps:
  assumes w: "I w" and i: "\<And>a. connmap_get (px_id px) (r_conn (w_router w)) (h_conn w) = Some (Some a) \<Longrightarrow> tgt a"
  shows "post I (segment_other H src px end len buf w)"
proof -
  have read: "post I (do { r \<leftarrow> tripc_read H a px n bs w; Some (if fst r \<noteq> EOK then snd r else snd r) })" if "tgt a" for a n bs
    by (rule post_bind [OF read_law [OF w that]]) simp
  have one: "post I (case c of None \<Rightarrow> Some w
      | Some a \<Rightarrow> do { k \<leftarrow> h_conn w a;
          e \<leftarrow> (if px_control px = CONTROL_CHAL \<and> (peer_signpk (c_peer k) \<noteq> None \<or> \<not> has_flag FLAG_ALLOW_PLAIN_OSIG w)
                 then trip_unsign (ho_crypto H) len buf (peer_signpk (c_peer k)) else Some EOK);
          if e \<noteq> EOK then Some w
          else do { r \<leftarrow> tripc_read H a px n bs w; Some (if fst r \<noteq> EOK then snd r else snd r) } })"
    if "connmap_get (px_id px) (r_conn (w_router w)) (h_conn w) = Some c" for c n bs
    by (intro post_case_option post_Some w bind_other post_if read i) (simp add: that)
  show ?thesis
    unfolding segment_other_def trip_router_reject_def Let_def split_def
    by (intro post_if post_Some bind_fact [where m = "connmap_get _ _ _"] one w) assumption
qed

lemma segment_keeps:
  assumes w: "I w" and new: "packet_id (ho_crypto H) len buf = None \<Longrightarrow> tgt (w_brk w)"
    and src: "\<And>i a. packet_id (ho_crypto H) len buf = None \<Longrightarrow>
      trip_router_get_conn_by_src src i w = Some (Some a) \<Longrightarrow> tgt a"
    and i: "\<And>i a. packet_id (ho_crypto H) len buf = Some i \<Longrightarrow>
      connmap_get i (r_conn (w_router w)) (h_conn w) = Some (Some a) \<Longrightarrow> tgt a"
  shows "post I (trip_seg H src len buf w)"
proof -
  have "post I (do { t \<leftarrow> (case out of [O8 c, O64 i, O64 s] \<Rightarrow> Some (c, i, s) | _ \<Rightarrow> None);
      let px = \<lparr>px_encrypted = fst t AND PREFIX_EMASK \<noteq> 0, px_control = fst t AND NOT PREFIX_EMASK,
                px_id = fst (snd t), px_seq = snd (snd t)\<rparr>;
      if px_control px \<ge> CONTROL_MAX then Some w
      else if px_control px = CONTROL_OPEN then segment_open H src px end len buf w
      else segment_other H src px end len buf w })"
    if "trip_unpack (ho_crypto H) len buf ''CQW'' = Some (end, out)" for "end" out
  proof (rule bind_fact)
    fix t assume t: "(case out of [O8 c, O64 i, O64 s] \<Rightarrow> Some (c, i, s) | _ \<Rightarrow> None) = Some t"
    then have "packet_id (ho_crypto H) len buf =
        (if fst t AND NOT PREFIX_EMASK = CONTROL_OPEN then None else Some (fst (snd t)))"
      using \<open>trip_unpack _ _ _ _ = _\<close> by (auto simp: packet_id_def split: list.splits uout.splits)
    then show "post I (let px = \<lparr>px_encrypted = fst t AND PREFIX_EMASK \<noteq> 0, px_control = fst t AND NOT PREFIX_EMASK,
                px_id = fst (snd t), px_seq = snd (snd t)\<rparr> in
      if px_control px \<ge> CONTROL_MAX then Some w
      else if px_control px = CONTROL_OPEN then segment_open H src px end len buf w
      else segment_other H src px end len buf w)"
      unfolding Let_def by (intro post_if post_Some w open_keeps other_keeps) (use new src i in auto)
  qed
  then have "post I (trip_segment H src len buf w)"
    unfolding trip_segment_def trip_router_reject_def split_def
    by (intro post_if post_Some w bind_fact [where m = "trip_unpack _ _ _ _"]) (simp_all add: split_def)
  then show ?thesis using w by (simp add: trip_seg_def)
qed

end

end
