(* ===== verification/Unready.thy ===== *)
theory Unready
  imports Packet_Path
begin

text \<open>
  No packet makes a connection ready: the decoder does not know the specifiers of the
  encrypted part of a ping, so the parser of pings never succeeds, and those of data and of
  disconnections are not written yet. What holds of one connection's turn is carried through
  the whole of \<open>trip_seg\<close> along the path of a packet (theory \<open>Packet_Path\<close>).
\<close>

section \<open>Connections that are not ready\<close>

definition settled :: "conn_state \<Rightarrow> bool" where
  "settled s \<longleftrightarrow> s = CS_READY \<or> s = CS_READY_PING \<or> s = CS_CLOSE"

lemma settled_simps [simp]:
  "\<not> settled CS_START" "\<not> settled CS_RESOLVE" "\<not> settled CS_OPEN" "\<not> settled CS_CHAL" "\<not> settled CS_PING" "\<not> settled CS_ERROR"
  by (simp_all add: settled_def)

text \<open>Not ready, no ping active, and a connection the peer has opened waits for a packet of it.\<close>

definition early :: "conn_state \<times> bool \<times> bool \<Rightarrow> bool" where
  "early p \<longleftrightarrow> (case p of (s, act, inc) \<Rightarrow>
     \<not> settled s \<and> \<not> act \<and> (inc \<longrightarrow> s = CS_START \<or> s = CS_CHAL \<or> s = CS_ERROR))"

definition unready :: "world \<Rightarrow> bool" where
  "unready w \<longleftrightarrow> (\<forall>d k. h_conn w d = Some k \<longrightarrow> early (phase k))"

text \<open>The same, and that the connection \<open>c\<close> is one this side has opened (unless \<open>b\<close>).\<close>

definition ur :: "addr \<Rightarrow> bool \<Rightarrow> connection heap \<Rightarrow> bool" where
  "ur c b h \<longleftrightarrow> (\<forall>d k. h d = Some k \<longrightarrow> early (phase k) \<and> (d = c \<and> \<not> b \<longrightarrow> \<not> c_incoming k))"

abbreviation urw :: "addr \<Rightarrow> bool \<Rightarrow> world \<Rightarrow> bool" where
  "urw c b w \<equiv> ur c b (h_conn w)"

lemma unready_ur: "unready w \<longleftrightarrow> urw c True w"
  by (simp add: unready_def ur_def)

text \<open>A new heap in which every connection is in the phase of an earlier one.\<close>

definition older :: "connection heap \<Rightarrow> connection heap \<Rightarrow> bool" where
  "older h h' \<longleftrightarrow> (\<forall>d k'. h' d = Some k' \<longrightarrow> (\<exists>k. h d = Some k \<and> phase k' = phase k))"

lemma older_ur: "older h h' \<Longrightarrow> ur c b h \<Longrightarrow> ur c b h'"
  by (fastforce simp: ur_def older_def phase_def)

lemma older_refl [simp]: "older h h"
  by (simp add: older_def)

lemma older_trans: "older h h' \<Longrightarrow> older h' h'' \<Longrightarrow> older h h''"
  by (fastforce simp: older_def)

lemma heap_upd_older: "heap_upd a f h = Some h' \<Longrightarrow> (\<And>k. phase (f k) = phase k) \<Longrightarrow> older h h'"
  by (auto simp: heap_upd_def older_def split: option.splits if_splits)

lemma phase_simps [simp]:
  "phase (k\<lparr>c_next := n\<rparr>) = phase k" "phase (k\<lparr>c_insend := i\<rparr>) = phase k" "phase (k\<lparr>c_self := s\<rparr>) = phase k"
  by (simp_all add: phase_def)

lemma sendq_nq_older:
  assumes "sendq_nq c q h = Some (q', h')"
  shows "older h h'"
proof -
  have "\<exists>h1. (h1 = h \<or> (\<exists>t. heap_upd t (\<lambda>k. k\<lparr>c_next := Some c\<rparr>) h = Some h1)) \<and>
      (h' = h1 \<or> heap_upd c (\<lambda>k. k\<lparr>c_next := None, c_insend := True\<rparr>) h1 = Some h')"
    using assms by (auto simp: sendq_nq_def split: Option.bind_splits option.splits if_splits)
  then obtain h1 where 1: "h1 = h \<or> (\<exists>t. heap_upd t (\<lambda>k. k\<lparr>c_next := Some c\<rparr>) h = Some h1)"
    and 2: "h' = h1 \<or> heap_upd c (\<lambda>k. k\<lparr>c_next := None, c_insend := True\<rparr>) h1 = Some h'" by blast
  have "older h h1" using 1 heap_upd_older [where f = "\<lambda>k. k\<lparr>c_next := Some c\<rparr>"] by auto
  moreover have "older h1 h'" using 2 heap_upd_older [where f = "\<lambda>k. k\<lparr>c_next := None, c_insend := True\<rparr>"] by auto
  ultimately show ?thesis by (rule older_trans)
qed

lemma connmap_add_older:
  assumes "connmap_add ok r1 r2 c m h = Some (e, m', h')"
  shows "older h h'"
proof -
  have "h' = h \<or> (\<exists>i. heap_upd c (\<lambda>k. k\<lparr>c_self := (c_self k)\<lparr>self_id := i\<rparr>\<rparr>) h = Some h')"
    using assms by (auto simp: connmap_add_def Let_def split: Option.bind_splits if_splits)
  then show ?thesis using heap_upd_older [where a = c and h = h and h' = h'] by fastforce
qed

text \<open>In every state but \<open>CHAL\<close> a ping is refused, because none is active and we opened it.\<close>

lemma ping_refused:
  assumes "h_conn w a = Some k" "\<not> ping_isactive (c_ping k)" "\<not> c_incoming k"
  shows "tripc_parse_ping H a n bs px w = Some (EINVAL, w)"
  using assms by (simp add: tripc_parse_ping_def)

section \<open>The operations on the way of a packet\<close>

text \<open>A program whose screen and timeout hooks leave the connections alone.\<close>

definition leaves_conns :: "host \<Rightarrow> bool" where
  "leaves_conns H \<longleftrightarrow> (\<forall>w. (\<forall>sc. post (\<lambda>r. h_conn (snd r) = h_conn w) (ho_screen H sc w)) \<and>
     (\<forall>ms. post (\<lambda>w'. h_conn w' = h_conn w) (ho_timeout H ms w)))"

locale quiet_host =
  fixes H :: host
  assumes quiet: "leaves_conns H"
begin

lemma hook_quiet: "post (\<lambda>w'. h_conn w' = h_conn w) (call_timeout H ms w)"
  using quiet
  by (auto simp: leaves_conns_def call_timeout_def trip_timeout_cb_def w_deadline_def w_now_def post_def
      split: option.splits hook.splits Option.bind_splits)

end

sublocale quiet_host \<subseteq> ur: conn_path H "urw c b" "\<lambda>_. True" for c b
proof (unfold_locales, goal_cases)
  case (1 w a f)
  then show ?case by (auto simp: post_def conn_upd_def intro: older_ur [OF heap_upd_older])
next
  case (5 w a)
  show ?case
    unfolding on_sendq_def split_def
    by (rule post_bind [where R = "\<lambda>r. older (h_conn w) (snd r)"])
      (use 5 in \<open>auto simp: post_def dest: sendq_nq_older intro: older_ur\<close>)
next
  case (6 w ms)
  show ?case by (rule post_mono [OF hook_quiet]) (use 6 in simp)
next
  case (8 w e)
  then show ?case by (auto simp: post_def trip_cancel_timeout_priv_def)
qed simp_all

context quiet_host
begin

text \<open>A change of state: \<open>START\<close>, \<open>CHAL\<close> and \<open>ERROR\<close> are for all, the others for our own.\<close>

lemma ur_set_state:
  assumes "urw c b w" "\<not> settled st" "st = CS_START \<or> st = CS_CHAL \<or> st = CS_ERROR \<or> a = c \<and> \<not> b"
  shows "post (urw c b) (tripc_set_state H a st w)"
  by (rule ur.set_state_keeps)
    (use assms in \<open>auto simp: post_def conn_upd_def heap_upd_def ur_def early_def phase_def split: option.splits if_splits\<close>)

lemma ur_set_error: "urw c b w \<Longrightarrow> post (urw c b) (tripc_set_error H a e m w)"
  by (rule ur.set_error_keeps)
    (auto simp: post_def conn_upd_def heap_upd_def ur_def early_def phase_def split: option.splits if_splits)

section \<open>Reading\<close>

lemma ur_read:
  assumes w: "unready w"
  shows "post (\<lambda>r. unready (snd r)) (tripc_read H a px n bs w)"
proof (cases "h_conn w a")
  case (Some k)
  have k: "early (phase k)" using w Some by (auto simp: unready_def)
  define b where "b = c_incoming k"
  have wb: "urw a b w" using w Some by (auto simp: unready_def ur_def b_def)
  have own: "\<not> b" if "c_state k \<noteq> CS_START" "c_state k \<noteq> CS_CHAL" "c_state k \<noteq> CS_ERROR"
    using k that by (auto simp: early_def phase_def b_def)
  have chal: "post (\<lambda>r. urw a b (snd r)) (read_in_chal H a px n bs w)"
  proof (cases "px_control px = CONTROL_DATA")
    case False
    then show ?thesis
      unfolding read_in_chal_def if_not_P [OF False]
      by (intro post_if ur.and_then_keeps ur.parse_keeps ur.set_send_keeps wb post_Some) (simp_all add: wb)
  qed (simp add: read_in_chal_def and_then_def tripc_parse_data_def wb)
  have open': "post (\<lambda>r. urw a b (snd r)) (and_then (tripc_parse_chal H a n bs w) (tripc_set_state H a CS_PING))" if "\<not> b"
    by (intro ur.and_then_keeps ur.parse_keeps ur_set_state wb) (use that in \<open>simp_all add: settled_def\<close>)
  have ready: "post (\<lambda>r. urw a b (snd r)) (read_in_ready H a px n bs w)" if "c_state k = CS_PING"
    using k that Some wb ping_refused [OF Some]
    by (simp add: read_in_ready_def and_then_def tripc_parse_data_def tripc_parse_disconnect_def early_def phase_def)
  have res: "post (\<lambda>r. urw a b (snd r)) (do { w \<leftarrow> tripc_set_error H a EINVAL m w; Some (EOK, w) })" for m
    by (rule ur.bind_I [where c = a and b = b, OF ur_set_error [OF wb]]) simp
  let ?m = "case c_state k of
      CS_START \<Rightarrow> Some (EOK, w)
    | CS_OPEN \<Rightarrow> and_then (tripc_parse_chal H a n bs w) (tripc_set_state H a CS_PING)
    | CS_CHAL \<Rightarrow> read_in_chal H a px n bs w
    | CS_PING \<Rightarrow> read_in_ready H a px n bs w
    | CS_READY \<Rightarrow> read_in_ready H a px n bs w
    | CS_READY_PING \<Rightarrow> read_in_ready H a px n bs w
    | CS_CLOSE \<Rightarrow> read_in_close H a px n bs w
    | CS_END \<Rightarrow> Some (EINVAL, w)
    | CS_ERROR \<Rightarrow> Some (EOK, w)
    | CS_RESOLVE \<Rightarrow>
        do { w \<leftarrow> tripc_set_error H a EINVAL (Some ''Invalid state.'') w; Some (EOK, w) }"
  have m: "post (\<lambda>r. urw a b (snd r)) ?m"
    using k own chal open' ready res wb
    by (cases "c_state k") (auto simp: early_def phase_def settled_def)
  have "post (\<lambda>r. urw a b (snd r)) (tripc_read H a px n bs w)"
    unfolding tripc_read_def Some tripc_flag_seq_def Let_def split_def
    by (simp only: bind.bind_lunit tripc_check_seq_def simp_thms if_False)
      (intro ur.bind_I_snd [OF m] post_if post_Some bind_other; simp)
  then show ?thesis by (rule post_mono) (auto simp: unready_def ur_def)
qed (simp add: tripc_read_def)

end

section \<open>Segments\<close>

sublocale quiet_host \<subseteq> un: segment_path H "urw 0 True" "\<lambda>_. True"
proof (unfold_locales, goal_cases)
  case (1 w a px n bs)
  then show ?case using ur_read [of w a px n bs] by (simp add: unready_ur [of _ 0, abs_def])
next
  case (2 w a)
  show ?case
  proof (cases "h_conn w a")
    case (Some k)
    have w: "urw a (c_incoming k) w" using 2 Some by (auto simp: ur_def)
    have "post (urw a (c_incoming k)) (tripc_start H a w)"
      unfolding tripc_start_def Some bind.bind_lunit
      by (intro post_if ur_set_error ur_set_state w) simp_all
    then show ?thesis by (rule post_mono) (auto simp: ur_def)
  qed (simp add: tripc_start_def)
next
  case (3 w a)
  then show ?case
    by (auto simp: tripc_init_def ur_def tripc_init_rec_def connection_zero_def ping_zero_def phase_def early_def)
next
  case (4 w a)
  then show ?case by (auto simp: post_def trip_free_connection_def heap_free_def ur_def split: option.splits)
next
  case (5 w a)
  show ?case
    unfolding w_connmap_add_def Let_def split_def
    by (rule post_bind [where R = "\<lambda>r. older (h_conn w) (snd (snd r))"])
      (use 5 in \<open>auto simp: post_def dest: connmap_add_older intro: older_ur\<close>)
next
  case (6 w sc)
  have "post (\<lambda>r. h_conn (snd r) = h_conn w) (ho_screen H sc w)" using quiet by (simp add: leaves_conns_def)
  then show ?case by (rule post_mono) (use 6 in simp)
qed

context quiet_host
begin

lemma segment_unready: "unready w \<Longrightarrow> post unready (trip_seg H src len buf w)"
  using un.segment_keeps by (simp add: unready_ur [of _ 0, abs_def])

end

interpretation quiet_still: quiet_host "still_host t" for t
  by unfold_locales (simp add: leaves_conns_def still_host_def)

interpretation quiet_udp: quiet_host "udp_host S (still_host t)" for S t
  by unfold_locales (simp add: leaves_conns_def udp_host_def still_host_def)

text \<open>C12: No packet makes a connection ready. As long as every connection is in the handshake, none
  has an active ping (the code never sets that flag) and those the peers opened wait in \<open>START\<close>,
  \<open>CHAL\<close> or \<open>ERROR\<close>, the same holds after any packet from any source, whatever its octets are
  and whatever the library for cryptography says of it, provided that the program's screen and
  timeout hooks leave the connections alone.\<close>

theorem no_packet_makes_ready:
  assumes "leaves_conns H" "unready w" "trip_seg H src len buf w = Some w'"
  shows "unready w'"
  using quiet_host.segment_unready [OF quiet_host.intro [OF assms(1)] assms(2)] assms(3) by (simp add: post_def)

theorem no_packet_makes_ready_witness:
  "\<exists>w'. trip_seg (still_host 0) 7 3 [1, 2, 3] opening_world = Some w' \<and> unready w'"
proof -
  have "unready opening_world"
    by (auto simp: unready_def opening_world_def opening_conn_def connection_zero_def ping_zero_def phase_def early_def)
  moreover have "trip_seg (still_host 0) 7 3 [1, 2, 3] opening_world = Some opening_world"
    by (simp add: trip_seg_def trip_segment_def trip_router_reject_def)
  ultimately show ?thesis using no_packet_makes_ready [OF quiet_still.quiet] by blast
qed

end
