(* ===== verification/Isolation.thy ===== *)
theory Isolation
  imports Packet_Path Segments
begin

text \<open>
  What a packet does not touch: every connection but the one whose identifier it carries.
\<close>

section \<open>Sparing a connection\<close>

text \<open>A connection but for its links in the send queue, which belong to the queue.\<close>

definition linkless :: "connection \<Rightarrow> connection" where
  "linkless k = k\<lparr>c_next := None, c_insend := False\<rparr>"

lemma linkless_simps [simp]:
  "linkless (k\<lparr>c_next := n\<rparr>) = linkless k" "linkless (k\<lparr>c_next := n, c_insend := b\<rparr>) = linkless k"
  by (simp_all add: linkless_def)

definition same_but_links :: "connection heap \<Rightarrow> connection heap \<Rightarrow> bool" where
  "same_but_links h h' \<longleftrightarrow> (\<forall>a. map_option linkless (h' a) = map_option linkless (h a))"

lemma same_but_linksD: "same_but_links h h' \<Longrightarrow> map_option linkless (h' d) = map_option linkless (h d)"
  by (simp add: same_but_links_def)

lemma heap_upd_links: "heap_upd a f h = Some h' \<Longrightarrow> (\<And>k. linkless (f k) = linkless k) \<Longrightarrow> same_but_links h h'"
  by (auto simp: heap_upd_def same_but_links_def split: option.splits)

lemma sendq_nq_links:
  assumes "sendq_nq c q h = Some (q', h')"
  shows "same_but_links h h'"
proof -
  have "\<exists>h1. (h1 = h \<or> (\<exists>t. heap_upd t (\<lambda>k. k\<lparr>c_next := Some c\<rparr>) h = Some h1)) \<and>
      (h' = h1 \<or> heap_upd c (\<lambda>k. k\<lparr>c_next := None, c_insend := True\<rparr>) h1 = Some h')"
    using assms by (auto simp: sendq_nq_def split: Option.bind_splits option.splits if_splits)
  then obtain h1 where 1: "h1 = h \<or> (\<exists>t. heap_upd t (\<lambda>k. k\<lparr>c_next := Some c\<rparr>) h = Some h1)"
    and 2: "h' = h1 \<or> heap_upd c (\<lambda>k. k\<lparr>c_next := None, c_insend := True\<rparr>) h1 = Some h'" by blast
  have "same_but_links h h1"
    using 1 heap_upd_links [where f = "\<lambda>k. k\<lparr>c_next := Some c\<rparr>"] by (auto simp: same_but_links_def)
  moreover have "same_but_links h1 h'"
    using 2 heap_upd_links [where f = "\<lambda>k. k\<lparr>c_next := None, c_insend := True\<rparr>"] by (auto simp: same_but_links_def)
  ultimately show ?thesis by (simp add: same_but_links_def)
qed

lemma connmap_add_others:
  assumes "connmap_add ok r1 r2 c m h = Some (e, m', h')" "d \<noteq> c"
  shows "h' d = h d"
proof -
  have "h' = h \<or> (\<exists>i. heap_upd c (\<lambda>k. k\<lparr>c_self := (c_self k)\<lparr>self_id := i\<rparr>\<rparr>) h = Some h')"
    using assms(1) by (auto simp: connmap_add_def Let_def split: Option.bind_splits if_splits)
  then show ?thesis using assms(2) by (auto simp: heap_upd_def split: option.splits)
qed

lemma connmap_add_spares: "d \<noteq> c \<Longrightarrow> h = g \<Longrightarrow> post (\<lambda>r. snd (snd r) d = g d) (connmap_add ok r1 r2 c m h)"
  unfolding post_def using connmap_add_others by (metis prod.collapse)

text \<open>The connection is \<open>k\<close>, and the timers \<open>T\<close> are in the memory of the wheel.\<close>

definition spares :: "addr \<Rightarrow> connection \<Rightarrow> addr set \<Rightarrow> world \<Rightarrow> bool" where
  "spares d k T w \<longleftrightarrow> map_option linkless (h_conn w d) = Some (linkless k) \<and> (\<forall>t \<in> T. tw_heap (w_wheel w) t \<noteq> None)"

lemma spares_same: "spares d k T w \<Longrightarrow> h_conn v d = h_conn w d \<Longrightarrow> w_wheel v = w_wheel w \<Longrightarrow> spares d k T v"
  by (simp add: spares_def)

text \<open>A program whose screen and timeout hooks leave connections, timers and the allocator alone.\<close>

definition modest :: "host \<Rightarrow> bool" where
  "modest H \<longleftrightarrow> (\<forall>w.
     (\<forall>sc. post (\<lambda>r. h_conn (snd r) = h_conn w \<and> w_wheel (snd r) = w_wheel w \<and> w_brk (snd r) = w_brk w) (ho_screen H sc w)) \<and>
     (\<forall>ms. post (\<lambda>w'. h_conn w' = h_conn w \<and> w_wheel w' = w_wheel w) (ho_timeout H ms w)))"

locale modest_host =
  fixes H :: host
  assumes modest: "modest H"
begin

lemma screen_modest: "post (\<lambda>r. h_conn (snd r) = h_conn w \<and> w_wheel (snd r) = w_wheel w \<and> w_brk (snd r) = w_brk w) (ho_screen H sc w)"
  and timeout_modest: "post (\<lambda>w'. h_conn w' = h_conn w \<and> w_wheel w' = w_wheel w) (ho_timeout H ms w)"
  using modest by (simp_all add: modest_def)

lemma hook_modest: "post (\<lambda>w'. h_conn w' = h_conn w \<and> w_wheel w' = w_wheel w) (call_timeout H ms w)"
  using timeout_modest [of w]
  by (auto simp: call_timeout_def trip_timeout_cb_def w_deadline_def w_now_def post_def split: option.splits hook.splits Option.bind_splits)

end

sublocale modest_host \<subseteq> apart: conn_path H "spares d k T" "\<lambda>a. a \<noteq> d" for d k T
proof (unfold_locales, goal_cases)
  case (1 w a f)
  then show ?case by (auto simp: post_def conn_upd_def heap_upd_def spares_def split: option.splits)
next
  case (5 w a)
  then show ?case
    unfolding on_sendq_def split_def
    by (intro post_bind [where R = "\<lambda>r. same_but_links (h_conn w) (snd r)"])
      (auto simp: post_def spares_def same_but_linksD simp del: map_option_eq_Some dest: sendq_nq_links)
next
  case (6 w ms)
  then show ?case using hook_modest [of w] by (auto simp: post_def spares_def)
next
  case (7 w te now ms da cb)
  then show ?case by (auto simp: spares_def timerwheel_add_def split: option.splits)
next
  case (8 w e)
  then show ?case
    by (auto simp: post_def spares_def trip_cancel_timeout_priv_def timerwheel_cancel_def heap_upd_def split: option.splits)
qed (simp_all add: spares_def)

context modest_host
begin

lemma phase_free: "spares d k T v \<Longrightarrow> a \<noteq> d \<Longrightarrow> post (spares d k T) (conn_upd a f v)"
  by (auto simp: post_def conn_upd_def heap_upd_def spares_def split: option.splits)

end

sublocale modest_host \<subseteq> apart: segment_path H "spares d k T" "\<lambda>a. a \<noteq> d" for d k T
proof (unfold_locales, goal_cases)
  case (1 w a px n bs)
  then show ?case by (intro apart.read_keeps phase_free)
next
  case (2 w a)
  then show ?case
    unfolding tripc_start_def
    by (intro bind_other post_if apart.set_error_keeps apart.set_state_keeps phase_free)
next
  case (3 w a)
  then show ?case by (simp add: spares_def tripc_init_def)
next
  case (4 w a)
  then show ?case by (auto simp: post_def trip_free_connection_def heap_free_def spares_def split: option.splits)
next
  case (5 w a)
  show ?case
    unfolding w_connmap_add_def Let_def split_def
  proof (rule post_bind [OF connmap_add_spares [where d = d and g = "h_conn w"]])
    show "d \<noteq> a" using 5(2) by simp
  qed (simp, intro post_Some spares_same [OF 5(1)], simp_all)
next
  case (6 w sc)
  show ?case by (rule post_mono [OF screen_modest]) (use 6 in \<open>simp add: spares_def\<close>)
qed

context modest_host
begin

lemma segment_spares:
  assumes "trip_seg H src len buf w = Some w'" "h_conn w d = Some k"
    "packet_id (ho_crypto H) len buf = None \<Longrightarrow> w_brk w \<noteq> d \<and> r_connsrc0 (w_router w) \<noteq> Some d \<and> r_connsrc1 (w_router w) \<noteq> Some d"
    "\<And>i. packet_id (ho_crypto H) len buf = Some i \<Longrightarrow> connmap_get i (r_conn (w_router w)) (h_conn w) \<noteq> Some (Some d)"
  shows "spares d k {t. tw_heap (w_wheel w) t \<noteq> None} w'"
proof -
  let ?T = "{t. tw_heap (w_wheel w) t \<noteq> None}"
  have "spares d k ?T w" using assms(2) by (simp add: spares_def)
  moreover have "a \<noteq> d" if "packet_id (ho_crypto H) len buf = None" "trip_router_get_conn_by_src src i w = Some (Some a)" for i a
    using that assms(3) by (auto simp: trip_router_get_conn_by_src_def split: option.splits Option.bind_splits if_splits)
  ultimately have "post (spares d k ?T) (trip_seg H src len buf w)"
    by (intro apart.segment_keeps) (use assms in auto)
  with assms(1) show ?thesis by (simp add: post_def)
qed

end

interpretation still: modest_host "still_host t" for t
  by unfold_locales (simp add: modest_def still_host_def)

interpretation udp_still: modest_host "udp_host S (still_host t)" for S t
  by unfold_locales (simp add: modest_def udp_host_def still_host_def)

section \<open>The property\<close>

text \<open>C8: Packets are isolated from one another's connections. Whatever octets arrive, from wherever,
  and whatever the cryptography says of them: a connection other than the one the packet's
  identifier leads to in the connection map keeps everything but its links in the send queue,
  and no timer leaves the wheel. A packet that carries no identifier of ours (it opens a
  connection) touches none but the ones of the table of sources and the one it allocates.
  The program's screen and timeout hooks have to leave connections and timers alone.\<close>

theorem packet_isolation:
  assumes "modest H" "trip_seg H src len buf w = Some w'" "h_conn w d = Some k"
    "packet_id (ho_crypto H) len buf = None \<Longrightarrow> w_brk w \<noteq> d \<and> r_connsrc0 (w_router w) \<noteq> Some d \<and> r_connsrc1 (w_router w) \<noteq> Some d"
    "\<And>i. packet_id (ho_crypto H) len buf = Some i \<Longrightarrow> connmap_get i (r_conn (w_router w)) (h_conn w) \<noteq> Some (Some d)"
  shows "(\<exists>k'. h_conn w' d = Some k' \<and> linkless k' = linkless k) \<and>
    (\<forall>t. tw_heap (w_wheel w) t \<noteq> None \<longrightarrow> tw_heap (w_wheel w') t \<noteq> None)"
  using modest_host.segment_spares [OF modest_host.intro [OF assms(1)] assms(2-5)] by (auto simp: spares_def)

text \<open>A packet for an identifier nobody has, at a router with one connection.\<close>

theorem packet_isolation_witness:
  "\<exists>w' k'. trip_seg (still_host 0) 7 16 (0x80 # 0 # 0 # 0 # 0 # 0 # 0 # 0 # 5 # replicate 7 0) opening_world = Some w' \<and>
     h_conn w' 1 = Some k' \<and> linkless k' = linkless opening_conn"
proof -
  let ?b = "0x80 # 0 # 0 # 0 # 0 # 0 # 0 # 0 # 5 # replicate 7 0 :: bytes"
  have i: "packet_id (ho_crypto (still_host 0)) 16 ?b = Some 5"
    by (simp add: still_host_def) code_simp
  have px: "seg_prefix (ho_crypto (still_host 0)) 16 ?b =
      Some (\<lparr>px_encrypted = True, px_control = 0, px_id = 5, px_seq = 0\<rparr>, 10)"
    by (simp add: still_host_def) code_simp
  have get: "connmap_get 5 (r_conn (w_router opening_world)) (h_conn opening_world) = Some None"
    by (simp add: connmap_get_def connmap_index_def opening_world_def)
  have seg: "trip_seg (still_host 0) 7 16 ?b opening_world = Some opening_world"
    using px get
    by (subst trip_seg_prefix) (simp_all add: still_host_def sodium_ok segment_other_def trip_router_reject_def
        CONTROL_OPEN_def CONTROL_MAX_def)
  have w: "h_conn opening_world 1 = Some opening_conn" by (simp add: opening_world_def)
  have "(\<exists>k'. h_conn opening_world 1 = Some k' \<and> linkless k' = linkless opening_conn) \<and>
      (\<forall>t. tw_heap (w_wheel opening_world) t \<noteq> None \<longrightarrow> tw_heap (w_wheel opening_world) t \<noteq> None)"
    by (rule packet_isolation [OF still.modest seg w]) (use i get in simp_all)
  with seg show ?thesis by blast
qed

end
