(* ===== verification/Sound.thy ===== *)
theory Sound
  imports Isolation
begin

text \<open>
  The memory of a router in order: an invariant of the whole world, and a calculus for
  operations that have a meaning in such a world and leave one behind. The operations of
  \<open>src/conn.c\<close> on one connection are gone through here; theory \<open>Sound_Packet\<close> and those after it
  build on them.
\<close>

section \<open>Results that exist\<close>

definition gives :: "('a \<Rightarrow> bool) \<Rightarrow> 'a option \<Rightarrow> bool" where
  "gives P m \<longleftrightarrow> (\<exists>x. m = Some x \<and> P x)"

lemma gives_simps [simp]: "\<not> gives P None" "gives P (Some x) \<longleftrightarrow> P x"
  by (simp_all add: gives_def)

lemma givesI: "P x \<Longrightarrow> gives P (Some x)"
  by simp

lemma givesE: "gives P m \<Longrightarrow> (\<And>x. m = Some x \<Longrightarrow> P x \<Longrightarrow> thesis) \<Longrightarrow> thesis"
  by (auto simp: gives_def)

lemma gives_bind: "gives R m \<Longrightarrow> (\<And>x. R x \<Longrightarrow> gives P (f x)) \<Longrightarrow> gives P (m \<bind> f)"
  by (auto simp: gives_def)

lemma gives_if: "(b \<Longrightarrow> gives P x) \<Longrightarrow> (\<not> b \<Longrightarrow> gives P y) \<Longrightarrow> gives P (if b then x else y)"
  by simp

lemma gives_case_option:
  "(z = None \<Longrightarrow> gives P x) \<Longrightarrow> (\<And>a. z = Some a \<Longrightarrow> gives P (f a)) \<Longrightarrow>
     gives P (case z of None \<Rightarrow> x | Some a \<Rightarrow> f a)"
  by (cases z) simp_all

lemma gives_mono: "gives P m \<Longrightarrow> (\<And>x. P x \<Longrightarrow> Q x) \<Longrightarrow> gives Q m"
  by (auto simp: gives_def)

lemma gives_map: "gives (\<lambda>x. P (f x)) m \<Longrightarrow> gives P (map_option f m)"
  by (auto simp: gives_def)

section \<open>The invariant\<close>

text \<open>Times in milliseconds that stay clear of the limits of \<open>int\<close> when doubled.\<close>

definition within :: "int \<Rightarrow> bool" where
  "within x \<longleftrightarrow> 0 \<le> x \<and> x \<le> 2 ^ 29"

text \<open>
  A connection whose timer, if it has one, is in the memory of the wheel, whose times are
  within limits and whose peer's nonce, if it has one, is long enough to be counted up.
\<close>

definition conn_sound :: "addr set \<Rightarrow> connection \<Rightarrow> bool" where
  "conn_sound T k \<longleftrightarrow> (\<forall>t. c_statetimer k = Some t \<longrightarrow> t \<in> T) \<and>
     within (ping_ms (c_ping k)) \<and> within (ping_maxms (c_ping k)) \<and> within (c_maxresolve k) \<and>
     within (c_statems k) \<and> within (c_maxstatems k) \<and> within (c_growms k) \<and> 0 \<le> c_retry k \<and>
     (\<forall>n. peer_nonce (c_peer k) = Some n \<longrightarrow> 9 \<le> length n)"

lemma conn_sound_mono: "conn_sound T k \<Longrightarrow> T \<subseteq> T' \<Longrightarrow> conn_sound T' k"
  by (auto simp: conn_sound_def)

text \<open>The callbacks that are about a connection: those of its own timer, and the others.\<close>

definition state_cb :: "timer_cb \<Rightarrow> bool" where
  "state_cb cb \<longleftrightarrow> cb \<in> {CB_state_resolve, CB_state_resend, CB_state_ready_ping}"

lemma state_cbI: "state_cb CB_state_resolve" "state_cb CB_state_resend" "state_cb CB_state_ready_ping"
  by (simp_all add: state_cb_def)

definition conn_cb :: "timer_cb \<Rightarrow> bool" where
  "conn_cb cb \<longleftrightarrow> state_cb cb \<or> cb \<in> {CB_resolve_success, CB_resolve_failure, CB_open_connection}"

text \<open>The timers in the memory of the wheel, not cancelled, that a connection may have as its own.\<close>

definition timers :: "world \<Rightarrow> addr \<Rightarrow> addr set" where
  "timers w a = {t. \<exists>e cb. tw_heap (w_wheel w) t = Some e \<and> te_data e = Some a \<and> te_cb e = Some cb \<and> state_cb cb \<and>
     \<not> te_canceled e}"

lemma timers_live: "t \<in> timers w a \<Longrightarrow> tw_heap (w_wheel w) t \<noteq> None"
  by (auto simp: timers_def)

lemma timers_same [simp]:
  "timers (w\<lparr>h_conn := h\<rparr>) = timers w" "timers (w\<lparr>w_router := r\<rparr>) = timers w"
  "timers (w\<lparr>w_brk := b\<rparr>) = timers w" "timers (w\<lparr>w_tick := n\<rparr>) = timers w"
  by (simp_all add: timers_def fun_eq_iff)

text \<open>No timer that is still to go off, those of \<open>F\<close> aside, is about a connection that is gone.\<close>

definition aware :: "addr set \<Rightarrow> timer_cb timerwheel \<Rightarrow> connection heap \<Rightarrow> bool" where
  "aware F v h \<longleftrightarrow> (\<forall>t e cb. t \<notin> F \<longrightarrow> tw_heap v t = Some e \<longrightarrow> \<not> te_canceled e \<longrightarrow> te_cb e = Some cb \<longrightarrow> conn_cb cb \<longrightarrow>
     (\<exists>a. te_data e = Some a \<and> h a \<noteq> None))"

lemma aware_more: "aware F v h \<Longrightarrow> (\<And>a. h a \<noteq> None \<Longrightarrow> h' a \<noteq> None) \<Longrightarrow> aware F v h'"
  by (fastforce simp: aware_def)

definition below :: "addr set \<Rightarrow> addr \<Rightarrow> bool" where
  "below X b \<longleftrightarrow> (\<forall>t \<in> X. t < b)"

lemma below_more [simp, intro]: "below X b \<Longrightarrow> b \<le> c \<Longrightarrow> below X c" "below {} b" "below X b \<Longrightarrow> below X (Suc b)"
  by (auto simp: below_def)

text \<open>The connections of a resolve queue are there and know their key.\<close>

definition resolving :: "resolveq \<Rightarrow> connection heap \<Rightarrow> bool" where
  "resolving q h \<longleftrightarrow> (\<forall>key a. rq_abs q key = Some (Some a) \<longrightarrow> (\<exists>k. h a = Some k \<and> c_resolvekey k = key))"

lemma resolving_same:
  "resolving q h \<Longrightarrow> (\<And>a k. h a = Some k \<Longrightarrow> \<exists>k'. h' a = Some k' \<and> c_resolvekey k' = c_resolvekey k) \<Longrightarrow> resolving q h'"
  by (fastforce simp: resolving_def)

text \<open>The program has set its callbacks, and the packet interface has a resolver.\<close>

definition equipped :: "router \<Rightarrow> bool" where
  "equipped r \<longleftrightarrow> r_screen r \<and> r_connection r \<and> (\<exists>p. r_packet r = Some p \<and> pkt_resolve p)"

lemma equipped_upd [simp]:
  "equipped (r\<lparr>r_sendq := q\<rparr>) = equipped r" "equipped (r\<lparr>r_poll := p\<rparr>) = equipped r"
  "equipped (r\<lparr>r_conn := m\<rparr>) = equipped r" "equipped (r\<lparr>r_resolveq := v\<rparr>) = equipped r"
  by (simp_all add: equipped_def)

text \<open>
  The world in order: the connection map, the send queue, the timer wheel and the resolve queue
  are what they should be, the connections are sound, those being resolved know their key,
  timers know their connections, and the addresses the allocator has not given out yet are free.
  The table of sources is empty, as it always is: no code fills it. The router is equipped. The
  entries \<open>F\<close>, if there are any, are off the list of timers, as the one is whose
  callback is being run; the connection at \<open>b\<close> does not have one of \<open>G b\<close> for its own.
\<close>

definition sound :: "addr set \<Rightarrow> (addr \<Rightarrow> addr set) \<Rightarrow> host \<Rightarrow> world \<Rightarrow> bool" where
  "sound F G H w \<longleftrightarrow> runs_fine H (w_router w) \<and> connmap_ok (h_conn w) (r_conn (w_router w)) \<and>
     (\<exists>cs. sends w cs) \<and> (\<exists>ts. tw_rep (w_wheel w) ts \<and> set ts \<inter> F = {}) \<and> below F (w_brk w) \<and> F \<subseteq> dom (tw_heap (w_wheel w)) \<and> (\<forall>b. G b \<subseteq> F) \<and>
     (\<forall>a \<ge> w_brk w. h_conn w a = None \<and> tw_heap (w_wheel w) a = None) \<and>
     (\<forall>a k. h_conn w a = Some k \<longrightarrow> conn_sound (timers w a - G a) k) \<and>
     aware F (w_wheel w) (h_conn w) \<and>
     resolveq_ok (r_resolveq (w_router w)) \<and> resolving (r_resolveq (w_router w)) (h_conn w) \<and>
     r_connsrc0 (w_router w) = None \<and> r_connsrc1 (w_router w) = None \<and> equipped (w_router w)"

text \<open>Between two calls of the library no callback is being run.\<close>

abbreviation in_order :: "host \<Rightarrow> world \<Rightarrow> bool" where
  "in_order \<equiv> sound {} (\<lambda>_. {})"

text \<open>A sound world with a connection at \<open>a\<close>; \<open>P\<close> holds of the number of its retries.\<close>

definition live :: "addr set \<Rightarrow> (addr \<Rightarrow> addr set) \<Rightarrow> host \<Rightarrow> addr \<Rightarrow> (int \<Rightarrow> bool) \<Rightarrow> world \<Rightarrow> bool" where
  "live F G H a P w \<longleftrightarrow> sound F G H w \<and> (\<exists>k. h_conn w a = Some k \<and> P (c_retry k))"

lemma liveE: "live F G H a P w \<Longrightarrow> (\<And>k. h_conn w a = Some k \<Longrightarrow> P (c_retry k) \<Longrightarrow> conn_sound (timers w a - G a) k \<Longrightarrow> thesis) \<Longrightarrow> thesis"
  by (auto simp: live_def sound_def)

lemma live_mono: "live F G H a P w \<Longrightarrow> (\<And>n. P n \<Longrightarrow> Q n) \<Longrightarrow> live F G H a Q w"
  by (auto simp: live_def)

lemma live_any: "live F G H a P w \<Longrightarrow> live F G H a (\<lambda>_. True) w"
  by (erule live_mono) simp

lemma live_sound: "live F G H a P w \<Longrightarrow> sound F G H w"
  by (simp add: live_def)

lemma sound_tick [simp]: "sound F G H (w\<lparr>w_tick := n\<rparr>) = sound F G H w"
  by (simp add: sound_def sends_def)

lemma live_tick [simp]: "live F G H a P (w\<lparr>w_tick := n\<rparr>) = live F G H a P w"
  by (simp add: live_def)

lemma live_ask [simp]:
  "live F G H a P (snd (w_ok H' w)) = live F G H a P w" "live F G H a P (snd (w_now H' w)) = live F G H a P w"
  "live F G H a P (snd (w_rand H' w)) = live F G H a P w" "live F G H a P (snd (w_deadline H' ms w)) = live F G H a P w"
  by (simp_all add: w_ok_def w_now_def w_rand_def w_deadline_def)

lemma ok_always: "sound F G H w \<Longrightarrow> fst (w_ok H v)"
  by (simp add: sound_def runs_fine_def w_ok_def)

section \<open>Changing a connection\<close>

text \<open>
  A change of the connection at \<open>a\<close> that leaves the queue's links and the identifier alone. It
  may be the one that takes the timers of \<open>F\<close> from it.
\<close>

definition same_place :: "connection \<Rightarrow> connection \<Rightarrow> bool" where
  "same_place k k' \<longleftrightarrow> c_next k' = c_next k \<and> c_insend k' = c_insend k \<and>
     self_id (c_self k') = self_id (c_self k) \<and> c_resolvekey k' = c_resolvekey k"

lemma sound_conn_own:
  assumes "sound F G H w" "h_conn w a = Some k" "conn_sound (timers w a - X) k'" "same_place k k'" "X \<subseteq> F"
  shows "sound F (G(a := X)) H (w\<lparr>h_conn := (h_conn w)(a \<mapsto> k')\<rparr>)"
proof -
  have p: "c_next k' = c_next k" "c_insend k' = c_insend k" "self_id (c_self k') = self_id (c_self k)"
    "c_resolvekey k' = c_resolvekey k"
    using assms(4) by (simp_all add: same_place_def)
  have "conn_id ((h_conn w)(a \<mapsto> k')) = conn_id (h_conn w)"
    using assms(2) p(3) by (auto simp: conn_id_def)
  note ids = connmap_same_ids [OF this]
  obtain cs where "sends w cs" using assms(1) by (auto simp: sound_def)
  then have "sends (w\<lparr>h_conn := (h_conn w)(a \<mapsto> k')\<rparr>) cs"
    using sq_rep_same [of "r_sendq (w_router w)" "h_conn w" cs a k k'] assms(2) p(1,2) by (simp add: sends_def)
  moreover have "a < w_brk w" using assms(1,2) by (fastforce simp: sound_def not_le [symmetric])
  moreover have "resolving (r_resolveq (w_router w)) ((h_conn w)(a \<mapsto> k'))"
    by (rule resolving_same [of _ "h_conn w"]) (use assms(1,2) p(4) in \<open>auto simp: sound_def\<close>)
  moreover have "aware F (w_wheel w) ((h_conn w)(a \<mapsto> k'))"
    by (rule aware_more [of F _ "h_conn w"]) (use assms(1) in \<open>auto simp: sound_def\<close>)
  ultimately show ?thesis using assms(1,3,5) ids by (auto simp: sound_def)
qed

lemma sound_conn:
  assumes "sound F G H w" "h_conn w a = Some k" "conn_sound (timers w a - G a) k'" "same_place k k'"
  shows "sound F G H (w\<lparr>h_conn := (h_conn w)(a \<mapsto> k')\<rparr>)"
  using sound_conn_own [OF assms] assms(1) by (simp add: sound_def)

lemma upd_own_gives:
  assumes "live F G H a P w" "X \<subseteq> F"
    "\<And>k. P (c_retry k) \<Longrightarrow> conn_sound (timers w a - G a) k \<Longrightarrow>
       conn_sound (timers w a - X) (f k) \<and> Q (c_retry (f k)) \<and> same_place k (f k)"
  shows "gives (live F (G(a := X)) H a Q) (conn_upd a f w)"
proof -
  obtain k where k: "h_conn w a = Some k" "P (c_retry k)" "conn_sound (timers w a - G a) k" using assms(1) by (rule liveE)
  then have "sound F (G(a := X)) H (w\<lparr>h_conn := (h_conn w)(a \<mapsto> f k)\<rparr>)"
    using sound_conn_own [OF live_sound [OF assms(1)] k(1) _ _ assms(2), of "f k"] assms(3) by blast
  then show ?thesis using k assms(3) by (simp add: conn_upd_def heap_upd_def live_def)
qed

lemma upd_gives:
  assumes "live F G H a P w"
    "\<And>k. P (c_retry k) \<Longrightarrow> conn_sound (timers w a - G a) k \<Longrightarrow>
       conn_sound (timers w a - G a) (f k) \<and> Q (c_retry (f k)) \<and> same_place k (f k)"
  shows "gives (live F G H a Q) (conn_upd a f w)"
  using upd_own_gives [OF assms(1), of "G a"] assms by (simp add: live_def sound_def)

section \<open>Timers and the send queue\<close>

lemma sound_grow:
  assumes "sound F G H w" "runs_fine H r" "r_conn r = r_conn (w_router w)" "r_sendq r = r_sendq (w_router w)"
    "r_connsrc0 r = r_connsrc0 (w_router w)" "r_connsrc1 r = r_connsrc1 (w_router w)"
    "equipped r = equipped (w_router w)" "r_resolveq r = r_resolveq (w_router w)"
    "conn_cb cb \<Longrightarrow> \<exists>a. data = Some a \<and> h_conn w a \<noteq> None"
  shows "sound F G H (w\<lparr>w_brk := Suc (w_brk w), w_wheel := wheel_push (w_brk w) (timer_at H' i ms data cb (tw_head (w_wheel w))) (w_wheel w),
     w_tick := n, w_router := r\<rparr>)" (is "sound F G H ?w")
proof -
  let ?v = "wheel_push (w_brk w) (timer_at H' i ms data cb (tw_head (w_wheel w))) (w_wheel w)"
  obtain ts where ts: "tw_rep (w_wheel w) ts" "set ts \<inter> F = {}" using assms(1) by (auto simp: sound_def)
  have free: "tw_heap (w_wheel w) (w_brk w) = None" using assms(1) by (simp add: sound_def)
  then have "w_brk w \<notin> set ts" using ts by (auto simp: tw_rep_def chain_def)
  then have "tw_rep ?v (w_brk w # ts)"
    using ts by (simp add: tw_rep_def chain_Cons timer_at_def chain_upd_off)
  moreover have "set (w_brk w # ts) \<inter> F = {}" using ts(2) assms(1) by (auto simp: sound_def below_def)
  ultimately have "\<exists>ts. tw_rep ?v ts \<and> set ts \<inter> F = {}" by blast
  moreover have "conn_sound (timers ?w a - G a) k" if "h_conn w a = Some k" for a k
    by (rule conn_sound_mono [of "timers w a - G a"]) (use assms(1) that free in \<open>auto simp: sound_def timers_def\<close>)
  moreover have "aware F ?v (h_conn w)"
    using assms(1,9) by (auto simp: sound_def aware_def timer_at_def)
  ultimately show ?thesis using assms(1-8) by (auto simp: sound_def sends_def)
qed

lemma set_timeout_gives:
  assumes "live F G H a P w" "conn_cb cb \<Longrightarrow> data = Some a"
  shows "gives (\<lambda>r. live F G H a P (snd r) \<and> (\<exists>t. fst r = Some t \<and> (state_cb cb \<longrightarrow> t \<in> timers (snd r) a - G a - F)))
    (trip_set_timeout_priv H ms data cb w)"
proof -
  have s: "sound F G H w" using assms(1) by (rule live_sound)
  then have fine: "runs_fine H (w_router w)" by (simp add: sound_def)
  obtain n p i where t: "trip_set_timeout_priv H ms data cb w = Some (Some (w_brk w),
      w\<lparr>w_brk := Suc (w_brk w), w_wheel := wheel_push (w_brk w) (timer_at H i ms data cb (tw_head (w_wheel w))) (w_wheel w),
        w_tick := n, w_router := (w_router w)\<lparr>r_poll := Some p\<rparr>\<rparr>)"
    by (rule set_timeout_wheel [OF fine])
  have fine': "runs_fine H ((w_router w)\<lparr>r_poll := Some p\<rparr>)" using fine by (simp add: runs_fine_def)
  have there: "\<exists>b. data = Some b \<and> h_conn w b \<noteq> None" if "conn_cb cb"
    using assms(2) [OF that] assms(1) by (auto simp: live_def)
  have "w_brk w \<notin> F" "G a \<subseteq> F" using s by (auto simp: sound_def below_def)
  then have "w_brk w \<notin> G a" "w_brk w \<notin> F" by blast+
  moreover have "state_cb cb \<Longrightarrow> data = Some a" using assms(2) by (simp add: conn_cb_def)
  ultimately show ?thesis
    using sound_grow [OF s fine' _ _ _ _ _ _ there] assms(1) by (simp add: t live_def timers_def timer_at_def)
qed

lemma sound_cancel:
  assumes "sound F G H w" "tw_heap (w_wheel w) t = Some e" "\<And>b k. h_conn w b = Some k \<Longrightarrow> c_statetimer k \<noteq> Some t"
  shows "sound F G H (w\<lparr>w_wheel := (w_wheel w)\<lparr>tw_heap := (tw_heap (w_wheel w))(t \<mapsto> e\<lparr>te_canceled := True\<rparr>)\<rparr>\<rparr>)"
    (is "sound F G H ?v")
proof -
  obtain ts where ts: "tw_rep (w_wheel w) ts" "set ts \<inter> F = {}" using assms(1) by (auto simp: sound_def)
  have "tw_rep (w_wheel ?v) ts" using timerwheel_cancel_rep [OF ts(1) assms(2)] by simp
  then have "\<exists>ts. tw_rep (w_wheel ?v) ts \<and> set ts \<inter> F = {}" using ts(2) by blast
  moreover have "aware F (w_wheel ?v) (h_conn w)" using assms(1) by (auto simp: sound_def aware_def)
  moreover have "t < w_brk w" using assms(1,2) by (fastforce simp: sound_def not_le [symmetric])
  moreover have "conn_sound (timers ?v b - G b) k" if b: "h_conn w b = Some k" for b k
  proof -
    have "conn_sound (timers w b - G b) k" using assms(1) b by (simp add: sound_def)
    then show ?thesis using assms(3) [OF b] by (auto simp: conn_sound_def timers_def)
  qed
  ultimately show ?thesis using assms(1) by (auto simp: sound_def sends_def)
qed

lemma nq_gives:
  assumes "live F G H a P w"
  shows "gives (live F G H a P) (on_sendq (sendq_nq a) w)"
proof -
  obtain k where k: "h_conn w a = Some k" "P (c_retry k)" using assms by (rule liveE)
  obtain cs where cs: "sends w cs" using assms by (auto simp: live_def sound_def)
  obtain q h where q: "sendq_nq a (r_sendq (w_router w)) (h_conn w) = Some (q, h)" "sq_rep q h (queued a cs)"
    "heap_sim (h_conn w) h"
    by (rule sendq_nq_effect [OF cs [unfolded sends_def] k(1)])
  let ?w = "(rt_upd (\<lambda>r. r\<lparr>r_sendq := q\<rparr>) w)\<lparr>h_conn := h\<rparr>"
  note ids = connmap_same_ids [OF heap_sim_id [OF q(3)]]
  have older: "\<exists>k. h_conn w b = Some k \<and> bare k' = bare k" if "h b = Some k'" for b k'
    using q(3) that unfolding heap_sim_def by (metis map_option_eq_Some)
  have "conn_sound (timers w b - G b) k'" if hb: "h b = Some k'" for b k'
  proof -
    obtain k where k: "h_conn w b = Some k" "bare k' = bare k" using older [OF hb] by blast
    have "conn_sound (timers w b - G b) (bare x) = conn_sound (timers w b - G b) x" for x by (simp add: conn_sound_def same_place_def bare_def)
    moreover have "conn_sound (timers w b - G b) k" using k(1) assms by (auto simp: live_def sound_def)
    ultimately show ?thesis using k(2) by metis
  qed
  moreover have "resolving (r_resolveq (w_router w)) h"
  proof (rule resolving_same [of _ "h_conn w"])
    show "resolving (r_resolveq (w_router w)) (h_conn w)" using assms by (simp add: live_def sound_def)
    fix b y assume hb: "h_conn w b = Some y"
    obtain k' where k': "h b = Some k'" "bare k' = bare y" using heap_simD [OF q(3) hb] by blast
    moreover have "c_resolvekey k' = c_resolvekey y" by (rule bare_field [OF k'(2)]) (simp add: bare_def)
    ultimately show "\<exists>k'. h b = Some k' \<and> c_resolvekey k' = c_resolvekey y" by blast
  qed
  moreover have "h b = None" if "h_conn w b = None" for b using older [of b] that by (cases "h b") auto
  moreover obtain k' where "h a = Some k'" "c_retry k' = c_retry k"
  proof -
    obtain k' where k': "h a = Some k'" "bare k' = bare k" using heap_simD [OF q(3) k(1)] by blast
    moreover have "c_retry k' = c_retry k" by (rule bare_field [OF k'(2)]) (simp add: bare_def)
    ultimately show thesis using that by blast
  qed
  moreover have "aware F (w_wheel w) h"
  proof (rule aware_more [of F _ "h_conn w"])
    show "aware F (w_wheel w) (h_conn w)" using assms by (simp add: live_def sound_def)
    fix b assume "h_conn w b \<noteq> None"
    then obtain y where "h_conn w b = Some y" by blast
    then show "h b \<noteq> None" using heap_simD [OF q(3)] by fastforce
  qed
  moreover have "sends ?w (queued a cs)" using q(2) by (simp add: sends_def)
  ultimately have "live F G H a P ?w"
    using assms ids k(2) by (auto simp: live_def sound_def runs_fine_def)
  then show ?thesis by (simp add: on_sendq_def q(1))
qed

lemma set_send_gives:
  assumes "live F G H a P w"
  shows "gives (live F G H a P) (tripc_set_send H a w)"
  unfolding tripc_set_send_def trip_qconnection_def
  by (intro gives_bind [OF nq_gives [OF assms]] gives_bind [where R = "live F G H a P"] gives_if gives_map givesI
        gives_mono [OF set_timeout_gives] upd_gives [where P = P])
    (auto simp: conn_sound_def same_place_def conn_cb_def state_cb_def)

text \<open>
  Setting the timer of a connection, and cancelling it, take the timers that are being run from
  it: the new timer is none of them.
\<close>

lemma live_sub: "live F G H a P w \<Longrightarrow> G b \<subseteq> F"
  by (simp add: live_def sound_def)

lemma conn_timeout_own:
  assumes "live F G H a P w" "state_cb cb" "X \<subseteq> F"
  shows "gives (live F (G(a := X)) H a P) (tripc_set_timeout H a ms cb w)"
  unfolding tripc_set_timeout_def trip_set_timeout_def split_def
  by (intro gives_bind [OF set_timeout_gives [OF assms(1)]])
    (use assms(2,3) in \<open>auto intro!: upd_own_gives simp: conn_sound_def same_place_def\<close>)

lemma conn_timeout_gives:
  assumes "live F G H a P w" "state_cb cb"
  shows "gives (live F G H a P) (tripc_set_timeout H a ms cb w)"
  using conn_timeout_own [OF assms live_sub [where b = a, OF assms(1)]] by simp

lemma conn_cancel_own:
  assumes "live F G H a P w" "X \<subseteq> F"
  shows "gives (live F (G(a := X)) H a P) (tripc_cancel_timeout a w)"
proof -
  obtain k where k: "h_conn w a = Some k" "P (c_retry k)" "conn_sound (timers w a - G a) k" using assms(1) by (rule liveE)
  show ?thesis
  proof (cases "c_statetimer k")
    case None
    then have "conn_sound (timers w a - X) k" using k(3) by (simp add: conn_sound_def)
    then have "sound F (G(a := X)) H (w\<lparr>h_conn := (h_conn w)(a \<mapsto> k)\<rparr>)"
      by (rule sound_conn_own [OF live_sound [OF assms(1)] k(1) _ _ assms(2)]) (simp add: same_place_def)
    moreover have "w\<lparr>h_conn := (h_conn w)(a \<mapsto> k)\<rparr> = w" using k(1) by (simp add: fun_upd_idem)
    ultimately show ?thesis using k(1,2) None by (simp add: tripc_cancel_timeout_def live_def)
  next
    case (Some t)
    then have t: "t \<in> timers w a" using k(3) by (simp add: conn_sound_def)
    then obtain e where e: "tw_heap (w_wheel w) t = Some e" "te_data e = Some a" by (auto simp: timers_def)
    let ?k = "k\<lparr>c_statetimer := None\<rparr>"
    let ?w = "w\<lparr>h_conn := (h_conn w)(a \<mapsto> ?k)\<rparr>"
    have "conn_sound (timers w a - X) ?k" using k(3) by (simp add: conn_sound_def)
    then have s: "sound F (G(a := X)) H ?w"
      by (rule sound_conn_own [OF live_sound [OF assms(1)] k(1) _ _ assms(2)]) (simp add: same_place_def)
    have none: "c_statetimer y \<noteq> Some t" if "h_conn ?w b = Some y" for b y
    proof
      assume "c_statetimer y = Some t"
      moreover from this that have "b \<noteq> a" by auto
      moreover have "conn_sound (timers ?w b - (G(a := X)) b) y" using s that by (simp add: sound_def)
      ultimately show False using e by (auto simp: conn_sound_def timers_def)
    qed
    let ?x = "(w_wheel w)\<lparr>tw_heap := (tw_heap (w_wheel w))(t \<mapsto> e\<lparr>te_canceled := True\<rparr>)\<rparr>"
    let ?v = "?w\<lparr>w_wheel := (w_wheel ?w)\<lparr>tw_heap := (tw_heap (w_wheel ?w))(t \<mapsto> e\<lparr>te_canceled := True\<rparr>)\<rparr>\<rparr>"
    have "sound F (G(a := X)) H ?v" by (rule sound_cancel [OF s]) (simp add: e, rule none)
    moreover have "?v = w\<lparr>w_wheel := ?x, h_conn := (h_conn w)(a \<mapsto> ?k)\<rparr>" by simp
    ultimately have "sound F (G(a := X)) H (w\<lparr>w_wheel := ?x, h_conn := (h_conn w)(a \<mapsto> ?k)\<rparr>)" by (simp only:)
    then show ?thesis using e(1) k(1,2) Some
      by (simp add: tripc_cancel_timeout_def trip_cancel_timeout_priv_def timerwheel_cancel_def heap_upd_def conn_upd_def live_def)
  qed
qed

lemma conn_cancel_gives:
  assumes "live F G H a P w"
  shows "gives (live F G H a P) (tripc_cancel_timeout a w)"
  using conn_cancel_own [OF assms live_sub [where b = a, OF assms]] by simp

section \<open>The state machine\<close>

lemma mk_keys_gives:
  assumes "live F G H a P w"
  shows "gives (live F G H a P) (tripc_mk_keys H a w)"
proof -
  obtain k where k: "h_conn w a = Some k" using assms by (rule liveE)
  have "live F G H a P (snd (if b then w_ok H v else (True, v)))" if "live F G H a P v" for b v using that by simp
  note ok = this
  have "gives (live F G H a P) (conn_upd a (\<lambda>k. k\<lparr>c_self := (c_self k)\<lparr>self_pk := p, self_sk := s\<rparr>\<rparr>) v)" if "live F G H a P v" for p s v
    by (rule upd_gives [OF that]) (auto simp: conn_sound_def same_place_def)
  then show ?thesis
    unfolding tripc_mk_keys_def k bind.bind_lunit Let_def split_def
    by (intro gives_if givesI assms) (simp_all add: ok assms)
qed

lemma conn_upd_ask_gives:
  assumes "live F G H a P w" "\<And>d k. P (c_retry k) \<Longrightarrow> conn_sound (timers w a - G a) k \<Longrightarrow> conn_sound (timers w a - G a) (f d k) \<and> Q (c_retry (f d k)) \<and>
       same_place k (f d k)"
  shows "gives (live F G H a Q) (let (d, v) = w_deadline H ms w in conn_upd a (f d) v)"
    "gives (live F G H a Q) (let (d, v) = w_now H w in conn_upd a (f d) v)"
  using assms(2) by (auto simp: w_deadline_def w_now_def Let_def intro!: upd_gives [where P = P] assms(1))

lemma generate_ping_gives: "live F G H a P w \<Longrightarrow> gives (live F G H a P) (tripc_generate_ping H a w)"
  unfolding tripc_generate_ping_def Let_def [where s = "ho_bytes _ _ _"]
  by (rule conn_upd_ask_gives(2) [where P = P]) (auto simp: conn_sound_def same_place_def)

lemma set_deadline_gives: "live F G H a P w \<Longrightarrow> gives (live F G H a P) (tripc_set_deadline H a ms w)"
  unfolding tripc_set_deadline_def
  by (rule conn_upd_ask_gives(1) [where P = P]) (auto simp: conn_sound_def same_place_def)

lemma set_growth_gives: "live F G H a P w \<Longrightarrow> within ms \<Longrightarrow> Q 0 \<Longrightarrow> gives (live F G H a Q) (tripc_set_growth a ms w)"
  unfolding tripc_set_growth_def by (rule upd_gives [where P = P]) (auto simp: conn_sound_def same_place_def)

text \<open>The delay of a retry can be computed while the retries can be counted.\<close>

definition countable_tries :: "int \<Rightarrow> bool" where
  "countable_tries n \<longleftrightarrow> n < 2147483647"

lemma half: "0 \<le> x \<Longrightarrow> 0 \<le> x sdiv 2 \<and> x sdiv 2 \<le> (x :: int)"
  by (simp add: signed_divide_int_def sgn_if) presburger

lemma get_growth_gives:
  assumes "live F G H a P w" "\<And>n. P n \<Longrightarrow> countable_tries n"
  shows "gives (\<lambda>r. live F G H a (\<lambda>n. P (n - 1)) (snd r)) (tripc_get_growth a w)"
proof -
  obtain k where k: "h_conn w a = Some k" "P (c_retry k)" "conn_sound (timers w a - G a) k" using assms(1) by (rule liveE)
  have g: "0 \<le> c_growms k" "c_growms k \<le> 2 ^ 29" "0 \<le> c_maxstatems k" "c_maxstatems k \<le> 2 ^ 29" "0 \<le> c_retry k" "c_retry k < 2147483647"
    using k(3) assms(2) [OF k(2)] by (simp_all add: conn_sound_def same_place_def within_def countable_tries_def)
  let ?g = "c_growms k + c_growms k sdiv 2"
  have d: "0 \<le> c_growms k sdiv 2" "c_growms k sdiv 2 \<le> c_growms k" using half [OF g(1)] by simp_all
  let ?k = "k\<lparr>c_growms := if ?g > c_maxstatems k then c_maxstatems k else ?g, c_retry := c_retry k + 1\<rparr>"
  have "get_growth k = Some (c_growms k, ?k)"
    using g d by (simp add: get_growth_def cint_def Let_def)
  moreover have "gives (live F G H a (\<lambda>n. P (n - 1))) (conn_upd a (\<lambda>_. ?k) w)"
  proof -
    have "conn_sound (timers w a - G a) ?k" using k(3) g d by (simp add: conn_sound_def within_def)
    moreover have "same_place k ?k" by (simp add: same_place_def)
    ultimately have "sound F G H (w\<lparr>h_conn := (h_conn w)(a \<mapsto> ?k)\<rparr>)"
      by (rule sound_conn [OF live_sound [OF assms(1)] k(1)])
    with k(1,2) show ?thesis by (simp add: conn_upd_def heap_upd_def live_def cong del: if_weak_cong)
  qed
  ultimately show ?thesis using k(1) by (auto simp: tripc_get_growth_def elim: givesE)
qed

lemma resend_timer_own:
  assumes "live F G H a P w" "\<And>n. P n \<Longrightarrow> countable_tries n" "X \<subseteq> F"
  shows "gives (live F (G(a := X)) H a (\<lambda>_. True)) (resend_timer H a w)"
  unfolding resend_timer_def split_def
  by (rule gives_bind [OF get_growth_gives [OF assms(1,2)]], assumption)
    (rule conn_timeout_own [OF live_any state_cbI(2) assms(3)])

lemma resend_timer_gives:
  assumes "live F G H a P w" "\<And>n. P n \<Longrightarrow> countable_tries n"
  shows "gives (live F G H a (\<lambda>_. True)) (resend_timer H a w)"
  using resend_timer_own [OF assms live_sub [where b = a, OF assms(1)]] by simp

lemma set_state_leave_gives: "live F G H a P w \<Longrightarrow> gives (live F G H a P) (set_state_leave a st w)"
  unfolding set_state_leave_def by (cases st) (simp_all add: conn_cancel_gives)

lemma set_state_enter_gives:
  assumes "live F G H a P w"
  shows "gives (live F G H a (\<lambda>_. True)) (set_state_enter H a st w)"
proof -
  have w: "live F G H a (\<lambda>_. True) w" using assms by (rule live_any)
  obtain k where k: "h_conn w a = Some k" "conn_sound (timers w a - G a) k" using assms by (rule liveE)
  have b: "within (c_statems k)" "within (ping_ms (c_ping k))" "0 \<le> ping_maxms (c_ping k)" "ping_maxms (c_ping k) \<le> 2 ^ 29"
    using k(2) by (simp_all add: conn_sound_def same_place_def within_def)
  have "cint (ping_maxms (c_ping k) * 2) \<noteq> None" "cint (ping_maxms (c_ping k) + ping_maxms (c_ping k) sdiv 2) \<noteq> None"
    using b(3,4) half [OF b(3)] by (simp_all add: cint_def)
  then obtain d t where c: "cint (ping_maxms (c_ping k) * 2) = Some d" "cint (ping_maxms (c_ping k) + ping_maxms (c_ping k) sdiv 2) = Some t"
    by blast
  have none: "n = 0 \<Longrightarrow> countable_tries n" for n by (simp add: countable_tries_def)
  note steps = gives_bind mk_keys_gives generate_ping_gives set_deadline_gives set_growth_gives [where Q = "\<lambda>n. n = 0"]
    set_send_gives resend_timer_gives [where P = "\<lambda>n. n = 0"] conn_timeout_gives
  show ?thesis
    unfolding set_state_enter_def k(1) bind.bind_lunit
    by (cases st; simp only: conn_state.case c bind.bind_lunit gives_simps w)
      (rule steps | erule steps | rule w b none refl state_cbI | assumption)+
qed

lemma set_state_gives: "live F G H a P w \<Longrightarrow> gives (live F G H a (\<lambda>_. True)) (tripc_set_state H a st w)"
  unfolding tripc_set_state_def
  by (intro gives_bind [OF set_state_leave_gives] gives_bind [OF upd_gives] set_state_enter_gives [where P = P]) 
    (auto simp: conn_sound_def same_place_def)

lemma set_error_gives:
  assumes "live F G H a P w"
  shows "gives (live F G H a (\<lambda>_. True)) (tripc_set_error H a e m w)"
proof -
  obtain k where k: "h_conn w a = Some k" using assms by (rule liveE)
  show ?thesis
    unfolding tripc_set_error_def k bind.bind_lunit Let_def split_def
    by (intro gives_if gives_bind [OF upd_gives [where P = P and Q = P]] set_state_gives [where P = P] givesI live_any [OF assms])
      (auto simp: assms conn_sound_def same_place_def)
qed

end
