(* ===== verification/Sound_Packet.thy ===== *)
theory Sound_Packet
  imports Sound
begin

text \<open>
  Receiving packets keeps the memory of a router in order (\<open>_trip_segment\<close> of \<open>src/trip.c\<close>
  and \<open>_tripc_read\<close> of \<open>src/conn.c\<close>), for all packets but the ones that theory \<open>Segments\<close>
  shows to do harm.
\<close>

section \<open>What the decoder stores\<close>

text \<open>The values a specifier stores when it succeeds.\<close>

definition fits :: "crypto \<Rightarrow> char \<Rightarrow> uout list \<Rightarrow> bool" where
  "fits cr ch os \<longleftrightarrow>
     (if ch = CHR ''o'' \<or> ch = CHR ''O'' then os = []
      else if ch = CHR ''n'' then \<exists>b. os = [OBlock b] \<and> length b = noncebytes cr
      else if ch = CHR ''k'' then \<exists>b. os = [OBlock b] \<and> length b = pkbytes cr
      else if ch = CHR ''Q'' then \<exists>q. os = [O64 q]
      else if ch = CHR ''I'' then \<exists>i. os = [O32 i]
      else True)"

lemma length_read_at: "read_at p n xs = Some ys \<Longrightarrow> length ys = n"
  by (auto simp: read_at_def split: if_splits)

lemma need_nextD: "up_need blen n st rest = Some (Next st') \<Longrightarrow>
    \<not> blen < up_len st + n \<and> rest (st\<lparr>up_len := up_len st + n\<rparr>) = Some (Next st')"
  by (auto simp: up_need_def up_fail_def Let_def split: if_splits)

lemma need_next: "up_need blen n st rest = Some (Next st') \<Longrightarrow> \<exists>l. rest (st\<lparr>up_len := l\<rparr>) = Some (Next st')"
  by (blast dest: need_nextD)

lemma give_next: "up_give out n st = Some (Next st') \<Longrightarrow> up_out st' = up_out st @ [out]"
  by (auto simp: up_give_def)

lemma bind_next: "m \<bind> f = Some (Next st') \<Longrightarrow> \<exists>x. m = Some x \<and> f x = Some (Next st')"
  by (simp add: Option.bind_eq_Some_conv)

text \<open>The specifiers that read a block or an integer of a fixed size.\<close>

lemma fixed_next:
  assumes "up_need blen n st (\<lambda>st. do { v \<leftarrow> f st; up_give (g v) m st }) = Some (Next st')"
  shows "\<exists>l v. f (st\<lparr>up_len := l\<rparr>) = Some v \<and> up_out st' = up_out st @ [g v]"
proof -
  obtain l where "f (st\<lparr>up_len := l\<rparr>) \<bind> (\<lambda>v. up_give (g v) m (st\<lparr>up_len := l\<rparr>)) = Some (Next st')"
    using need_next [OF assms] by blast
  then obtain v where v: "f (st\<lparr>up_len := l\<rparr>) = Some v" "up_give (g v) m (st\<lparr>up_len := l\<rparr>) = Some (Next st')"
    by (blast dest: bind_next)
  then show ?thesis using give_next [OF v(2)] by auto
qed

lemma unpack_b_next: "unpack_b blen buf st = Some (Next st') \<Longrightarrow> \<exists>os. up_out st' = up_out st @ os"
  unfolding unpack_b_def Let_def
  by (drule need_next) (auto dest!: bind_next need_next give_next simp: up_fail_def split: if_splits)

lemma unpack_V_next: "unpack_V blen buf st = Some (Next st') \<Longrightarrow> \<exists>os. up_out st' = up_out st @ os"
  unfolding unpack_V_def Let_def
  by (auto dest!: bind_next give_next simp: up_fail_def split: if_splits)

lemma unpack_W_next: "unpack_W blen buf st = Some (Next st') \<Longrightarrow> \<exists>os. up_out st' = up_out st @ os"
  unfolding unpack_W_def Let_def
  by (drule need_next) (auto dest!: bind_next give_next simp: up_fail_def split: if_splits)

lemma unpack_step_fits:
  assumes "unpack_step cr blen buf ch st = Some (Next st')"
  shows "\<exists>os. up_out st' = up_out st @ os \<and> fits cr ch os"
proof -
  have o: "up_out st' = up_out st" if "unpack_o cr blen st = Some (Next st')"
    using need_next [OF that [unfolded unpack_o_def]] by auto
  have n: "\<exists>b. up_out st' = up_out st @ [OBlock b] \<and> length b = noncebytes cr" if "unpack_n cr blen buf st = Some (Next st')"
    using fixed_next [OF that [unfolded unpack_n_def]] length_read_at by fastforce
  have k: "\<exists>b. up_out st' = up_out st @ [OBlock b] \<and> length b = pkbytes cr" if "unpack_k cr blen buf st = Some (Next st')"
    using fixed_next [OF that [unfolded unpack_k_def]] length_read_at by fastforce
  have ints: "\<exists>x. up_out st' = up_out st @ [O64 x]" if "unpack_Q blen buf st = Some (Next st')"
    using fixed_next [OF that [unfolded unpack_Q_def]] by blast
  have inti: "\<exists>x. up_out st' = up_out st @ [O32 x]" if "unpack_I blen buf st = Some (Next st')"
    using fixed_next [OF that [unfolded unpack_I_def]] by blast
  have rest: "\<exists>os. up_out st' = up_out st @ os"
    if "unpack_c blen buf st = Some (Next st') \<or> unpack_h blen buf st = Some (Next st') \<or> unpack_H blen buf st = Some (Next st') \<or>
      unpack_i blen buf st = Some (Next st') \<or> unpack_q blen buf st = Some (Next st')"
    using that unfolding unpack_c_def unpack_h_def unpack_H_def unpack_i_def unpack_q_def
    by (auto dest!: fixed_next)
  show ?thesis
  proof (cases "ch \<in> set ''oOnkQI''")
    case True
    then show ?thesis
      using assms o n k ints inti by (auto simp: unpack_step_def fits_def split: if_splits)
  next
    case False
    then have "fits cr ch os" for os by (auto simp: fits_def)
    moreover have "\<exists>os. up_out st' = up_out st @ os"
      using assms False rest unpack_b_next unpack_V_next unpack_W_next
      by (simp add: unpack_step_def up_fail_def split: if_splits)
    ultimately show ?thesis by blast
  qed
qed

lemma unpack_step_stop:
  "unpack_step cr blen buf ch st = Some (Stop st') \<Longrightarrow> up_len st' = NPOS"
  by (auto simp: unpack_step_def unpack_o_def unpack_n_def unpack_k_def unpack_Q_def unpack_I_def unpack_b_def unpack_c_def
      unpack_h_def unpack_H_def unpack_i_def unpack_q_def unpack_V_def unpack_W_def up_need_def up_give_def up_fail_def Let_def
      Option.bind_eq_Some_conv split: if_splits)

lemma unpack_loop_fits:
  "unpack_loop cr blen buf fmt st = Some st' \<Longrightarrow> up_len st' \<noteq> NPOS \<Longrightarrow>
     \<exists>oss. list_all2 (fits cr) fmt oss \<and> up_out st' = up_out st @ concat oss"
proof (induction fmt arbitrary: st)
  case (Cons ch fmt)
  then obtain st1 where st1: "unpack_step cr blen buf ch st = Some (Next st1)" "unpack_loop cr blen buf fmt st1 = Some st'"
    by (auto split: option.splits flow.splits dest: unpack_step_stop)
  obtain os where os: "up_out st1 = up_out st @ os" "fits cr ch os" using unpack_step_fits [OF st1(1)] by blast
  obtain oss where "list_all2 (fits cr) fmt oss" "up_out st' = up_out st1 @ concat oss"
    using Cons.IH [OF st1(2) Cons.prems(2)] by blast
  then show ?case using os by (intro exI [of _ "os # oss"]) simp
qed simp

lemma unpack_fits:
  assumes "trip_unpack cr blen buf fmt = Some (n, outs)" "n \<noteq> NPOS"
  shows "\<exists>oss. list_all2 (fits cr) fmt oss \<and> outs = concat oss"
  using assms unpack_loop_fits [of cr blen buf fmt "\<lparr>up_len = 0, up_pos = 0, up_out = []\<rparr>"]
  by (auto simp: trip_unpack_def)

text \<open>The fields of the two handshake packets are there and have their sizes.\<close>

lemma unpack_hello:
  assumes "trip_unpack cr blen buf fmt = Some (n, outs)" "n \<noteq> NPOS" "fmt = ''QnkIIII'' \<or> fmt = ''oQnkIIIIO''"
  obtains i nb kb lim where "hello_fields outs = Some (i, nb, kb, lim)" "length nb = noncebytes cr" "length kb = pkbytes cr"
proof -
  obtain oss where "list_all2 (fits cr) fmt oss" "outs = concat oss" using unpack_fits [OF assms(1,2)] by blast
  then have "\<exists>i nb kb a b c d. outs = [O64 i, OBlock nb, OBlock kb, O32 a, O32 b, O32 c, O32 d] \<and>
      length nb = noncebytes cr \<and> length kb = pkbytes cr"
    using assms(3) by (auto simp: list_all2_Cons1 fits_def)
  then show thesis using that by (auto simp: hello_fields_def)
qed

section \<open>Parsing\<close>

lemma dump_gives: "unat len \<le> length buf \<Longrightarrow> trip_dump len buf = Some ()"
  by (simp add: trip_dump_def)

lemma accept_hello_gives:
  assumes "live F G H a P w" "sodium_laws (ho_crypto H)" "length nb = noncebytes (ho_crypto H)" "length kb = pkbytes (ho_crypto H)"
  shows "gives (\<lambda>r. live F G H a P (snd r)) (accept_hello H a (i, nb, kb, lim) w)"
proof -
  have al: "fst (w_ok H v)" for v using ok_always [OF live_sound [OF assms(1)]] .
  have upd: "gives (live F G H a P) (conn_upd a (\<lambda>k. k\<lparr>c_peer := (c_peer k)\<lparr>peer_nonce := Some nb, peer_pk := Some kb\<rparr>\<rparr>) v)"
    if "live F G H a P v" for v
    by (rule upd_gives [OF that]) (use assms(2,3) in \<open>auto simp: conn_sound_def same_place_def sodium_laws_def\<close>)
  obtain zb where "are_zeros (pkbytes (ho_crypto H)) kb = Some zb" using assms(4) by (simp add: are_zeros_eq)
  then have zk: "(if z then Some True else are_zeros (pkbytes (ho_crypto H)) kb) = Some (z \<or> zb)" for z by simp
  obtain zn where zn: "are_zeros (noncebytes (ho_crypto H)) nb = Some zn" using assms(3) by (simp add: are_zeros_eq)
  show ?thesis
    unfolding accept_hello_def Let_def split_def fst_conv snd_conv zn zk
    by (intro gives_bind [OF upd_gives [OF assms(1), where Q = P]])
      (auto simp: conn_sound_def same_place_def al intro!: gives_bind [OF upd])
qed

lemma parse_open_gives:
  assumes "live F G H a P w" "sodium_laws (ho_crypto H)" "unat len \<le> length buf" "unat len < 2 ^ 63"
  shows "gives (\<lambda>r. live F G H a P (snd r)) (tripc_parse_open H a len buf w)"
    "gives (\<lambda>r. live F G H a P (snd r)) (tripc_parse_chal H a len buf w)"
proof -
  have "len \<noteq> NPOS" using assms(4) by (auto simp: NPOS_def unsigned_minus_1_eq_mask mask_eq_exp_minus_1)
  have 1: "gives (\<lambda>r. live F G H a P (snd r)) (do { f \<leftarrow> hello_fields out; accept_hello H a f w })"
    if u: "trip_unpack (ho_crypto H) len buf fmt = Some (len, out)" and f: "fmt = ''QnkIIII'' \<or> fmt = ''oQnkIIIIO''" for fmt out
  proof -
    obtain i nb kb lim where "hello_fields out = Some (i, nb, kb, lim)" "length nb = noncebytes (ho_crypto H)" "length kb = pkbytes (ho_crypto H)"
      by (rule unpack_hello [OF u \<open>len \<noteq> NPOS\<close> f])
    then show ?thesis using accept_hello_gives [OF assms(1,2)] by simp
  qed
  note ex = trip_unpack_safe_ex [OF assms(2-4)]
  obtain n out where u: "trip_unpack (ho_crypto H) len buf ''QnkIIII'' = Some (n, out)" using ex by blast
  with 1 [of "''QnkIIII''" out] show "gives (\<lambda>r. live F G H a P (snd r)) (tripc_parse_open H a len buf w)"
    unfolding tripc_parse_open_def using assms(1) dump_gives [OF assms(3)] by simp
  obtain n out where u: "trip_unpack (ho_crypto H) len buf ''oQnkIIIIO'' = Some (n, out)" using ex by blast
  with 1 [of "''oQnkIIIIO''" out] show "gives (\<lambda>r. live F G H a P (snd r)) (tripc_parse_chal H a len buf w)"
    unfolding tripc_parse_chal_def using assms(1) dump_gives [OF assms(3)] by simp
qed

lemma prep_nonce_gives:
  "9 \<le> length nonce \<Longrightarrow> \<exists>n. tripc_prep_nonce (Some out) nonce c s = Some n \<and> 9 \<le> length n"
  by (simp add: tripc_prep_nonce_def)

text \<open>A ping the connection accepts must find a nonce of the peer.\<close>

definition ping_due :: "connection \<Rightarrow> bool" where
  "ping_due k \<longleftrightarrow> c_hassend k \<and> (ping_isactive (c_ping k) \<or> c_incoming k)"

lemma parse_ping_gives:
  assumes "live F G H a P w" "sodium_laws (ho_crypto H)" "unat len \<le> length buf" "unat len < 2 ^ 63"
    "\<And>n. length (ho_bytes H n (noncebytes (ho_crypto H))) = noncebytes (ho_crypto H)"
    "h_conn w a = Some k" "ping_due k \<Longrightarrow> peer_nonce (c_peer k) \<noteq> None"
  shows "gives (\<lambda>r. live F G H a P (snd r)) (tripc_parse_ping H a len buf px w)"
proof (cases "ping_due k")
  case True
  obtain p out where u: "trip_unpack (ho_crypto H) len buf ''enQIIIE'' = Some (p, out)" using trip_unpack_safe_ex [OF assms(2-4)] by blast
  obtain nb where nb: "peer_nonce (c_peer k) = Some nb" using assms(7) True by blast
  have "9 \<le> length (ho_bytes H (w_tick v) (noncebytes (ho_crypto H)))" for v :: world
    using assms(2,5) by (simp add: sodium_laws_def)
  note len = this
  define n where "n v = the (tripc_prep_nonce (Some nb) (ho_bytes H (w_tick v) (noncebytes (ho_crypto H))) (ucast (px_seq px))
    (ucast (px_control px)))" for v :: world
  have n: "tripc_prep_nonce (peer_nonce (c_peer k)) (ho_bytes H (w_tick v) (noncebytes (ho_crypto H))) (ucast (px_seq px))
      (ucast (px_control px)) = Some (n v)" "9 \<le> length (n v)" for v
    using prep_nonce_gives [OF len [of v], of nb "ucast (px_seq px)" "ucast (px_control px)"] nb by (auto simp: n_def)
  have upd: "gives (live F G H a P) (conn_upd a (\<lambda>k. k\<lparr>c_peer := (c_peer k)\<lparr>peer_nonce := Some (n u)\<rparr>\<rparr>) (v\<lparr>w_tick := t\<rparr>))"
    if "live F G H a P v" for v u t
    by (rule upd_gives [where P = P]) (use that n(2) in \<open>auto simp: conn_sound_def same_place_def\<close>)
  let ?v = "w\<lparr>h_conn := (h_conn w)(a \<mapsto> k\<lparr>c_hassend := False\<rparr>)\<rparr>"
  have "gives (live F G H a P) (conn_upd a (\<lambda>k. k\<lparr>c_hassend := False\<rparr>) w)"
    by (rule upd_gives [OF assms(1)]) (auto simp: conn_sound_def same_place_def)
  then have "live F G H a P ?v" using assms(6) by (simp add: conn_upd_def heap_upd_def)
  from upd [OF this, of ?v "w_tick w + 1"] have "live F G H a P (w\<lparr>w_tick := Suc (w_tick w), h_conn := (h_conn w)
      (a \<mapsto> k\<lparr>c_hassend := False, c_peer := (c_peer k)\<lparr>peer_nonce := Some (n ?v)\<rparr>\<rparr>)\<rparr>)"
    by (simp add: conn_upd_def heap_upd_def)
  then show ?thesis
    using True assms(6) n(1) u
    by (simp add: tripc_parse_ping_def Let_def ping_due_def conn_upd_def heap_upd_def)
next
  case False
  then show ?thesis using assms(1,6) by (auto simp: tripc_parse_ping_def ping_due_def)
qed

section \<open>Reading\<close>

lemma and_then_gives:
  "gives (\<lambda>r. live F G H a P (snd r)) m \<Longrightarrow> (\<And>v. live F G H a P v \<Longrightarrow> gives (live F G H a Q) (f v)) \<Longrightarrow> (\<And>n. P n \<Longrightarrow> Q n) \<Longrightarrow>
     gives (\<lambda>r. live F G H a Q (snd r)) (and_then m f)"
  unfolding and_then_def split_def
  by (erule gives_bind) (auto intro: live_mono intro!: gives_bind)

lemma read_gives:
  assumes w: "live F G H a P w" and cr: "sodium_laws (ho_crypto H)" and buf: "unat len \<le> length buf" "unat len < 2 ^ 63"
    and rnd: "\<And>n. length (ho_bytes H n (noncebytes (ho_crypto H))) = noncebytes (ho_crypto H)"
    and ping: "\<And>k. h_conn w a = Some k \<Longrightarrow> px_control px = CONTROL_PING \<Longrightarrow> ping_due k \<Longrightarrow> peer_nonce (c_peer k) \<noteq> None"
  shows "gives (\<lambda>r. live F G H a (\<lambda>_. True) (snd r)) (tripc_read H a px len buf w)"
proof -
  have w': "live F G H a (\<lambda>_. True) w" using w by (rule live_any)
  obtain k where k: "h_conn w a = Some k" using w by (rule liveE)
  have pp: "gives (\<lambda>r. live F G H a (\<lambda>_. True) (snd r)) (tripc_parse_ping H a len buf px w)" if "px_control px = CONTROL_PING"
    by (rule parse_ping_gives [OF w' cr buf rnd k]) (use ping k that in blast)
  note steps = and_then_gives [where P = "\<lambda>_. True"] parse_open_gives [OF w' cr buf] pp
    set_state_gives [where P = "\<lambda>_. True"] set_send_gives set_error_gives [where P = "\<lambda>_. True"] w'
  have 1: "gives (\<lambda>r. live F G H a (\<lambda>_. True) (snd r)) (read_in_chal H a px len buf w)"
    "gives (\<lambda>r. live F G H a (\<lambda>_. True) (snd r)) (read_in_ready H a px len buf w)"
    "gives (\<lambda>r. live F G H a (\<lambda>_. True) (snd r)) (read_in_close H a px len buf w)"
    unfolding read_in_chal_def read_in_ready_def read_in_close_def
    by (intro gives_if; (rule steps | simp add: w')+)+
  have cont: "gives (\<lambda>r. live F G H a (\<lambda>_. True) (snd r)) (if e \<noteq> EOK then Some (e, v)
      else do { let w = tripc_flag_seq a (px_seq px) v; k \<leftarrow> h_conn w a; Some (c_error k, w) })"
    if "live F G H a (\<lambda>_. True) v" for e v
  proof -
    have v: "live F G H a (\<lambda>_. True) v" by (rule that)
    then obtain k where "h_conn v a = Some k" by (rule liveE)
    then show ?thesis using v by (simp add: tripc_flag_seq_def)
  qed
  have "gives (\<lambda>r. live F G H a (\<lambda>_. True) (snd r)) (case c_state k of
                CS_START \<Rightarrow> Some (EOK, w)
              | CS_OPEN \<Rightarrow> and_then (tripc_parse_chal H a len buf w) (tripc_set_state H a CS_PING)
              | CS_CHAL \<Rightarrow> read_in_chal H a px len buf w
              | CS_PING \<Rightarrow> read_in_ready H a px len buf w
              | CS_READY \<Rightarrow> read_in_ready H a px len buf w
              | CS_READY_PING \<Rightarrow> read_in_ready H a px len buf w
              | CS_CLOSE \<Rightarrow> read_in_close H a px len buf w
              | CS_END \<Rightarrow> Some (EINVAL, w)
              | CS_ERROR \<Rightarrow> Some (EOK, w)
              | CS_RESOLVE \<Rightarrow>
                  do { w \<leftarrow> tripc_set_error H a EINVAL (Some ''Invalid state.'') w; Some (EOK, w) })"
    by (cases "c_state k"; simp only: conn_state.case)
      (rule 1 steps givesI gives_bind | simp add: w')+
  then show ?thesis
    unfolding tripc_read_def k bind.bind_lunit tripc_check_seq_def
    by (auto intro!: gives_bind cont)
qed

section \<open>A new connection\<close>

lemma sound_brk: "sound F G H w \<Longrightarrow> w_brk w \<le> b \<Longrightarrow> sound F G H (w\<lparr>w_brk := b\<rparr>)"
  by (auto simp: sound_def sends_def)

text \<open>A connection at an address the allocator has just given out.\<close>

lemma sound_new:
  assumes "sound F G H w" "conn_sound (timers w (w_brk w) - G (w_brk w)) k" "\<not> c_insend k"
  shows "live F G H (w_brk w) (\<lambda>_. True) (w\<lparr>w_brk := Suc (w_brk w), h_conn := (h_conn w)(w_brk w \<mapsto> k)\<rparr>)"
proof -
  have free: "h_conn w (w_brk w) = None" using assms(1) by (simp add: sound_def)
  obtain cs where cs: "sends w cs" using assms(1) by (auto simp: sound_def)
  then have "sends (w\<lparr>w_brk := Suc (w_brk w), h_conn := (h_conn w)(w_brk w \<mapsto> k)\<rparr>) cs"
    using sq_rep_new [of "r_sendq (w_router w)" "h_conn w" cs "w_brk w" k] free assms(3) by (simp add: sends_def)
  moreover have "connmap_ok ((h_conn w)(w_brk w \<mapsto> k)) (r_conn (w_router w))"
    using assms(1) by (intro connmap_more_conns free) (simp add: sound_def)
  moreover have "resolving (r_resolveq (w_router w)) ((h_conn w)(w_brk w \<mapsto> k))"
    by (rule resolving_same [of _ "h_conn w"]) (use assms(1) free in \<open>auto simp: sound_def\<close>)
  moreover have "aware F (w_wheel w) ((h_conn w)(w_brk w \<mapsto> k))"
    by (rule aware_more [of F _ "h_conn w"]) (use assms(1) in \<open>auto simp: sound_def\<close>)
  ultimately show ?thesis using assms by (auto simp: sound_def live_def)
qed

text \<open>Entering a connection that is not in the map yet.\<close>

lemma enter_gives:
  assumes lv: "live F G H a (\<lambda>_. True) u" and k: "h_conn u a = Some k"
    and out: "\<And>x. \<not> cm_holds (h_conn u) (r_conn (w_router u)) x a" and al: "\<And>n. ho_alloc H' n"
  shows "gives (\<lambda>r. (if fst r = EOK then live F G H a (\<lambda>_. True) (snd r) else \<exists>t. snd r = u\<lparr>w_tick := t\<rparr>) \<and>
      (cm_size (r_conn (w_router u)) \<noteq> unat (connmap_max (r_conn (w_router u))) \<longrightarrow> fst r = EOK))
    (w_connmap_add H' a u)"
proof -
  let ?m = "r_conn (w_router u)"
  have ok: "connmap_ok (h_conn u) ?m" using lv by (simp add: live_def sound_def)
  from connmap_add_ok [OF ok k out, of "ho_alloc H' (w_tick u)" "ho_rand H' (Suc (w_tick u))" "ho_rand H' (Suc (Suc (w_tick u)))"]
  obtain e m' h' where r: "connmap_add (ho_alloc H' (w_tick u)) (ho_rand H' (Suc (w_tick u))) (ho_rand H' (Suc (Suc (w_tick u)))) a ?m (h_conn u) = Some (e, m', h')"
    "connmap_ok h' m'" "if e = EOK then \<exists>x. h' = (h_conn u)(a \<mapsto> k\<lparr>c_self := (c_self k)\<lparr>self_id := x\<rparr>\<rparr>) else m' = ?m \<and> h' = h_conn u"
    "cm_size ?m \<noteq> unat (connmap_max ?m) \<Longrightarrow> e = EOK"
    using al by (elim exE conjE) (rule that, assumption, assumption, cases "e = EOK", auto)
  let ?v = "u\<lparr>w_tick := Suc (Suc (Suc (w_tick u))), w_router := (w_router u)\<lparr>r_conn := m'\<rparr>, h_conn := h'\<rparr>"
  have run: "w_connmap_add H' a u = Some (e, ?v)"
    using r(1) by (simp add: w_connmap_add_def w_ok_def w_rand_def Let_def)
  show ?thesis
  proof (cases "e = EOK")
    case True
    then obtain x where x: "h' = (h_conn u)(a \<mapsto> k\<lparr>c_self := (c_self k)\<lparr>self_id := x\<rparr>\<rparr>)" using r(3) by auto
    obtain cs where "sends u cs" using lv by (auto simp: live_def sound_def)
    then have "sends (u\<lparr>h_conn := h'\<rparr>) cs"
      using sq_rep_same [of "r_sendq (w_router u)" "h_conn u" cs a k] k x by (simp add: sends_def)
    moreover have "conn_sound (timers u b - G b) y" if hb: "h' b = Some y" for b y
    proof (cases "b = a")
      case True
      then have "y = k\<lparr>c_self := (c_self k)\<lparr>self_id := x\<rparr>\<rparr>" using hb x by simp
      moreover have "conn_sound (timers u b - G b) k" using lv k True by (simp add: live_def sound_def)
      ultimately show ?thesis by (simp add: conn_sound_def)
    next
      case False
      then show ?thesis using hb x lv by (simp add: live_def sound_def)
    qed
    moreover have "h' b = None \<and> tw_heap (w_wheel u) b = None" if "w_brk u \<le> b" for b
      using that x lv k by (auto simp: live_def sound_def)
    moreover have "\<exists>y. h' a = Some y" using x by simp
    moreover have "resolving (r_resolveq (w_router u)) h'"
      by (rule resolving_same [of _ "h_conn u"]) (use lv x k in \<open>auto simp: live_def sound_def\<close>)
    moreover have "aware F (w_wheel u) h'"
      by (rule aware_more [of F _ "h_conn u"]) (use lv x in \<open>auto simp: live_def sound_def\<close>)
    ultimately have "live F G H a (\<lambda>_. True) ?v"
      using lv r(2) by (auto simp: live_def sound_def runs_fine_def sends_def)
    then show ?thesis unfolding run True by simp
  next
    case False
    then have "m' = ?m" "h' = h_conn u" using r(3) by simp_all
    then have eq: "?v = u\<lparr>w_tick := Suc (Suc (Suc (w_tick u)))\<rparr>" by simp
    show ?thesis unfolding run eq using False r(4) by auto
  qed
qed

lemma connmap_add_gives:
  assumes u: "u = w\<lparr>w_brk := Suc (w_brk w), h_conn := (h_conn w)(w_brk w \<mapsto> k)\<rparr>"
    and w: "sound F G H w" "conn_sound (timers w (w_brk w) - G (w_brk w)) k" "\<not> c_insend k"
  shows "gives (\<lambda>r. if fst r = EOK then live F G H (w_brk w) (\<lambda>_. True) (snd r) else \<exists>t. snd r = u\<lparr>w_tick := t\<rparr>)
    (w_connmap_add H (w_brk w) u)"
proof (rule gives_mono [OF enter_gives])
  show "live F G H (w_brk w) (\<lambda>_. True) u" unfolding u by (rule sound_new [OF w])
  show "h_conn u (w_brk w) = Some k" by (simp add: u)
  have "h_conn w (w_brk w) = None" using w(1) by (simp add: sound_def)
  then show "\<not> cm_holds (h_conn u) (r_conn (w_router u)) x (w_brk w)" for x
    using connmap_more_conns(2) [of "h_conn w" "r_conn (w_router w)" "w_brk w" k x "w_brk w"] w(1)
    by (auto simp: u sound_def cm_holds_def conn_id_def)
  show "ho_alloc H n" for n using w(1) by (simp add: sound_def runs_fine_def)
qed blast

text \<open>What a screen may do: let a peer in or not, and leave the world in order.\<close>

definition orderly_screen :: "addr set \<Rightarrow> (addr \<Rightarrow> addr set) \<Rightarrow> host \<Rightarrow> bool" where
  "orderly_screen F G H \<longleftrightarrow> (\<forall>sc w. sound F G H w \<longrightarrow>
     gives (\<lambda>r. sound F G H (snd r) \<and> sc_route (fst r) = sc_route sc \<and> sc_routelen (fst r) = sc_routelen sc) (ho_screen H sc w))"

lemma unsign_gives: "sodium_laws cr \<Longrightarrow> unat len \<le> length buf \<Longrightarrow> \<exists>e. trip_unsign cr len buf pk = Some e"
  using trip_unsign_correct by blast

lemma set_screen_gives:
  assumes "live F G H a P w" "sc_route sc = Some b" "unat (sc_routelen sc) \<le> length b"
  shows "gives (live F G H a P) (tripc_set_screen H' a sc w)"
proof -
  have "\<exists>rt. tripm_bdup ok (unat (sc_routelen sc)) (sc_route sc) = Some rt" for ok
    using assms(2,3) by (simp add: tripm_bdup_def)
  then obtain rt where rt: "\<And>ok. tripm_bdup ok (unat (sc_routelen sc)) (sc_route sc) = Some (rt ok)" by metis
  show ?thesis
    unfolding tripc_set_screen_def Let_def split_def rt bind.bind_lunit
    by (rule upd_gives [where P = P]) (use assms(1) in \<open>auto simp: conn_sound_def same_place_def\<close>)
qed

lemma start_gives:
  assumes "live F G H a P w"
  shows "gives (live F G H a (\<lambda>_. True)) (tripc_start H a w)"
proof -
  obtain k where k: "h_conn w a = Some k" using assms by (rule liveE)
  show ?thesis
    unfolding tripc_start_def k bind.bind_lunit
    by (intro gives_if set_error_gives [OF assms] set_state_gives [OF assms])
qed

lemma init_sound: "conn_sound T ((tripc_init_rec H r b)\<lparr>c_src := src\<rparr>)" "\<not> c_insend ((tripc_init_rec H r b)\<lparr>c_src := src\<rparr>)"
  by (simp_all add: tripc_init_rec_def connection_zero_def conn_sound_def within_def connpeer_zero_def ping_zero_def)

lemma new_conn_gives:
  assumes w: "sound F G H w" and H: "orderly_screen F G H" "sodium_laws (ho_crypto H)"
    and len: "unat len \<le> length buf" and sc: "sc_route sc = Some b" "unat (sc_routelen sc) \<le> length b"
  shows "gives (\<lambda>r. sound F G H (snd r) \<and> (\<forall>a. fst r = Some a \<longrightarrow> live F G H a (\<lambda>_. True) (snd r))) (segment_new_conn H src len buf sc w)"
proof -
  let ?Q = "\<lambda>r. sound F G H (snd r) \<and> (\<forall>a. fst r = Some a \<longrightarrow> live F G H a (\<lambda>_. True) (snd r))"
  have screened: "gives (\<lambda>r. sound F G H (snd r) \<and> sc_route (fst r) = Some b \<and> sc_routelen (fst r) = sc_routelen sc) (ho_screen H sc w)"
    using H(1) [unfolded orderly_screen_def, rule_format, OF w, of sc] sc(1) by simp
  have made: "gives ?Q (let (c, w) = trip_new_connection H v in
      case c of None \<Rightarrow> Some (None, trip_router_reject src 6 w)
      | Some a \<Rightarrow> do { w \<leftarrow> conn_upd a (\<lambda>k. k\<lparr>c_src := src\<rparr>) (tripc_init H a True w);
                     (e, w) \<leftarrow> w_connmap_add H a w;
                     if e \<noteq> EOK
                     then do { w \<leftarrow> trip_free_connection a w; Some (None, trip_router_reject src 50 w) }
                     else do { w \<leftarrow> tripc_set_screen H a s w; w \<leftarrow> tripc_start H a w; Some (Some a, w) } })"
    if v: "sound F G H v" and s: "sc_route s = Some b" "unat (sc_routelen s) \<le> length b" for v s
  proof -
    let ?a = "w_brk v" and ?v = "v\<lparr>w_tick := Suc (w_tick v)\<rparr>"
    let ?k = "(tripc_init_rec H (w_router v) True)\<lparr>c_src := src\<rparr>"
    let ?u = "?v\<lparr>w_brk := Suc ?a, h_conn := (h_conn v)(?a \<mapsto> ?k)\<rparr>"
    have new: "trip_new_connection H v = (Some ?a, ?v\<lparr>w_brk := Suc ?a\<rparr>)"
      using v by (simp add: trip_new_connection_def w_new_def sound_def runs_fine_def)
    have init: "conn_upd ?a (\<lambda>k. k\<lparr>c_src := src\<rparr>) (tripc_init H ?a True (?v\<lparr>w_brk := Suc ?a\<rparr>)) = Some ?u"
      by (simp add: conn_upd_def heap_upd_def tripc_init_def)
    have sv: "sound F G H ?v" using v by simp
    have free: "h_conn v ?a = None" using v by (simp add: sound_def)
    have "gives (\<lambda>r. if fst r = EOK then live F G H ?a (\<lambda>_. True) (snd r) else \<exists>t. snd r = ?u\<lparr>w_tick := t\<rparr>) (w_connmap_add H ?a ?u)"
      using connmap_add_gives [of ?u ?v ?k F G H] sv init_sound by (simp cong del: if_weak_cong)
    then have "gives ?Q (w_connmap_add H ?a ?u \<bind> (\<lambda>r. if fst r \<noteq> EOK
                     then do { w \<leftarrow> trip_free_connection ?a (snd r); Some (None, trip_router_reject src 50 w) }
                     else do { w \<leftarrow> tripc_set_screen H ?a s (snd r); w \<leftarrow> tripc_start H ?a w; Some (Some ?a, w) }))"
    proof (rule gives_bind)
      fix r assume 1: "if fst r = EOK then live F G H ?a (\<lambda>_. True) (snd r) else \<exists>t. snd r = ?u\<lparr>w_tick := t\<rparr>"
      show "gives ?Q (if fst r \<noteq> EOK
                     then do { w \<leftarrow> trip_free_connection ?a (snd r); Some (None, trip_router_reject src 50 w) }
                     else do { w \<leftarrow> tripc_set_screen H ?a s (snd r); w \<leftarrow> tripc_start H ?a w; Some (Some ?a, w) })"
      proof (cases "fst r = EOK")
        case True
        then have lv: "live F G H ?a (\<lambda>_. True) (snd r)" using 1 by simp
        have "gives ?Q (do { w \<leftarrow> tripc_set_screen H ?a s (snd r); w \<leftarrow> tripc_start H ?a w; Some (Some ?a, w) })"
          by (intro gives_bind [OF set_screen_gives [OF lv s]] gives_bind [OF start_gives] givesI)
            (assumption, simp add: live_sound)
        then show ?thesis using True by simp
      next
        case False
        then obtain t where t: "snd r = ?u\<lparr>w_tick := t\<rparr>" using 1 by auto
        have "(h_conn v)(?a := None) = h_conn v" using free by auto
        moreover have "sound F G H (v\<lparr>w_brk := Suc ?a\<rparr>)" by (rule sound_brk [OF v]) simp
        ultimately show ?thesis
          using False t free by (simp add: trip_free_connection_def heap_free_def trip_router_reject_def fun_upd_idem)
      qed
    qed
    then show ?thesis by (simp add: new init split_def)
  qed
  have scr: "r_screen (w_router w)" using w by (simp add: sound_def equipped_def)
  have sig: "\<exists>e. (if c then trip_unsign (ho_crypto H) len buf pk else Some EOK) = Some e" for c pk
    using unsign_gives [OF H(2) len] by simp
  show ?thesis
    unfolding segment_new_conn_def if_not_P [OF not_not [THEN iffD2, OF scr]]
  proof (rule gives_bind [OF screened])
    fix r :: "screen \<times> world" assume r: "sound F G H (snd r) \<and> sc_route (fst r) = Some b \<and> sc_routelen (fst r) = sc_routelen sc"
    obtain s v where sv: "r = (s, v)" by (cases r)
    obtain e where e: "(if sc_signpk s \<noteq> None \<or> \<not> has_flag FLAG_ALLOW_PLAIN_ISIG v
      then trip_unsign (ho_crypto H) len buf (sc_signpk s) else Some EOK) = Some e" using sig by blast
    have "sound F G H v" "sc_route s = Some b" "unat (sc_routelen s) \<le> length b" using r sc(2) by (simp_all add: sv)
    from made [OF this] r show "gives ?Q (case r of (screen, w) \<Rightarrow> if \<not> sc_allow screen then Some (None, w)
        else do {
          e \<leftarrow> (if sc_signpk screen \<noteq> None \<or> \<not> has_flag FLAG_ALLOW_PLAIN_ISIG w
                 then trip_unsign (ho_crypto H) len buf (sc_signpk screen) else Some EOK);
          if e \<noteq> EOK then Some (None, trip_router_reject src 203 w)
          else do {
            let (c, w) = trip_new_connection H w;
            case c of
              None \<Rightarrow> Some (None, trip_router_reject src 6 w)
            | Some a \<Rightarrow>
                do { w \<leftarrow> conn_upd a (\<lambda>k. k\<lparr>c_src := src\<rparr>) (tripc_init H a True w);
                     (e, w) \<leftarrow> w_connmap_add H a w;
                     if e \<noteq> EOK
                     then do { w \<leftarrow> trip_free_connection a w; Some (None, trip_router_reject src 50 w) }
                     else do { w \<leftarrow> tripc_set_screen H a screen w;
                               w \<leftarrow> tripc_start H a w;
                               Some (Some a, w) } } } })"
      unfolding sv prod.case e bind.bind_lunit
      by (intro gives_if) (simp_all add: sv trip_router_reject_def)
  qed
qed

section \<open>A packet that opens a connection\<close>

text \<open>The version and the route of such a packet, which lies inside the octets decoded.\<close>

lemma unpack_route:
  assumes "trip_unpack cr blen buf ''Hb'' = Some (e, out)" "e \<noteq> NPOS" "unat blen < 2 ^ 63"
  obtains v n p where "out = [O16 v, O32 n, OPtr p]" "p + unat n \<le> unat e" "unat e \<le> unat blen"
proof -
  obtain h where h: "unpacku16 buf = Some h" "\<not> blen < 2"
    using assms(1,2)
    by (cases "unpacku16 buf") (auto simp: trip_unpack_def unpack_step_def unpack_H_def up_need_def up_fail_def Let_def split: if_splits)
  let ?st = "\<lparr>up_len = 2, up_pos = 2, up_out = [O16 h]\<rparr> :: unpackst"
  have b: "map_option (\<lambda>st. (up_len st, up_out st)) (unpack_loop cr blen buf ''b'' ?st) = Some (e, out)"
    using assms(1) h by (simp add: trip_unpack_def unpack_step_def unpack_H_def up_need_def up_give_def numeral_2_eq_2)
  then obtain st where st: "unpack_step cr blen buf (CHR ''b'') ?st = Some (Next st)" "up_len st = e" "up_out st = out"
    using assms(2) unpack_step_stop [of cr blen buf "CHR ''b''" ?st] by (auto split: option.splits flow.splits)
  then have 1: "unpack_b blen buf ?st = Some (Next st)" by (simp add: unpack_step_def)
  obtain hd where hd: "read_at 2 1 buf = Some hd" using need_nextD [OF 1 [unfolded unpack_b_def]] by (auto dest: bind_next)
  have 2: "\<not> (TRIPPACK_MAX_VAR < unat (hd ! 0) \<or> blen < 3 + of_nat (unat (hd ! 0)))"
    using need_nextD [OF 1 [unfolded unpack_b_def]] hd by (auto simp: Let_def up_fail_def)
  obtain n where n: "read_uvar 3 (unat (hd ! 0)) buf = Some (n :: u32)" "up_need blen (ucast n) \<lparr>up_len = 3 + of_nat (unat (hd ! 0)),
      up_pos = 3 + unat (hd ! 0), up_out = [O16 h, O32 n]\<rparr> (\<lambda>st. up_give (OPtr (up_pos st)) 0 st) = Some (Next st)"
    using need_nextD [OF 1 [unfolded unpack_b_def]] hd 2 by (auto simp: Let_def dest!: bind_next)
  have u: "e = 3 + of_nat (unat (hd ! 0)) + ucast n" "\<not> blen < e" "out = [O16 h, O32 n, OPtr (3 + unat (hd ! 0))]"
    using need_nextD [OF n(2)] st(2,3) by (auto simp: up_give_def)
  let ?l = "unat (hd ! 0)"
  have "unat n < 2 ^ 32" "?l \<le> 255" using unat_less_exp [of n] unat_less_exp [of "hd ! 0"] by simp_all
  then have "unat (of_nat (3 + ?l + unat n) :: u64) = 3 + ?l + unat n" by (intro unat_of_nat_small) simp
  moreover have "e = of_nat (3 + ?l + unat n)" unfolding u(1) by simp
  ultimately have "unat e = 3 + ?l + unat n" by metis
  then show thesis using that [OF u(3)] u(2) by (simp add: word_less_nat_alt)
qed

lemma unpack_within:
  assumes "trip_unpack cr blen buf fmt = Some (n, outs)" "n \<noteq> NPOS" "sodium_laws cr" "unat blen \<le> length buf" "unat blen < 2 ^ 63"
  shows "unat n \<le> unat blen"
proof -
  have "up_inv blen \<lparr>up_len = 0, up_pos = 0, up_out = []\<rparr>" by (simp add: up_inv_def)
  from unpack_loop_safe [OF this assms(5,4,3), of fmt] assms(1,2) show ?thesis
    by (auto simp: trip_unpack_def)
qed

text \<open>Lengths as the code computes them, when nothing wraps around.\<close>

lemma unat_minus: "unat b \<le> unat a \<Longrightarrow> unat (a - b) = unat a - unat (b :: u64)"
  by (rule unat_sub_le) (simp add: word_le_nat_alt)

lemma unat_plus: "unat a + unat b < 2 ^ 64 \<Longrightarrow> unat (a + b) = unat a + unat (b :: u64)"
  by (subst unat_add_lem [THEN iffD1]) simp_all

lemma sign_len: "sodium_laws cr \<Longrightarrow> unat (of_nat (signbytes cr) :: u64) = signbytes cr"
  by (rule unat_of_nat_small) (simp add: sodium_laws_def)

text \<open>The random numbers have the size asked for.\<close>

definition gives_bytes :: "host \<Rightarrow> bool" where
  "gives_bytes H \<longleftrightarrow> (\<forall>n k. length (ho_bytes H n k) = k)"

lemma read_open_gives:
  assumes w: "live F G H a P w" and H: "sodium_laws (ho_crypto H)" "gives_bytes H"
    and buf: "unat len \<le> length buf" "unat len < 2 ^ 63" and room: "unat end + 2 * signbytes (ho_crypto H) \<le> unat len"
    and px: "px_control px = CONTROL_OPEN"
  shows "gives (sound F G H) (segment_read_open H src px end len buf a w)"
proof -
  let ?s = "of_nat (signbytes (ho_crypto H)) :: u64"
  obtain k where k: "h_conn w a = Some k" using w by (rule liveE)
  have s: "unat ?s = signbytes (ho_crypto H)" using H(1) by (rule sign_len)
  have n: "unat (len - ?s) = unat len - signbytes (ho_crypto H)" using room s by (simp add: unat_minus)
  then have n1: "unat (len - ?s - end) = unat len - signbytes (ho_crypto H) - unat end" using room by (subst unat_minus) simp_all
  then have n2: "unat (len - ?s - end - ?s) = unat len - 2 * signbytes (ho_crypto H) - unat end" using room s by (subst unat_minus) simp_all
  have b2: "unat (len - ?s - end - ?s) \<le> length (drop (unat end) buf)" "unat (len - ?s - end - ?s) < 2 ^ 63"
    using n2 buf by simp_all
  obtain m out where m: "trip_unpack (ho_crypto H) (len - ?s - end - ?s) (drop (unat end) buf) ''oO'' = Some (m, out)"
    using trip_unpack_safe_ex [OF H(1) b2] by blast
  have read: "gives (\<lambda>r. live F G H a (\<lambda>_. True) (snd r)) (tripc_read H a px (len - ?s - (end + m)) (drop (unat (end + m)) buf) w)"
    if "m \<noteq> NPOS"
  proof -
    have "unat m \<le> unat (len - ?s - end - ?s)" by (rule unpack_within [OF m that H(1) b2])
    then have m: "unat m + unat end + 2 * signbytes (ho_crypto H) \<le> unat len" using n2 room by simp
    then have e: "unat (end + m) = unat end + unat m" using buf(2) by (intro unat_plus) simp
    have "unat (len - ?s - (end + m)) = unat len - signbytes (ho_crypto H) - (unat end + unat m)"
      using n e m by (subst unat_minus) simp_all
    then show ?thesis
      using H(2) px buf e
      by (intro read_gives [OF w H(1)]) (simp_all add: gives_bytes_def CONTROL_PING_def CONTROL_OPEN_def)
  qed
  have "gives (sound F G H) (tripc_read H a px (len - ?s - (end + m)) (drop (unat (end + m)) buf) w \<bind>
      (\<lambda>r. if fst r \<noteq> EOK then Some (snd r) else tripc_set_send H a (snd r)))" if "m \<noteq> NPOS"
    by (rule gives_bind [OF read [OF that]]) (auto intro: live_sound gives_mono [OF set_send_gives])
  then show ?thesis
    unfolding segment_read_open_def Let_def k bind.bind_lunit m prod.case trip_router_reject_def split_def
    using live_sound [OF w] by simp
qed

lemma source_gives: "sound F G H w \<Longrightarrow> 0 \<le> src \<Longrightarrow> trip_router_get_conn_by_src src i w = Some None"
proof -
  assume s: "sound F G H w" "0 \<le> src"
  then have "src smod 2 = src mod 2" by (simp add: signed_modulo_int_def sgn_if)
  then have "src smod 2 = 0 \<or> src smod 2 = 1" by auto
  then show ?thesis using s(1) by (auto simp: trip_router_get_conn_by_src_def sound_def)
qed

text \<open>
  What a packet must have for the lengths the code computes to make sense: room for a
  signature, or for two when it opens a connection.
\<close>

definition long_enough :: "crypto \<Rightarrow> u64 \<Rightarrow> bytes \<Rightarrow> bool" where
  "long_enough cr len buf \<longleftrightarrow>
     (case seg_prefix cr len buf of
        None \<Rightarrow> True
      | Some (px, end) \<Rightarrow>
          if px_control px = CONTROL_OPEN
          then (case trip_unpack cr (len - end) (drop (unat end) buf) ''Hb'' of
                  Some (e, _) \<Rightarrow> e = 0 \<or> e = NPOS \<or> unat end + unat e + 2 * signbytes cr \<le> unat len
                | None \<Rightarrow> True)
          else unat end + signbytes cr \<le> unat len)"

lemma segment_open_gives:
  assumes w: "sound F G H w" and H: "orderly_screen F G H" "sodium_laws (ho_crypto H)" "gives_bytes H"
    and buf: "unat len \<le> length buf" "unat len < 2 ^ 63" "unat end \<le> unat len" and src: "0 \<le> src"
    and px: "px_control px = CONTROL_OPEN"
    and room: "\<And>e out. trip_unpack (ho_crypto H) (len - end) (drop (unat end) buf) ''Hb'' = Some (e, out) \<Longrightarrow>
      e = 0 \<or> e = NPOS \<or> unat end + unat e + 2 * signbytes (ho_crypto H) \<le> unat len"
  shows "gives (sound F G H) (segment_open H src px end len buf w)"
proof -
  have n: "unat (len - end) = unat len - unat end" using buf(3) by (rule unat_minus)
  then have b: "unat (len - end) \<le> length (drop (unat end) buf)" "unat (len - end) < 2 ^ 63" using buf by simp_all
  obtain e out where u: "trip_unpack (ho_crypto H) (len - end) (drop (unat end) buf) ''Hb'' = Some (e, out)"
    using trip_unpack_safe_ex [OF H(2) b] by blast
  have main: "gives (sound F G H) (do {
          (version, routelen, off) \<leftarrow> (case out of [O16 v, O32 n, OPtr p] \<Rightarrow> Some (v, n, p) | _ \<Rightarrow> None);
          let screen = \<lparr>sc_allow = False, sc_version = version, sc_routelen = routelen,
            sc_route = Some (drop (unat end + off) buf), sc_data = None, sc_opensk = None,
            sc_signpk = None, sc_signsk = None\<rparr>;
          let end = end + e;
          if version \<noteq> TRIP_VERSION_MAJOR then Some (trip_router_reject src 5 w)
          else do {
            c \<leftarrow> trip_router_get_conn_by_src src (px_id px) w;
            case c of
              None \<Rightarrow>
                do { (c, w) \<leftarrow> segment_new_conn H src len buf screen w;
                     (case c of None \<Rightarrow> Some w
                      | Some a \<Rightarrow> segment_read_open H src px end len buf a w) }
            | Some a \<Rightarrow>
                do { k \<leftarrow> h_conn w a;
                     e \<leftarrow> (if peer_signpk (c_peer k) \<noteq> None \<or> \<not> has_flag FLAG_ALLOW_PLAIN_ISIG w
                            then trip_unsign (ho_crypto H) len buf (peer_signpk (c_peer k)) else Some EOK);
                     if e \<noteq> EOK then Some (trip_router_reject src 203 w)
                     else conn_upd a (\<lambda>k. k\<lparr>c_src := src\<rparr>) w } } })"
    if e: "e \<noteq> 0" "e \<noteq> NPOS"
  proof -
    obtain v m p where out: "out = [O16 v, O32 m, OPtr p]" "p + unat m \<le> unat e" "unat e \<le> unat (len - end)"
      by (rule unpack_route [OF u e(2) b(2)])
    have r: "unat end + unat e + 2 * signbytes (ho_crypto H) \<le> unat len" using room [OF u] e by simp
    then have "unat (end + e) = unat end + unat e" using buf(2) by (intro unat_plus) simp
    then have r2: "unat (end + e) + 2 * signbytes (ho_crypto H) \<le> unat len" using r by simp
    let ?b = "drop (unat end + p) buf"
    have "unat m \<le> length ?b" using out(2,3) n buf by simp
    then have new: "gives (\<lambda>r. sound F G H (snd r) \<and> (\<forall>a. fst r = Some a \<longrightarrow> live F G H a (\<lambda>_. True) (snd r)))
      (segment_new_conn H src len buf \<lparr>sc_allow = False, sc_version = v, sc_routelen = m, sc_route = Some ?b, sc_data = None,
         sc_opensk = None, sc_signpk = None, sc_signsk = None\<rparr> w)"
      by (intro new_conn_gives [OF w H(1,2) buf(1), where b = ?b]) simp_all
    have rest: "gives (sound F G H) (case r of (c, w) \<Rightarrow> (case c of None \<Rightarrow> Some w
        | Some a \<Rightarrow> segment_read_open H src px (end + e) len buf a w))"
      if "sound F G H (snd r) \<and> (\<forall>a. fst r = Some a \<longrightarrow> live F G H a (\<lambda>_. True) (snd r))" for r
      using that read_open_gives [OF _ H(2,3) buf(1,2) r2 px] by (cases r; cases "fst r") auto
    show ?thesis
      unfolding out(1) Let_def
      using w gives_bind [OF new rest] by (auto simp: source_gives [OF w src] trip_router_reject_def)
  qed
  show ?thesis
    unfolding segment_open_def u bind.bind_lunit prod.case
    by (intro gives_if main) (simp_all add: w trip_router_reject_def)
qed

section \<open>Any other packet\<close>

text \<open>
  A ping for a connection that is due to answer one must find a nonce of its peer: otherwise a
  null nonce is copied.
\<close>

definition pings_known :: "crypto \<Rightarrow> u64 \<Rightarrow> bytes \<Rightarrow> world \<Rightarrow> bool" where
  "pings_known cr len buf w \<longleftrightarrow>
     (case seg_prefix cr len buf of
        None \<Rightarrow> True
      | Some (px, _) \<Rightarrow> px_control px = CONTROL_PING \<longrightarrow>
          (\<forall>a k. cm_holds (h_conn w) (r_conn (w_router w)) (px_id px) a \<and> h_conn w a = Some k \<and> ping_due k \<longrightarrow>
             peer_nonce (c_peer k) \<noteq> None))"

lemma segment_other_gives:
  assumes w: "sound F G H w" and H: "sodium_laws (ho_crypto H)" "gives_bytes H"
    and buf: "unat len \<le> length buf" "unat len < 2 ^ 63" "unat end + signbytes (ho_crypto H) \<le> unat len"
    and ping: "\<And>a k. px_control px = CONTROL_PING \<Longrightarrow> cm_holds (h_conn w) (r_conn (w_router w)) (px_id px) a \<Longrightarrow>
      h_conn w a = Some k \<Longrightarrow> ping_due k \<Longrightarrow> peer_nonce (c_peer k) \<noteq> None"
  shows "gives (sound F G H) (segment_other H src px end len buf w)"
proof -
  let ?s = "of_nat (signbytes (ho_crypto H)) :: u64"
  obtain c where c: "connmap_get (px_id px) (r_conn (w_router w)) (h_conn w) = Some c"
    "\<And>a. c = Some a \<longleftrightarrow> cm_holds (h_conn w) (r_conn (w_router w)) (px_id px) a"
    using connmap_get_ok [of "h_conn w" "r_conn (w_router w)" "px_id px"] w by (auto simp: sound_def)
  have "unat (len - ?s) = unat len - signbytes (ho_crypto H)" using buf(3) sign_len [OF H(1)] by (simp add: unat_minus)
  then have n: "unat (len - ?s - end) = unat len - signbytes (ho_crypto H) - unat end" using buf(3) by (subst unat_minus) simp_all
  have read: "gives (\<lambda>r. live F G H a (\<lambda>_. True) (snd r)) (tripc_read H a px (len - ?s - end) (drop (unat end) buf) w)"
    if "live F G H a (\<lambda>_. True) w" "c = Some a" for a
    using that c(2) n buf ping H(2) by (intro read_gives H(1)) (auto simp: gives_bytes_def)
  have one: "gives (sound F G H) (do { k \<leftarrow> h_conn w a;
                 e \<leftarrow> (if px_control px = CONTROL_CHAL \<and>
                          (peer_signpk (c_peer k) \<noteq> None \<or> \<not> has_flag FLAG_ALLOW_PLAIN_OSIG w)
                        then trip_unsign (ho_crypto H) len buf (peer_signpk (c_peer k)) else Some EOK);
                 if e \<noteq> EOK then Some (trip_router_reject src 203 w)
                 else do {
                   let len = len - ?s;
                   (e, w) \<leftarrow> tripc_read H a px (len - end) (drop (unat end) buf) w;
                   Some (if e \<noteq> EOK then trip_router_reject src 79 w else w) } })"
    if a: "c = Some a" for a
  proof -
    have h: "cm_holds (h_conn w) (r_conn (w_router w)) (px_id px) a" using a c(2) by simp
    then have "h_conn w a \<noteq> None" by (auto simp: cm_holds_def conn_id_def)
    then obtain k where k: "h_conn w a = Some k" by blast
    then have lv: "live F G H a (\<lambda>_. True) w" using w by (simp add: live_def)
    obtain e0 where "trip_unsign (ho_crypto H) len buf (peer_signpk (c_peer k)) = Some e0"
      using unsign_gives [OF H(1) buf(1)] by blast
    then have "\<exists>e. (if c then trip_unsign (ho_crypto H) len buf (peer_signpk (c_peer k)) else Some EOK) = Some e" for c by simp
    then obtain e where e: "(if px_control px = CONTROL_CHAL \<and>
                          (peer_signpk (c_peer k) \<noteq> None \<or> \<not> has_flag FLAG_ALLOW_PLAIN_OSIG w)
                        then trip_unsign (ho_crypto H) len buf (peer_signpk (c_peer k)) else Some EOK) = Some e" by blast
    show ?thesis
      unfolding k bind.bind_lunit e Let_def split_def trip_router_reject_def
      by (intro gives_if gives_bind [OF read [OF lv a]]) (auto simp: w live_sound)
  qed
  show ?thesis
    unfolding segment_other_def c(1) bind.bind_lunit
    by (intro gives_if gives_case_option one) (simp_all add: w trip_router_reject_def)
qed

section \<open>The property\<close>

lemma packet_gives:
  assumes "in_order H w" "orderly_screen {} (\<lambda>_. {}) H" "sodium_laws (ho_crypto H)" "gives_bytes H"
    "unat len \<le> length buf" "unat len < 2 ^ 63" "0 \<le> src"
    "long_enough (ho_crypto H) len buf" "pings_known (ho_crypto H) len buf w"
  shows "gives (in_order H) (trip_seg H src len buf w)"
proof (cases "seg_prefix (ho_crypto H) len buf")
  case None
  then show ?thesis using assms(1) by (simp add: trip_seg_prefix [OF assms(3,5,6)])
next
  case (Some r)
  then obtain px "end" where px: "seg_prefix (ho_crypto H) len buf = Some (px, end)" by (cases r) simp
  have e: "unat end \<le> unat len" by (rule seg_prefix_end [OF px assms(3,5,6)])
  have op: "gives (in_order H) (segment_open H src px end len buf w)" if "px_control px = CONTROL_OPEN"
    by (rule segment_open_gives [OF assms(1-6) e assms(7) that])
      (use assms(8) that in \<open>auto simp: long_enough_def px\<close>)
  have ot: "gives (in_order H) (segment_other H src px end len buf w)" if "px_control px \<noteq> CONTROL_OPEN"
    by (rule segment_other_gives [OF assms(1,3-6)])
      (use assms(8,9) that in \<open>auto simp: long_enough_def pings_known_def px\<close>)
  show ?thesis using assms(1) op ot by (simp add: trip_seg_prefix [OF assms(3,5,6)] px)
qed

text \<open>C4: Packets cannot break the router's memory, but for the known ways. In a world in order, with
  memory to be had, every packet from a source that is not negative, whatever its octets and
  whatever the cryptography says of them, is received to its end without a step that C leaves
  undefined (no read outside the packet, no freed or null pointer, no signed overflow), and the
  world is in order again: connection map, send queue and timer wheel are what they should be
  and no pointer between them dangles. The exceptions are the two that theory \<open>Segments\<close> shows to
  be real: packets too short for the signatures the code subtracts, and a ping for a
  connection that is due to answer one but has no nonce of its peer. The screen may do what
  it likes that keeps the world in order.\<close>

theorem packet_keeps_order:
  assumes "in_order H w" "orderly_screen {} (\<lambda>_. {}) H" "sodium_laws (ho_crypto H)" "gives_bytes H"
    "unat len \<le> length buf" "unat len < 2 ^ 63" "0 \<le> src"
    "long_enough (ho_crypto H) len buf" "pings_known (ho_crypto H) len buf w"
  shows "\<exists>w'. trip_seg H src len buf w = Some w' \<and> in_order H w'"
  using packet_gives [OF assms] by (simp add: gives_def)

text \<open>A packet of eighty octets at a router with one connection, which waits for its answer.\<close>

definition serving_world :: world where
  "serving_world = rt_upd (\<lambda>r. r\<lparr>r_connection := True\<rparr>) opening_world"

lemma serving_simps:
  "h_conn serving_world = [1 \<mapsto> opening_conn]" "w_brk serving_world = 2" "w_wheel serving_world = \<lparr>tw_head = None, tw_heap = Map.empty\<rparr>"
  "r_resolveq (w_router serving_world) = resolveq_init" "equipped (w_router serving_world)"
  "r_connsrc0 (w_router serving_world) = None" "r_connsrc1 (w_router serving_world) = None"
  by (simp_all add: serving_world_def opening_world_def listening_world_def blank_world_def router_zero_def
      equipped_def full_packet_def)

lemma serving_sound: "in_order (still_host t) serving_world"
proof -
  obtain o: "runs_fine (still_host t) (w_router serving_world)" "sends serving_world []"
    "connmap_ok (h_conn serving_world) (r_conn (w_router serving_world))"
    using opening_opener [of t] by (simp add: opener_def serving_world_def runs_fine_def sends_def)
  moreover have "tw_rep (w_wheel serving_world) []" by (simp add: serving_simps tw_rep_def)
  moreover have "conn_sound T opening_conn" for T
    by (simp add: conn_sound_def opening_conn_def connection_zero_def within_def connpeer_zero_def ping_zero_def)
  moreover have "aware {} (w_wheel serving_world) (h_conn serving_world)" by (simp add: aware_def serving_simps)
  moreover have "resolving resolveq_init h" for h by (simp add: resolving_def)
  ultimately show ?thesis
    unfolding sound_def
    by (intro conjI exI [of _ "[]"]) (auto simp: serving_simps split: if_splits)
qed

lemma still_orderly: "orderly_screen F G (still_host t)" "gives_bytes (still_host t)" "sodium_laws (ho_crypto (still_host t))"
  by (simp_all add: orderly_screen_def gives_bytes_def still_host_def sodium_ok)

theorem packet_keeps_order_witness:
  "\<exists>w'. trip_seg (still_host 0) 7 80 (0x80 # replicate 79 0) serving_world = Some w' \<and> in_order (still_host 0) w'"
proof (rule packet_keeps_order [OF serving_sound still_orderly(1,3,2)])
  have p: "seg_prefix (ho_crypto (still_host 0)) 80 (0x80 # replicate 79 0) =
      Some (\<lparr>px_encrypted = True, px_control = 0, px_id = 0, px_seq = 0\<rparr>, 10)"
    by (simp add: still_host_def) code_simp
  show "long_enough (ho_crypto (still_host 0)) 80 (0x80 # replicate 79 0)"
    by (simp add: long_enough_def p CONTROL_OPEN_def) (simp add: still_host_def sodium_def)
  show "pings_known (ho_crypto (still_host 0)) 80 (0x80 # replicate 79 0) serving_world"
    by (simp add: pings_known_def p CONTROL_PING_def)
qed simp_all

end
