(* ===== verification/Events.thy ===== *)
theory Events
  imports Sound_Packet Retry
begin

text \<open>
  Runs of the library in which packets, openings, answers of the resolver and timers come in any
  order. Each event is a call of the model's functions; the theorem is that none of them can
  disturb the order of the memory (theory \<open>Sound\<close>), and with it that none of them is
  undefined.
\<close>

section \<open>Events\<close>

text \<open>
  One turn of the walk of the timers (\<open>timerwheel_walk_with\<close> of \<open>src/timerwheel.c\<close>) at an entry
  that is due: it is unlinked, its callback is run unless it was cancelled, and it is freed.
\<close>

definition expire :: "host \<Rightarrow> ptr \<Rightarrow> addr \<Rightarrow> world \<Rightarrow> world option" where
  "expire H prev a w =
     do { e \<leftarrow> tw_heap (w_wheel w) a;
          w \<leftarrow> tw_on w_wheel (\<lambda>v w. w\<lparr>w_wheel := v\<rparr>) (tw_store prev (te_next e)) w;
          w \<leftarrow> (case te_cb e of
              Some cb \<Rightarrow> if te_canceled e then Some w else fire H cb (te_data e) w
            | None \<Rightarrow> Some w);
          tw_on w_wheel (\<lambda>v w. w\<lparr>w_wheel := v\<rparr>) (tw_free a) w }"

lemma walk_loop_expire:
  assumes "tw_heap (w_wheel w) a = Some e" "expired now e"
  shows "walk_loop w_wheel (\<lambda>v w. w\<lparr>w_wheel := v\<rparr>) (fire H) now prev (Some a) mn w =
    do { w \<leftarrow> expire H prev a w; next \<leftarrow> tw_load prev (w_wheel w);
         walk_loop w_wheel (\<lambda>v w. w\<lparr>w_wheel := v\<rparr>) (fire H) now prev next mn w }"
  using assms by (subst walk_loop.simps) (simp add: expire_def expired_def)

datatype event = Packet int u64 bytes | Opening ptr u64 "bytes option"
  | Answer int int errno "string option" | Expiry ptr addr

definition perform :: "host \<Rightarrow> event \<Rightarrow> world \<Rightarrow> world option" where
  "perform H ev w =
     (case ev of
        Packet src len buf \<Rightarrow> trip_seg H src len buf w
      | Opening data len info \<Rightarrow> trip_open_connection H data len info w
      | Answer key src err msg \<Rightarrow> trip_resolve H key src err msg w
      | Expiry prev a \<Rightarrow> expire H prev a w)"

fun performs :: "host \<Rightarrow> event list \<Rightarrow> world \<Rightarrow> world option" where
  "performs H [] w = Some w"
| "performs H (ev # evs) w = do { w \<leftarrow> perform H ev w; performs H evs w }"

section \<open>When they may come\<close>

text \<open>No timer but \<open>a\<close> is still to go off for the connection \<open>c\<close>.\<close>

definition last_timer :: "addr \<Rightarrow> addr \<Rightarrow> world \<Rightarrow> bool" where
  "last_timer a c w \<longleftrightarrow> (\<forall>t e cb. tw_heap (w_wheel w) t = Some e \<longrightarrow> \<not> te_canceled e \<longrightarrow> te_cb e = Some cb \<longrightarrow>
     conn_cb cb \<longrightarrow> te_data e = Some c \<longrightarrow> t = a)"

text \<open>
  A connection can be closed by its timer \<open>a\<close> when no other timer is to go off for it and it is not in the send queue: taking the last one out of the
  queue spoils it (\<open>sendq_del_last_loses\<close>).
\<close>

definition closable :: "addr \<Rightarrow> addr \<Rightarrow> connection \<Rightarrow> world \<Rightarrow> bool" where
  "closable a c k w \<longleftrightarrow> last_timer a c w \<and> \<not> c_insend k"

abbreviation resolves :: "world \<Rightarrow> connection \<Rightarrow> ptr option" where
  "resolves w k \<equiv> rq_abs (r_resolveq (w_router w)) (c_resolvekey k)"

definition may_fire :: "host \<Rightarrow> timer_cb \<Rightarrow> addr \<Rightarrow> addr \<Rightarrow> connection \<Rightarrow> world \<Rightarrow> bool" where
  "may_fire H cb a c k w \<longleftrightarrow>
     (case cb of
        CB_open_connection \<Rightarrow> True
      | CB_resolve_success \<Rightarrow> True
      | CB_state_ready_ping \<Rightarrow> True
      | CB_resolve_failure \<Rightarrow> closable a c k w \<and> resolves w k \<noteq> Some (Some c)
      | CB_state_resolve \<Rightarrow> closable a c k w \<and> resolves w k = Some (Some c)
      | CB_state_resend \<Rightarrow>
          if fst (w_now H w) > c_statedeadline k then closable a c k w \<and> resolves w k \<noteq> Some (Some c)
          else countable_tries (c_retry k)
      | _ \<Rightarrow> False)"

text \<open>
  Timers go off one after the other: \<open>prev\<close> is the link to the entry. Those of the router and of
  the program are left to other theories.
\<close>

definition allowed :: "host \<Rightarrow> event \<Rightarrow> world \<Rightarrow> bool" where
  "allowed H ev w \<longleftrightarrow>
     (case ev of
        Packet src len buf \<Rightarrow> 0 \<le> src \<and> unat len \<le> length buf \<and> unat len < 2 ^ 63 \<and>
          long_enough (ho_crypto H) len buf \<and> pings_known (ho_crypto H) len buf w
      | Opening data len info \<Rightarrow> has_flag FLAG_ALLOW_OUT w \<and>
          cm_size (r_conn (w_router w)) \<noteq> unat (connmap_max (r_conn (w_router w))) \<and>
          rq_size (r_resolveq (w_router w)) \<noteq> INT_MAX
      | Answer key src err msg \<Rightarrow> 0 \<le> key
      | Expiry prev a \<Rightarrow>
          (\<exists>ks as e. tw_rep (w_wheel w) (ks @ a # as) \<and> prev = link_of ks \<and> tw_heap (w_wheel w) a = Some e \<and>
             (te_canceled e \<or> te_cb e = None \<or>
              (\<exists>cb c k. te_cb e = Some cb \<and> conn_cb cb \<and> te_data e = Some c \<and> h_conn w c = Some k \<and> may_fire H cb a c k w))))"

text \<open>Each event may come when the ones before it have been performed.\<close>

fun all_allowed :: "host \<Rightarrow> event list \<Rightarrow> world \<Rightarrow> bool" where
  "all_allowed H [] w = True"
| "all_allowed H (ev # evs) w = (allowed H ev w \<and> (\<forall>v. perform H ev w = Some v \<longrightarrow> all_allowed H evs v))"

text \<open>What the program does in its own callbacks: it looks at the connection and the router.\<close>

definition looks :: "world \<Rightarrow> world \<Rightarrow> bool" where
  "looks w v \<longleftrightarrow> h_conn v = h_conn w \<and> w_wheel v = w_wheel w \<and> w_router v = w_router w \<and> w_brk v = w_brk w"

definition onlooker :: "host \<Rightarrow> bool" where
  "onlooker H \<longleftrightarrow> (\<forall>w. (\<forall>c. gives (looks w) (ho_connection H c w)) \<and> (\<forall>key n info. gives (looks w) (ho_resolve H key n info w)))"

lemma looks_sound: "looks w v \<Longrightarrow> sound F G H v = sound F G H w"
  by (simp add: looks_def sound_def sends_def timers_def)

section \<open>Closing a connection\<close>

lemma sound_map:
  "sound F G H w \<Longrightarrow> connmap_ok (h_conn w) m \<Longrightarrow> sound F G H (rt_upd (\<lambda>r. r\<lparr>r_conn := m\<rparr>) w)"
  by (auto simp: sound_def runs_fine_def sends_def)

lemma sound_resolve:
  "sound F G H w \<Longrightarrow> resolveq_ok q \<Longrightarrow> resolving q (h_conn w) \<Longrightarrow> sound F G H (rt_upd (\<lambda>r. r\<lparr>r_resolveq := q\<rparr>) w)"
  by (auto simp: sound_def runs_fine_def sends_def)

lemma not_queued: "sends w cs \<Longrightarrow> h_conn w c = Some k \<Longrightarrow> \<not> c_insend k \<Longrightarrow> c \<notin> set cs"
  by (auto simp: sends_def sq_rep_def)

text \<open>A connection that nothing refers to any more can be freed.\<close>

lemma sound_free:
  assumes w: "sound F G H w" and k: "h_conn w c = Some k" "\<not> c_insend k"
    and m: "\<And>y. \<not> cm_holds (h_conn w) (r_conn (w_router w)) y c" and q: "resolves w k \<noteq> Some (Some c)"
    and t: "\<And>t e cb. tw_heap (w_wheel w) t = Some e \<Longrightarrow> \<not> te_canceled e \<Longrightarrow> te_cb e = Some cb \<Longrightarrow> conn_cb cb \<Longrightarrow>
      te_data e = Some c \<Longrightarrow> t \<in> F"
    and X: "X \<subseteq> F"
  shows "sound F (G(c := X)) H (w\<lparr>h_conn := (h_conn w)(c := None)\<rparr>)"
proof -
  obtain cs where cs: "sends w cs" using w by (auto simp: sound_def)
  then have "c \<notin> set cs" using k by (rule not_queued)
  then have "sends (w\<lparr>h_conn := (h_conn w)(c := None)\<rparr>) cs"
    using cs by (auto simp: sends_def sq_rep_def intro: chain_free_off)
  moreover have "connmap_ok ((h_conn w)(c := None)) (r_conn (w_router w))"
    by (rule cm_without(1) [OF _ m]) (use w in \<open>simp add: sound_def\<close>)
  moreover have "resolving (r_resolveq (w_router w)) ((h_conn w)(c := None))"
    using w q k(1) by (fastforce simp: sound_def resolving_def)
  moreover have "aware F (w_wheel w) ((h_conn w)(c := None))"
    using w t by (fastforce simp: sound_def aware_def)
  ultimately show ?thesis using w X by (auto simp: sound_def)
qed

lemma close_gives:
  assumes H: "onlooker H" and w: "live F G H c P w" and k: "h_conn w c = Some k" "\<not> c_insend k"
    and q: "resolves w k \<noteq> Some (Some c)"
    and t: "\<And>t e cb. tw_heap (w_wheel w) t = Some e \<Longrightarrow> \<not> te_canceled e \<Longrightarrow> te_cb e = Some cb \<Longrightarrow> conn_cb cb \<Longrightarrow>
      te_data e = Some c \<Longrightarrow> t \<in> F"
    and X: "X \<subseteq> F"
  shows "gives (sound F (G(c := X)) H) (trip_close_connection H c w)"
proof -
  obtain v where v: "call_connection H c w = Some v" "looks w v"
  proof -
    have "r_connection (w_router w)" using w by (simp add: live_def sound_def equipped_def)
    moreover have "gives (looks w) (ho_connection H c w)" using H by (simp add: onlooker_def)
    ultimately show thesis using that by (auto simp: call_connection_def elim: givesE)
  qed
  have vw: "h_conn v = h_conn w" "w_wheel v = w_wheel w" "w_router v = w_router w" using v(2) by (simp_all add: looks_def)
  have sv: "sound F G H v" using looks_sound [OF v(2)] w by (simp add: live_def)
  let ?x = "self_id (c_self k)"
  obtain s m where del: "connmap_del ?x (r_conn (w_router v)) (h_conn v) = Some (s, m)" "connmap_ok (h_conn v) m"
    "\<forall>y d. cm_holds (h_conn v) m y d \<longleftrightarrow> cm_holds (h_conn v) (r_conn (w_router v)) y d \<and> y \<noteq> ?x"
    using connmap_del_ok [of "h_conn v" "r_conn (w_router v)" ?x] sv by (auto simp: sound_def)
  have gone: "\<not> cm_holds (h_conn v) m y c" for y
    using del(3) k(1) by (auto simp: cm_holds_def conn_id_def vw)
  let ?v = "rt_upd (\<lambda>r. r\<lparr>r_conn := m\<rparr>) v"
  let ?k1 = "k\<lparr>c_streams := streammap_destroy (c_streams k)\<rparr>"
  let ?v1 = "?v\<lparr>h_conn := (h_conn v)(c \<mapsto> ?k1)\<rparr>"
  have s1: "sound F G H ?v1"
    by (rule sound_conn [where w = ?v, simplified])
      (use sound_map [OF sv del(2)] k(1) w in \<open>auto simp: vw live_def sound_def conn_sound_def same_place_def timers_def\<close>)
  then have l1: "live F G H c (\<lambda>_. True) ?v1" by (simp add: live_def)
  have can: "\<exists>h. tripc_cancel_timeout c ?v1 = Some (?v1\<lparr>w_wheel := (w_wheel v)\<lparr>tw_heap := h\<rparr>, h_conn := (h_conn v)(c \<mapsto> ?k1\<lparr>c_statetimer := None\<rparr>)\<rparr>) \<and>
      (\<forall>t e. h t = Some e \<longrightarrow> \<not> te_canceled e \<longrightarrow> tw_heap (w_wheel v) t = Some e)"
  proof (cases "c_statetimer k")
    case None
    then have eq: "?k1\<lparr>c_statetimer := None\<rparr> = ?k1" by simp
    show ?thesis
      unfolding eq using None by (intro exI [of _ "tw_heap (w_wheel v)"]) (simp add: tripc_cancel_timeout_def)
  next
    case (Some t)
    have "conn_sound (timers v c - G c) k" using sv k(1) by (simp add: sound_def vw)
    then obtain e where e: "tw_heap (w_wheel v) t = Some e" using Some by (auto simp: conn_sound_def timers_def)
    then show ?thesis using Some
      by (intro exI [of _ "(tw_heap (w_wheel v))(t \<mapsto> e\<lparr>te_canceled := True\<rparr>)"])
        (simp add: tripc_cancel_timeout_def trip_cancel_timeout_priv_def timerwheel_cancel_def heap_upd_def conn_upd_def)
  qed
  then obtain h where h: "tripc_cancel_timeout c ?v1 = Some (?v1\<lparr>w_wheel := (w_wheel v)\<lparr>tw_heap := h\<rparr>, h_conn := (h_conn v)(c \<mapsto> ?k1\<lparr>c_statetimer := None\<rparr>)\<rparr>)"
    "\<And>t e. h t = Some e \<Longrightarrow> \<not> te_canceled e \<Longrightarrow> tw_heap (w_wheel v) t = Some e" by blast
  let ?k2 = "?k1\<lparr>c_statetimer := None\<rparr>"
  let ?v2 = "?v1\<lparr>w_wheel := (w_wheel v)\<lparr>tw_heap := h\<rparr>, h_conn := (h_conn v)(c \<mapsto> ?k2)\<rparr>"
  have s2: "sound F G H ?v2" using conn_cancel_gives [OF l1] by (simp add: h(1) live_def)
  obtain cs where cs: "sends ?v2 cs" using s2 by (auto simp: sound_def)
  have off: "c \<notin> set cs" by (rule not_queued [OF cs, of c ?k2]) (use k(2) in simp_all)
  have un: "sendq_del c (r_sendq (w_router ?v2)) (h_conn ?v2) = Some (r_sendq (w_router ?v2), (h_conn ?v2)(c \<mapsto> ?k2\<lparr>c_insend := False\<rparr>))"
    by (rule sendq_del_out [OF cs [unfolded sends_def] _ off]) simp
  have "trip_close_connection H c w = Some (?v2\<lparr>h_conn := (h_conn ?v2)(c := None)\<rparr>)"
    using k v(1) del(1) un h(1)
    by (simp add: trip_close_connection_def tripc_destroy_def conn_upd_def heap_upd_def trip_unqconnection_def
        on_sendq_def trip_free_connection_def heap_free_def vw)
  moreover have "sound F (G(c := X)) H (?v2\<lparr>h_conn := (h_conn ?v2)(c := None)\<rparr>)"
  proof (rule sound_free [OF s2, of c ?k2])
    have "conn_id (h_conn ?v2) = conn_id (h_conn v)" using k(1) by (auto simp: conn_id_def vw)
    then show "\<not> cm_holds (h_conn ?v2) (r_conn (w_router ?v2)) y c" for y using gone [of y] by (simp add: cm_holds_def)
  qed (use k(2) q t X h(2) in \<open>auto simp: vw\<close>)
  ultimately show ?thesis by simp
qed

text \<open>Recording an error changes nothing but the connection.\<close>

lemma set_error_exact:
  assumes "h_conn w c = Some k"
  obtains k' n where "tripc_set_error H c e m w = Some (w\<lparr>w_tick := n, h_conn := (h_conn w)(c \<mapsto> k')\<rparr>)"
    "same_place k k'"
proof (cases "c_state k = CS_ERROR")
  case True
  then have "tripc_set_error H c e m w = Some (w\<lparr>w_tick := w_tick w, h_conn := (h_conn w)(c \<mapsto> k)\<rparr>)"
    using assms by (simp add: tripc_set_error_def fun_upd_idem)
  then show thesis by (rule that) (simp_all add: same_place_def)
next
  case False
  let ?k = "k\<lparr>c_error := e, c_errmsg := if fst (w_ok H w) then Some (case m of None \<Rightarrow> '''' | Some m \<Rightarrow> m) else None,
    c_state := CS_ERROR\<rparr>"
  have "tripc_set_error H c e m w = Some (w\<lparr>w_tick := Suc (w_tick w), h_conn := (h_conn w)(c \<mapsto> ?k)\<rparr>)"
    using assms False
    by (simp add: tripc_set_error_def w_ok_def conn_upd_def heap_upd_def tripc_set_state_def set_state_leave_def set_state_enter_def
        cong del: if_weak_cong)
  then show thesis by (rule that) (simp_all add: same_place_def)
qed

lemma fail_gives:
  assumes H: "onlooker H" and w: "live F G H c P w" and k: "h_conn w c = Some k" "\<not> c_insend k"
    and q: "resolves w k \<noteq> Some (Some c)"
    and t: "\<And>t e cb. tw_heap (w_wheel w) t = Some e \<Longrightarrow> \<not> te_canceled e \<Longrightarrow> te_cb e = Some cb \<Longrightarrow> conn_cb cb \<Longrightarrow>
      te_data e = Some c \<Longrightarrow> t \<in> F"
    and X: "X \<subseteq> F"
  shows "gives (sound F (G(c := X)) H) (tripc_set_error H c e m w \<bind> trip_close_connection H c)"
proof -
  obtain k' n where e: "tripc_set_error H c e m w = Some (w\<lparr>w_tick := n, h_conn := (h_conn w)(c \<mapsto> k')\<rparr>)"
    "same_place k k'" by (rule set_error_exact [OF k(1)])
  have p: "c_insend k' = c_insend k" "c_resolvekey k' = c_resolvekey k" using e(2) by (simp_all add: same_place_def)
  have "live F G H c (\<lambda>_. True) (w\<lparr>w_tick := n, h_conn := (h_conn w)(c \<mapsto> k')\<rparr>)"
    using set_error_gives [OF w, of e m] by (simp add: e(1))
  from close_gives [OF H this, of k' X] show ?thesis using k q t X by (simp add: e(1) p)
qed

section \<open>Timers of connections\<close>

lemma set_state_own:
  assumes "live F G H a P w" "X \<subseteq> F" "set_state_leave a st w = tripc_cancel_timeout a w"
  shows "gives (live F (G(a := X)) H a (\<lambda>_. True)) (tripc_set_state H a st w)"
  unfolding tripc_set_state_def assms(3)
  by (intro gives_bind [OF conn_cancel_own [OF assms(1,2)]] gives_bind [OF upd_gives [where P = P and Q = P]]
      set_state_enter_gives [where P = P])
    (auto simp: conn_sound_def same_place_def)

text \<open>
  Running a callback for the connection \<open>c\<close>. Afterwards \<open>c\<close> does not have an entry of \<open>X\<close> for
  its own timer: the callbacks of its own timer take that timer from it.
\<close>

lemma fire_gives:
  assumes H: "onlooker H" and w: "live F G H c (\<lambda>_. True) w" and k: "h_conn w c = Some k" and X: "X \<subseteq> F"
    and cb: "conn_cb cb" "\<not> state_cb cb \<Longrightarrow> G c = X" and may: "may_fire H cb a c k w" and a: "a \<in> F"
  shows "gives (sound F (G(c := X)) H) (fire H cb (Some c) w)"
proof -
  have s: "sound F G H w" using w by (rule live_sound)
  have only: "t \<in> F" if "closable a c k w" "tw_heap (w_wheel w) t = Some e" "\<not> te_canceled e" "te_cb e = Some b" "conn_cb b"
    "te_data e = Some c" for t e b
    using that a by (auto simp: closable_def last_timer_def)
  consider "cb = CB_state_resolve" | "cb = CB_state_resend" | "cb = CB_state_ready_ping"
    | "cb = CB_resolve_success" | "cb = CB_resolve_failure" | "cb = CB_open_connection"
    using cb(1) by (auto simp: conn_cb_def state_cb_def)
  then show ?thesis
  proof cases
    case 1
    then have m: "closable a c k w" "resolves w k = Some (Some c)" using may by (simp_all add: may_fire_def)
    have "resolveq_ok (r_resolveq (w_router w))" using s by (simp add: sound_def)
    from resolveq_del_ok [OF this m(2)] obtain q where q: "resolveq_del (c_resolvekey k) (r_resolveq (w_router w)) = Some q"
      "resolveq_ok q" "rq_abs q = (rq_abs (r_resolveq (w_router w)))(c_resolvekey k \<mapsto> None)" by blast
    let ?w = "rt_upd (\<lambda>r. r\<lparr>r_resolveq := q\<rparr>) w" and ?k = "k\<lparr>c_statetimer := None\<rparr>"
    have "resolving q (h_conn w)" using s q(3) by (simp add: sound_def resolving_def)
    then have s1: "sound F G H ?w" by (rule sound_resolve [OF s q(2)])
    have "conn_sound (timers w c - X) ?k" using s k by (simp add: sound_def conn_sound_def)
    then have "sound F (G(c := X)) H (?w\<lparr>h_conn := (h_conn ?w)(c \<mapsto> ?k)\<rparr>)"
      by (intro sound_conn_own [OF s1, where k = k] X) (simp_all add: k same_place_def)
    then have "live F (G(c := X)) H c (\<lambda>_. True) (?w\<lparr>h_conn := (h_conn w)(c \<mapsto> ?k)\<rparr>)" by (simp add: live_def)
    from fail_gives [OF H this, of ?k X ETIME None] have "gives (sound F (G(c := X)) H)
        (tripc_set_error H c ETIME None (?w\<lparr>h_conn := (h_conn w)(c \<mapsto> ?k)\<rparr>) \<bind> trip_close_connection H c)"
      using m(1) only [OF m(1)] X q(3) by (simp add: closable_def)
    then show ?thesis using 1 k q(1) by (simp add: fire_def timeout_state_resolve_cb_def conn_upd_def heap_upd_def)
  next
    case 2
    let ?w = "snd (w_now H w)"
    have w': "live F G H c (\<lambda>_. True) ?w" using w by simp
    have eq: "h_conn ?w = h_conn w" "w_router ?w = w_router w" "w_wheel ?w = w_wheel w" by (simp_all add: w_now_def)
    have late: "gives (sound F (G(c := X)) H) (tripc_set_error H c ETIME None ?w \<bind> trip_close_connection H c)"
      if "fst (w_now H w) > c_statedeadline k"
    proof -
      have m: "closable a c k w" "resolves w k \<noteq> Some (Some c)" using may 2 that by (simp_all add: may_fire_def)
      from fail_gives [OF H w', of k X ETIME None] show ?thesis
        using m only [OF m(1)] X k by (simp add: closable_def eq)
    qed
    have early: "gives (sound F (G(c := X)) H) (tripc_set_send H c ?w \<bind> resend_timer H c)"
      if "\<not> fst (w_now H w) > c_statedeadline k"
    proof -
      have "live F G H c countable_tries ?w" using w' may 2 that k by (simp add: live_def may_fire_def eq)
      then show ?thesis
        by (intro gives_bind [OF set_send_gives] gives_mono [OF resend_timer_own [OF _ _ X]]) (auto simp: live_sound)
    qed
    show ?thesis using 2 k late early by (simp add: fire_def timeout_state_resend_cb_def split_def Let_def eq)
  next
    case 3
    have "gives (live F (G(c := X)) H c (\<lambda>_. True)) (tripc_set_state H c CS_PING w)"
      by (rule set_state_own [OF w X]) (simp add: set_state_leave_def)
    then show ?thesis by (simp add: 3 fire_def timeout_state_ready_ping_def) (erule gives_mono, rule live_sound)
  next
    case 4
    have "gives (live F (G(c := X)) H c (\<lambda>_. True)) (tripc_set_state H c CS_OPEN w)"
      by (rule set_state_own [OF w X]) (simp add: set_state_leave_def)
    then show ?thesis
      by (simp add: 4 fire_def resolve_delay_success_cb_def tripc_resolved_def) (erule gives_mono, rule live_sound)
  next
    case 5
    then have m: "closable a c k w" "resolves w k \<noteq> Some (Some c)" using may by (simp_all add: may_fire_def)
    from close_gives [OF H w k _ m(2) only [OF m(1)] X] m(1) show ?thesis
      by (simp add: 5 fire_def resolve_delay_failure_cb_def closable_def)
  next
    case 6
    have "gives (sound F G H) (do { w \<leftarrow> tripc_start H c w; k \<leftarrow> h_conn w c; call_resolve H (c_resolvekey k) (c_ilen k) (c_info k) w })"
    proof (rule gives_bind [OF start_gives [OF w]])
      fix v assume v: "live F G H c (\<lambda>_. True) v"
      then obtain y where y: "h_conn v c = Some y" by (rule liveE)
      obtain p where p: "r_packet (w_router v) = Some p" "pkt_resolve p" using v by (auto simp: live_def sound_def equipped_def)
      have "gives (looks v) (ho_resolve H (c_resolvekey y) (c_ilen y) (c_info y) v)" using H by (simp add: onlooker_def)
      then show "gives (sound F G H) (h_conn v c \<bind> (\<lambda>k. call_resolve H (c_resolvekey k) (c_ilen k) (c_info k) v))"
        using y p live_sound [OF v] by (auto simp: call_resolve_def looks_sound elim!: gives_mono)
    qed
    moreover have "G(c := X) = G" using cb(2) 6 by (auto simp: state_cb_def)
    ultimately show ?thesis using 6 k by (simp add: fire_def open_connection_async_cb_def)
  qed
qed

section \<open>The turn of a timer\<close>

text \<open>The connections that have an entry for their own timer, if any.\<close>

definition owner :: "timer_cb timer_entry \<Rightarrow> ptr" where
  "owner e = (case te_cb e of Some cb \<Rightarrow> if state_cb cb \<and> \<not> te_canceled e then te_data e else None | None \<Rightarrow> None)"

definition others :: "addr \<Rightarrow> ptr \<Rightarrow> addr \<Rightarrow> addr set" where
  "others a c = (\<lambda>b. if c = Some b then {} else {a})"

text \<open>The entry \<open>a\<close> off the list.\<close>

lemma unlink_sound:
  assumes w: "in_order H w" and rep: "tw_rep (w_wheel w) (ks @ a # as)" and e: "tw_heap (w_wheel w) a = Some e"
  obtains v where "tw_store (link_of ks) (te_next e) (w_wheel w) = Some v" "sound {a} (others a (owner e)) H (w\<lparr>w_wheel := v\<rparr>)"
    "\<And>t x. tw_heap v t = Some x \<Longrightarrow> \<exists>y n. tw_heap (w_wheel w) t = Some y \<and> x = y\<lparr>te_next := n\<rparr>"
proof -
  obtain v where v: "tw_store (link_of ks) (te_next e) (w_wheel w) = Some v" "tw_rep v (ks @ as)"
    "tw_heap v a = Some e" "dom (tw_heap v) = dom (tw_heap (w_wheel w))"
    "\<forall>b x. tw_heap (w_wheel w) b = Some x \<longrightarrow> (\<exists>n. tw_heap v b = Some (x\<lparr>te_next := n\<rparr>))"
    by (rule tw_unlink [OF rep e]) blast
  have older: "\<exists>y n. tw_heap (w_wheel w) t = Some y \<and> x = y\<lparr>te_next := n\<rparr>" if x: "tw_heap v t = Some x" for t x
  proof -
    have "t \<in> dom (tw_heap (w_wheel w))" using x v(4) by blast
    then obtain y where y: "tw_heap (w_wheel w) t = Some y" by blast
    moreover obtain n where "tw_heap v t = Some (y\<lparr>te_next := n\<rparr>)" using v(5) y by blast
    moreover from this x have "x = y\<lparr>te_next := n\<rparr>" by simp
    ultimately show ?thesis by blast
  qed
  let ?w = "w\<lparr>w_wheel := v\<rparr>"
  have own: "t \<in> timers ?w b - others a (owner e) b" if t: "t \<in> timers w b" for t b
  proof -
    obtain x cb where x: "tw_heap (w_wheel w) t = Some x" "te_data x = Some b" "te_cb x = Some cb" "state_cb cb" "\<not> te_canceled x"
      using t by (auto simp: timers_def)
    obtain n where "tw_heap v t = Some (x\<lparr>te_next := n\<rparr>)" using v(5) x(1) by blast
    then have "t \<in> timers ?w b" using x by (simp add: timers_def)
    moreover have "owner e = Some b" if "t = a" using that x e by (simp add: owner_def)
    ultimately show ?thesis by (auto simp: others_def)
  qed
  have "conn_sound (timers ?w b - others a (owner e) b) k" if "h_conn w b = Some k" for b k
  proof (rule conn_sound_mono [of "timers w b"])
    show "conn_sound (timers w b) k" using w that by (simp add: sound_def)
  qed (use own in blast)
  moreover have "a \<notin> set (ks @ as)" using rep by (auto simp: tw_rep_def chain_def)
  then have "\<exists>ts. tw_rep v ts \<and> set ts \<inter> {a} = {}" using v(2) by blast
  moreover have "aware {a} v (h_conn w)"
    unfolding aware_def
  proof (intro allI impI)
    fix t x cb assume x: "tw_heap v t = Some x" "\<not> te_canceled x" "te_cb x = Some cb" "conn_cb cb"
    obtain y n where "tw_heap (w_wheel w) t = Some y" "x = y\<lparr>te_next := n\<rparr>" using older [OF x(1)] by blast
    then show "\<exists>a. te_data x = Some a \<and> h_conn w a \<noteq> None" using w x by (simp add: sound_def aware_def)
  qed
  moreover have "a < w_brk w" using w e by (fastforce simp: sound_def not_le [symmetric])
  moreover have "tw_heap v b = None" if "w_brk w \<le> b" for b
    using w that v(4) by (metis domIff sound_def)
  moreover have "{a} \<subseteq> dom (tw_heap v)" using v(3) by auto
  moreover have "others a (owner e) b \<subseteq> {a}" for b by (simp add: others_def)
  ultimately have "sound {a} (others a (owner e)) H ?w" using w by (simp add: sound_def sends_def below_def)
  from that [OF v(1) this older] show thesis by blast
qed

text \<open>Freeing it when no connection has it any more.\<close>

lemma free_sound:
  assumes w: "sound {a} (\<lambda>_. {a}) H w"
  shows "gives (in_order H) (tw_on w_wheel (\<lambda>v w. w\<lparr>w_wheel := v\<rparr>) (tw_free a) w)"
proof -
  let ?v = "(w_wheel w)\<lparr>tw_heap := (tw_heap (w_wheel w))(a := None)\<rparr>"
  let ?w = "w\<lparr>w_wheel := ?v\<rparr>"
  obtain e where e: "tw_heap (w_wheel w) a = Some e" using w by (auto simp: sound_def)
  obtain ts where ts: "tw_rep (w_wheel w) ts" "a \<notin> set ts" using w by (auto simp: sound_def)
  have "tw_rep ?v ts" using ts by (simp add: tw_rep_def chain_free_off)
  moreover have "conn_sound (timers ?w b) k" if "h_conn w b = Some k" for b k
  proof (rule conn_sound_mono [of "timers w b - {a}"])
    show "conn_sound (timers w b - {a}) k" using w that by (simp add: sound_def)
  qed (auto simp: timers_def)
  moreover have "aware {} ?v (h_conn w)" using w by (auto simp: sound_def aware_def)
  ultimately have "in_order H ?w" using w by (auto simp: sound_def sends_def below_def)
  then show ?thesis using e by (simp add: tw_on_def tw_free_def heap_free_def)
qed

lemma expire_gives:
  assumes H: "onlooker H" and w: "in_order H w" and rep: "tw_rep (w_wheel w) (ks @ a # as)"
    and e: "tw_heap (w_wheel w) a = Some e"
    and may: "te_canceled e \<or> te_cb e = None \<or>
      (\<exists>cb c k. te_cb e = Some cb \<and> conn_cb cb \<and> te_data e = Some c \<and> h_conn w c = Some k \<and> may_fire H cb a c k w)"
  shows "gives (in_order H) (expire H (link_of ks) a w)"
proof -
  obtain v where v: "tw_store (link_of ks) (te_next e) (w_wheel w) = Some v" "sound {a} (others a (owner e)) H (w\<lparr>w_wheel := v\<rparr>)"
    "\<And>t x. tw_heap v t = Some x \<Longrightarrow> \<exists>y n. tw_heap (w_wheel w) t = Some y \<and> x = y\<lparr>te_next := n\<rparr>"
    by (rule unlink_sound [OF w rep e]) (rule that)
  let ?w = "w\<lparr>w_wheel := v\<rparr>"
  have "gives (sound {a} (\<lambda>_. {a}) H) (case te_cb e of
      Some cb \<Rightarrow> if te_canceled e then Some ?w else fire H cb (te_data e) ?w | None \<Rightarrow> Some ?w)"
  proof (cases "te_canceled e \<or> te_cb e = None")
    case True
    then have "owner e = None" by (auto simp: owner_def split: option.split)
    then show ?thesis using True v(2) by (auto simp: others_def split: option.split)
  next
    case False
    then obtain cb c k where f: "te_cb e = Some cb" "conn_cb cb" "te_data e = Some c" "h_conn w c = Some k" "may_fire H cb a c k w"
      using may by auto
    have own: "owner e = (if state_cb cb then Some c else None)" using False f by (simp add: owner_def)
    have "last_timer a c ?w" if "last_timer a c w"
      unfolding last_timer_def
    proof (intro allI impI)
      fix t x b assume x: "tw_heap (w_wheel ?w) t = Some x" "\<not> te_canceled x" "te_cb x = Some b" "conn_cb b" "te_data x = Some c"
      obtain y n where "tw_heap (w_wheel w) t = Some y" "x = y\<lparr>te_next := n\<rparr>" using v(3) x(1) by fastforce
      then show "t = a" using that x by (simp add: last_timer_def)
    qed
    then have "may_fire H cb a c k ?w"
      using f(2,5) by (auto simp: may_fire_def closable_def w_now_def conn_cb_def state_cb_def split: if_splits)
    then have "gives (sound {a} ((others a (owner e))(c := {a})) H) (fire H cb (Some c) ?w)"
      by (intro fire_gives [OF H, where k = k]) (use v(2) f own in \<open>auto simp: live_def others_def\<close>)
    moreover have "(others a (owner e))(c := {a}) = (\<lambda>_. {a})" by (auto simp: own others_def fun_eq_iff)
    ultimately show ?thesis using False f by simp
  qed
  then show ?thesis
    unfolding expire_def e bind.bind_lunit
    by (simp add: tw_on_def v(1)) (erule gives_bind, drule free_sound, simp add: tw_on_def)
qed

section \<open>Answers and openings\<close>

lemma answer_gives:
  assumes w: "sound F G H w" and key: "0 \<le> key"
  shows "gives (sound F G H) (trip_resolve H key src err msg w)"
proof -
  let ?q = "r_resolveq (w_router w)"
  obtain q where q: "resolveq_pop key ?q = Some (case rq_abs ?q key of None \<Rightarrow> None | Some d \<Rightarrow> d, q)"
    "resolveq_ok q" "rq_abs q = (rq_abs ?q)(key := None)"
    using resolveq_pop_ok [of ?q key] w key by (auto simp: sound_def)
  let ?w = "rt_upd (\<lambda>r. r\<lparr>r_resolveq := q\<rparr>) w"
  have "resolving q (h_conn w)" using w q(3) by (simp add: sound_def resolving_def)
  then have s: "sound F G H ?w" by (rule sound_resolve [OF w q(2)])
  have found: "gives (sound F G H) (do { w \<leftarrow> tripc_cancel_timeout a ?w;
      w \<leftarrow> conn_upd a (\<lambda>k. k\<lparr>c_src := src\<rparr>) w;
      if err = EOK \<and> msg = None then map_option snd (trip_set_timeout_priv H 0 (Some a) CB_resolve_success w)
      else do { w \<leftarrow> tripc_set_error H a err msg w;
                map_option snd (trip_set_timeout_priv H 0 (Some a) CB_resolve_failure w) } })"
    if "rq_abs ?q key = Some (Some a)" for a
  proof -
    have "resolving ?q (h_conn w)" using w by (simp add: sound_def)
    then have "\<exists>k. h_conn w a = Some k" using that by (auto simp: resolving_def)
    then have lv: "live F G H a (\<lambda>_. True) ?w" using s by (simp add: live_def)
    have set: "gives (sound F G H) (map_option snd (trip_set_timeout_priv H 0 (Some a) cb v))" if "live F G H a (\<lambda>_. True) v" for cb v
      by (rule gives_map, rule gives_mono [OF set_timeout_gives [OF that]]) (simp, blast intro: live_sound)
    show ?thesis
      by (intro gives_bind [OF conn_cancel_gives [OF lv]] gives_bind [OF upd_gives [where P = "\<lambda>_. True" and Q = "\<lambda>_. True"]]
          gives_bind [OF set_error_gives] gives_if set) (auto simp: conn_sound_def same_place_def)
  qed
  show ?thesis
    unfolding trip_resolve_def q(1) bind.bind_lunit prod.case Let_def
    by (intro gives_case_option givesI s) (auto simp: found split: option.splits)
qed

lemma open_gives:
  assumes w: "sound F G H w" and out: "has_flag FLAG_ALLOW_OUT w"
    and room: "cm_size (r_conn (w_router w)) \<noteq> unat (connmap_max (r_conn (w_router w)))"
      "rq_size (r_resolveq (w_router w)) \<noteq> INT_MAX"
  shows "gives (sound F G H) (trip_open_connection H data len info w)"
proof -
  let ?a = "w_brk w" and ?q = "r_resolveq (w_router w)"
  have al: "\<And>n. ho_alloc H n" using w by (simp add: sound_def runs_fine_def)
  obtain key q where q: "resolveq_put True (Some ?a) ?q = Some (key, q)" "resolveq_ok q" "rq_abs q = (rq_abs ?q)(key \<mapsto> Some ?a)"
    using resolveq_put_ok [of ?q True "Some ?a"] w room(2) by (auto simp: sound_def split: if_splits)
  let ?k = "(tripc_init_rec H (w_router w) False)\<lparr>c_data := data, c_ilen := len, c_info := info\<rparr>"
  let ?v = "w\<lparr>w_tick := Suc (Suc (w_tick w))\<rparr>"
  let ?u1 = "?v\<lparr>w_brk := Suc ?a, h_conn := (h_conn w)(?a \<mapsto> ?k\<lparr>c_resolvekey := key\<rparr>)\<rparr>"
  let ?u = "rt_upd (\<lambda>r. r\<lparr>r_resolveq := q\<rparr>) ?u1"
  have sk: "conn_sound T (?k\<lparr>c_resolvekey := key\<rparr>)" "\<not> c_insend (?k\<lparr>c_resolvekey := key\<rparr>)" for T
    by (simp_all add: tripc_init_rec_def connection_zero_def conn_sound_def within_def connpeer_zero_def ping_zero_def)
  have "sound F G H ?v" using w by simp
  then have l1: "live F G H ?a (\<lambda>_. True) ?u1" using sound_new [of F G H ?v "?k\<lparr>c_resolvekey := key\<rparr>"] sk by simp
  have free: "h_conn w ?a = None" using w by (simp add: sound_def)
  have "resolving q (h_conn ?u1)" using w q(3) free by (fastforce simp: sound_def resolving_def)
  then have lu: "live F G H ?a (\<lambda>_. True) ?u" using sound_resolve [OF live_sound [OF l1] q(2)] by (simp add: live_def)
  have ent: "gives (\<lambda>r. (if fst r = EOK then live F G H ?a (\<lambda>_. True) (snd r) else \<exists>t. snd r = ?u\<lparr>w_tick := t\<rparr>) \<and>
      (cm_size (r_conn (w_router ?u)) \<noteq> unat (connmap_max (r_conn (w_router ?u))) \<longrightarrow> fst r = EOK)) (w_connmap_add H ?a ?u)"
  proof (rule enter_gives [OF lu])
    show "h_conn ?u ?a = Some (?k\<lparr>c_resolvekey := key\<rparr>)" by simp
    show "\<not> cm_holds (h_conn ?u) (r_conn (w_router ?u)) x ?a" for x
      using connmap_more_conns(2) [of "h_conn w" "r_conn (w_router w)" ?a "?k\<lparr>c_resolvekey := key\<rparr>" x ?a] w free
      by (auto simp: sound_def cm_holds_def conn_id_def)
  qed (rule al)
  let ?t = "w\<lparr>w_brk := Suc ?a, w_tick := Suc (Suc (w_tick w)), w_router := (w_router w)\<lparr>r_resolveq := q\<rparr>,
    h_conn := (h_conn w)(?a \<mapsto> ?k\<lparr>c_resolvekey := key\<rparr>)\<rparr>"
  have eq: "?t = ?u" by simp
  have "trip_open_connection H data len info w = do { (e, w) \<leftarrow> w_connmap_add H ?a ?t;
      if e \<noteq> EOK then fail_connection H ?a EBUSY w
      else do { (t, w) \<leftarrow> trip_set_timeout_priv H 0 (Some ?a) CB_open_connection w;
                if t = None then fail_connection H ?a ENOMEM w else Some w } }"
    using out al q(1)
    by (simp add: trip_open_connection_def trip_new_connection_def w_new_def tripc_init_def conn_upd_def heap_upd_def w_ok_def)
  note run = this [unfolded eq]
  show ?thesis
    unfolding run
  proof (rule gives_bind [OF ent])
    fix r :: "errno \<times> world"
    assume r: "(if fst r = EOK then live F G H ?a (\<lambda>_. True) (snd r) else \<exists>t. snd r = ?u\<lparr>w_tick := t\<rparr>) \<and>
      (cm_size (r_conn (w_router ?u)) \<noteq> unat (connmap_max (r_conn (w_router ?u))) \<longrightarrow> fst r = EOK)"
    then have e: "fst r = EOK" using room(1) by simp
    then have lv: "live F G H ?a (\<lambda>_. True) (snd r)" using r by simp
    have "gives (sound F G H) (trip_set_timeout_priv H 0 (Some ?a) CB_open_connection (snd r) \<bind>
        (\<lambda>(t, w). if t = None then fail_connection H ?a ENOMEM w else Some w))"
      by (rule gives_bind [OF set_timeout_gives [OF lv]]) (auto simp: live_sound)
    then show "gives (sound F G H) (case r of (e, w) \<Rightarrow> if e \<noteq> EOK then fail_connection H ?a EBUSY w
        else do { (t, w) \<leftarrow> trip_set_timeout_priv H 0 (Some ?a) CB_open_connection w;
                if t = None then fail_connection H ?a ENOMEM w else Some w })"
      using e by (cases r) simp
  qed
qed

section \<open>The property\<close>

lemma perform_gives:
  assumes H: "onlooker H" "orderly_screen {} (\<lambda>_. {}) H" "sodium_laws (ho_crypto H)" "gives_bytes H"
    and w: "in_order H w" and ev: "allowed H ev w"
  shows "gives (in_order H) (perform H ev w)"
proof (cases ev)
  case (Packet src len buf)
  then show ?thesis
    using packet_gives [OF w H(2-4), of len buf src] ev by (simp add: allowed_def perform_def)
next
  case (Opening data len info)
  then show ?thesis using open_gives [OF w] ev by (simp add: allowed_def perform_def)
next
  case (Answer key src err msg)
  then show ?thesis using answer_gives [OF w] ev by (simp add: allowed_def perform_def)
next
  case (Expiry prev a)
  obtain ks as e where e: "tw_rep (w_wheel w) (ks @ a # as)" "prev = link_of ks" "tw_heap (w_wheel w) a = Some e"
    "te_canceled e \<or> te_cb e = None \<or>
      (\<exists>cb c k. te_cb e = Some cb \<and> conn_cb cb \<and> te_data e = Some c \<and> h_conn w c = Some k \<and> may_fire H cb a c k w)"
    using ev by (auto simp: allowed_def Expiry)
  show ?thesis using expire_gives [OF H(1) w e(1,3,4)] by (simp add: perform_def Expiry e(2))
qed

text \<open>C3: The library cannot lose its memory, in whatever order allowed events come. Take any
  sequence of packets, openings of connections, answers of the resolver and expiries of the
  timers of connections, each allowed when those before it have been dealt with. If every
  allocation succeeds (\<open>runs_fine\<close>, part of \<open>in_order\<close>) and the program's callbacks only look
  on, then from a world in order every one of them is carried out to its end without a step that
  C leaves undefined, and leaves the world in order: nothing is used after it was freed, nothing
  is freed twice, no timer goes off for a connection that is gone, no connection keeps a timer
  that is gone. The conditions of \<open>allowed\<close> are those under which the code is right: packets as
  in \<open>packet_keeps_order\<close> (long enough for what they claim, no ping before the keys, a source
  that is not negative), room in the connection map and a key left for a new connection, keys of
  answers that are not negative, and connections closed by a timer only when they are not queued
  and wait for no other timer or answer.\<close>

theorem events_keep_order:
  assumes "onlooker H" "orderly_screen {} (\<lambda>_. {}) H" "sodium_laws (ho_crypto H)" "gives_bytes H"
    "in_order H w" "all_allowed H evs w"
  shows "\<exists>w'. performs H evs w = Some w' \<and> in_order H w'"
  using assms(5,6)
proof (induction evs arbitrary: w)
  case (Cons ev evs)
  then obtain v where v: "perform H ev w = Some v" "in_order H v"
    using perform_gives [OF assms(1-4), of w ev] by (auto simp: gives_def)
  with Cons show ?case by simp
qed simp

text \<open>
  A connection is opened, its timer goes off, so that the resolver is asked, the answer comes, and
  then a packet.
\<close>

lemma serving_fields:
  "has_flag FLAG_ALLOW_OUT serving_world" "w_tick serving_world = 0" "rq_size (r_resolveq (w_router serving_world)) = 0"
  "r_conn (w_router serving_world) =
     \<lparr>cm_mask = 3, cm_size = 1, cm_cap = 1, cm_map = Some [Used 1], cm_free = None\<rparr>"
  by (simp_all add: has_flag_def serving_world_def opening_world_def listening_world_def blank_world_def router_zero_def
      FLAG_ALLOW_OUT_def)

lemma serving_opens:
  obtains v k i where "perform (still_host 0) (Opening None 0 None) serving_world = Some v"
    "w_wheel v = wheel_push 3 (timer_at (still_host 0) i 0 (Some 2) CB_open_connection None) (w_wheel serving_world)"
    "h_conn v 2 = Some k"
proof -
  have put: "resolveq_put True (Some 2) resolveq_init =
      Some (0, \<lparr>rq_len = 1, rq_size = 1, rq_map = Some [Used (Some 2)], rq_free = None\<rparr>)" by code_simp
  have grow: "connmap_grow True \<lparr>cm_mask = 3, cm_size = Suc 0, cm_cap = Suc 0, cm_map = Some [Used (Suc 0)], cm_free = None\<rparr> =
      Some (EOK, \<lparr>cm_mask = 3, cm_size = 1, cm_cap = 2, cm_map = Some [Used 1, Free None], cm_free = Some 1\<rparr>)" by code_simp
  have pop: "connmap_pop \<lparr>cm_mask = 3, cm_size = Suc 0, cm_cap = 2, cm_map = Some [Used (Suc 0), Free None], cm_free = Some (Suc 0)\<rparr> =
      Some (1, \<lparr>cm_mask = 3, cm_size = 1, cm_cap = 2, cm_map = Some [Used 1, Free None], cm_free = None\<rparr>)" by code_simp
  have still: "ho_alloc (still_host 0) n" "ho_rand (still_host 0) n = of_nat n" for n by (simp_all add: still_host_def)
  let ?k = "tripc_init_rec (still_host 0) (w_router serving_world) False"
  let ?u = "serving_world\<lparr>w_brk := 3, w_tick := Suc (Suc (Suc (Suc (Suc 0)))),
    w_router := (w_router serving_world)\<lparr>r_resolveq := \<lparr>rq_len = 1, rq_size = 1, rq_map = Some [Used (Some 2)], rq_free = None\<rparr>,
      r_conn := \<lparr>cm_mask = 3, cm_size = Suc (Suc 0), cm_cap = 2, cm_map = Some [Used (Suc 0), Used 2], cm_free = None\<rparr>\<rparr>,
    h_conn := [Suc 0 \<mapsto> opening_conn, 2 \<mapsto> ?k\<lparr>c_data := None, c_ilen := 0, c_info := None, c_resolvekey := 0,
      c_self := (c_self ?k)\<lparr>self_id := 1 XOR connmap_random 3 4 AND - 4\<rparr>\<rparr>]\<rparr>"
  have run: "perform (still_host 0) (Opening None 0 None) serving_world =
      trip_set_timeout_priv (still_host 0) 0 (Some 2) CB_open_connection ?u \<bind>
        (\<lambda>(t, w). if t = None then fail_connection (still_host 0) 2 ENOMEM w else Some w)"
    by (simp add: perform_def trip_open_connection_def serving_fields trip_new_connection_def w_new_def serving_simps still
        tripc_init_def conn_upd_def heap_upd_def w_ok_def w_connmap_add_def w_rand_def connmap_add_def grow pop put)
  have "runs_fine (still_host 0) (w_router ?u)"
    using serving_sound [of 0] by (simp add: sound_def runs_fine_def)
  then obtain n p i where t: "trip_set_timeout_priv (still_host 0) 0 (Some 2) CB_open_connection ?u = Some (Some (w_brk ?u),
      ?u\<lparr>w_brk := Suc (w_brk ?u),
        w_wheel := wheel_push (w_brk ?u) (timer_at (still_host 0) i 0 (Some 2) CB_open_connection (tw_head (w_wheel ?u))) (w_wheel ?u),
        w_tick := n, w_router := (w_router ?u)\<lparr>r_poll := Some p\<rparr>\<rparr>)"
    by (rule set_timeout_wheel)
  show thesis by (rule that [OF run [unfolded t, simplified]]) (simp_all add: serving_simps)
qed

theorem events_keep_order_witness:
  "\<exists>w'. performs (still_host 0) [Opening None 0 None, Expiry None 3, Answer 0 7 EOK None,
      Packet 7 80 (0x80 # replicate 79 0)] serving_world = Some w' \<and> in_order (still_host 0) w'"
proof (rule events_keep_order [OF _ still_orderly(1,3,2) serving_sound])
  show "onlooker (still_host 0)" by (simp add: onlooker_def still_host_def looks_def)
  have p: "seg_prefix (ho_crypto (still_host 0)) 80 (0x80 # replicate 79 0) =
      Some (\<lparr>px_encrypted = True, px_control = 0, px_id = 0, px_seq = 0\<rparr>, 10)"
    by (simp add: still_host_def) code_simp
  have "long_enough (ho_crypto (still_host 0)) 80 (0x80 # replicate 79 0)"
    by (simp add: long_enough_def p CONTROL_OPEN_def) (simp add: still_host_def sodium_def)
  moreover have "pings_known (ho_crypto (still_host 0)) 80 (0x80 # replicate 79 0) w" for w
    by (simp add: pings_known_def p CONTROL_PING_def)
  ultimately have packet: "allowed (still_host 0) (Packet 7 80 (0x80 # replicate 79 0)) w" for w
    by (simp add: allowed_def)
  have first: "allowed (still_host 0) (Opening None 0 None) serving_world"
    by (simp add: allowed_def serving_fields connmap_max_def INT_MAX_def)
  obtain v k i where v: "perform (still_host 0) (Opening None 0 None) serving_world = Some v"
    "w_wheel v = wheel_push 3 (timer_at (still_host 0) i 0 (Some 2) CB_open_connection None) (w_wheel serving_world)"
    "h_conn v 2 = Some k" by (rule serving_opens)
  have "tw_rep (w_wheel v) ([] @ 3 # [])"
    by (simp add: v(2) serving_simps tw_rep_def chain_Cons timer_at_def)
  moreover have "tw_heap (w_wheel v) 3 = Some (timer_at (still_host 0) i 0 (Some 2) CB_open_connection None)" by (simp add: v(2))
  moreover have "te_cb (timer_at (still_host 0) i 0 (Some 2) CB_open_connection None) = Some CB_open_connection"
    "te_data (timer_at (still_host 0) i 0 (Some 2) CB_open_connection None) = Some 2" by (simp_all add: timer_at_def)
  moreover have "conn_cb CB_open_connection" "may_fire (still_host 0) CB_open_connection 3 2 k v"
    by (simp_all add: conn_cb_def may_fire_def)
  moreover have "link_of [] = None" by (simp add: link_of_def)
  ultimately have timer: "allowed (still_host 0) (Expiry None 3) v"
    using v(3) unfolding allowed_def event.case by metis
  have "allowed (still_host 0) (Answer 0 7 EOK None) w" for w by (simp add: allowed_def)
  with packet first timer v(1) show "all_allowed (still_host 0) [Opening None 0 None, Expiry None 3, Answer 0 7 EOK None,
      Packet 7 80 (0x80 # replicate 79 0)] serving_world"
    by (simp only: all_allowed.simps) simp
qed

end
