(* ===== verification/Draining.thy ===== *)
theory Draining
  imports Handshake
begin

text \<open>
  The send loop of \<open>_trip_listen\<close> (\<open>src/trip.c\<close>) ends: with a socket that takes what it is
  given, one call hands the socket the packet of every connection in the handshake that is
  queued, once, in the order of the queue, and leaves the queue empty.
\<close>

section \<open>A connection's turn\<close>

text \<open>A connection in the handshake, able to say what it has to if it has to say something.\<close>

definition due :: "connection \<Rightarrow> bool" where
  "due k \<longleftrightarrow> (c_state k = CS_OPEN \<or> c_state k = CS_CHAL) \<and> (c_hassend k \<longrightarrow> speaks k)"

text \<open>After its turn: the next sequence number, and nothing to send.\<close>

definition said :: "connection \<Rightarrow> connection" where
  "said k = (if c_hassend k
     then k\<lparr>c_self := (c_self k)\<lparr>self_sequence := self_sequence (c_self k) + 1\<rparr>, c_hassend := False\<rparr> else k)"

definition drained :: "connection \<Rightarrow> connection" where
  "drained k = said (k\<lparr>c_next := None, c_insend := False\<rparr>)"

text \<open>
  The octets of the packet a connection says hello with, from the reference encoding of what
  it says; and what its turn hands to the network: that packet if it has something to send.
\<close>

definition hello_of :: "crypto \<Rightarrow> connection \<Rightarrow> bytes \<Rightarrow> bool" where
  "hello_of cr k packet \<longleftrightarrow> (\<exists>p bd outs f.
     if c_state k = CS_OPEN
     then says cr (open_control k) (self_id (c_self k)) (c_self k) p bd outs f \<and>
       packet = hello_octets cr (p @ [0, 0, 0]) bd (self_signsk (c_self k))
     else says cr (chal_control k) (peer_id (c_peer k)) (c_self k) p bd outs f \<and>
       packet = hello_octets cr p bd (self_signsk (c_self k)))"

definition handed :: "crypto \<Rightarrow> connection \<Rightarrow> (int \<times> bytes) list \<Rightarrow> bool" where
  "handed cr k ps \<longleftrightarrow>
     (if c_hassend k then \<exists>packet. ps = [(c_src k, packet)] \<and> hello_of cr k packet else ps = [])"

text \<open>One packet for each connection of a list that has something to send, in order.\<close>

definition handed_all :: "crypto \<Rightarrow> connection list \<Rightarrow> (int \<times> bytes) list \<Rightarrow> bool" where
  "handed_all cr ks ps \<longleftrightarrow>
     list_all2 (\<lambda>k p. fst p = c_src k \<and> hello_of cr k (snd p)) (filter c_hassend ks) ps"

lemma handed_all_Nil: "handed_all cr [] []"
  by (simp add: handed_all_def)

lemma handed_all_Cons: "handed cr k p \<Longrightarrow> handed_all cr ks ps \<Longrightarrow> handed_all cr (k # ks) (p @ ps)"
  by (auto simp: handed_def handed_all_def split: if_splits)

lemma handed_off [simp]: "handed cr (k\<lparr>c_next := None, c_insend := False\<rparr>) = handed cr k"
  by (rule ext) (simp add: handed_def hello_of_def open_control_def chal_control_def)

lemma handed_all_off:
  "handed_all cr (k\<lparr>c_next := None, c_insend := False\<rparr> # ks) ps \<longleftrightarrow> handed_all cr (k # ks) ps"
  by (simp add: handed_all_def hello_of_def open_control_def chal_control_def list_all2_Cons1)

lemma send_due:
  assumes cr: "sodium_sizes (ho_crypto H)" and k: "h_conn w c = Some k" "due k" "c_hassend k" and buf: "1200 \<le> length buf"
  obtains n buf' where "tripc_send H c 1200 buf w = Some (of_nat n, buf', sent_one c k w)" "0 < n" "n < 1000"
    "length buf' = length buf" "hello_of (ho_crypto H) k (take n buf')"
proof -
  have sp: "self_sequence (c_self k) < 256" "copy_or_zero 24 (self_nonce (c_self k)) \<noteq> None"
    "copy_or_zero 32 (self_pk (c_self k)) \<noteq> None"
    using k by (simp_all add: due_def speaks_def)
  have sz: "sodium_laws (ho_crypto H)" "sealbytes (ho_crypto H) = 48" "signbytes (ho_crypto H) = 64"
    using cr by (simp_all add: sodium_sizes_def)
  consider "c_state k = CS_OPEN" | "c_state k = CS_CHAL" using k(2) by (auto simp: due_def)
  then show thesis
  proof cases
    case 1
    obtain p bd outs f where s: "says (ho_crypto H) (open_control k) (self_id (c_self k)) (c_self k) p bd outs f"
      by (rule says_ex [OF cr sp])
    have "hello_of (ho_crypto H) k (hello_octets (ho_crypto H) (p @ [0, 0, 0]) bd (self_signsk (c_self k)))"
      unfolding hello_of_def using 1 s by (intro exI [of _ p] exI [of _ bd] exI [of _ outs] exI [of _ f]) simp
    then show thesis
      by (intro that [OF send_open_octets [OF cr k(1) 1 k(3) s buf refl]])
        (use s sz buf in \<open>auto simp: says_def\<close>)
  next
    case 2
    obtain p bd outs f where s: "says (ho_crypto H) (chal_control k) (peer_id (c_peer k)) (c_self k) p bd outs f"
      by (rule says_ex [OF cr sp])
    have "hello_of (ho_crypto H) k (hello_octets (ho_crypto H) p bd (self_signsk (c_self k)))"
      unfolding hello_of_def using 2 s by (intro exI [of _ p] exI [of _ bd] exI [of _ outs] exI [of _ f]) simp
    then show thesis
      by (intro that [OF send_chal_octets [OF cr k(1) 2 k(3) s buf refl]])
        (use s sz buf in \<open>auto simp: says_def\<close>)
  qed
qed

lemma send_idle:
  assumes "h_conn w c = Some k" "due k" "\<not> c_hassend k"
  shows "tripc_send H c len buf w = Some (0, buf, w)"
  using assms by (auto simp: tripc_send_def send_once_def due_def)

lemma buf_sendlen: "r\<lparr>r_buf := b, r_sendlen := n\<rparr> = r\<lparr>r_sendlen := n, r_buf := b\<rparr>" for r :: router
  by (rule router.equality) simp_all

text \<open>A router with its buffer, and a packet interface whose socket is never full.\<close>

definition takes_all :: "host \<Rightarrow> bool" where
  "takes_all H \<longleftrightarrow>
     (\<forall>src n b v. ho_send H src n b v = Some (EOK, v\<lparr>w_sent := w_sent v @ [(src, take (unat n) b)]\<rparr>))"

definition outgoing :: "host \<Rightarrow> packet \<Rightarrow> router \<Rightarrow> bool" where
  "outgoing H p r \<longleftrightarrow> sodium_sizes (ho_crypto H) \<and> takes_all H \<and>
     pkt_send p \<and> r_packet r = Some p \<and> (\<exists>b. r_buf r = Some b \<and> 1200 \<le> length b) \<and> r_buflen r = 1200 \<and>
     2 \<le> r_max_connection_send_count r"

lemma small_len:
  assumes "0 < m" "m < 1000"
  shows "(of_nat m :: u64) \<noteq> 0" "(of_nat m :: u64) \<noteq> NPOS"
proof -
  have u: "unat (of_nat m :: u64) = m" "unat (of_nat (Suc m) :: u64) = Suc m"
    by (rule small_u64; use assms in simp)+
  show "(of_nat m :: u64) \<noteq> 0" using u(1) assms(1) by auto
  show "(of_nat m :: u64) \<noteq> NPOS"
  proof
    assume "(of_nat m :: u64) = NPOS"
    then have "(of_nat (Suc m) :: u64) = 0" by (simp add: NPOS_def)
    then show False using u(2) by (simp only: unat_0)
  qed
qed

lemma conn_turn_due:
  assumes out: "outgoing H p (w_router w)" and k: "h_conn w c = Some k" "due k"
  obtains b ps where "conn_turn H (Some p) c (Suc (Suc n)) sent w =
      Some (SR_done, sent + (if c_hassend k then 1 else 0), w\<lparr>h_conn := (h_conn w)(c \<mapsto> said k),
        w_router := (w_router w)\<lparr>r_sendlen := 0, r_buf := Some b\<rparr>, w_sent := w_sent w @ ps\<rparr>)" "1200 \<le> length b"
    "handed (ho_crypto H) k ps"
proof -
  obtain b where b: "r_buf (w_router w) = Some b" "1200 \<le> length b" "r_buflen (w_router w) = 1200"
    using out by (auto simp: outgoing_def)
  have NP: "(0 :: u64) \<noteq> NPOS" by (simp add: NPOS_def)
  show thesis
  proof (cases "c_hassend k")
    case False
    have "conn_turn H (Some p) c (Suc (Suc n)) sent w =
      Some (SR_done, sent, w\<lparr>w_router := (w_router w)\<lparr>r_sendlen := 0, r_buf := Some b\<rparr>\<rparr>)"
      using send_idle [OF k False] NP b by (simp add: r_buffer_def)
    moreover have "w\<lparr>h_conn := (h_conn w)(c \<mapsto> said k)\<rparr> = w"
      using False k(1) by (simp add: said_def fun_upd_idem)
    moreover have "w\<lparr>w_sent := w_sent w @ []\<rparr> = w" by simp
    ultimately show thesis using that [where b = b and ps = "[]"] False b(2) k(1) by (simp add: said_def fun_upd_idem handed_def)
  next
    case True
    have cr: "sodium_sizes (ho_crypto H)" using out by (simp add: outgoing_def)
    obtain m b' where m: "tripc_send H c 1200 b w = Some (of_nat m, b', sent_one c k w)" "0 < m" "m < 1000"
      "length b' = length b" "hello_of (ho_crypto H) k (take m b')"
      by (rule send_due [OF cr k True b(2)])
    let ?k = "k\<lparr>c_self := (c_self k)\<lparr>self_sequence := self_sequence (c_self k) + 1\<rparr>, c_hassend := False\<rparr>"
    let ?ps = "[(c_src k, take m b')]"
    let ?w = "w\<lparr>h_conn := (h_conn w)(c \<mapsto> ?k), w_router := (w_router w)\<lparr>r_sendlen := 0, r_buf := Some b'\<rparr>,
      w_sent := w_sent w @ ?ps\<rparr>"
    have um: "unat (of_nat m :: u64) = m" by (rule small_u64) (use m(3) in simp)
    have n0: "(of_nat m :: u64) \<noteq> 0" "(of_nat m :: u64) \<noteq> NPOS" using small_len m(2,3) by blast+
    have send: "ho_send H src x y v = Some (EOK, v\<lparr>w_sent := w_sent v @ [(src, take (unat x) y)]\<rparr>)" for src x y v
      using out by (simp add: outgoing_def takes_all_def)
    let ?v = "w\<lparr>h_conn := (h_conn w)(c \<mapsto> ?k), w_sent := w_sent w @ ?ps, w_router := (w_router w)\<lparr>r_sendlen := 0, r_buf := Some b'\<rparr>\<rparr>"
    have v: "?v = ?w" by simp
    have "tripc_send H c 1200 b' ?v = Some (0, b', ?v)"
      by (rule send_idle [of ?v c ?k]) (use k(2) in \<open>simp_all add: due_def\<close>)
    then have "conn_turn H (Some p) c (Suc (Suc n)) sent w = Some (SR_done, sent + 1, ?v)"
      using m(1) n0 NP b out send um
      by (simp add: r_buffer_def call_send_def outgoing_def buf_sendlen)
    then have "conn_turn H (Some p) c (Suc (Suc n)) sent w = Some (SR_done, sent + 1, ?w)" unfolding v .
    then show thesis using that [where b = b' and ps = ?ps] True m(4,5) b(2) by (simp add: said_def handed_def)
  qed
qed

section \<open>The loop\<close>

lemma dq_exact:
  assumes "sq_rep q h (c # cs)" "h c = Some k"
  obtains q' where "sendq_dq q h = Some (Some c, q', h(c \<mapsto> k\<lparr>c_next := None, c_insend := False\<rparr>))"
    "sq_rep q' (h(c \<mapsto> k\<lparr>c_next := None, c_insend := False\<rparr>)) cs"
proof -
  obtain q' h' where q: "sendq_dq q h = Some (Some c, q', h')" "sq_rep q' h' cs"
    by (rule sendq_dq_rep [OF assms(1)])
  moreover have "h' = h(c \<mapsto> k\<lparr>c_next := None, c_insend := False\<rparr>)"
    using q(1) assms by (auto simp: sendq_dq_def heap_upd_def Let_def split: option.splits)
  ultimately show thesis using that by blast
qed

lemma due_off [simp]: "due (k\<lparr>c_next := None, c_insend := False\<rparr>) \<longleftrightarrow> due k"
  by (simp add: due_def speaks_def)

text \<open>Taking the front connection off, as the world sees it.\<close>

definition dequeued :: "sendq \<Rightarrow> addr \<Rightarrow> connection \<Rightarrow> world \<Rightarrow> world" where
  "dequeued q c k w = (rt_upd (\<lambda>r. r\<lparr>r_sendq := q\<rparr>) w)\<lparr>h_conn := (h_conn w)(c \<mapsto> k\<lparr>c_next := None, c_insend := False\<rparr>)\<rparr>"

lemma dequeued_simps [simp]:
  "w_router (dequeued q c k w) = (w_router w)\<lparr>r_sendq := q\<rparr>"
  "h_conn (dequeued q c k w) = (h_conn w)(c \<mapsto> k\<lparr>c_next := None, c_insend := False\<rparr>)"
  "w_sent (dequeued q c k w) = w_sent w" "w_brk (dequeued q c k w) = w_brk w" "w_wheel (dequeued q c k w) = w_wheel w"
  by (simp_all add: dequeued_def)

lemma on_dq_eq:
  assumes "sends w (c # cs)" "h_conn w c = Some k"
  obtains q where "on_dq w = Some (Some c, dequeued q c k w)" "sends (dequeued q c k w) cs"
proof -
  obtain q where "sendq_dq (r_sendq (w_router w)) (h_conn w) =
      Some (Some c, q, (h_conn w)(c \<mapsto> k\<lparr>c_next := None, c_insend := False\<rparr>))"
    "sq_rep q ((h_conn w)(c \<mapsto> k\<lparr>c_next := None, c_insend := False\<rparr>)) cs"
    by (rule dq_exact [OF assms(1) [unfolded sends_def] assms(2)])
  then show thesis by (intro that [of q]) (simp_all add: on_dq_def sends_def dequeued_def)
qed

lemma on_dq_exact:
  assumes "sends w (c # cs)" "h_conn w c = Some k"
  obtains w' where "on_dq w = Some (Some c, w')" "sends w' cs"
    "h_conn w' = (h_conn w)(c \<mapsto> k\<lparr>c_next := None, c_insend := False\<rparr>)"
    "\<And>H p. outgoing H p (w_router w') \<longleftrightarrow> outgoing H p (w_router w)"
    "r_max_packet_send_count (w_router w') = r_max_packet_send_count (w_router w)" "w_sent w' = w_sent w"
proof -
  obtain q where "on_dq w = Some (Some c, dequeued q c k w)" "sends (dequeued q c k w) cs"
    by (rule on_dq_eq [OF assms])
  then show thesis by (intro that [where w' = "dequeued q c k w"]) (simp_all add: outgoing_def)
qed

lemma on_dq_none: "sends w [] \<Longrightarrow> on_dq w = Some (None, w)"
  using sendq_dq_empty by (fastforce simp: on_dq_def sends_def)

text \<open>One round: a turn, then the next connection.\<close>

lemma loop_turn:
  assumes out: "outgoing H p (w_router w)" and q: "sends w cs" "c \<notin> set cs" and k: "h_conn w c = Some k" "due k"
    and max: "unat sent < unat (r_max_packet_send_count (w_router w))"
  obtains w1 sent1 ps where "send_loop H (Some p) (Some c) sent w =
      Option.bind (on_dq w1) (\<lambda>d. send_loop H (Some p) (fst d) sent1 (snd d))"
    "sends w1 cs" "h_conn w1 = (h_conn w)(c \<mapsto> said k)" "outgoing H p (w_router w1)" "unat sent1 \<le> Suc (unat sent)"
    "r_max_packet_send_count (w_router w1) = r_max_packet_send_count (w_router w)"
    "w_sent w1 = w_sent w @ ps" "handed (ho_crypto H) k ps"
proof -
  have "2 \<le> unat (r_max_connection_send_count (w_router w))"
    using out by (simp add: outgoing_def word_le_nat_alt)
  then obtain n where n: "unat (r_max_connection_send_count (w_router w)) = Suc (Suc n)"
    by (metis One_nat_def Suc_1 Suc_le_D Suc_le_mono)
  let ?s = "sent + (if c_hassend k then 1 else 0)"
  obtain b ps where t: "conn_turn H (Some p) c (Suc (Suc n)) sent w =
      Some (SR_done, ?s, w\<lparr>h_conn := (h_conn w)(c \<mapsto> said k), w_router := (w_router w)\<lparr>r_sendlen := 0, r_buf := Some b\<rparr>,
        w_sent := w_sent w @ ps\<rparr>)"
    "1200 \<le> length b" "handed (ho_crypto H) k ps"
    by (rule conn_turn_due [OF out k])
  let ?w1 = "w\<lparr>h_conn := (h_conn w)(c \<mapsto> said k), w_router := (w_router w)\<lparr>r_sendlen := 0, r_buf := Some b\<rparr>,
    w_sent := w_sent w @ ps\<rparr>"
  have s: "unat ?s \<le> Suc (unat sent)" using max unat_add_of_nat [of sent 1] unsigned_less [of "r_max_packet_send_count (w_router w)", where 'a = nat] by auto
  then have "\<not> r_max_packet_send_count (w_router w) < ?s"
    using max by (simp add: word_less_nat_alt del: split_paired_All)
  then have run: "send_loop H (Some p) (Some c) sent w =
      Option.bind (on_dq ?w1) (\<lambda>d. send_loop H (Some p) (fst d) ?s (snd d))"
    using t(1) n by (subst send_loop.simps) simp
  have "sends ?w1 cs"
    using q(1) sq_rep_same [of "r_sendq (w_router w)" "h_conn w" cs c k "said k"] k(1) by (simp add: sends_def said_def)
  moreover have "outgoing H p (w_router ?w1)" using out t(2) by (simp add: outgoing_def)
  ultimately show thesis using that run s t(3) by simp
qed

lemma send_loop_drains:
  assumes "outgoing H p (w_router w)" "sends w cs" "h_conn w c = Some k" "due k" "c \<notin> set cs"
    "\<And>d. d \<in> set cs \<Longrightarrow> \<exists>x. h_conn w d = Some x \<and> due x"
    "unat sent + Suc (length cs) \<le> unat (r_max_packet_send_count (w_router w))"
  shows "\<exists>w' ps. send_loop H (Some p) (Some c) sent w = Some w' \<and> sends w' [] \<and>
    h_conn w' = (\<lambda>d. if d = c then Some (said k) else if d \<in> set cs then map_option drained (h_conn w d) else h_conn w d) \<and>
    w_sent w' = w_sent w @ ps \<and> handed_all (ho_crypto H) (k # map (\<lambda>d. the (h_conn w d)) cs) ps"
  using assms
proof (induction cs arbitrary: c k sent w)
  case Nil
  obtain w1 sent1 ps where w1: "send_loop H (Some p) (Some c) sent w =
      Option.bind (on_dq w1) (\<lambda>d. send_loop H (Some p) (fst d) sent1 (snd d))"
    "sends w1 []" "h_conn w1 = (h_conn w)(c \<mapsto> said k)" "w_sent w1 = w_sent w @ ps" "handed (ho_crypto H) k ps"
    by (rule loop_turn [OF Nil.prems(1,2,5,3,4)]) (use Nil.prems(7) in auto)
  have "on_dq w1 = Some (None, w1)" by (rule on_dq_none [OF w1(2)])
  then have "send_loop H (Some p) (Some c) sent w = Some w1"
    unfolding w1(1) by (simp add: send_loop.simps)
  then show ?case
    using w1(2-4) handed_all_Cons [OF w1(5) handed_all_Nil] by (intro exI [of _ w1] exI [of _ ps]) auto
next
  case (Cons d ds)
  obtain w1 sent1 ps where w1: "send_loop H (Some p) (Some c) sent w =
      Option.bind (on_dq w1) (\<lambda>d. send_loop H (Some p) (fst d) sent1 (snd d))"
    "sends w1 (d # ds)" "h_conn w1 = (h_conn w)(c \<mapsto> said k)" "outgoing H p (w_router w1)" "unat sent1 \<le> Suc (unat sent)"
    "r_max_packet_send_count (w_router w1) = r_max_packet_send_count (w_router w)"
    "w_sent w1 = w_sent w @ ps" "handed (ho_crypto H) k ps"
    by (rule loop_turn [OF Cons.prems(1,2,5,3,4)]) (use Cons.prems(7) in auto)
  obtain x where x: "h_conn w d = Some x" "due x" using Cons.prems(6) by auto
  have dc: "d \<noteq> c" "d \<notin> set ds"
    using Cons.prems(5) w1(2) by (auto simp: sends_def sq_rep_def chain_def)
  let ?x = "x\<lparr>c_next := None, c_insend := False\<rparr>"
  obtain w2 where w2: "on_dq w1 = Some (Some d, w2)" "sends w2 ds" "h_conn w2 = (h_conn w1)(d \<mapsto> ?x)"
    "\<And>H p. outgoing H p (w_router w2) \<longleftrightarrow> outgoing H p (w_router w1)"
    "r_max_packet_send_count (w_router w2) = r_max_packet_send_count (w_router w1)" "w_sent w2 = w_sent w1"
    by (rule on_dq_exact [OF w1(2), of x]) (use w1(3) x dc in simp_all)
  have "\<exists>w' qs. send_loop H (Some p) (Some d) sent1 w2 = Some w' \<and> sends w' [] \<and>
      h_conn w' = (\<lambda>e. if e = d then Some (said ?x) else if e \<in> set ds then map_option drained (h_conn w2 e) else h_conn w2 e) \<and>
      w_sent w' = w_sent w2 @ qs \<and> handed_all (ho_crypto H) (?x # map (\<lambda>e. the (h_conn w2 e)) ds) qs"
  proof (rule Cons.IH)
    show "\<exists>y. h_conn w2 e = Some y \<and> due y" if "e \<in> set ds" for e
      using that Cons.prems(5) Cons.prems(6) [of e] dc w1(3) w2(3) by auto
  qed (use w1 w2 x dc Cons.prems(7) in auto)
  then obtain w' qs where w': "send_loop H (Some p) (Some d) sent1 w2 = Some w'" "sends w' []"
    "h_conn w' = (\<lambda>e. if e = d then Some (said ?x) else if e \<in> set ds then map_option drained (h_conn w2 e) else h_conn w2 e)"
    "w_sent w' = w_sent w2 @ qs" "handed_all (ho_crypto H) (?x # map (\<lambda>e. the (h_conn w2 e)) ds) qs"
    by blast
  have "map (\<lambda>e. the (h_conn w2 e)) ds = map (\<lambda>e. the (h_conn w e)) ds"
    using dc Cons.prems(5) w1(3) w2(3) by auto
  then have "handed_all (ho_crypto H) (x # map (\<lambda>e. the (h_conn w e)) ds) qs"
    using w'(5) by (simp only: handed_all_off)
  then have out: "handed_all (ho_crypto H) (k # map (\<lambda>e. the (h_conn w e)) (d # ds)) (ps @ qs)"
    using handed_all_Cons [OF w1(8)] x(1) by simp
  have "send_loop H (Some p) (Some c) sent w = Some w'" unfolding w1(1) w2(1) using w'(1) by simp
  moreover have "h_conn w' = (\<lambda>e. if e = c then Some (said k) else if e \<in> set (d # ds) then map_option drained (h_conn w e) else h_conn w e)"
    using w'(3) w2(3) w1(3) x dc Cons.prems(5) by (auto simp: drained_def fun_eq_iff)
  moreover have "w_sent w' = w_sent w @ (ps @ qs)" using w'(4) w2(6) w1(7) by simp
  ultimately show ?case using w'(2) out by blast
qed

text \<open>C7: The send loop terminates and drains the queue. If the socket takes every packet, no more
  connections are queued than the router may send packets at once, a connection may be asked
  twice in its turn, and every connection queued is in the handshake and able to say what it
  has to, then one call hands to the socket, in the order of the queue and to the address of
  each, exactly one packet for every connection that has something to send, and nothing else:
  the opening packet or the challenge of the connection, octet for octet. Afterwards the queue
  is empty, each of these connections has used one sequence number and has nothing left to
  send, and no other connection has changed.\<close>

theorem send_drains:
  assumes "outgoing H p (w_router w)" "r_sendlen (w_router w) = 0" "sends w cs"
    "\<And>c. c \<in> set cs \<Longrightarrow> \<exists>k. h_conn w c = Some k \<and> due k"
    "length cs \<le> unat (r_max_packet_send_count (w_router w))"
  shows "\<exists>w' ps. trip_listen_out H w = Some w' \<and> sends w' [] \<and>
    (\<forall>c. h_conn w' c = (if c \<in> set cs then map_option drained (h_conn w c) else h_conn w c)) \<and>
    w_sent w' = w_sent w @ ps \<and>
    list_all2 (\<lambda>k p. fst p = c_src k \<and> hello_of (ho_crypto H) k (snd p))
      (filter c_hassend (map (\<lambda>c. the (h_conn w c)) cs)) ps"
proof (cases cs)
  case Nil
  have "on_dq w = Some (None, w)" by (rule on_dq_none [OF assms(3) [unfolded Nil]])
  then have "trip_listen_out H w = Some w"
    using assms(2) by (simp add: trip_listen_out_def trip_resend_def send_loop.simps Let_def)
  with assms(3) Nil show ?thesis by auto
next
  case (Cons c ds)
  obtain k where k: "h_conn w c = Some k" "due k" using assms(4) Cons by auto
  let ?k = "k\<lparr>c_next := None, c_insend := False\<rparr>"
  have c: "c \<notin> set ds" using assms(3) Cons by (auto simp: sends_def sq_rep_def chain_def)
  obtain w1 where w1: "on_dq w = Some (Some c, w1)" "sends w1 ds" "h_conn w1 = (h_conn w)(c \<mapsto> ?k)"
    "\<And>H p. outgoing H p (w_router w1) \<longleftrightarrow> outgoing H p (w_router w)"
    "r_max_packet_send_count (w_router w1) = r_max_packet_send_count (w_router w)" "w_sent w1 = w_sent w"
    by (rule on_dq_exact [OF assms(3) [unfolded Cons] k(1)]) (rule that)
  have "\<exists>w' ps. send_loop H (Some p) (Some c) 0 w1 = Some w' \<and> sends w' [] \<and>
      h_conn w' = (\<lambda>d. if d = c then Some (said ?k) else if d \<in> set ds then map_option drained (h_conn w1 d) else h_conn w1 d) \<and>
      w_sent w' = w_sent w1 @ ps \<and> handed_all (ho_crypto H) (?k # map (\<lambda>d. the (h_conn w1 d)) ds) ps"
  proof (rule send_loop_drains)
    show "\<exists>x. h_conn w1 d = Some x \<and> due x" if "d \<in> set ds" for d
      using that assms(4) [of d] c w1(3) Cons by auto
  qed (use w1 k c assms(1,5) Cons in auto)
  then obtain w' ps where w': "send_loop H (Some p) (Some c) 0 w1 = Some w'" "sends w' []"
      "h_conn w' = (\<lambda>d. if d = c then Some (said ?k) else if d \<in> set ds then map_option drained (h_conn w1 d) else h_conn w1 d)"
      "w_sent w' = w_sent w1 @ ps" "handed_all (ho_crypto H) (?k # map (\<lambda>d. the (h_conn w1 d)) ds) ps"
    by blast
  have "r_packet (w_router w) = Some p" using assms(1) by (simp add: outgoing_def)
  then have "trip_listen_out H w = Some w'"
    using assms(2) w1(1) w'(1) by (simp add: trip_listen_out_def trip_resend_def Let_def)
  moreover have "h_conn w' d = (if d \<in> set cs then map_option drained (h_conn w d) else h_conn w d)" for d
    using w'(3) w1(3) k(1) c Cons by (auto simp: drained_def)
  moreover have "map (\<lambda>d. the (h_conn w1 d)) ds = map (\<lambda>d. the (h_conn w d)) ds"
    using c w1(3) by auto
  then have "handed_all (ho_crypto H) (k # map (\<lambda>d. the (h_conn w d)) ds) ps"
    using w'(5) by (simp only: handed_all_off)
  then have "handed_all (ho_crypto H) (map (\<lambda>d. the (h_conn w d)) cs) ps" using Cons k(1) by simp
  ultimately show ?thesis using w'(2,4) w1(6) unfolding handed_all_def by auto
qed

text \<open>A connection that is queued with its opening packet.\<close>

definition queued_world :: world where
  "queued_world = (rt_upd (\<lambda>r. r\<lparr>r_buf := Some (replicate 1200 0), r_buflen := 1200, r_max_packet_send_count := 1024,
     r_max_connection_send_count := 128, r_sendq := \<lparr>sq_head = Some 1, sq_tail = Some 1\<rparr>\<rparr>) opening_world)
     \<lparr>h_conn := [1 \<mapsto> opening_conn\<lparr>c_insend := True\<rparr>]\<rparr>"

theorem send_drains_witness:
  "\<exists>w' k packet. trip_listen_out (network_host 0) queued_world = Some w' \<and> sends w' [] \<and>
     h_conn w' 1 = Some k \<and> \<not> c_hassend k \<and> self_sequence (c_self k) = 1 \<and>
     w_sent w' = [(0, packet)] \<and> hello_of sodium (opening_conn\<lparr>c_insend := True\<rparr>) packet"
proof -
  have cr: "ho_crypto (network_host 0) = sodium" by (simp add: network_host_def still_host_def)
  have "sodium_sizes sodium" using sodium_ok by (simp add: sodium_sizes_def) (simp add: sodium_def)
  moreover have "takes_all (network_host 0)" by (simp add: takes_all_def network_host_def network_send_def)
  ultimately have "outgoing (network_host 0) full_packet (w_router queued_world)"
    by (simp add: outgoing_def cr queued_world_def opening_world_def listening_world_def full_packet_def)
  moreover have "r_sendlen (w_router queued_world) = 0" "w_sent queued_world = []"
    by (simp_all add: queued_world_def opening_world_def listening_world_def blank_world_def router_zero_def)
  moreover have "sends queued_world [1]"
    by (simp add: sends_def queued_world_def sq_rep_def chain_Cons opening_conn_def connection_zero_def)
  moreover have "due (opening_conn\<lparr>c_insend := True\<rparr>)"
    by (simp add: due_def speaks_def opening_conn_def connection_zero_def connself_zero_def copy_or_zero_def)
  moreover have "h_conn queued_world 1 = Some (opening_conn\<lparr>c_insend := True\<rparr>)" by (simp add: queued_world_def)
  moreover have "c_hassend (opening_conn\<lparr>c_insend := True\<rparr>)" "c_src (opening_conn\<lparr>c_insend := True\<rparr>) = 0"
    by (simp_all add: opening_conn_def connection_zero_def)
  moreover have "1 \<le> unat (r_max_packet_send_count (w_router queued_world))" by (simp add: queued_world_def)
  ultimately obtain w' ps where "trip_listen_out (network_host 0) queued_world = Some w'" "sends w' []"
    "h_conn w' 1 = Some (drained (opening_conn\<lparr>c_insend := True\<rparr>))" "w_sent w' = ps"
    "list_all2 (\<lambda>k p. fst p = 0 \<and> hello_of sodium k (snd p)) [opening_conn\<lparr>c_insend := True\<rparr>] ps"
    using send_drains [of "network_host 0" full_packet queued_world "[1]"] by (auto simp: cr list_all2_Cons1)
  then show ?thesis
    by (auto simp: list_all2_Cons1 drained_def said_def opening_conn_def connection_zero_def connself_zero_def)
qed

end
