(* ===== verification/Reliable.thy ===== *)
theory Reliable
  imports Udp Trip_Poll Names
begin

text \<open>
  The program that exercises the library (\<open>src/test/reliable.c\<close>) and its packet interface
  (\<open>src/test/reliable_packet.c\<close>): one router that talks to itself. What it sends to one of two
  sources it receives from the other, within the call that sends.
\<close>

section \<open>The packet interface\<close>

text \<open>Changing the interface's own context.\<close>

definition rel_upd :: "(reliable \<Rightarrow> reliable) \<Rightarrow> world \<Rightarrow> world option" where
  "rel_upd f w =
     do { p \<leftarrow> r_packet (w_router w);
          x \<leftarrow> pkt_reliable p;
          Some (rt_upd (\<lambda>r. r\<lparr>r_packet := Some (p\<lparr>pkt_data := Some (Ctx_reliable (f x))\<rparr>)\<rparr>) w) }"

text \<open>
  A timer that sets itself again. Its data is the packet interface, which is not on a heap
  here; the callback is the program's number 0.
\<close>

definition reliable_set_timeout :: "host \<Rightarrow> world \<Rightarrow> world option" where
  "reliable_set_timeout H w =
     do { p \<leftarrow> r_packet (w_router w);
          _ \<leftarrow> pkt_reliable p;
          (t, w) \<leftarrow> trip_set_timeout H 50 None (CB_user 0) w;
          rel_upd (\<lambda>x. x\<lparr>rel_timer := t\<rparr>) w }"

definition reliable_timeout_cb :: "host \<Rightarrow> world \<Rightarrow> world option" where
  "reliable_timeout_cb H w = reliable_set_timeout H w"

definition reliable_bind :: "host \<Rightarrow> world \<Rightarrow> world option" where
  "reliable_bind H w =
     do { w \<leftarrow> trip_ready H w;
          w \<leftarrow> trip_watch H TRIP_SOCKET_TIMEOUT TRIP_INOUT w;
          reliable_set_timeout H w }"

definition reliable_unbind :: "host \<Rightarrow> world \<Rightarrow> world option" where
  "reliable_unbind H w =
     do { p \<leftarrow> r_packet (w_router w);
          x \<leftarrow> pkt_reliable p;
          w \<leftarrow> trip_cancel_timeout (rel_timer x) w;
          w \<leftarrow> rel_upd (\<lambda>x. x\<lparr>rel_timer := None\<rparr>) w;
          trip_unready H EOK w }"

definition reliable_resolve :: "host \<Rightarrow> int \<Rightarrow> u64 \<Rightarrow> bytes option \<Rightarrow> world \<Rightarrow> world option" where
  "reliable_resolve H rkey ilen info w =
     do { p \<leftarrow> r_packet (w_router w);
          x \<leftarrow> pkt_reliable p;
          if rel_c0 x = 0
          then do { w \<leftarrow> rel_upd (\<lambda>x. x\<lparr>rel_c0 := 1\<rparr>) w; trip_resolve H rkey 1 EOK None w }
          else trip_resolve H rkey 0 EBUSY None w }"

text \<open>What is sent is received at once, from the other of the two sources.\<close>

definition reliable_send :: "host \<Rightarrow> int \<Rightarrow> u64 \<Rightarrow> bytes \<Rightarrow> world \<Rightarrow> (errno \<times> world) option" where
  "reliable_send H src len buf w = do { w \<leftarrow> trip_seg H (src XOR 1) len buf w; Some (EOK, w) }"

definition reliable_read :: "int \<Rightarrow> u32 \<Rightarrow> world \<Rightarrow> (errno \<times> world) option" where
  "reliable_read s mx w = Some (EWOULDBLOCK, w)"

text \<open>
  The allocations are not checked; the pointer to the router is not set (\<open>junk\<close>).
\<close>

definition reliable_new :: "host \<Rightarrow> bool \<Rightarrow> world \<Rightarrow> (packet \<times> world) option" where
  "reliable_new H junk w =
     (let (okp, w) = w_ok H w; (okr, w) = w_ok H w in
      if \<not> okp \<or> \<not> okr then None
      else let (okb, w) = w_ok H w;
               x = \<lparr>rel_c0 = 0, rel_c1 = 0, rel_alen = 512, rel_len = 0,
                    rel_buf = (if okb then Some (ho_bytes H (w_tick w) 512) else None), rel_timer = None\<rparr>
           in Some (\<lparr>pkt_data = Some (Ctx_reliable x), pkt_bind = True, pkt_resolve = True, pkt_send = True,
                     pkt_read = True, pkt_unbind = True, pkt_router = junk\<rparr>, w\<lparr>w_tick := w_tick w + 1\<rparr>))"

definition reliable_free :: "packet option \<Rightarrow> unit option" where
  "reliable_free p = do { p \<leftarrow> p; _ \<leftarrow> pkt_reliable p; Some () }"

section \<open>The callbacks of the program\<close>

definition router_handle_screen :: "screen \<Rightarrow> world \<Rightarrow> (screen \<times> world) option" where
  "router_handle_screen screen w = Some (screen\<lparr>sc_allow := True\<rparr>, w)"

definition MSG :: bytes where "MSG = [101, 99, 104, 111, 0]"
definition MSGLEN :: u64 where "MSGLEN = of_nat (length MSG) - 1"

text \<open>Allocating and opening a stream, and sending on one: what is not initialised is \<open>junk\<close>.\<close>

definition new_stream :: "host \<Rightarrow> strm \<Rightarrow> addr \<Rightarrow> int \<Rightarrow> int \<Rightarrow> world \<Rightarrow> (ptr \<times> world) option" where
  "new_stream H junk c sid opts w =
     (let (a, w) = w_new H w; (ok, w) = w_ok H w in tripc_open_stream a junk ok c sid opts w)"

definition send_on :: "host \<Rightarrow> msg \<Rightarrow> addr \<Rightarrow> u64 \<Rightarrow> bytes option \<Rightarrow> world \<Rightarrow> (errno \<times> world) option" where
  "send_on H junk s len buf w = (let (a, w) = w_new H w in trips_send a junk s len buf w)"

definition TRIPS_OPT_ORDERED :: u32 where "TRIPS_OPT_ORDERED = push_bit 2 1"
definition TRIPS_OPT_RELIABLE :: u32 where "TRIPS_OPT_RELIABLE = push_bit 3 1"

definition router_handle_connection :: "host \<Rightarrow> strm \<Rightarrow> msg \<Rightarrow> addr \<Rightarrow> world \<Rightarrow> world option" where
  "router_handle_connection H js jm c w =
     do { k \<leftarrow> h_conn w c;
          case tripc_status k of
            CI_ERROR \<Rightarrow> map_option snd (tripc_get_errmsg H c w)
          | CO_OPEN \<Rightarrow>
              if c_data k = None
              then do {
                (s, w) \<leftarrow> new_stream H js c 0 (uint (TRIPS_OPT_PRIORITY OR TRIPS_OPT_ORDERED OR TRIPS_OPT_RELIABLE)) w;
                w \<leftarrow> conn_upd c (\<lambda>k. k\<lparr>c_data := s\<rparr>) w;
                s \<leftarrow> s;
                map_option snd (send_on H jm s MSGLEN (Some MSG) w) }
              else Some w
          | CO_ERROR \<Rightarrow> map_option snd (tripc_get_errmsg H c w)
          | _ \<Rightarrow> Some w }"

definition router_handle_stream :: "addr \<Rightarrow> world \<Rightarrow> world option" where
  "router_handle_stream s w = do { _ \<leftarrow> h_strm w s; Some w }"

text \<open>
  What arrives is printed as a C string, copied and sent back on a stream of the same number;
  what was sent is freed. The copy is not checked.
\<close>

definition router_handle_message ::
  "host \<Rightarrow> strm \<Rightarrow> msg \<Rightarrow> addr \<Rightarrow> message_status \<Rightarrow> u64 \<Rightarrow> bytes \<Rightarrow> world \<Rightarrow> world option" where
  "router_handle_message H js jm s status len buf w =
     do { _ \<leftarrow> c_strlen buf;
          case status of
            TRIPM_RECV \<Rightarrow>
              do { x \<leftarrow> h_strm w s;
                   (st, w) \<leftarrow> (case s_data x of
                       Some st \<Rightarrow> Some (Some st, w)
                     | None \<Rightarrow>
                         do { c \<leftarrow> s_connection x;
                              (st, w) \<leftarrow> new_stream H js c (trips_id x) (trips_type x) w;
                              w \<leftarrow> strm_upd s (\<lambda>x. x\<lparr>s_data := st\<rparr>) w;
                              Some (st, w) });
                   let (ok, w) = w_ok H w;
                   if \<not> ok \<and> len \<noteq> 0 then None
                   else do {
                     copybuf \<leftarrow> read_at 0 (unat len) buf;
                     st \<leftarrow> st;
                     map_option snd (send_on H jm st len (Some copybuf) w) } }
          | TRIPM_SENT \<Rightarrow> Some w
          | TRIPM_KILL \<Rightarrow> Some w }"

section \<open>The program\<close>

text \<open>
  The host of the program: its callbacks and its packet interface, which call a library whose
  own callbacks are those of \<open>B\<close>.
\<close>

definition reliable_host :: "host \<Rightarrow> host" where
  "reliable_host B = B\<lparr>ho_screen := router_handle_screen, ho_bind := reliable_bind B, ho_unbind := reliable_unbind B,
     ho_resolve := reliable_resolve B, ho_send := reliable_send B, ho_read := reliable_read,
     ho_timer := (\<lambda>n d w. if n = 0 then reliable_timeout_cb B w else ho_timer B n d w)\<rparr>"

record mydata =
  md_running :: bool
  md_stop :: bool
  md_stopdeadline :: u64

text \<open>
  The data is on the stack of \<open>main\<close>; \<open>d\<close> is its address. Read as an \<open>int\<close>, as the options
  do, it is not zero because its first member is true.
\<close>

definition router_init :: "epoll \<Rightarrow> host \<Rightarrow> bool \<Rightarrow> addr \<Rightarrow> world \<Rightarrow> (mydata \<times> world) option" where
  "router_init E H junk d w =
     do { let (dl, w) = w_deadline H 1000 w;
          let data = \<lparr>md_running = True, md_stop = False, md_stopdeadline = dl\<rparr>;
          let (ok, w) = trip_new H PRESET_ROUTER w;
          (p, w) \<leftarrow> reliable_new H junk w;
          if \<not> ok then None
          else do {
            (_, w) \<leftarrow> trip_setopt H (OPT_USER_DATA (Some d)) w;
            (_, w) \<leftarrow> trip_setopt H (OPT_SCREEN_CB True) w;
            (_, w) \<leftarrow> trip_setopt H (OPT_CONNECTION_CB True) w;
            (_, w) \<leftarrow> trip_setopt H (OPT_STREAM_CB True) w;
            (_, w) \<leftarrow> trip_setopt H (OPT_MESSAGE_CB True) w;
            (_, w) \<leftarrow> trip_setopt H (OPT_PACKET (Some p)) w;
            (_, w) \<leftarrow> trip_setopt H (OPT_ALLOW_PLAIN_OPEN (Some 1)) w;
            (_, w) \<leftarrow> trip_setopt H (OPT_ALLOW_PLAIN_ISIG (Some 1)) w;
            (_, w) \<leftarrow> trip_setopt H (OPT_ALLOW_PLAIN_OSIG (Some 1)) w;
            (_, w) \<leftarrow> trip_setopt H (OPT_ALLOW_PLAIN_COMM (Some 1)) w;
            let (_, w) = trip_run_init E H w;
            (_, w) \<leftarrow> trip_start H w;
            Some (data, w) } }"

definition router_destroy :: "world \<Rightarrow> world option" where
  "router_destroy w = do { _ \<leftarrow> reliable_free (r_packet (w_router w)); trip_free w }"

text \<open>Running until it fails, and asking to stop once the time is over.\<close>

partial_function (option) main_loop :: "epoll \<Rightarrow> host \<Rightarrow> mydata \<Rightarrow> world \<Rightarrow> (errno \<times> world) option" where
  "main_loop E H data w =
     Option.bind (trip_run E H 100 w) (\<lambda>r.
       if fst r \<noteq> EOK then Some r
       else
         (let nw = w_now H (snd r);
              stop = md_stop data \<or> fst nw \<ge> md_stopdeadline data in
          Option.bind (if stop then map_option snd (trip_stop H (snd nw)) else Some (snd nw)) (\<lambda>w.
            main_loop E H (data\<lparr>md_stop := False\<rparr>) w)))"

declare main_loop.simps [code]

text \<open>The error that ends the loop is printed; the program itself returns zero.\<close>

definition main :: "epoll \<Rightarrow> host \<Rightarrow> bool \<Rightarrow> addr \<Rightarrow> world \<Rightarrow> (errno \<times> world) option" where
  "main E H junk d w =
     do { (data, w) \<leftarrow> router_init E H junk d w;
          w \<leftarrow> trip_open_connection H (Some d) 0 None w;
          (err, w) \<leftarrow> main_loop E H data w;
          w \<leftarrow> router_destroy w;
          Some (err, w) }"

end
