(* ===== verification/Loopback.thy ===== *)
theory Loopback
  imports Draining Isolation Unready Reliable
begin

text \<open>
  A router that talks to itself over the packet interface of \<open>src/test/reliable_packet.c\<close>:
  sending is receiving, inside the send loop of \<open>_trip_listen\<close> (\<open>src/trip.c\<close>).
\<close>

section \<open>The router and its interface\<close>

lemma reliable_host_simps [simp]:
  "ho_crypto (reliable_host B) = ho_crypto B" "ho_send (reliable_host B) = reliable_send B"
  by (simp_all add: reliable_host_def)

text \<open>What the program sets up: everything is let in, in the clear, and nothing is signed.\<close>

definition loops_on :: "packet \<Rightarrow> router \<Rightarrow> bool" where
  "loops_on p r \<longleftrightarrow> r_timeout r = Some HPoll \<and> r_state r = RS_LISTEN \<and> r_screen r \<and> r_connsrc0 r = None \<and> r_connsrc1 r = None \<and>
     r_flag r AND FLAG_ALLOW_IN \<noteq> 0 \<and> r_flag r AND FLAG_ALLOW_PLAIN_OPEN \<noteq> 0 \<and> r_flag r AND FLAG_ALLOW_PLAIN_ISIG \<noteq> 0 \<and>
     r_flag r AND FLAG_ALLOW_PLAIN_OSIG \<noteq> 0 \<and> r_flag r AND FLAG_ALLOW_PLAIN_COMM \<noteq> 0 \<and>
     r_packet r = Some p \<and> (\<exists>b. r_buf r = Some b \<and> 1200 \<le> length b) \<and> r_buflen r = 1200 \<and>
     2 \<le> r_max_connection_send_count r \<and> 3 \<le> r_max_packet_send_count r"

definition loops :: "host \<Rightarrow> packet \<Rightarrow> world \<Rightarrow> bool" where
  "loops B p w \<longleftrightarrow> sodium_sizes (ho_crypto B) \<and> ho_screen B = router_handle_screen \<and> modest B \<and> (\<forall>n. ho_alloc B n) \<and>
     pkt_send p \<and> r_poll (w_router w) \<noteq> None \<and> loops_on p (w_router w)"

lemma loops_stays:
  assumes "loops B p w" "stays ((w_router w)\<lparr>r_conn := m\<rparr>) (w_router w')"
  shows "loops B p w'"
proof -
  have "f (w_router w') = f ((w_router w)\<lparr>r_conn := m\<rparr>)" if "\<And>x. f (bare_router x) = f x" for f :: "router \<Rightarrow> 'b"
    using stays_field [OF assms(2)] that by blast
  note f = this [of r_timeout] this [of r_state] this [of r_screen] this [of r_connsrc0] this [of r_connsrc1]
    this [of r_flag] this [of r_packet] this [of r_buf] this [of r_buflen] this [of r_max_connection_send_count]
    this [of r_max_packet_send_count]
  show ?thesis using assms f by (simp add: loops_def loops_on_def bare_router_def stays_def)
qed

lemma loops_flags:
  assumes "loops B p w"
  shows "has_flag FLAG_ALLOW_IN w" "has_flag FLAG_ALLOW_PLAIN_OPEN w" "has_flag FLAG_ALLOW_PLAIN_ISIG w"
    "has_flag FLAG_ALLOW_PLAIN_OSIG w" "has_flag FLAG_ALLOW_PLAIN_COMM w"
  using assms by (simp_all add: loops_def loops_on_def has_flag_def)

lemma loops_fine: "loops B p w \<Longrightarrow> runs_fine B (w_router w)"
  by (simp add: loops_def loops_on_def runs_fine_def)

lemma loops_upd [simp]:
  "loops B p (w\<lparr>h_conn := h\<rparr>) = loops B p w"
  "1200 \<le> length b \<Longrightarrow> loops B p w \<Longrightarrow> loops B p (w\<lparr>w_router := (w_router w)\<lparr>r_sendlen := n, r_buf := Some b\<rparr>\<rparr>)"
  "loops B p w \<Longrightarrow> loops B p (w\<lparr>w_router := (w_router w)\<lparr>r_sendq := q\<rparr>\<rparr>)"
  by (auto simp: loops_def loops_on_def)

section \<open>A turn that sends one packet\<close>

lemma turn_once:
  assumes snd1: "tripc_send H c 1200 b w = Some (of_nat m, b', w1)" "0 < m" "m < 1000"
    and rt: "w_router w1 = w_router w" "r_buf (w_router w) = Some b" "r_buflen (w_router w) = 1200"
    and k: "h_conn w1 c = Some k" "pkt_send p"
    and over: "ho_send H (c_src k) (of_nat m) b' (w1\<lparr>w_router := (w_router w)\<lparr>r_sendlen := of_nat m, r_buf := Some b'\<rparr>\<rparr>) = Some (EOK, w2)"
    and rt2: "r_buf (w_router w2) = Some b'" "r_buflen (w_router w2) = 1200"
    and snd2: "tripc_send H c 1200 b' (rt_upd (\<lambda>r. r\<lparr>r_sendlen := 0\<rparr>) w2) = Some (0, b', rt_upd (\<lambda>r. r\<lparr>r_sendlen := 0\<rparr>) w2)"
  shows "conn_turn H (Some p) c (Suc (Suc n)) sent w =
    Some (SR_done, sent + 1, w2\<lparr>w_router := (w_router w2)\<lparr>r_sendlen := 0, r_buf := Some b'\<rparr>\<rparr>)"
proof -
  have NP: "(0 :: u64) \<noteq> NPOS" by (simp add: NPOS_def)
  have "conn_turn H (Some p) c (Suc n) (sent + 1) (rt_upd (\<lambda>r. r\<lparr>r_sendlen := 0\<rparr>) w2) =
      Some (SR_done, sent + 1, w2\<lparr>w_router := (w_router w2)\<lparr>r_sendlen := 0, r_buf := Some b'\<rparr>\<rparr>)"
    using snd2 rt2 NP by (simp add: r_buffer_def)
  with snd1(1) small_len [OF snd1(2,3)] rt k over show ?thesis
    by (simp add: r_buffer_def call_send_def buf_sendlen)
qed

text \<open>The program's own hooks leave connections alone, whatever else its callbacks do.\<close>

interpretation looping: modest_host "reliable_host (still_host t)" for t
  by unfold_locales (simp add: modest_def reliable_host_def still_host_def router_handle_screen_def)

interpretation looping: quiet_host "reliable_host (still_host t)" for t
  by unfold_locales (simp add: leaves_conns_def reliable_host_def still_host_def router_handle_screen_def)

section \<open>The opening packet\<close>

lemma linkless_field: "linkless k = linkless k' \<Longrightarrow> (\<And>x. f (linkless x) = f x) \<Longrightarrow> f k = f k'"
  by metis

lemma linkless_opener:
  assumes "linkless k' = linkless k"
  shows "c_state k' = c_state k" "c_error k' = c_error k" "c_self k' = c_self k" "c_peer k' = c_peer k"
    "c_statetimer k' = c_statetimer k" "c_ping k' = c_ping k" "c_hassend k' = c_hassend k" "c_src k' = c_src k"
    "c_encrypted k' = c_encrypted k" "c_incoming k' = c_incoming k"
proof -
  have f: "f k' = f k" if "\<And>x. f (linkless x) = f x" for f :: "connection \<Rightarrow> 'b"
    by (rule linkless_field [where f = f, OF assms]) (rule that)
  show "c_state k' = c_state k" "c_error k' = c_error k" "c_self k' = c_self k" "c_peer k' = c_peer k"
    "c_statetimer k' = c_statetimer k" "c_ping k' = c_ping k" "c_hassend k' = c_hassend k" "c_src k' = c_src k"
    "c_encrypted k' = c_encrypted k" "c_incoming k' = c_incoming k"
    by (rule f, simp add: linkless_def)+
qed

lemma xor_one [simp]: "(1 :: int) XOR 1 = 0" "(0 :: int) XOR 1 = 1"
  by simp_all

text \<open>A router with a connection of its own in \<open>OPEN\<close>, and room for another one.\<close>

definition alone :: "host \<Rightarrow> packet \<Rightarrow> world \<Rightarrow> addr \<Rightarrow> connection \<Rightarrow> addr list \<Rightarrow> bool" where
  "alone B p w a k qs \<longleftrightarrow> loops B p w \<and> unready w \<and> opener B w a k qs \<and> has_room w qs \<and>
     peer_signpk (c_peer k) = None \<and> c_src k = 1"

lemma alone_listens: "alone B p w a k qs \<Longrightarrow> listener B w None None qs"
  using loops_flags [of B p w]
  by (auto simp: alone_def listener_def opener_def loops_def loops_on_def admits_def router_handle_screen_def has_flag_def)

lemma modest_quiet: "modest H \<Longrightarrow> leaves_conns H"
  unfolding modest_def leaves_conns_def by (blast intro: post_mono)

lemma alone_said:
  assumes "alone B p w a k qs" "1200 \<le> length b"
  shows "alone B p (w\<lparr>h_conn := (h_conn w)(a \<mapsto> said k), w_router := (w_router w)\<lparr>r_sendlen := n, r_buf := Some b\<rparr>\<rparr>) a (said k) qs"
proof -
  let ?w = "w\<lparr>h_conn := (h_conn w)(a \<mapsto> said k), w_router := (w_router w)\<lparr>r_sendlen := n, r_buf := Some b\<rparr>\<rparr>"
  have op: "opener B w a k qs" using assms(1) by (simp add: alone_def)
  then have k: "h_conn w a = Some k" by (simp add: opener_def)
  have u: "unready ?w"
    using assms(1) k by (auto simp: alone_def unready_def said_def phase_def)
  have ids: "conn_id (h_conn ?w) = conn_id (h_conn w)"
    using k by (auto simp: conn_id_def said_def)
  note same = connmap_same_ids [OF ids, of "r_conn (w_router w)"]
  have q: "sends ?w qs"
    using op sq_rep_same [of "r_sendq (w_router w)" "h_conn w" qs a k "said k"] k
    by (simp add: opener_def sends_def said_def)
  have "opener B ?w a (said k) qs"
    using op q same by (simp add: opener_def runs_fine_def has_flag_def) (simp add: said_def)
  moreover have "has_room ?w qs"
    using assms(1) q same k by (auto simp: alone_def has_room_def)
  moreover have "loops B p ?w"
    using assms by (auto simp: alone_def loops_def loops_on_def)
  ultimately show ?thesis
    using assms(1) u by (simp add: alone_def said_def)
qed

text \<open>The packet that is sent from source 1 arrives from source 0 and makes a new connection.\<close>

lemma open_looped:
  assumes al: "alone B p w a k1 qs" and id: "self_id (c_self k) = self_id (c_self k1)"
    and s: "says (ho_crypto B) (open_control k) (self_id (c_self k)) (c_self k) pf bd outs f" and n: "n = length pf + 195"
  obtains w' ka kb x where
    "trip_seg B 0 (of_nat n) (hello_octets (ho_crypto B) (pf @ [0, 0, 0]) bd sk @ r) w = Some w'"
    "loops B p w'" "unready w'" "h_conn w' a = Some ka" "linkless ka = linkless k1" "opener B w' a ka (qs @ [w_brk w])"
    "h_conn w' (w_brk w) = Some kb" "c_hassend kb" "newcomer 0 x None None (kb\<lparr>c_peer := connpeer_zero\<rparr>)"
    "peer_id (c_peer kb) = self_id (c_self k1)" "cm_holds (h_conn w') (r_conn (w_router w')) x (w_brk w)"
    "r_buf (w_router w') = r_buf (w_router w)" "r_buflen (w_router w') = r_buflen (w_router w)"
    "r_max_packet_send_count (w_router w') = r_max_packet_send_count (w_router w)"
proof -
  let ?pkt = "hello_octets (ho_crypto B) (pf @ [0, 0, 0]) bd sk @ r"
  have L: "loops B p w" and u: "unready w" and op: "opener B w a k1 qs" and room: "has_room w qs"
    and pk: "peer_signpk (c_peer k1) = None"
    using al by (simp_all add: alone_def)
  have cr: "sodium_sizes (ho_crypto B)" and mod: "modest B" using L by (simp_all add: loops_def)
  have z: "connpeer_zero\<lparr>peer_signpk := None\<rparr> = connpeer_zero" by (simp add: connpeer_zero_def)
  obtain w' kb m x where o: "trip_seg B 0 (of_nat n) ?pkt w = Some w'"
    "h_conn w' (w_brk w) = Some kb" "c_hassend kb" "newcomer 0 x None None (kb\<lparr>c_peer := connpeer_zero\<lparr>peer_signpk := None\<rparr>\<rparr>)"
    "c_peer kb = accepted f (connpeer_zero\<lparr>peer_signpk := None\<rparr>)" "r_conn (w_router w') = m" "sends w' (qs @ [w_brk w])"
    "connmap_ok (h_conn w') m" "\<And>y c. cm_holds (h_conn w') m y c \<longleftrightarrow>
       cm_holds (h_conn w) (r_conn (w_router w)) y c \<or> y = x \<and> c = w_brk w"
    "stays ((w_router w)\<lparr>r_conn := m\<rparr>) (w_router w')"
    by (rule open_received [OF alone_listens [OF al] _ cr _ s n, of 0 sk r]) (simp_all add: verifies_def)
  have hk: "h_conn w a = Some k1" "h_conn w (w_brk w) = None" "r_connsrc0 (w_router w) = None" "r_connsrc1 (w_router w) = None"
    using op room L by (simp_all add: opener_def has_room_def loops_def loops_on_def)
  have "trip_unpack (ho_crypto B) (of_nat n) ?pkt ''CQW'' =
      Some (of_nat (length pf), [O8 (ucast (open_control k)), O64 (self_id (c_self k)), O64 (self_sequence (c_self k))])"
    using read_prefix [OF s, of n "[0, 0, 0] @ _"] n s by (simp add: hello_octets_def says_def Let_def)
  then have "packet_id (ho_crypto B) (of_nat n) ?pkt = None"
    using control_of(1) [of "peer_openpk (c_peer k) \<noteq> None"] by (simp add: packet_id_def open_control_def)
  then have "spares a k1 {t. tw_heap (w_wheel w) t \<noteq> None} w'"
    by (intro modest_host.segment_spares [OF modest_host.intro [OF mod] o(1)]) (use hk in auto)
  then obtain ka where ka: "h_conn w' a = Some ka" "linkless ka = linkless k1"
    and T: "\<And>t. tw_heap (w_wheel w) t \<noteq> None \<Longrightarrow> tw_heap (w_wheel w') t \<noteq> None"
    by (auto simp: spares_def)
  note f = linkless_opener [OF ka(2)]
  have L': "loops B p w'" by (rule loops_stays [OF L o(10)])
  have "unready w'"
    using quiet_host.segment_unready [OF quiet_host.intro [OF modest_quiet [OF mod]] u] o(1) by (simp add: post_def)
  moreover have "opener B w' a ka (qs @ [w_brk w])"
    using op o(6-9) f ka T loops_fine [OF L'] loops_flags [OF L'] L' pk
    by (auto simp: opener_def loops_def loops_on_def)
  moreover have "peer_id (c_peer kb) = self_id (c_self k1)"
    using o(5) s id by (auto simp: says_def accepted_def Let_def)
  moreover have "g (w_router w') = g ((w_router w)\<lparr>r_conn := m\<rparr>)" if "\<And>x. g (bare_router x) = g x" for g :: "router \<Rightarrow> 'b"
    using stays_field [OF o(10)] that by blast
  note g = this [of r_buf] this [of r_buflen] this [of r_max_packet_send_count]
  ultimately show thesis
    using that [OF o(1) L' _ ka _ o(2,3), of x] o(4,6,9) g by (simp add: z bare_router_def)
qed

text \<open>Afterwards: the opener has nothing more to say, and the new connection is next.\<close>

definition met :: "host \<Rightarrow> packet \<Rightarrow> world \<Rightarrow> addr \<Rightarrow> connection \<Rightarrow> addr \<Rightarrow> connection \<Rightarrow> u64 \<Rightarrow> addr list \<Rightarrow> bool" where
  "met B p w a k b kb x cs \<longleftrightarrow> loops B p w \<and> unready w \<and> opener B w a k cs \<and> peer_signpk (c_peer k) = None \<and> \<not> c_hassend k \<and>
     h_conn w b = Some kb \<and> b \<noteq> a \<and> c_state kb = CS_CHAL \<and> due kb \<and> c_src kb = 0 \<and> self_id (c_self kb) = x \<and>
     peer_id (c_peer kb) = self_id (c_self k) \<and> cm_holds (h_conn w) (r_conn (w_router w)) x b"

lemma loops_H:
  assumes "loops B p w"
  shows "sodium_sizes (ho_crypto B)" "pkt_send p" "r_buflen (w_router w) = 1200"
    "\<exists>b. r_buf (w_router w) = Some b \<and> 1200 \<le> length b"
  using assms by (simp_all add: loops_def loops_on_def)

lemma said_src [simp]: "c_src (said k) = c_src k"
  by (simp add: said_def)

lemma said_sent: "c_hassend k \<Longrightarrow> sent_one c k w = w\<lparr>h_conn := (h_conn w)(c \<mapsto> said k)\<rparr>"
  by (simp add: said_def)

lemma open_turn:
  assumes al: "alone B p w a k qs" and sp: "speaks k"
  obtains w' ka kb x where "conn_turn (reliable_host B) (Some p) a (Suc (Suc n)) sent w = Some (SR_done, sent + 1, w')"
    "met B p w' a ka (w_brk w) kb x (qs @ [w_brk w])" "c_hassend kb" "self_id (c_self ka) = self_id (c_self k)"
    "r_max_packet_send_count (w_router w') = r_max_packet_send_count (w_router w)"
proof -
  let ?H = "reliable_host B"
  have L: "loops B p w" and op: "opener B w a k qs" and src: "c_src k = 1" and pk: "peer_signpk (c_peer k) = None"
    using al by (simp_all add: alone_def)
  have k: "h_conn w a = Some k" "c_state k = CS_OPEN" "c_hassend k"
    using op sp by (simp_all add: opener_def speaks_def)
  obtain b where b: "r_buf (w_router w) = Some b" "1200 \<le> length b" using loops_H(4) [OF L] by blast
  obtain pf bd outs f where s: "says (ho_crypto B) (open_control k) (self_id (c_self k)) (c_self k) pf bd outs f"
    by (rule says_ex [OF loops_H(1) [OF L], of "c_self k"]) (use sp in \<open>simp_all add: speaks_def\<close>)
  define m where "m = length pf + 195"
  let ?pkt = "hello_octets (ho_crypto B) (pf @ [0, 0, 0]) bd (self_signsk (c_self k)) @ drop m b"
  let ?ws = "w\<lparr>h_conn := (h_conn w)(a \<mapsto> said k), w_router := (w_router w)\<lparr>r_sendlen := of_nat m, r_buf := Some ?pkt\<rparr>\<rparr>"
  have m: "0 < m" "m < 1000" "1200 \<le> length ?pkt"
    using s loops_H(1) [OF L] b(2) by (auto simp: m_def says_def sodium_sizes_def)
  have send: "tripc_send ?H a 1200 b w = Some (of_nat m, ?pkt, w\<lparr>h_conn := (h_conn w)(a \<mapsto> said k)\<rparr>)"
    using send_open_octets [of ?H w a k pf bd outs f b m] loops_H(1) [OF L] k s b(2) m_def said_sent [OF k(3)] by simp
  have al': "alone B p ?ws a (said k) qs" by (rule alone_said [OF al m(3)])
  obtain w2 ka kb x where o: "trip_seg B 0 (of_nat m) ?pkt ?ws = Some w2"
    "loops B p w2" "unready w2" "h_conn w2 a = Some ka" "linkless ka = linkless (said k)" "opener B w2 a ka (qs @ [w_brk ?ws])"
    "h_conn w2 (w_brk ?ws) = Some kb" "c_hassend kb" "newcomer 0 x None None (kb\<lparr>c_peer := connpeer_zero\<rparr>)"
    "peer_id (c_peer kb) = self_id (c_self (said k))" "cm_holds (h_conn w2) (r_conn (w_router w2)) x (w_brk ?ws)"
    "r_buf (w_router w2) = r_buf (w_router ?ws)" "r_buflen (w_router w2) = r_buflen (w_router ?ws)"
    "r_max_packet_send_count (w_router w2) = r_max_packet_send_count (w_router ?ws)"
    by (rule open_looped [OF al' _ s m_def]) (simp add: said_def)
  note f = linkless_opener [OF o(5)]
  have ka: "due ka" "\<not> c_hassend ka" using f k by (simp_all add: due_def said_def)
  let ?w' = "w2\<lparr>w_router := (w_router w2)\<lparr>r_sendlen := 0, r_buf := Some ?pkt\<rparr>\<rparr>"
  have "conn_turn ?H (Some p) a (Suc (Suc n)) sent w = Some (SR_done, sent + 1, ?w')"
  proof (rule turn_once [OF send m(1,2)])
    show "ho_send ?H (c_src (said k)) (of_nat m) ?pkt
        (w\<lparr>h_conn := (h_conn w)(a \<mapsto> said k)\<rparr>\<lparr>w_router := (w_router w)\<lparr>r_sendlen := of_nat m, r_buf := Some ?pkt\<rparr>\<rparr>) = Some (EOK, w2)"
      using o(1) src by (simp add: reliable_send_def)
  qed (use b loops_H [OF L] o(4,12,13) in \<open>simp_all add: send_idle [OF _ ka]\<close>)
  moreover have "met B p ?w' a ka (w_brk w) kb x (qs @ [w_brk w])"
  proof -
    have "w_brk w \<noteq> a" using al k by (auto simp: alone_def has_room_def)
    moreover have "loops B p ?w'" using o(2) m(3) by simp
    moreover have "opener B ?w' a ka (qs @ [w_brk w])"
      using o(6) by (simp add: opener_def runs_fine_def has_flag_def sends_def)
    moreover have "due kb" "c_state kb = CS_CHAL" "c_src kb = 0" "self_id (c_self kb) = x"
      using o(8,9) by (simp_all add: newcomer_def due_def speaks_def connself_zero_def copy_or_zero_def)
    ultimately show ?thesis using o f ka pk by (simp add: met_def unready_def said_def)
  qed
  ultimately show thesis
    using that o(8,14) f by (simp add: said_def)
qed

section \<open>The answer\<close>

lemma conns_same_ids:
  assumes "h_conn w a = Some k" "c_self k' = c_self k"
  shows "conn_id ((h_conn w)(a \<mapsto> k')) = conn_id (h_conn w)"
  using assms by (auto simp: conn_id_def)

text \<open>Taking the new connection off the queue.\<close>

lemma met_dq:
  assumes "met B p w a k b kb x (b # cs)"
  obtains q where "on_dq w = Some (Some b, dequeued q b kb w)"
    "met B p (dequeued q b kb w) a k b (kb\<lparr>c_next := None, c_insend := False\<rparr>) x cs"
proof -
  have op: "opener B w a k (b # cs)" and kb: "h_conn w b = Some kb" "b \<noteq> a" and u: "unready w"
    using assms by (simp_all add: met_def)
  have "sends w (b # cs)" using op by (simp add: opener_def)
  then obtain q where q: "on_dq w = Some (Some b, dequeued q b kb w)" "sends (dequeued q b kb w) cs"
    by (rule on_dq_eq [OF _ kb(1)])
  have "conn_id (h_conn (dequeued q b kb w)) = conn_id (h_conn w)"
    using kb by (auto simp: conn_id_def)
  note same = connmap_same_ids [OF this, of "r_conn (w_router w)"]
  have "opener B (dequeued q b kb w) a k cs"
    using op q(2) same kb(2) by (simp add: opener_def runs_fine_def has_flag_def)
  moreover have "unready (dequeued q b kb w)"
    using u kb by (auto simp: unready_def phase_def)
  moreover have "loops B p (dequeued q b kb w)"
    using assms by (auto simp: met_def loops_def loops_on_def)
  ultimately have "met B p (dequeued q b kb w) a k b (kb\<lparr>c_next := None, c_insend := False\<rparr>) x cs"
    using assms same by (simp add: met_def)
  with q(1) show thesis by (rule that)
qed

text \<open>The answer arrives at the opener and leaves its sender alone.\<close>

lemma chal_looped:
  assumes m: "met B p w a k b kb x cs" and s: "says (ho_crypto B) (chal_control kc) (peer_id (c_peer kb)) ks pf bd outs f"
    and ks: "self_id ks = x" and n: "n = length pf + 192"
  obtains w' ka kb' where
    "trip_seg B src (of_nat n) (hello_octets (ho_crypto B) pf bd sk @ r) w = Some w'"
    "loops B p w'" "unready w'" "h_conn w' a = Some ka" "c_state ka = CS_PING" "self_id (c_self ka) = self_id (c_self k)"
    "peer_id (c_peer ka) = x" "peer_lim (c_peer ka) = hello_limits" "h_conn w' b = Some kb'" "linkless kb' = linkless kb"
    "sends w' (queued a cs)" "connmap_ok (h_conn w') (r_conn (w_router w'))"
    "cm_holds (h_conn w') (r_conn (w_router w')) (self_id (c_self k)) a" "cm_holds (h_conn w') (r_conn (w_router w')) x b"
    "r_buf (w_router w') = r_buf (w_router w)" "r_buflen (w_router w') = r_buflen (w_router w)"
    "r_max_packet_send_count (w_router w') = r_max_packet_send_count (w_router w)"
proof -
  let ?pkt = "hello_octets (ho_crypto B) pf bd sk @ r"
  have L: "loops B p w" and u: "unready w" and op: "opener B w a k cs" and pk: "peer_signpk (c_peer k) = None"
    and kb: "h_conn w b = Some kb" "b \<noteq> a" "peer_id (c_peer kb) = self_id (c_self k)"
      "cm_holds (h_conn w) (r_conn (w_router w)) x b"
    using m by (simp_all add: met_def)
  have cr: "sodium_sizes (ho_crypto B)" and mod: "modest B" using L by (simp_all add: loops_def)
  obtain w' ka where c: "trip_seg B src (of_nat n) ?pkt w = Some w'" "h_conn w' a = Some ka" "c_state ka = CS_PING"
    "c_self ka = c_self k" "c_peer ka = accepted f (c_peer k)" "sends w' (queued a cs)" "stays (w_router w) (w_router w')"
    "heap_sim ((h_conn w)(a := h_conn w' a)) (h_conn w')"
    by (rule chal_received [OF op cr _ _ n, of sk kc ks bd outs f src r]) (use s kb(3) pk in \<open>simp_all add: verifies_def\<close>)
  have "trip_unpack (ho_crypto B) (of_nat n) ?pkt ''CQW'' =
      Some (of_nat (length pf), [O8 (ucast (chal_control kc)), O64 (peer_id (c_peer kb)), O64 (self_sequence ks)])"
    using read_prefix [OF s, of n] n s by (simp add: hello_octets_def says_def Let_def)
  then have "packet_id (ho_crypto B) (of_nat n) ?pkt = Some (self_id (c_self k))"
    using control_of(3) [of "peer_pk (c_peer kc) \<noteq> None"] kb(3)
    by (simp add: packet_id_def chal_control_def CONTROL_OPEN_def CONTROL_CHAL_def)
  moreover have "connmap_get (self_id (c_self k)) (r_conn (w_router w)) (h_conn w) = Some (Some a)"
    using connmap_get_ok [of "h_conn w" "r_conn (w_router w)" "self_id (c_self k)"] op by (auto simp: opener_def)
  moreover have "self_id (c_self kb) = x" using m by (simp add: met_def)
  ultimately have "spares b kb {t. tw_heap (w_wheel w) t \<noteq> None} w'"
    by (intro modest_host.segment_spares [OF modest_host.intro [OF mod] c(1) kb(1)]) (use kb(2) in auto)
  then obtain kb' where kb': "h_conn w' b = Some kb'" "linkless kb' = linkless kb"
    by (auto simp: spares_def)
  have "unready w'"
    using quiet_host.segment_unready [OF quiet_host.intro [OF modest_quiet [OF mod]] u] c(1) by (simp add: post_def)
  moreover have g: "g (w_router w') = g (w_router w)" if "\<And>x. g (bare_router x) = g x" for g :: "router \<Rightarrow> 'b"
    using stays_field [OF c(7)] that by blast
  note g = this [of r_buf] this [of r_buflen] this [of r_max_packet_send_count] this [of r_conn]
  have g: "r_buf (w_router w') = r_buf (w_router w)" "r_buflen (w_router w') = r_buflen (w_router w)"
    "r_max_packet_send_count (w_router w') = r_max_packet_send_count (w_router w)" "r_conn (w_router w') = r_conn (w_router w)"
    by (rule g; simp add: bare_router_def)+
  moreover have "stays ((w_router w)\<lparr>r_conn := r_conn (w_router w)\<rparr>) (w_router w')" using c(7) by simp
  then have "loops B p w'" by (rule loops_stays [OF L])
  moreover have "conn_id (h_conn w') = conn_id ((h_conn w)(a \<mapsto> ka))"
    using heap_sim_id [OF c(8)] c(2) by simp
  then have "conn_id (h_conn w') = conn_id (h_conn w)"
    using conns_same_ids [of w a k ka] op c(4) by (simp add: opener_def)
  note same = connmap_same_ids [OF this, of "r_conn (w_router w)"]
  have "connmap_ok (h_conn w') (r_conn (w_router w'))"
    "cm_holds (h_conn w') (r_conn (w_router w')) (self_id (c_self k)) a" "cm_holds (h_conn w') (r_conn (w_router w')) x b"
    using op kb(4) same g(4) by (simp_all add: opener_def)
  moreover have "peer_id (c_peer ka) = x" "peer_lim (c_peer ka) = hello_limits"
    using c(5) s ks by (auto simp: says_def accepted_def Let_def)
  ultimately show thesis using that c(1-4,6) kb' by simp
qed

text \<open>What both know of each other in the end.\<close>

definition acquainted :: "world \<Rightarrow> addr \<Rightarrow> u64 \<Rightarrow> addr \<Rightarrow> bool" where
  "acquainted w a i b \<longleftrightarrow> (\<exists>ka kb. h_conn w a = Some ka \<and> c_state ka = CS_PING \<and> self_id (c_self ka) = i \<and>
     peer_id (c_peer ka) = self_id (c_self kb) \<and> peer_lim (c_peer ka) = hello_limits \<and>
     h_conn w b = Some kb \<and> c_state kb = CS_CHAL \<and> c_src kb = 0 \<and> peer_id (c_peer kb) = i \<and>
     connmap_ok (h_conn w) (r_conn (w_router w)) \<and> cm_holds (h_conn w) (r_conn (w_router w)) i a \<and>
     cm_holds (h_conn w) (r_conn (w_router w)) (self_id (c_self kb)) b)"

lemma met_said:
  assumes "met B p w a k b kb x cs" "1200 \<le> length buf"
  shows "met B p (w\<lparr>h_conn := (h_conn w)(b \<mapsto> said kb), w_router := (w_router w)\<lparr>r_sendlen := n, r_buf := Some buf\<rparr>\<rparr>)
    a k b (said kb) x cs"
proof -
  let ?w = "w\<lparr>h_conn := (h_conn w)(b \<mapsto> said kb), w_router := (w_router w)\<lparr>r_sendlen := n, r_buf := Some buf\<rparr>\<rparr>"
  have op: "opener B w a k cs" and kb: "h_conn w b = Some kb" "b \<noteq> a" and u: "unready w"
    using assms by (simp_all add: met_def)
  have "conn_id (h_conn ?w) = conn_id (h_conn w)" using kb by (auto simp: conn_id_def said_def)
  note same = connmap_same_ids [OF this, of "r_conn (w_router w)"]
  have "sends ?w cs"
    using op sq_rep_same [of "r_sendq (w_router w)" "h_conn w" cs b kb "said kb"] kb
    by (simp add: opener_def sends_def said_def)
  then have "opener B ?w a k cs"
    using op same kb(2) by (simp add: opener_def runs_fine_def has_flag_def)
  moreover have "unready ?w" using u kb by (auto simp: unready_def phase_def said_def)
  moreover have "loops B p ?w" using assms by (auto simp: met_def loops_def loops_on_def)
  moreover have "due (said kb)" using assms by (simp add: met_def due_def said_def)
  ultimately show ?thesis using assms same by (simp add: met_def) (simp add: said_def)
qed

lemma chal_turn:
  assumes m: "met B p w a k b kb x cs" and h: "c_hassend kb"
  obtains w' where "conn_turn (reliable_host B) (Some p) b (Suc (Suc n)) sent w = Some (SR_done, sent + 1, w')"
    "acquainted w' a (self_id (c_self k)) b" "loops B p w'" "unready w'" "sends w' (queued a cs)"
    "r_max_packet_send_count (w_router w') = r_max_packet_send_count (w_router w)"
proof -
  let ?H = "reliable_host B"
  have L: "loops B p w" and kb: "h_conn w b = Some kb" "c_state kb = CS_CHAL" "speaks kb" "self_id (c_self kb) = x"
    "c_src kb = 0"
    using m h by (simp_all add: met_def due_def)
  obtain buf where b: "r_buf (w_router w) = Some buf" "1200 \<le> length buf" using loops_H(4) [OF L] by blast
  obtain pf bd outs f where s: "says (ho_crypto B) (chal_control kb) (peer_id (c_peer kb)) (c_self kb) pf bd outs f"
    by (rule says_ex [OF loops_H(1) [OF L], of "c_self kb"]) (use kb(3) in \<open>simp_all add: speaks_def\<close>)
  define l where "l = length pf + 192"
  let ?pkt = "hello_octets (ho_crypto B) pf bd (self_signsk (c_self kb)) @ drop l buf"
  let ?ws = "w\<lparr>h_conn := (h_conn w)(b \<mapsto> said kb), w_router := (w_router w)\<lparr>r_sendlen := of_nat l, r_buf := Some ?pkt\<rparr>\<rparr>"
  have l: "0 < l" "l < 1000" "1200 \<le> length ?pkt"
    using s loops_H(1) [OF L] b(2) by (auto simp: l_def says_def sodium_sizes_def)
  have send: "tripc_send ?H b 1200 buf w = Some (of_nat l, ?pkt, w\<lparr>h_conn := (h_conn w)(b \<mapsto> said kb)\<rparr>)"
    using send_chal_octets [of ?H w b kb pf bd outs f buf l] loops_H(1) [OF L] kb s b(2) l_def said_sent [OF h] h by simp
  have m': "met B p ?ws a k b (said kb) x cs" by (rule met_said [OF m l(3)])
  have pid: "peer_id (c_peer (said kb)) = peer_id (c_peer kb)" by (simp add: said_def)
  obtain w2 ka kb' where o: "trip_seg B 1 (of_nat l) ?pkt ?ws = Some w2"
    "loops B p w2" "unready w2" "h_conn w2 a = Some ka" "c_state ka = CS_PING" "self_id (c_self ka) = self_id (c_self k)"
    "peer_id (c_peer ka) = x" "peer_lim (c_peer ka) = hello_limits" "h_conn w2 b = Some kb'" "linkless kb' = linkless (said kb)"
    "sends w2 (queued a cs)" "connmap_ok (h_conn w2) (r_conn (w_router w2))"
    "cm_holds (h_conn w2) (r_conn (w_router w2)) (self_id (c_self k)) a" "cm_holds (h_conn w2) (r_conn (w_router w2)) x b"
    "r_buf (w_router w2) = r_buf (w_router ?ws)" "r_buflen (w_router w2) = r_buflen (w_router ?ws)"
    "r_max_packet_send_count (w_router w2) = r_max_packet_send_count (w_router ?ws)"
    by (rule chal_looped [OF m' s [folded pid] kb(4) l_def])
  note f = linkless_opener [OF o(10)]
  have kb': "due kb'" "\<not> c_hassend kb'" using f kb h by (simp_all add: due_def said_def)
  let ?w' = "w2\<lparr>w_router := (w_router w2)\<lparr>r_sendlen := 0, r_buf := Some ?pkt\<rparr>\<rparr>"
  have "conn_turn ?H (Some p) b (Suc (Suc n)) sent w = Some (SR_done, sent + 1, ?w')"
  proof (rule turn_once [OF send l(1,2)])
    show "ho_send ?H (c_src (said kb)) (of_nat l) ?pkt
        (w\<lparr>h_conn := (h_conn w)(b \<mapsto> said kb)\<rparr>\<lparr>w_router := (w_router w)\<lparr>r_sendlen := of_nat l, r_buf := Some ?pkt\<rparr>\<rparr>) = Some (EOK, w2)"
      using o(1) kb(5) by (simp add: reliable_send_def)
  qed (use b loops_H [OF L] o(9,15,16) in \<open>simp_all add: send_idle [OF _ kb']\<close>)
  moreover have "peer_id (c_peer kb) = self_id (c_self k)" using m by (simp add: met_def)
  then have "acquainted ?w' a (self_id (c_self k)) b"
    using o f kb by (auto simp: acquainted_def said_def)
  moreover have "unready ?w'" using o(3) by (simp add: unready_def)
  moreover have "loops B p ?w'" using o(2) l(3) by simp
  moreover have "sends ?w' (queued a cs)" using o(11) by (simp add: sends_def)
  ultimately show thesis using that o(17) by simp
qed

section \<open>The whole call\<close>

lemma loops_turns:
  assumes "loops B p w"
  obtains n where "unat (r_max_connection_send_count (w_router w)) = Suc (Suc n)"
proof -
  have "2 \<le> unat (r_max_connection_send_count (w_router w))"
    using assms by (simp add: loops_def loops_on_def word_le_nat_alt)
  then show thesis using that by (metis One_nat_def Suc_1 Suc_le_D Suc_le_mono)
qed

lemma loop_round:
  assumes "loops B p w" "unat (r_max_connection_send_count (w_router w)) = n" "conn_turn H (Some p) c n sent w = Some (SR_done, sent', w')"
    "r_max_packet_send_count (w_router w') = r_max_packet_send_count (w_router w)" "sent' \<le> 3" "on_dq w' = Some (d, w'')"
  shows "send_loop H (Some p) (Some c) sent w = send_loop H (Some p) d sent' w''"
proof -
  have "3 \<le> r_max_packet_send_count (w_router w)" using assms(1) by (simp add: loops_def loops_on_def)
  then have "\<not> r_max_packet_send_count (w_router w) < sent'" using assms(5) by (meson leD le_less_trans)
  then show ?thesis using assms by (subst send_loop.simps) simp
qed

lemma alone_dq:
  assumes "alone B p w a k (a # qs)"
  obtains q where "on_dq w = Some (Some a, dequeued q a k w)"
    "alone B p (dequeued q a k w) a (k\<lparr>c_next := None, c_insend := False\<rparr>) qs"
proof -
  have op: "opener B w a k (a # qs)" and u: "unready w" and room: "has_room w (a # qs)"
    using assms by (simp_all add: alone_def)
  then have k: "h_conn w a = Some k" "sends w (a # qs)" by (simp_all add: opener_def)
  obtain q where q: "on_dq w = Some (Some a, dequeued q a k w)" "sends (dequeued q a k w) qs"
    by (rule on_dq_eq [OF k(2,1)])
  have "conn_id (h_conn (dequeued q a k w)) = conn_id (h_conn w)"
    using k by (auto simp: conn_id_def)
  note same = connmap_same_ids [OF this, of "r_conn (w_router w)"]
  have "opener B (dequeued q a k w) a (k\<lparr>c_next := None, c_insend := False\<rparr>) qs"
    using op q(2) same by (simp add: opener_def runs_fine_def has_flag_def)
  moreover have "unready (dequeued q a k w)" using u k by (auto simp: unready_def phase_def)
  moreover have "loops B p (dequeued q a k w)"
    using assms by (auto simp: alone_def loops_def loops_on_def)
  moreover have "has_room (dequeued q a k w) qs"
    using room q(2) same k by (auto simp: has_room_def)
  ultimately show thesis using that q(1) assms by (simp add: alone_def)
qed

text \<open>A connection in \<open>PING\<close> has nothing to send, as no ping is active.\<close>

lemma ping_turn:
  assumes "loops B p w" "unready w" "h_conn w a = Some k" "c_state k = CS_PING"
  shows "\<exists>b. conn_turn H (Some p) a (Suc n) sent w =
    Some (SR_done, sent, w\<lparr>w_router := (w_router w)\<lparr>r_sendlen := 0, r_buf := Some b\<rparr>\<rparr>)"
proof -
  obtain b where b: "r_buf (w_router w) = Some b" using loops_H(4) [OF assms(1)] by blast
  have "\<not> ping_isactive (c_ping k)" using assms(2,3) by (auto simp: unready_def early_def phase_def)
  moreover have "(0 :: u64) \<noteq> NPOS" by (simp add: NPOS_def)
  ultimately show ?thesis
    using assms(3,4) b by (intro exI [of _ b]) (simp add: tripc_send_def tripc_send_ping_def r_buffer_def)
qed

text \<open>The test program's router shakes hands with itself. Over the packet interface of
  \<open>src/test/reliable_packet.c\<close>, whose send function hands the packet to the receiving side of the
  same router before it returns, one call of the send loop with an opening connection in the queue
  carries out the whole handshake: the loop ends with an empty queue, the opener is in
  \<open>PING\<close>, a new connection is in \<open>CHAL\<close>, both are in the connection map under different
  identifiers, and each knows the other's identifier.\<close>

theorem loopback_handshake:
  assumes "alone B p w a k [a]" "speaks k" "r_sendlen (w_router w) = 0"
  shows "\<exists>w'. trip_listen_out (reliable_host B) w = Some w' \<and> sends w' [] \<and>
    acquainted w' a (self_id (c_self k)) (w_brk w) \<and> a \<noteq> w_brk w"
proof -
  let ?H = "reliable_host B" and ?k = "k\<lparr>c_next := None, c_insend := False\<rparr>"
  obtain q where q: "on_dq w = Some (Some a, dequeued q a k w)" "alone B p (dequeued q a k w) a ?k []"
    by (rule alone_dq [OF assms(1)])
  let ?w1 = "dequeued q a k w"
  have L1: "loops B p ?w1" using q(2) by (simp add: alone_def)
  have sp: "speaks ?k" using assms(2) by (simp add: speaks_def)
  obtain n1 where n1: "unat (r_max_connection_send_count (w_router ?w1)) = Suc (Suc n1)" by (rule loops_turns [OF L1])
  obtain w2 ka kb x where t1: "conn_turn ?H (Some p) a (Suc (Suc n1)) 0 ?w1 = Some (SR_done, 0 + 1, w2)"
    "met B p w2 a ka (w_brk ?w1) kb x ([] @ [w_brk ?w1])" "c_hassend kb" "self_id (c_self ka) = self_id (c_self ?k)"
    "r_max_packet_send_count (w_router w2) = r_max_packet_send_count (w_router ?w1)"
    by (rule open_turn [OF q(2) sp])
  let ?b = "w_brk w"
  have m2: "met B p w2 a ka ?b kb x [?b]" using t1(2) by simp
  obtain r where r: "on_dq w2 = Some (Some ?b, dequeued r ?b kb w2)"
    "met B p (dequeued r ?b kb w2) a ka ?b (kb\<lparr>c_next := None, c_insend := False\<rparr>) x []"
    by (rule met_dq [OF m2])
  let ?w3 = "dequeued r ?b kb w2"
  have L3: "loops B p ?w3" using r(2) by (simp add: met_def)
  obtain n3 where n3: "unat (r_max_connection_send_count (w_router ?w3)) = Suc (Suc n3)" by (rule loops_turns [OF L3])
  obtain w4 where t3: "conn_turn ?H (Some p) ?b (Suc (Suc n3)) (0 + 1) ?w3 = Some (SR_done, 0 + 1 + 1, w4)"
    "acquainted w4 a (self_id (c_self ka)) ?b" "loops B p w4" "unready w4" "sends w4 (queued a [])"
    "r_max_packet_send_count (w_router w4) = r_max_packet_send_count (w_router ?w3)"
    by (rule chal_turn [OF r(2)]) (use t1(3) in simp)
  obtain kp where kp: "h_conn w4 a = Some kp" "c_state kp = CS_PING" using t3(2) by (auto simp: acquainted_def)
  have "sends w4 [a]" using t3(5) by (simp add: queued_def)
  then obtain s where s: "on_dq w4 = Some (Some a, dequeued s a kp w4)" "sends (dequeued s a kp w4) []"
    by (rule on_dq_eq [OF _ kp(1)])
  let ?w5 = "dequeued s a kp w4"
  have L5: "loops B p ?w5" using t3(3) by (simp add: loops_def loops_on_def)
  have "phase (kp\<lparr>c_next := None, c_insend := False\<rparr>) = phase kp" by (simp add: phase_def)
  then have u5: "unready ?w5" using t3(4) kp(1) by (simp add: unready_def)
  obtain n5 where n5: "unat (r_max_connection_send_count (w_router ?w5)) = Suc (Suc n5)" by (rule loops_turns [OF L5])
  obtain z where t5: "conn_turn ?H (Some p) a (Suc (Suc n5)) (0 + 1 + 1) ?w5 =
      Some (SR_done, 0 + 1 + 1, ?w5\<lparr>w_router := (w_router ?w5)\<lparr>r_sendlen := 0, r_buf := Some z\<rparr>\<rparr>)"
    using ping_turn [OF L5 u5, of a "kp\<lparr>c_next := None, c_insend := False\<rparr>"] kp by fastforce
  let ?w6 = "?w5\<lparr>w_router := (w_router ?w5)\<lparr>r_sendlen := 0, r_buf := Some z\<rparr>\<rparr>"
  have s6: "sends ?w6 []" using s(2) by (simp add: sends_def)
  have "send_loop ?H (Some p) (Some a) 0 ?w1 = send_loop ?H (Some p) (Some ?b) (0 + 1) ?w3"
    by (rule loop_round [OF L1 n1 t1(1,5) _ r(1)]) simp
  also have "\<dots> = send_loop ?H (Some p) (Some a) (0 + 1 + 1) ?w5"
    by (rule loop_round [OF L3 n3 t3(1,6) _ s(1)]) simp
  also have "\<dots> = send_loop ?H (Some p) None (0 + 1 + 1) ?w6"
    by (rule loop_round [OF L5 n5 t5 _ _ on_dq_none [OF s6]]) simp_all
  also have "\<dots> = Some ?w6" by (simp add: send_loop.simps)
  finally have run: "send_loop ?H (Some p) (Some a) 0 ?w1 = Some ?w6" .
  have "r_packet (w_router w) = Some p" using assms(1) by (simp add: alone_def loops_def loops_on_def)
  then have "trip_listen_out ?H w = Some ?w6"
    using assms(3) q(1) run by (simp add: trip_listen_out_def trip_resend_def Let_def)
  moreover have "acquainted ?w6 a (self_id (c_self k)) ?b"
    using t3(2) t1(4) m2 kp connmap_same_ids [OF conns_same_ids [OF kp(1)], of "kp\<lparr>c_next := None, c_insend := False\<rparr>" "r_conn (w_router w4)"]
    by (auto simp: acquainted_def met_def)
  moreover have "a \<noteq> ?b" using m2 by (auto simp: met_def)
  ultimately show ?thesis using s6 by blast
qed

text \<open>The test program's state once its connection is in \<open>OPEN\<close> and queued.\<close>

definition looping_host :: host where
  "looping_host = (still_host 5)\<lparr>ho_screen := router_handle_screen\<rparr>"

definition looping_conn :: connection where
  "looping_conn = opening_conn\<lparr>c_insend := True, c_src := 1\<rparr>"

definition looping_world :: world where
  "looping_world = queued_world\<lparr>h_conn := [1 \<mapsto> looping_conn]\<rparr>"

lemma looping_alone: "alone looping_host full_packet looping_world 1 looping_conn [1]"
proof -
  have cr: "sodium_sizes (ho_crypto looping_host)"
    using sodium_ok by (simp add: looping_host_def still_host_def sodium_sizes_def) (simp add: sodium_def)
  have "modest looping_host"
    by (simp add: modest_def looping_host_def still_host_def router_handle_screen_def)
  moreover have "pkt_send full_packet" by (simp add: full_packet_def)
  moreover have "r_poll (w_router looping_world) \<noteq> None"
    by (simp add: looping_world_def queued_world_def opening_world_def listening_world_def)
  moreover have "loops_on full_packet (w_router looping_world)"
    by (simp add: loops_on_def looping_world_def queued_world_def opening_world_def listening_world_def blank_world_def
        router_zero_def flag_defs)
  moreover have "ho_screen looping_host = router_handle_screen" "\<forall>n. ho_alloc looping_host n"
    by (simp_all add: looping_host_def still_host_def)
  ultimately have L: "loops looping_host full_packet looping_world" using cr by (simp add: loops_def)
  have u: "unready looping_world"
    by (auto simp: unready_def looping_world_def looping_conn_def opening_conn_def connection_zero_def ping_zero_def
        phase_def early_def)
  have ids: "conn_id (h_conn looping_world) = conn_id (h_conn opening_world)"
    by (rule ext) (simp add: conn_id_def opening_world_def looping_world_def looping_conn_def)
  have rc: "r_conn (w_router looping_world) = r_conn (w_router opening_world)"
    by (simp add: looping_world_def queued_world_def)
  note same = connmap_same_ids [OF ids, of "r_conn (w_router opening_world)"]
  have q: "sends looping_world [1]"
    by (simp add: sends_def looping_world_def queued_world_def sq_rep_def chain_Cons looping_conn_def opening_conn_def
        connection_zero_def)
  have op: "opener looping_host opening_world 1 opening_conn []"
    using opening_opener [of 5] by (simp add: opener_def runs_fine_def looping_host_def)
  have "opener looping_host looping_world 1 looping_conn [1]"
    using op q same rc
    by (simp add: opener_def has_flag_def runs_fine_def looping_world_def queued_world_def looping_conn_def opening_world_def)
  moreover have "cm_size (r_conn (w_router opening_world)) \<noteq> unat (connmap_max (r_conn (w_router opening_world)))"
    by (simp add: opening_world_def connmap_max_def)
  then have "has_room looping_world [1]"
    using op q same rc by (simp add: has_room_def opener_def)
      (simp add: looping_world_def queued_world_def opening_world_def)
  moreover have "peer_signpk (c_peer looping_conn) = None" "c_src looping_conn = 1"
    by (simp_all add: looping_conn_def opening_conn_def connection_zero_def connpeer_zero_def)
  ultimately show ?thesis using L u by (simp add: alone_def)
qed

theorem loopback_handshake_witness:
  "\<exists>w'. trip_listen_out (reliable_host looping_host) looping_world = Some w' \<and> sends w' [] \<and> acquainted w' 1 0 2"
proof -
  have "speaks looping_conn"
    by (simp add: speaks_def looping_conn_def opening_conn_def connection_zero_def connself_zero_def copy_or_zero_def)
  moreover have "r_sendlen (w_router looping_world) = 0"
    by (simp add: looping_world_def queued_world_def opening_world_def listening_world_def blank_world_def router_zero_def)
  moreover have "w_brk looping_world = 2" "self_id (c_self looping_conn) = 0"
    by (simp_all add: looping_world_def queued_world_def opening_world_def looping_conn_def opening_conn_def
        connection_zero_def connself_zero_def)
  ultimately show ?thesis using loopback_handshake [OF looping_alone] by auto
qed

end
