(* ===== verification/Opening.thy ===== *)
theory Opening
  imports Loopback Retry
begin

text \<open>
  From \<open>trip_open_connection\<close> to the handshake: what the test program's router does when it is asked
  for a connection, callback by callback (\<open>src/trip.c\<close>, \<open>src/conn.c\<close>,
  \<open>src/test/reliable_packet.c\<close>).
\<close>

section \<open>A connection before it has sent anything\<close>

definition fresh_above :: "world \<Rightarrow> bool" where
  "fresh_above w \<longleftrightarrow> (\<forall>d. h_conn w d \<noteq> None \<longrightarrow> d < w_brk w)"

text \<open>The only connection that is not queued; nothing of its peer is known.\<close>

definition own :: "host \<Rightarrow> packet \<Rightarrow> addr \<Rightarrow> connection \<Rightarrow> world \<Rightarrow> bool" where
  "own B p a k w \<longleftrightarrow> loops B p w \<and> unready w \<and> fresh_above w \<and> sends w [] \<and>
     connmap_ok (h_conn w) (r_conn (w_router w)) \<and> h_conn w a = Some k \<and>
     cm_holds (h_conn w) (r_conn (w_router w)) (self_id (c_self k)) a \<and>
     cm_size (r_conn (w_router w)) \<noteq> unat (connmap_max (r_conn (w_router w))) \<and>
     \<not> c_incoming k \<and> c_error k = EOK \<and> \<not> c_encrypted k \<and> c_self k = connself_zero\<lparr>self_id := self_id (c_self k)\<rparr> \<and>
     c_peer k = connpeer_zero \<and> c_maxstatems k = 3000 \<and> c_statems k = 100 \<and> c_maxresolve k = 500 \<and>
     ping_ms (c_ping k) = 0 \<and> (\<forall>t. c_statetimer k = Some t \<longrightarrow> tw_heap (w_wheel w) t \<noteq> None) \<and>
     r_sendlen (w_router w) = 0"

text \<open>What a step may do to it: another state, another timer, and what does not matter here.\<close>

definition grown :: "connection \<Rightarrow> connection \<Rightarrow> bool" where
  "grown k k' \<longleftrightarrow> c_self k' = c_self k \<and> c_peer k' = c_peer k \<and> c_incoming k' = c_incoming k \<and> c_error k' = c_error k \<and>
     c_encrypted k' = c_encrypted k \<and> c_next k' = c_next k \<and> c_insend k' = c_insend k \<and> c_ping k' = c_ping k \<and>
     c_maxstatems k' = c_maxstatems k \<and> c_statems k' = c_statems k \<and> c_maxresolve k' = c_maxresolve k"

lemma own_step:
  assumes own: "own B p a k w" and h: "h_conn w' = (h_conn w)(a \<mapsto> k')" and k: "grown k k'" "\<not> settled (c_state k')"
    and tm: "\<And>t. c_statetimer k' = Some t \<Longrightarrow> tw_heap (w_wheel w') t \<noteq> None"
    and r: "loops B p' w'" "r_conn (w_router w') = r_conn (w_router w)" "r_sendq (w_router w') = r_sendq (w_router w)"
      "r_sendlen (w_router w') = r_sendlen (w_router w)" "w_brk w \<le> w_brk w'"
  shows "own B p' a k' w'"
proof -
  have hk: "h_conn w a = Some k" using own by (simp add: own_def)
  have "conn_id (h_conn w') = conn_id (h_conn w)"
    unfolding h using k(1) by (intro conns_same_ids [OF hk]) (simp add: grown_def)
  note same = connmap_same_ids [OF this, of "r_conn (w_router w)"]
  have "sq_rep (r_sendq (w_router w)) ((h_conn w)(a \<mapsto> k')) []"
    by (rule sq_rep_same [where k = k]) (use own k hk in \<open>simp_all add: own_def sends_def grown_def\<close>)
  then have q: "sends w' []" using h r(3) by (simp add: sends_def)
  have "early (phase k)" using own hk by (auto simp: own_def unready_def)
  then have u: "unready w'"
    using own h k hk by (auto simp: own_def unready_def phase_def grown_def early_def)
  have f: "fresh_above w'"
    using own h hk r(5) by (auto simp: own_def fresh_above_def dest: order.strict_trans2)
  show ?thesis using own h k(1) tm r q u f same by (simp add: own_def grown_def)
qed

section \<open>Timers on the way\<close>

lemma reliable_fine [simp]: "runs_fine (reliable_host B) r = runs_fine B r"
  by (simp add: runs_fine_def reliable_host_def)

lemma reliable_asks [simp]:
  "ho_alloc (reliable_host B) = ho_alloc B" "ho_clock (reliable_host B) = ho_clock B" "ho_rand (reliable_host B) = ho_rand B"
  "ho_resolve (reliable_host B) = reliable_resolve B" "ho_read (reliable_host B) = reliable_read"
  by (simp_all add: reliable_host_def)

text \<open>The world with one more timer on the wheel, and the clock asked.\<close>

definition with_timer :: "timer_cb timer_entry \<Rightarrow> nat \<Rightarrow> poll \<Rightarrow> world \<Rightarrow> world" where
  "with_timer e n p w = w\<lparr>w_brk := Suc (w_brk w), w_wheel := wheel_push (w_brk w) e (w_wheel w), w_tick := n,
     w_router := (w_router w)\<lparr>r_poll := Some p\<rparr>\<rparr>"

lemma with_timer_simps [simp]:
  "w_brk (with_timer e n p w) = Suc (w_brk w)" "h_conn (with_timer e n p w) = h_conn w"
  "w_router (with_timer e n p w) = (w_router w)\<lparr>r_poll := Some p\<rparr>"
  "w_wheel (with_timer e n p w) = wheel_push (w_brk w) e (w_wheel w)"
  by (simp_all add: with_timer_def)

definition is_timer :: "ptr \<Rightarrow> timer_cb \<Rightarrow> timer_cb timer_entry \<Rightarrow> bool" where
  "is_timer d cb e \<longleftrightarrow> te_data e = d \<and> te_cb e = Some cb \<and> \<not> te_canceled e"

lemma set_timer:
  assumes "runs_fine H (w_router w)"
  obtains e n p where "trip_set_timeout_priv H ms d cb w = Some (Some (w_brk w), with_timer e n p w)" "is_timer d cb e"
proof -
  obtain n p i where "trip_set_timeout_priv H ms d cb w = Some (Some (w_brk w),
      w\<lparr>w_brk := Suc (w_brk w), w_wheel := wheel_push (w_brk w) (timer_at H i ms d cb (tw_head (w_wheel w))) (w_wheel w),
        w_tick := n, w_router := (w_router w)\<lparr>r_poll := Some p\<rparr>\<rparr>)"
    by (rule set_timeout_wheel [OF assms]) (rule that)
  then show thesis
    by (intro that [of "timer_at H i ms d cb (tw_head (w_wheel w))" n p]) (simp_all add: with_timer_def is_timer_def timer_at_def)
qed

text \<open>There is a timer of this kind, not cancelled, for this data.\<close>

definition waits_for :: "timer_cb \<Rightarrow> ptr \<Rightarrow> world \<Rightarrow> bool" where
  "waits_for cb d w \<longleftrightarrow> (\<exists>t e. tw_heap (w_wheel w) t = Some e \<and> is_timer d cb e)"

lemma waits_with [simp]: "is_timer d cb e \<Longrightarrow> waits_for cb d (with_timer e n p w)"
  by (auto simp: waits_for_def)

lemma loops_tick [simp]: "loops B p (w\<lparr>w_tick := n\<rparr>) = loops B p w"
  by (simp add: loops_def)

lemma loops_with_timer [simp]: "loops B p w \<Longrightarrow> loops B p (with_timer e n q w)"
  by (simp add: loops_def loops_on_def)

section \<open>Asking for a connection\<close>

text \<open>The router's side: room for two connections, a key for one, and the packet interface has resolved none.\<close>

definition can_open :: "host \<Rightarrow> packet \<Rightarrow> reliable \<Rightarrow> world \<Rightarrow> bool" where
  "can_open B p x w \<longleftrightarrow> loops B p w \<and> unready w \<and> fresh_above w \<and> sends w [] \<and> has_flag FLAG_ALLOW_OUT w \<and>
     connmap_ok (h_conn w) (r_conn (w_router w)) \<and> resolveq_ok (r_resolveq (w_router w)) \<and>
     rq_size (r_resolveq (w_router w)) \<noteq> INT_MAX \<and> cm_size (r_conn (w_router w)) + 2 \<le> unat (connmap_max (r_conn (w_router w))) \<and> r_sendlen (w_router w) = 0 \<and>
     pkt_reliable p = Some x \<and> rel_c0 x = 0 \<and> pkt_resolve p \<and> pkt_read p"

text \<open>The resolver has the key of the connection.\<close>

definition resolves :: "packet \<Rightarrow> reliable \<Rightarrow> addr \<Rightarrow> connection \<Rightarrow> world \<Rightarrow> bool" where
  "resolves p x a k w \<longleftrightarrow> resolveq_ok (r_resolveq (w_router w)) \<and> 0 \<le> c_resolvekey k \<and>
     rq_abs (r_resolveq (w_router w)) (c_resolvekey k) = Some (Some a) \<and>
     pkt_reliable p = Some x \<and> rel_c0 x = 0 \<and> pkt_resolve p \<and> pkt_read p"

lemma open_asks:
  assumes can: "can_open B p x w"
  obtains w' k where "trip_open_connection (reliable_host B) data ilen info w = Some w'"
    "own B p (w_brk w) k w'" "resolves p x (w_brk w) k w'" "c_state k = CS_START" "c_statetimer k = None" "waits_for CB_open_connection (Some (w_brk w)) w'"
proof -
  let ?H = "reliable_host B" and ?a = "w_brk w" and ?h = "h_conn w" and ?m = "r_conn (w_router w)" and ?t = "Suc (w_tick w)"
  have L: "loops B p w" and out: "has_flag FLAG_ALLOW_OUT w" and none: "?h ?a = None"
    and map: "connmap_ok ?h ?m" "cm_size ?m + 2 \<le> unat (connmap_max ?m)" and u: "unready w" and f: "fresh_above w"
    and s: "sends w []" and al: "\<And>n. ho_alloc B n"
    using can by (auto simp: can_open_def fresh_above_def loops_def)
  obtain key q where q: "resolveq_put True (Some ?a) (r_resolveq (w_router w)) = Some (key, q)" "resolveq_ok q" "0 \<le> key"
    "rq_abs q key = Some (Some ?a)"
    using resolveq_put_ok [of "r_resolveq (w_router w)" True "Some ?a"] can
    by (auto simp: can_open_def split: if_splits)
  let ?k = "(tripc_init_rec ?H (w_router w) False)\<lparr>c_data := data, c_ilen := ilen, c_info := info, c_resolvekey := key\<rparr>"
  have size: "cm_size ?m \<noteq> unat (connmap_max ?m)" using map(2) by simp
  obtain m i where add: "connmap_add True (ho_rand B (Suc (Suc ?t))) (ho_rand B (Suc (Suc (Suc ?t)))) ?a ?m (?h(?a \<mapsto> ?k)) =
      Some (EOK, m, ?h(?a \<mapsto> ?k\<lparr>c_self := (c_self ?k)\<lparr>self_id := i\<rparr>\<rparr>))"
    "connmap_ok (?h(?a \<mapsto> ?k\<lparr>c_self := (c_self ?k)\<lparr>self_id := i\<rparr>\<rparr>)) m"
    "\<And>y c. cm_holds (?h(?a \<mapsto> ?k\<lparr>c_self := (c_self ?k)\<lparr>self_id := i\<rparr>\<rparr>)) m y c \<longleftrightarrow> cm_holds ?h ?m y c \<or> y = i \<and> c = ?a"
    "cm_size m = cm_size ?m + 1" "connmap_max m = connmap_max ?m"
    by (rule connmap_add_room [OF map(1) none size, of "ho_rand B (Suc (Suc ?t))" "ho_rand B (Suc (Suc (Suc ?t)))" ?k]) (rule that)
  define k1 where "k1 = ?k\<lparr>c_self := (c_self ?k)\<lparr>self_id := i\<rparr>\<rparr>"
  note add = add [folded k1_def]
  let ?w1 = "w\<lparr>w_brk := Suc ?a, w_tick := Suc (Suc (Suc (Suc ?t))), w_router := (w_router w)\<lparr>r_resolveq := q, r_conn := m\<rparr>,
    h_conn := ?h(?a \<mapsto> k1)\<rparr>"
  have L1: "loops B p ?w1" using L by (simp add: loops_def loops_on_def)
  have "runs_fine ?H (w_router ?w1)" using loops_fine [OF L1] by simp
  then obtain e n p1 where t: "trip_set_timeout_priv ?H 0 (Some ?a) CB_open_connection ?w1 =
      Some (Some (w_brk ?w1), with_timer e n p1 ?w1)" "is_timer (Some ?a) CB_open_connection e"
    by (rule set_timer)
  let ?w2 = "with_timer e n p1 ?w1"
  have run: "trip_open_connection ?H data ilen info w = Some ?w2"
    using out al q(1) add(1) t(1)
    by (simp add: trip_open_connection_def trip_new_connection_def w_new_def w_ok_def w_rand_def w_connmap_add_def
        tripc_init_def conn_upd_def heap_upd_def Let_def)
  have rec: "c_self k1 = connself_zero\<lparr>self_id := i\<rparr>" "c_state k1 = CS_START" "phase k1 = (CS_START, False, False)"
    "\<not> c_insend k1" "c_next k1 = None" "c_statetimer k1 = None" "\<not> c_incoming k1" "c_error k1 = EOK" "\<not> c_encrypted k1"
    "c_peer k1 = connpeer_zero" "c_maxstatems k1 = 3000" "c_statems k1 = 100" "c_maxresolve k1 = 500"
    "ping_ms (c_ping k1) = 0" "c_resolvekey k1 = key"
    by (simp_all add: k1_def tripc_init_rec_def connection_zero_def phase_def ping_zero_def)
  have "sends ?w2 []" using s none rec(4) sq_rep_new [of "r_sendq (w_router w)" ?h "[]" ?a k1] by (simp add: sends_def)
  moreover have "unready ?w2" using u rec(3) by (simp add: unready_def early_def)
  moreover have "fresh_above ?w2" using f by (auto simp: fresh_above_def less_Suc_eq)
  moreover have "loops B p ?w2" using L1 by simp
  moreover have "r_sendlen (w_router w) = 0" using can by (simp add: can_open_def)
  moreover have "c_self k1 = connself_zero\<lparr>self_id := self_id (c_self k1)\<rparr>" unfolding rec(1) by simp
  ultimately have "own B p ?a k1 ?w2"
    using add(2-5) map(2) rec by (simp add: own_def)
  moreover have "resolves p x ?a k1 ?w2"
    using can q rec by (simp add: resolves_def can_open_def)
  ultimately show thesis using that run rec(2,6) t(2) by simp
qed

section \<open>Resolving\<close>

text \<open>The interface's context once it has resolved a connection.\<close>

definition taken :: "packet \<Rightarrow> reliable \<Rightarrow> packet" where
  "taken p x = p\<lparr>pkt_data := Some (Ctx_reliable (x\<lparr>rel_c0 := 1\<rparr>))\<rparr>"

lemma taken_simps [simp]: "pkt_send (taken p x) = pkt_send p" "pkt_read (taken p x) = pkt_read p"
  by (simp_all add: taken_def)

lemma loops_taken:
  "loops B p w \<Longrightarrow> w_router w' = (w_router w)\<lparr>r_packet := Some (taken p x), r_resolveq := q\<rparr> \<Longrightarrow> loops B (taken p x) w'"
  by (simp add: loops_def loops_on_def)

lemma open_resolves:
  assumes own: "own B p a k w" and res: "resolves p x a k w" and st: "c_state k = CS_START" "c_statetimer k = None"
  obtains w' k' where "open_connection_async_cb (reliable_host B) a w = Some w'" "own B (taken p x) a k' w'"
    "c_state k' = CS_RESOLVE" "c_src k' = 1" "c_statetimer k' = None" "waits_for CB_resolve_success (Some a) w'"
proof -
  let ?H = "reliable_host B" and ?key = "c_resolvekey k"
  have L: "loops B p w" and hk: "h_conn w a = Some k" and inc: "\<not> c_incoming k" and mx: "c_maxresolve k = 500"
    using own by (simp_all add: own_def)
  let ?w1 = "w\<lparr>h_conn := (h_conn w)(a \<mapsto> k\<lparr>c_state := CS_RESOLVE\<rparr>)\<rparr>"
  have "runs_fine ?H (w_router ?w1)" using loops_fine [OF L] by simp
  then obtain e n q where t1: "trip_set_timeout_priv ?H 500 (Some a) CB_state_resolve ?w1 =
      Some (Some (w_brk ?w1), with_timer e n q ?w1)"
    by (rule set_timer)
  let ?t = "w_brk w"
  let ?w2 = "(with_timer e n q ?w1)\<lparr>h_conn := (h_conn w)(a \<mapsto> k\<lparr>c_state := CS_RESOLVE, c_statetimer := Some ?t\<rparr>)\<rparr>"
  have start: "tripc_start ?H a w = Some ?w2"
    using hk inc st mx t1
    by (simp add: tripc_start_def tripc_set_state_def set_state_leave_def set_state_enter_def tripc_cancel_timeout_def
        tripc_set_timeout_def trip_set_timeout_def conn_upd_def heap_upd_def)
  obtain rq where rq: "resolveq_pop ?key (r_resolveq (w_router w)) = Some (Some a, rq)"
    using resolveq_pop_ok [of "r_resolveq (w_router w)" ?key] res by (auto simp: resolves_def)
  let ?k3 = "k\<lparr>c_state := CS_RESOLVE, c_statetimer := None, c_src := 1\<rparr>"
  let ?w3 = "?w2\<lparr>w_router := (w_router ?w2)\<lparr>r_packet := Some (taken p x), r_resolveq := rq\<rparr>,
    w_wheel := (w_wheel ?w2)\<lparr>tw_heap := (tw_heap (w_wheel ?w2))(?t \<mapsto> e\<lparr>te_canceled := True\<rparr>)\<rparr>,
    h_conn := (h_conn w)(a \<mapsto> ?k3)\<rparr>"
  have L2: "loops B p ?w2" using L by (simp add: loops_def loops_on_def)
  have L3: "loops B (taken p x) ?w3" by (rule loops_taken [OF L2]) simp
  obtain e2 n2 q2 where t2: "trip_set_timeout_priv B 0 (Some a) CB_resolve_success ?w3 =
      Some (Some (w_brk ?w3), with_timer e2 n2 q2 ?w3)" "is_timer (Some a) CB_resolve_success e2"
    by (rule set_timer [OF loops_fine [OF L3]])
  let ?w4 = "with_timer e2 n2 q2 ?w3"
  have p: "r_packet (w_router w) = Some p" using L by (simp add: loops_def loops_on_def)
  have "reliable_resolve B ?key (c_ilen k) (c_info k) ?w2 = Some ?w4"
    using res p rq t2(1)
    by (simp add: reliable_resolve_def resolves_def rel_upd_def trip_resolve_def tripc_cancel_timeout_def
        trip_cancel_timeout_priv_def timerwheel_cancel_def conn_upd_def heap_upd_def taken_def)
  then have run: "open_connection_async_cb ?H a w = Some ?w4"
    using hk start p res by (simp add: open_connection_async_cb_def call_resolve_def resolves_def)
  have "own B (taken p x) a ?k3 ?w4"
    by (rule own_step [OF own]) (use L3 in \<open>simp_all add: grown_def\<close>)
  then show thesis using that run t2(2) by simp
qed

section \<open>Entering the state \<open>OPEN\<close>\<close>

text \<open>Asking to send sets a timer, which is still there when another one is set.\<close>

lemma send_timer:
  assumes fine: "runs_fine H (w_router w)" and send: "tripc_set_send H c w = Some w'"
  shows "w_brk w < w_brk w' \<and> (\<exists>t e. t < w_brk w' \<and> tw_heap (w_wheel w') t = Some e \<and> is_timer None CB_send_immediately e)"
proof -
  obtain w1 where w1: "on_sendq (sendq_nq c) w = Some w1"
    using send by (auto simp: tripc_set_send_def trip_qconnection_def split: Option.bind_splits)
  then have brk: "w_brk w1 = w_brk w" "runs_fine H (w_router w1)"
    using fine by (auto simp: on_sendq_def runs_fine_def split: Option.bind_splits)
  obtain e n p where e: "trip_set_timeout_priv H 0 None CB_send_immediately w1 = Some (Some (w_brk w1), with_timer e n p w1)"
    "is_timer None CB_send_immediately e"
    by (rule set_timer [OF brk(2)])
  then have "w_brk w' = Suc (w_brk w)" "tw_heap (w_wheel w') (w_brk w) = Some e"
    using send w1 brk(1)
    by (auto simp: tripc_set_send_def trip_qconnection_def flag_always_ready conn_upd_def heap_upd_def split: option.splits)
  with e(2) show ?thesis by auto
qed

lemma sim_fields:
  assumes "heap_sim h h'"
  shows "h' d = None \<longleftrightarrow> h d = None" "(\<And>k. h d = Some k \<Longrightarrow> early (phase k)) \<Longrightarrow> h' d = Some k' \<Longrightarrow> early (phase k')"
proof -
  have eq: "map_option bare (h d) = map_option bare (h' d)" using assms by (simp add: heap_sim_def)
  show "h' d = None \<longleftrightarrow> h d = None" using eq by (metis map_option_is_None)
  show "early (phase k')" if e: "\<And>k. h d = Some k \<Longrightarrow> early (phase k)" and k': "h' d = Some k'"
  proof -
    obtain k where k: "h d = Some k" "bare k = bare k'" using eq k' by (cases "h d") auto
    have "phase k' = phase k" by (rule bare_field [OF k(2) [symmetric]]) (simp add: phase_def bare_def)
    then show ?thesis using e k(1) by simp
  qed
qed

lemma resolved_opens:
  assumes own: "own B p a k w" and st: "c_src k = 1" "c_statetimer k = None"
  obtains w' k' where "resolve_delay_success_cb (reliable_host B) a w = Some w'" "alone B p w' a k' [a]" "speaks k'"
    "r_sendlen (w_router w') = 0" "waits_for CB_send_immediately None w'"
proof -
  let ?H = "reliable_host B"
  have L: "loops B p w" and hk: "h_conn w a = Some k" and k: "\<not> c_encrypted k" "c_maxstatems k = 3000" "c_statems k = 100"
    using own by (simp_all add: own_def)
  define k2 where "k2 = k\<lparr>c_state := CS_OPEN, c_statedeadline := triptime_deadline (triptime_now (ho_clock B (w_tick w))) 3000,
    c_growms := 100, c_retry := 0\<rparr>"
  let ?w2 = "w\<lparr>w_tick := Suc (w_tick w), h_conn := (h_conn w)(a \<mapsto> k2)\<rparr>"
  have own2: "own B p a k2 ?w2"
    by (rule own_step [OF own]) (use L st in \<open>simp_all add: k2_def grown_def\<close>)
  then have f2: "runs_fine ?H (w_router ?w2)" and q2: "sends ?w2 []" using loops_fine [of B p ?w2] by (simp_all add: own_def)
  obtain w3 k3 where w3: "tripc_set_send ?H a ?w2 = Some w3" "sends w3 (queued a [])" "heap_sim (h_conn ?w2) (h_conn w3)"
    "stays (w_router ?w2) (w_router w3)" "h_conn w3 a = Some k3" "c_hassend k3" "bare k3 = bare k2"
    by (rule set_send_effect [OF f2 q2, of a k2]) simp
  have b: "f k3 = f k2" if "\<And>x. f (bare x) = f x" for f :: "connection \<Rightarrow> 'b"
    by (rule bare_field [where f = f, OF w3(7)]) (rule that)
  have eq: "c_growms k3 = 100" "c_maxstatems k3 = 3000" "c_retry k3 = 0" "c_state k3 = CS_OPEN" "c_self k3 = c_self k"
    "c_peer k3 = c_peer k" "c_src k3 = 1" "c_error k3 = c_error k" "c_ping k3 = c_ping k"
    using b [of c_growms] b [of c_maxstatems] b [of c_retry] b [of c_state] b [of c_self] b [of c_peer] b [of c_src]
      b [of c_error] b [of c_ping] st k by (simp_all add: bare_def k2_def)
  have "can_grow (Suc 0) k3" using eq by (simp add: can_grow_def)
  then obtain k4 where k4: "get_growth k3 = Some (c_growms k3, k4)"
    "k4 = k3\<lparr>c_growms := min (c_maxstatems k3) (c_growms k3 + c_growms k3 div 2), c_retry := c_retry k3 + 1\<rparr>"
    by (rule get_growth_step)
  let ?w4 = "w3\<lparr>h_conn := (h_conn w3)(a \<mapsto> k4)\<rparr>"
  have f4: "runs_fine ?H (w_router ?w4)" using stays_fine [OF w3(4) f2] by simp
  obtain e n q where t: "trip_set_timeout_priv ?H 100 (Some a) CB_state_resend ?w4 = Some (Some (w_brk ?w4), with_timer e n q ?w4)"
    by (rule set_timer [OF f4])
  define k5 where "k5 = k4\<lparr>c_statetimer := Some (w_brk w3)\<rparr>"
  let ?w5 = "(with_timer e n q ?w4)\<lparr>h_conn := (h_conn w3)(a \<mapsto> k5)\<rparr>"
  have run: "resolve_delay_success_cb ?H a w = Some ?w5"
    using hk st k w3(1,5) k4(1) t eq(1)
    by (simp add: resolve_delay_success_cb_def tripc_resolved_def tripc_set_state_def set_state_leave_def set_state_enter_def
        tripc_cancel_timeout_def conn_upd_def heap_upd_def tripc_mk_keys_def tripc_set_deadline_def w_deadline_def w_now_def
        tripc_set_growth_def resend_timer_def tripc_get_growth_def tripc_set_timeout_def trip_set_timeout_def Let_def
        k2_def k5_def)
  have stays: "stays ((w_router w)\<lparr>r_conn := r_conn (w_router w)\<rparr>) (w_router w3)" using w3(4) by simp
  have "loops B p w3" by (rule loops_stays [OF L stays])
  then have L5: "loops B p ?w5" by (simp add: loops_def loops_on_def)
  have r: "r_conn (w_router w3) = r_conn (w_router w)" "r_sendlen (w_router w3) = r_sendlen (w_router w)"
    using stays_field [OF w3(4), of r_conn] stays_field [OF w3(4), of r_sendlen] by (simp_all add: bare_router_def)
  have k5: "c_self k5 = c_self k3" "c_next k5 = c_next k3" "c_insend k5 = c_insend k3" "phase k5 = phase k3"
    "c_hassend k5" "c_src k5 = 1" "c_state k5 = CS_OPEN" "c_peer k5 = c_peer k" "c_error k5 = c_error k"
    "c_ping k5 = c_ping k" "c_statetimer k5 = Some (w_brk w3)"
    using w3(6) eq by (simp_all add: k5_def k4(2) phase_def)
  have "conn_id (h_conn ?w5) = conn_id (h_conn w3)"
    using conns_same_ids [OF w3(5), of k5] k5(1) by simp
  also have "\<dots> = conn_id (h_conn w)"
    using heap_sim_id [OF w3(3)] conns_same_ids [OF hk, of k2] by (simp add: k2_def)
  finally have ids: "conn_id (h_conn ?w5) = conn_id (h_conn w)" .
  note same = connmap_same_ids [OF this, of "r_conn (w_router w)"]
  have q5: "sends ?w5 [a]"
    using w3(2) sq_rep_same [of "r_sendq (w_router w3)" "h_conn w3" "[a]" a k3 k5] w3(5) k5 by (simp add: sends_def queued_def)
  have u3: "early (phase x)" if "h_conn w3 d = Some x" for d x
    by (rule sim_fields(2) [OF w3(3) _ that]) (use own2 in \<open>simp add: own_def unready_def\<close>)
  then have u5: "unready ?w5" using w3(5) k5(4) by (auto simp: unready_def)
  have brk: "w_brk w < w_brk w3" using send_timer [OF f2 w3(1)] by simp
  have f5: "h_conn ?w5 (w_brk ?w5) = None"
  proof -
    have "h_conn ?w2 d \<noteq> None \<Longrightarrow> d < w_brk w" for d using own2 by (simp add: own_def fresh_above_def)
    then have "h_conn ?w2 (Suc (w_brk w3)) = None" using brk by (meson Suc_lessD less_asym)
    then have "h_conn w3 (Suc (w_brk w3)) = None" by (simp only: sim_fields(1) [OF w3(3)])
    then show ?thesis using w3(5) by auto
  qed
  have self: "c_self k3 = c_self k" "c_self k = connself_zero\<lparr>self_id := self_id (c_self k)\<rparr>" using eq own by (simp_all add: own_def)
  have "opener B ?w5 a k5 [a]"
    using L5 loops_fine [OF L5] loops_flags [OF L5] q5 same own r k5 self
    by (simp add: opener_def own_def loops_def loops_on_def)
  moreover have "has_room ?w5 [a]" using q5 f5 same own r by (simp add: has_room_def own_def)
  ultimately have "alone B p ?w5 a k5 [a]"
    using L5 u5 k5 own by (simp add: alone_def own_def connpeer_zero_def)
  moreover have "self_sequence (c_self k5) = 0" "self_nonce (c_self k5) = None" "self_pk (c_self k5) = None"
    unfolding k5(1) self(1) by (subst self(2), simp add: connself_zero_def)+
  then have "speaks k5" using k5(5) by (simp add: speaks_def copy_or_zero_def)
  moreover have "r_sendlen (w_router ?w5) = 0" using r own by (simp add: own_def)
  moreover obtain t' e' where "t' < w_brk w3" "tw_heap (w_wheel w3) t' = Some e'" "is_timer None CB_send_immediately e'"
    using send_timer [OF f2 w3(1)] by blast
  then have "tw_heap (w_wheel ?w5) t' = Some e' \<and> is_timer None CB_send_immediately e'" by simp
  then have "waits_for CB_send_immediately None ?w5" unfolding waits_for_def by blast
  ultimately show thesis using that run by blast
qed

section \<open>The whole way\<close>

lemma send_now:
  assumes al: "alone B p w a k [a]" and sp: "speaks k" and out: "r_sendlen (w_router w) = 0" and rd: "pkt_read p"
  obtains w' where "send_immediately_cb (reliable_host B) w = Some w'" "sends w' []"
    "acquainted w' a (self_id (c_self k)) (w_brk w)" "a \<noteq> w_brk w"
proof -
  let ?H = "reliable_host B"
  obtain w' where w': "trip_listen_out ?H w = Some w'" "sends w' []" "acquainted w' a (self_id (c_self k)) (w_brk w)" "a \<noteq> w_brk w"
    using loopback_handshake [OF al sp out] by blast
  have "r_packet (w_router w) = Some p" using al by (simp add: alone_def loops_def loops_on_def)
  then have "read_loop ?H TRIP_SOCKET_TIMEOUT w = Some (EWOULDBLOCK, w)"
    using rd by (simp add: read_loop.simps call_read_def reliable_read_def)
  moreover have "\<not> trip_has_send w'"
    using w'(2) sendq_has_rep by (fastforce simp: trip_has_send_def sends_def)
  ultimately have "send_immediately_cb ?H w = Some w'"
    using w'(1) by (simp add: send_immediately_cb_def trip_listen_def trip_listen_in_def TRIP_IN_def TRIP_OUT_def TRIP_INOUT_def)
  with w'(2-4) show thesis by (intro that)
qed

text \<open>From asking for a connection to the handshake. On the router of the test program, which
  listens over the packet interface of \<open>src/test/reliable_packet.c\<close>, has room for two more connections
  and has not resolved one yet, \<open>trip_open_connection\<close> leaves a timer; its callback has the
  address resolved, which leaves another timer; its callback brings the connection to \<open>OPEN\<close> and
  asks for sending, which leaves a third; and its callback carries out the whole handshake of the
  router with itself, inside the send loop, because the interface hands each packet to the
  receiving side before it returns. In the end the queue is empty, the connection is in \<open>PING\<close>, the
  one that was made for it is in \<open>CHAL\<close>, both are in the connection map, and each knows the other's identifier.\<close>

theorem connection_to_itself:
  assumes "can_open B p x w"
  shows "\<exists>w1 w2 w3 w4 i b. trip_open_connection (reliable_host B) data ilen info w = Some w1 \<and>
    waits_for CB_open_connection (Some (w_brk w)) w1 \<and>
    fire (reliable_host B) CB_open_connection (Some (w_brk w)) w1 = Some w2 \<and>
    waits_for CB_resolve_success (Some (w_brk w)) w2 \<and>
    fire (reliable_host B) CB_resolve_success (Some (w_brk w)) w2 = Some w3 \<and>
    waits_for CB_send_immediately None w3 \<and> sends w3 [w_brk w] \<and>
    fire (reliable_host B) CB_send_immediately None w3 = Some w4 \<and>
    sends w4 [] \<and> acquainted w4 (w_brk w) i b \<and> b \<noteq> w_brk w"
proof -
  let ?H = "reliable_host B" and ?a = "w_brk w"
  obtain w1 k1 where 1: "trip_open_connection ?H data ilen info w = Some w1" "own B p ?a k1 w1" "resolves p x ?a k1 w1"
    "c_state k1 = CS_START" "c_statetimer k1 = None" "waits_for CB_open_connection (Some ?a) w1"
    by (rule open_asks [OF assms])
  obtain w2 k2 where 2: "open_connection_async_cb ?H ?a w1 = Some w2" "own B (taken p x) ?a k2 w2"
    "c_state k2 = CS_RESOLVE" "c_src k2 = 1" "c_statetimer k2 = None" "waits_for CB_resolve_success (Some ?a) w2"
    by (rule open_resolves [OF 1(2-5)])
  obtain w3 k3 where 3: "resolve_delay_success_cb ?H ?a w2 = Some w3" "alone B (taken p x) w3 ?a k3 [?a]" "speaks k3"
    "r_sendlen (w_router w3) = 0" "waits_for CB_send_immediately None w3"
    by (rule resolved_opens [OF 2(2,4,5)])
  have "pkt_read (taken p x)" using assms by (simp add: can_open_def)
  then obtain w4 where 4: "send_immediately_cb ?H w3 = Some w4" "sends w4 []"
    "acquainted w4 ?a (self_id (c_self k3)) (w_brk w3)" "?a \<noteq> w_brk w3"
    by (rule send_now [OF 3(2-4)])
  have "sends w3 [?a]" using 3(2) by (simp add: alone_def opener_def)
  then show ?thesis
    using 1(1,6) 2(1,6) 3(1,5) 4
    by (intro exI [of _ w1] exI [of _ w2] exI [of _ w3] exI [of _ w4] exI [of _ "self_id (c_self k3)"] exI [of _ "w_brk w3"])
      (simp add: fire_def)
qed

text \<open>A router that has just come to listen, with the interface as \<open>reliable_new\<close> makes it.\<close>

definition idle_reliable :: reliable where
  "idle_reliable = \<lparr>rel_c0 = 0, rel_c1 = 0, rel_alen = 512, rel_len = 0, rel_buf = Some (replicate 512 0), rel_timer = None\<rparr>"

definition idle_packet :: packet where
  "idle_packet = full_packet\<lparr>pkt_data := Some (Ctx_reliable idle_reliable)\<rparr>"

definition idle_world :: world where
  "idle_world = rt_upd (\<lambda>r. r\<lparr>r_packet := Some idle_packet, r_buf := Some (replicate 1200 0), r_buflen := 1200,
     r_max_packet_send_count := 1024, r_max_connection_send_count := 128, r_resolveq := resolveq_init\<rparr>) listening_world"

lemma idle_can_open: "can_open looping_host idle_packet idle_reliable idle_world"
proof -
  have cr: "sodium_sizes (ho_crypto looping_host)"
    using sodium_ok by (simp add: looping_host_def still_host_def sodium_sizes_def) (simp add: sodium_def)
  have "modest looping_host"
    by (simp add: modest_def looping_host_def still_host_def router_handle_screen_def)
  moreover have "loops_on idle_packet (w_router idle_world)"
    by (simp add: loops_on_def idle_world_def listening_world_def blank_world_def router_zero_def flag_defs)
  moreover have "ho_screen looping_host = router_handle_screen" "\<forall>n. ho_alloc looping_host n"
    by (simp_all add: looping_host_def still_host_def)
  moreover have "pkt_send idle_packet" "r_poll (w_router idle_world) \<noteq> None"
    by (simp_all add: idle_packet_def full_packet_def idle_world_def listening_world_def)
  ultimately have L: "loops looping_host idle_packet idle_world" using cr by (simp add: loops_def)
  have "connmap_ok (h_conn idle_world) (r_conn (w_router idle_world))"
    by (simp add: idle_world_def listening_world_def connmap_init_ok)
  moreover have "cm_size (connmap_init 4) + 2 \<le> unat (connmap_max (connmap_init 4))" by code_simp
  moreover have "sends idle_world []"
    by (simp add: sends_def idle_world_def listening_world_def blank_world_def router_zero_def sq_rep_init)
  ultimately show ?thesis
    using L by (simp add: can_open_def)
      (simp add: idle_world_def listening_world_def blank_world_def router_zero_def unready_def fresh_above_def
        has_flag_def flag_defs idle_packet_def idle_reliable_def full_packet_def pkt_reliable_def INT_MAX_def)
qed

theorem connection_to_itself_witness:
  "\<exists>w1 w2 w3 w4 i b. trip_open_connection (reliable_host looping_host) (Some 99) 0 None idle_world = Some w1 \<and>
    fire (reliable_host looping_host) CB_open_connection (Some 1) w1 = Some w2 \<and>
    fire (reliable_host looping_host) CB_resolve_success (Some 1) w2 = Some w3 \<and>
    fire (reliable_host looping_host) CB_send_immediately None w3 = Some w4 \<and> acquainted w4 1 i b"
proof -
  have "w_brk idle_world = 1" by (simp add: idle_world_def listening_world_def blank_world_def)
  then show ?thesis using connection_to_itself [OF idle_can_open, of "Some 99" 0 None] by metis
qed

end
