(* ===== verification/Program.thy ===== *)
theory Program
  imports Opening Starting Stopping
begin

text \<open>
  The test program \<open>src/test/reliable.c\<close> from its start: setting the router up, starting it, asking
  for a connection, and the callbacks that follow (theory \<open>Opening\<close>).
\<close>

section \<open>What the program finds around it\<close>

text \<open>
  Memory, the octets it asks for (whatever they are), libsodium with its documented sizes, and
  a host whose only hook is the program's own.
\<close>

definition able :: "host \<Rightarrow> bool" where
  "able B \<longleftrightarrow> (\<forall>n. ho_alloc B n) \<and> (\<forall>n k. length (ho_bytes B n k) = k) \<and> sodium_sizes (ho_crypto B) \<and> modest B \<and>
     ho_screen B = router_handle_screen"

text \<open>An \<open>epoll\<close> that gives a descriptor.\<close>

definition gives_poll :: "epoll \<Rightarrow> bool" where
  "gives_poll E \<longleftrightarrow> (\<forall>w. \<exists>fd n. ep_create E w = (fd, w\<lparr>w_tick := n\<rparr>) \<and> fd \<noteq> - 1)"

section \<open>Setting up\<close>

lemma reliable_bytes [simp]: "ho_bytes (reliable_host B) = ho_bytes B" "ho_bind (reliable_host B) = reliable_bind B"
  by (simp_all add: reliable_host_def)

text \<open>The router as \<open>trip_new\<close> makes it, and with the program's options.\<close>

definition new_router :: "bytes \<Rightarrow> router" where
  "new_router b = router_zero\<lparr>r_timeout_bind := 1000, r_max_conn := DEFAULT_MAX_CONN,
     r_max_in := DEFAULT_MAX_CONN, r_max_out := DEFAULT_MAX_CONN, r_max_packet_read_count := 1024,
     r_max_packet_send_count := 1024, r_max_connection_send_count := 128, r_max_streams := DEFAULT_MAX_STREAM,
     r_flag := FLAG_ALLOW_IN OR FLAG_ALLOW_OUT, r_buflen := 1200, r_buf := Some b, r_mindeadline := TRIPTIME_END,
     r_resolveq := resolveq_init, r_conn := connmap_init (ucast DEFAULT_MAX_CONN)\<rparr>"

definition program_router :: "packet \<Rightarrow> addr \<Rightarrow> router \<Rightarrow> router" where
  "program_router p d r = r\<lparr>r_data := Some d, r_screen := True, r_connection := True, r_stream := True, r_message := True,
     r_packet := Some p, r_flag := (((r_flag r OR FLAG_ALLOW_PLAIN_OPEN) OR FLAG_ALLOW_PLAIN_ISIG) OR FLAG_ALLOW_PLAIN_OSIG)
       OR FLAG_ALLOW_PLAIN_COMM\<rparr>"

definition new_packet :: "bool \<Rightarrow> bytes \<Rightarrow> packet" where
  "new_packet junk b = \<lparr>pkt_data = Some (Ctx_reliable \<lparr>rel_c0 = 0, rel_c1 = 0, rel_alen = 512, rel_len = 0, rel_buf = Some b,
     rel_timer = None\<rparr>), pkt_bind = True, pkt_resolve = True, pkt_send = True, pkt_read = True, pkt_unbind = True,
     pkt_router = junk\<rparr>"

lemma trip_new_able:
  "(\<And>n. ho_alloc H n) \<Longrightarrow> trip_new H PRESET_ROUTER w = (True, w\<lparr>w_router := new_router (ho_bytes H (w_tick w + 2) 1200),
     w_wheel := timerwheel_init (w_wheel w), w_tick := w_tick w + 3\<rparr>)"
  by (simp add: trip_new_def w_ok_def preset_router_def new_router_def)

lemma reliable_new_able:
  "(\<And>n. ho_alloc H n) \<Longrightarrow> reliable_new H junk w =
     Some (new_packet junk (ho_bytes H (Suc (Suc (Suc (w_tick w)))) 512), w\<lparr>w_tick := w_tick w + 4\<rparr>)"
  by (simp add: reliable_new_def w_ok_def new_packet_def)

lemma run_init_able:
  assumes "\<And>n. ho_alloc H n" "gives_poll E" "r_poll (w_router w) = None"
  obtains n p where "trip_run_init E H w =
    (EOK, w\<lparr>w_tick := n, w_router := (w_router w)\<lparr>r_watch := Some HPoll, r_timeout := Some HPoll, r_poll := Some p\<rparr>\<rparr>)"
proof -
  let ?w = "w\<lparr>w_router := (w_router w)\<lparr>r_watch := Some HPoll, r_timeout := Some HPoll\<rparr>, w_tick := Suc (w_tick w)\<rparr>"
  obtain fd n where "ep_create E ?w = (fd, ?w\<lparr>w_tick := n\<rparr>)" "fd \<noteq> - 1"
    using assms(2) unfolding gives_poll_def by blast
  then have "trip_run_init E H w = (EOK, w\<lparr>w_tick := Suc n, w_router := (w_router w)\<lparr>r_watch := Some HPoll,
      r_timeout := Some HPoll, r_poll := Some \<lparr>poll_efd = fd, poll_deadline = triptime_now (ho_clock H n)\<rparr>\<rparr>\<rparr>)"
    using assms(1,3) by (simp add: trip_run_init_def trip_poll_new_def w_ok_def w_now_def)
  then show thesis by (rule that)
qed

text \<open>Binding: the interface reports at once that it is ready.\<close>

lemma reliable_bind_listens:
  assumes st: "r_state (w_router w) = RS_BIND" "r_statetimer (w_router w) = Some t" "tw_heap (w_wheel w) t \<noteq> None"
    and fine: "runs_fine B (w_router w)" and q: "sends w []" and pk: "r_packet (w_router w) = Some k" "pkt_reliable k = Some x"
  obtains w' d q u where "reliable_bind B w = Some w'"
    "w_router w' = (w_router w)\<lparr>r_statedeadline := d, r_statetimer := None, r_state := RS_LISTEN,
       r_flag := r_flag (w_router w) OR FLAG_ALWAYS_READY, r_poll := Some q,
       r_packet := Some (k\<lparr>pkt_data := Some (Ctx_reliable (x\<lparr>rel_timer := u\<rparr>))\<rparr>)\<rparr>"
    "h_conn w' = h_conn w" "w_brk w \<le> w_brk w'"
proof -
  obtain d n tw where lv: "router_leave B w = Some (w\<lparr>w_tick := n, w_wheel := tw,
      w_router := (w_router w)\<lparr>r_statedeadline := d, r_statetimer := None\<rparr>\<rparr>)"
    by (rule leave_bind [OF st])
  let ?w1 = "w\<lparr>w_tick := n, w_wheel := tw,
      w_router := (w_router w)\<lparr>r_statetimer := None, r_state := RS_LISTEN, r_statedeadline := 0\<rparr>\<rparr>"
  have ready: "trip_ready B w = Some ?w1"
    using lv st by (simp add: trip_ready_def trip_set_state_def router_enter_def)
  let ?w2 = "w\<lparr>w_tick := n, w_wheel := tw, w_router := (w_router w)\<lparr>r_statetimer := None, r_state := RS_LISTEN, r_statedeadline := 0,
      r_flag := r_flag (w_router w) OR FLAG_ALWAYS_READY\<rparr>\<rparr>"
  have "\<not> sendq_has (r_sendq (w_router w))" using q sendq_has_rep by (fastforce simp: sends_def)
  then have watch: "trip_watch B TRIP_SOCKET_TIMEOUT TRIP_INOUT ?w1 = Some ?w2"
    by (simp add: trip_watch_def TRIP_REMOVE_def TRIP_INOUT_def)
  have "runs_fine B (w_router ?w2)" using fine by (simp add: runs_fine_def)
  then obtain e m p where "trip_set_timeout_priv B 50 None (CB_user 0) ?w2 = Some (Some (w_brk ?w2), with_timer e m p ?w2)"
    by (rule set_timer)
  then have "reliable_bind B w = Some ((with_timer e m p ?w2)\<lparr>w_router := (w_router (with_timer e m p ?w2))
      \<lparr>r_packet := Some (k\<lparr>pkt_data := Some (Ctx_reliable (x\<lparr>rel_timer := Some (w_brk w)\<rparr>))\<rparr>)\<rparr>\<rparr>)"
    using ready watch pk
    by (simp add: reliable_bind_def reliable_set_timeout_def trip_set_timeout_def rel_upd_def)
  then show thesis
    by (rule that [where d = 0 and q = p and u = "Some (w_brk w)"]) simp_all
qed

section \<open>Ready to open connections\<close>

lemma program_flags:
  "f = r_flag (program_router p d (new_router b)) OR FLAG_ALWAYS_READY \<Longrightarrow>
     f AND FLAG_ALLOW_IN \<noteq> 0 \<and> f AND FLAG_ALLOW_OUT \<noteq> 0 \<and> f AND FLAG_ALLOW_PLAIN_OPEN \<noteq> 0 \<and>
     f AND FLAG_ALLOW_PLAIN_ISIG \<noteq> 0 \<and> f AND FLAG_ALLOW_PLAIN_OSIG \<noteq> 0 \<and> f AND FLAG_ALLOW_PLAIN_COMM \<noteq> 0"
  by (simp add: program_router_def new_router_def flag_defs)

lemma program_fields:
  "r_screen (program_router p d (new_router b))" "r_connsrc0 (program_router p d (new_router b)) = None"
  "r_connsrc1 (program_router p d (new_router b)) = None" "r_buf (program_router p d (new_router b)) = Some b"
  "r_buflen (program_router p d (new_router b)) = 1200" "r_sendq (program_router p d (new_router b)) = sendq_init"
  "r_max_connection_send_count (program_router p d (new_router b)) = 128"
  "r_max_packet_send_count (program_router p d (new_router b)) = 1024"
  "r_conn (program_router p d (new_router b)) = connmap_init (ucast DEFAULT_MAX_CONN)"
  "r_resolveq (program_router p d (new_router b)) = resolveq_init" "r_sendlen (program_router p d (new_router b)) = 0"
  "r_state (program_router p d (new_router b)) = RS_START" "r_error (program_router p d (new_router b)) = EOK"
  "r_connection (program_router p d (new_router b))" "r_stream (program_router p d (new_router b))"
  "r_message (program_router p d (new_router b))" "r_packet (program_router p d (new_router b)) = Some p"
  by (simp_all add: program_router_def new_router_def router_zero_def)

lemma new_map: "connmap_ok h (connmap_init (ucast DEFAULT_MAX_CONN))"
  "cm_size (connmap_init (ucast DEFAULT_MAX_CONN)) + 2 \<le> unat (connmap_max (connmap_init (ucast DEFAULT_MAX_CONN)))"
proof -
  show "connmap_ok h (connmap_init (ucast DEFAULT_MAX_CONN))" by (rule connmap_init_ok)
  have "ucast DEFAULT_MAX_CONN = (524288 :: u64)" by (simp add: DEFAULT_MAX_CONN_def push_bit_eq_mult)
  moreover have "near_pwr2_64 524288 = 524288" using near_pwr2_64_power [of 19] by simp
  ultimately show "cm_size (connmap_init (ucast DEFAULT_MAX_CONN)) + 2 \<le> unat (connmap_max (connmap_init (ucast DEFAULT_MAX_CONN)))"
    by (simp add: connmap_init_def connmap_max_def connmap_max_conn_def Let_def)
qed

lemma init_starts:
  assumes al: "\<And>n. ho_alloc B n" and E: "gives_poll E"
  obtains data n k x p b N where "b = ho_bytes B N 1200" "pkt_reliable k = Some x" "rel_c0 x = 0" "pkt_resolve k" "pkt_read k" "pkt_send k" "pkt_bind k"
    "router_init E (reliable_host B) junk d w = map_option (\<lambda>r. (data, snd r)) (trip_start (reliable_host B) (w\<lparr>w_wheel := timerwheel_init (w_wheel w),
       w_tick := n, w_router := (program_router k d (new_router b))\<lparr>r_watch := Some HPoll,
         r_timeout := Some HPoll, r_poll := Some p\<rparr>\<rparr>))"
proof -
  let ?H = "reliable_host B"
  have alH: "\<And>n. ho_alloc ?H n" using al by simp
  let ?N = "Suc (w_tick w) + 2"
  let ?b = "ho_bytes B ?N 1200"
  define k where "k = new_packet junk (ho_bytes B (Suc (Suc (Suc (Suc (w_tick w) + 3)))) 512)"
  let ?r = "program_router k d (new_router ?b)"
  let ?w1 = "w\<lparr>w_wheel := timerwheel_init (w_wheel w), w_tick := Suc (w_tick w) + 3 + 4, w_router := ?r\<rparr>"
  have "r_poll (w_router ?w1) = None" by (simp add: program_router_def new_router_def router_zero_def)
  then obtain n p where poll: "trip_run_init E ?H ?w1 = (EOK, ?w1\<lparr>w_tick := n, w_router := (w_router ?w1)\<lparr>r_watch := Some HPoll,
      r_timeout := Some HPoll, r_poll := Some p\<rparr>\<rparr>)"
    by (rule run_init_able [OF alH E])
  let ?data = "\<lparr>md_running = True, md_stop = False, md_stopdeadline = triptime_deadline (triptime_now (ho_clock B (w_tick w))) 1000\<rparr>"
  have "router_init E ?H junk d w =
      (let (_, v) = trip_run_init E ?H ?w1 in do { (_, v) \<leftarrow> trip_start ?H v; Some (?data, v) })"
    using alH
    by (simp add: router_init_def trip_new_able reliable_new_able trip_setopt_def w_deadline_def w_now_def opt_flag_def
        program_router_def k_def)
  then have "router_init E ?H junk d w = map_option (\<lambda>r. (?data, snd r)) (trip_start ?H (?w1\<lparr>w_tick := n,
      w_router := (w_router ?w1)\<lparr>r_watch := Some HPoll, r_timeout := Some HPoll, r_poll := Some p\<rparr>\<rparr>))"
    unfolding poll by (simp add: map_conv_bind_option comp_def split_def)
  then show thesis
    by (intro that [where b = ?b and N = ?N and k = k and n = n and p = p and data = ?data and
          x = "\<lparr>rel_c0 = 0, rel_c1 = 0, rel_alen = 512, rel_len = 0,
            rel_buf = Some (ho_bytes B (Suc (Suc (Suc (Suc (w_tick w) + 3)))) 512), rel_timer = None\<rparr>"])
      (simp_all add: k_def new_packet_def pkt_reliable_def)
qed

lemma init_opens:
  assumes able: "able B" and E: "gives_poll E" and none: "\<And>a. h_conn w a = None"
  obtains data w' p x where "router_init E (reliable_host B) junk d w = Some (data, w')" "can_open B p x w'"
proof -
  let ?H = "reliable_host B"
  have al: "\<And>n. ho_alloc B n" using able by (simp add: able_def)
  obtain data n k x p b N where k: "b = ho_bytes B N 1200" "pkt_reliable k = Some x" "rel_c0 x = 0" "pkt_resolve k" "pkt_read k"
    "pkt_send k" "pkt_bind k"
    and init: "router_init E ?H junk d w = map_option (\<lambda>r. (data, snd r)) (trip_start ?H (w\<lparr>w_wheel := timerwheel_init (w_wheel w),
       w_tick := n, w_router := (program_router k d (new_router b))\<lparr>r_watch := Some HPoll,
         r_timeout := Some HPoll, r_poll := Some p\<rparr>\<rparr>))"
    by (rule init_starts [OF al E])
  define R where "R = (program_router k d (new_router b))\<lparr>r_watch := Some HPoll, r_timeout := Some HPoll, r_poll := Some p\<rparr>"
  let ?w1 = "w\<lparr>w_wheel := timerwheel_init (w_wheel w), w_tick := n, w_router := R\<rparr>"
  have up: "can_start ?H ?w1" "r_packet (w_router ?w1) = Some k"
    using al by (simp_all add: can_start_def runs_fine_def R_def program_fields timerwheel_init_def)
  obtain w2 t dl p2 where w2: "trip_start ?H ?w1 = map_option (\<lambda>v. (r_error (w_router v), v)) (ho_bind ?H w2)"
    "w_router w2 = (w_router ?w1)\<lparr>r_mindeadline := TRIPTIME_END, r_poll := Some p2, r_packet := Some (k\<lparr>pkt_router := True\<rparr>),
       r_state := RS_BIND, r_statedeadline := dl, r_statetimer := Some t\<rparr>"
    "tw_heap (w_wheel w2) t \<noteq> None" "h_conn w2 = h_conn ?w1" "w_brk ?w1 \<le> w_brk w2" "w_epoll w2 = w_epoll ?w1"
    by (rule start_enters [OF up k(7)])
  have hc: "h_conn w2 = Map.empty" using w2(4) none by (auto simp: fun_eq_iff)
  have q2: "sends w2 []"
    using w2(2) sq_rep_init [of "h_conn w2"] hc by (simp add: sends_def R_def program_fields)
  have f2: "runs_fine B (w_router w2)" using w2(2) al by (simp add: runs_fine_def R_def)
  obtain w3 d3 p3 u where w3: "reliable_bind B w2 = Some w3"
    "w_router w3 = (w_router w2)\<lparr>r_statedeadline := d3, r_statetimer := None, r_state := RS_LISTEN,
       r_flag := r_flag (w_router w2) OR FLAG_ALWAYS_READY, r_poll := Some p3,
       r_packet := Some (k\<lparr>pkt_router := True, pkt_data := Some (Ctx_reliable (x\<lparr>rel_timer := u\<rparr>))\<rparr>)\<rparr>"
    "h_conn w3 = h_conn w2" "w_brk w2 \<le> w_brk w3"
    by (rule reliable_bind_listens [OF _ _ w2(3) f2 q2, where k = "k\<lparr>pkt_router := True\<rparr>" and x = x])
      (use w2(2) k(2) in simp_all)
  have run: "router_init E ?H junk d w = Some (data, w3)"
    using init w2(1) w3(1) by (simp add: R_def)
  let ?p = "k\<lparr>pkt_router := True, pkt_data := Some (Ctx_reliable (x\<lparr>rel_timer := u\<rparr>))\<rparr>"
  have flags: "r_flag (w_router w3) = r_flag (program_router k d (new_router b)) OR FLAG_ALWAYS_READY"
    using w3(2) w2(2) by (simp add: R_def)
  have "length b = 1200" using k(1) able by (simp add: able_def)
  then have L: "loops_on ?p (w_router w3)"
    unfolding loops_on_def using program_flags [OF flags] w3(2) w2(2)
    by (simp add: R_def program_fields)
  have "loops B ?p w3"
    using L able k(6) w3(2) by (simp add: loops_def able_def)
  moreover have "unready w3" "fresh_above w3" using hc w3(3) by (simp_all add: unready_def fresh_above_def)
  moreover have "sends w3 []" using q2 w3(2,3) by (simp add: sends_def)
  moreover have "has_flag FLAG_ALLOW_OUT w3" using program_flags [OF flags] by (simp add: has_flag_def)
  moreover have "r_conn (w_router w3) = connmap_init (ucast DEFAULT_MAX_CONN)" "r_resolveq (w_router w3) = resolveq_init"
    "r_sendlen (w_router w3) = 0"
    using w3(2) w2(2) by (simp_all add: R_def program_fields)
  ultimately have "can_open B ?p (x\<lparr>rel_timer := u\<rparr>) w3"
    using new_map k by (simp add: can_open_def INT_MAX_def)
  with run show thesis by (rule that)
qed

section \<open>The handshake of the program\<close>

text \<open>C2: The test program of \<open>src/test/reliable.c\<close> reaches its handshake. On a host that has
memory and whose \<open>epoll\<close> gives a descriptor, \<open>router_init\<close> sets a router up and starts it over the
interface of \<open>src/test/reliable_packet.c\<close>. In the world it leaves, \<open>trip_open_connection\<close> leaves
a timer; its callback has the address resolved, which leaves another timer; its callback brings
the connection to \<open>OPEN\<close> and asks for sending, which leaves a third; and its callback carries
out the whole handshake of the router with itself, inside the send loop, because the interface
hands each packet to the receiving side before it returns. In the end the queue is empty, the
connection is in \<open>PING\<close>, the one that was made for it is in \<open>CHAL\<close>, both are in the connection
map, and each knows the other's identifier.\<close>

theorem program_shakes_hands:
  assumes "able B" "gives_poll E" "\<forall>a. h_conn w a = None"
  shows "\<exists>md w0 w1 w2 w3 w4 i b. router_init E (reliable_host B) junk d w = Some (md, w0) \<and>
    trip_open_connection (reliable_host B) data ilen info w0 = Some w1 \<and>
    waits_for CB_open_connection (Some (w_brk w0)) w1 \<and>
    fire (reliable_host B) CB_open_connection (Some (w_brk w0)) w1 = Some w2 \<and>
    waits_for CB_resolve_success (Some (w_brk w0)) w2 \<and>
    fire (reliable_host B) CB_resolve_success (Some (w_brk w0)) w2 = Some w3 \<and>
    waits_for CB_send_immediately None w3 \<and> sends w3 [w_brk w0] \<and>
    fire (reliable_host B) CB_send_immediately None w3 = Some w4 \<and>
    sends w4 [] \<and> acquainted w4 (w_brk w0) i b \<and> b \<noteq> w_brk w0"
proof -
  obtain md w0 p x where up: "router_init E (reliable_host B) junk d w = Some (md, w0)" "can_open B p x w0"
    by (rule init_opens [OF assms(1,2)]) (use assms(3) in auto)
  show ?thesis
    using up(1) connection_to_itself [OF up(2), of data ilen info] by blast
qed

text \<open>The host of the earlier witnesses gives memory, and the \<open>epoll\<close> of theory \<open>Stopping\<close> gives a descriptor.\<close>

lemma looping_host_able: "able looping_host"
proof -
  have "sodium_sizes (ho_crypto looping_host)"
    using sodium_ok by (simp add: looping_host_def still_host_def sodium_sizes_def) (simp add: sodium_def)
  then show ?thesis
    by (simp add: able_def looping_host_def still_host_def modest_def router_handle_screen_def)
qed

theorem program_shakes_hands_witness:
  "\<exists>md w0 w1 w2 w3 w4 i b. router_init silent_poll (reliable_host looping_host) False 9 blank_world = Some (md, w0) \<and>
    trip_open_connection (reliable_host looping_host) (Some 99) 0 None w0 = Some w1 \<and>
    fire (reliable_host looping_host) CB_open_connection (Some (w_brk w0)) w1 = Some w2 \<and>
    fire (reliable_host looping_host) CB_resolve_success (Some (w_brk w0)) w2 = Some w3 \<and>
    fire (reliable_host looping_host) CB_send_immediately None w3 = Some w4 \<and> acquainted w4 (w_brk w0) i b"
proof -
  have "gives_poll silent_poll"
    unfolding gives_poll_def
  proof (intro allI exI conjI)
    show "ep_create silent_poll w = (3, w\<lparr>w_tick := w_tick w\<rparr>)" for w by (simp add: silent_poll_def)
  qed simp
  moreover have "\<forall>a. h_conn blank_world a = None" by (simp add: blank_world_def)
  ultimately show ?thesis
    using program_shakes_hands [OF looping_host_able, of silent_poll blank_world False 9 "Some 99" 0 None] by metis
qed

end
