(* ===== verification/Spec2Isabelle.thy ===== *)
theory Spec2Isabelle
  imports Util Trip_Time Octets Codec Sendq Timerwheel Connmap Resolveq Sockmap Streammap Messages
    World Names Conn Router Udp Trip_Poll Sticky_Router Api Handshake Segments Starting Stopping Retry
    Packet_Path Unready Isolation Sound Sound_Packet Events Draining Reliable Loopback Opening Program
begin

text \<open>
  libtrp is a C library for a protocol of connections, streams and messages over packets. This
  development models the library under \<open>src/src\<close> and the test program \<open>src/test/reliable.c\<close>, and
  proves what its parts do, what they promise one another and where they fail to.

  The parts and how they interact. A router (\<open>trip.c\<close>) is driven from outside by
  \<open>trip_action\<close>, \<open>trip_timeout\<close> and \<open>trip_seg\<close>; the poll loop (\<open>trip_poll.c\<close>) is the driver
  the library brings along. The router owns a timer wheel (\<open>timerwheel.c\<close>), a map from
  identifiers to connections (\<open>connmap.c\<close>), the addresses being resolved (\<open>resolveq.c\<close>), the
  user's data per socket (\<open>sockmap.c\<close>) and the queue of connections that want to send
  (\<open>sendq.c\<close>). Connections (\<open>conn.c\<close>) are state machines that set timers, put themselves on that
  queue, write packets with \<open>trip_pack\<close> and read them with \<open>trip_unpack\<close> (\<open>pack.c\<close>); each has
  streams (\<open>stream.c\<close>, \<open>streammap.c\<close>), whose messages are in the list of the stream and in one of
  the connection's queues at once. Packets leave and arrive through a packet interface, a table
  of functions: the default one for UDP (\<open>packet.c\<close>), or that of the test program
  (\<open>test/reliable_packet.c\<close>), which hands each packet back to its own router.

  How C is modelled. Machine integers are words (\<open>u8\<close> to \<open>u64\<close>); \<open>int\<close> is \<open>int\<close>, with \<open>cint\<close>
  where the code can overflow it. Objects live in heaps, maps from addresses (naturals) to
  records; \<open>ptr\<close> is an optional address. \<open>None\<close> as the result of an operation is undefined behaviour: a
  null or dangling pointer, an access outside an object, signed overflow. What the code reads
  without having written it is an argument or comes from the host. Error codes are the values of
  \<open>errno\<close>. The state of a program is the record \<open>world\<close>: the heaps of connections, streams and
  messages, the router, the wheel, the next free address, a count of the questions asked of the
  outside, and what the network has been given (\<open>w_sent\<close>, which no
  operation of the library writes, only hosts that record what they are asked to do). That outside is the record \<open>host\<close>: clock, allocator, random numbers, libsodium
  (\<open>crypto\<close>), the user's callbacks, the packet interface and \<open>epoll_ctl\<close>. Callbacks are functions
  on the whole world, so they can call the library again. What theorems need of a host is named
  in them (\<open>sodium_sizes\<close>, \<open>leaves_conns\<close>, \<open>modest\<close>, \<open>clock_advances\<close> and others), and \<open>Hosts\<close> has
  hosts that satisfy it, with the walk of a router's timers on one of them.

  The theories.
  \<^item> \<open>Prelude\<close> (types, errors, octets), \<open>Linked\<close> (heaps and linked lists), \<open>Slots\<close> (arrays with an
    embedded free list) and \<open>Interfaces\<close> (locales: \<open>fifo\<close>, \<open>fifo_marked\<close>, \<open>assoc_map\<close>,
    \<open>bounded_map\<close>, \<open>registry\<close>) are the common ground. The locales are interpreted by the send
    queue, the message queues, the socket map and the connection map.
  \<^item> \<open>Util\<close> is \<open>util.c\<close>, \<open>Trip_Time\<close> is \<open>time.c\<close>, \<open>Names\<close> is \<open>global.c\<close>, \<open>part.h\<close> and the names of states.
  \<^item> \<open>Octets\<close>, \<open>Pack\<close>, \<open>Unpack\<close> are \<open>pack.c\<close>, one definition for each specifier; \<open>Wire\<close> is a reference
    encoding, stated with division and remainder only, and shows that the code computes it;
    \<open>Pack_Safety\<close> and \<open>Codec\<close> prove memory safety, the round trip with the integers
    that survive it, the size estimate, and what variable-length integers, signatures and binary
    strings lose.
  \<^item> \<open>Sendq\<close>, \<open>Timerwheel\<close>, \<open>Connmap\<close>, \<open>Resolveq\<close>, \<open>Sockmap\<close>, \<open>Streammap\<close> are the files of these names, each
    with its representation invariant, an abstract value (a list, a partial map) and lemmas
    that the operations refine the abstract ones. Counters that are \<open>int\<close> in the code
    (the length of the resolve queue, the capacity of the stream map) stay within \<open>INT_MAX\<close>.
  \<^item> \<open>Structs\<close> has the structures of the headers, \<open>Messages\<close> is \<open>stream.c\<close> with the message queues of
    \<open>conn.c\<close>: order of sending, removal, fairness of the choice between the queues.
  \<^item> \<open>World\<close> is the state above, the router's structure (\<open>trip.h\<close>), its timers and the poll loop's
    hooks; \<open>Conn\<close> is \<open>conn.c\<close>; \<open>Router\<close> is \<open>trip.c\<close>; \<open>Packet_Udp\<close> and \<open>Udp\<close> are \<open>packet.c\<close>; \<open>Trip_Poll\<close> is
    \<open>trip_poll.c\<close>; \<open>Reliable\<close> is \<open>test/reliable.c\<close> with \<open>test/reliable_packet.c\<close>.
  \<^item> \<open>Sticky\<close> and \<open>Sticky_Router\<close> (locales \<open>keeping_host\<close>, \<open>keeping_router\<close>) carry a property of the router
    through every operation of the library; \<open>Api\<close> uses them for all sequences of calls: the
    first error stays and is what every later action reports.
  \<^item> \<open>Packet_Path\<close> (locales \<open>conn_path\<close>, \<open>segment_path\<close>) carries a property of the world along the way of
    a packet; \<open>Unready\<close> uses it for the states packets can lead to, \<open>Isolation\<close> for the connections
    a packet cannot touch.
  \<^item> \<open>Hello\<close> computes the octets of the handshake packets; \<open>Handshake\<close> exchanges them between two
    routers; \<open>Loopback\<close> runs the exchange inside one call of the send loop of a router that talks to
    itself; \<open>Draining\<close> shows that the loop gives the socket the packet of each queued
    connection, in the order of the queue, and ends with an empty one; \<open>Opening\<close> runs the callbacks
    of \<open>trip_open_connection\<close> up to that call, and \<open>Program\<close> begins with \<open>router_init\<close>, so that
    \<open>program_shakes_hands\<close> is about the test program from its start.
  \<^item> \<open>Sound\<close> states when the memory of a router is in order: connection map, send queue, timer wheel and
    resolve queue are what they should be, every connection's timer is there and its own, no
    timer is about a connection that is gone, and the numbers are within limits. It takes the
    operations of \<open>conn.c\<close> through, \<open>Sound_Packet\<close> the way of a packet (\<open>packet_keeps_order\<close>), and
    \<open>Events\<close> the opening, answering, timing out and closing of connections, so that
    \<open>events_keep_order\<close> covers every sequence of those that \<open>allowed\<close> lets pass, with memory
    that does not run out and callbacks that only look on. \<open>allowed\<close> excludes what \<open>Segments\<close>
    shows to do harm (an early ping, a short packet), the closing of a connection that is
    queued or still waited for, an opening the maps have no room for, and negative keys.
  \<^item> \<open>Segments\<close> has what packets do that are not of a handshake, and the ones that do harm;
    \<open>Retry\<close> has the timers of the handshake, up to the user being told \<open>ETIME\<close>; \<open>Starting\<close> and \<open>Stopping\<close> a router's way to \<open>LISTEN\<close> and,
    through the poll loop, out of it.

  Loops. Those bounded by a structure are structural recursion or recursion on a count taken from the code
  (\<open>conn_turn\<close> counts down from \<open>max_connection_send_count\<close>, as the loop does). Loops through
  pointers and loops that wait on the outside (the walks of lists, \<open>send_loop\<close>, \<open>read_loop\<close>,
  \<open>run_loop\<close>, \<open>main_loop\<close>) are partial functions whose value \<open>None\<close> covers not returning; that they do
  return is proved for the walks from the representation invariants, for \<open>send_loop\<close> in
  \<open>send_drains\<close> and \<open>loopback_handshake\<close>, and for \<open>run_loop\<close> in \<open>stop_times_out\<close>. No fuel is used.

  What the development shows of the whole: the handshake works up to \<open>PING\<close>, in order, with
  retries that back off, without touching other connections; the events allowed, in any order,
  leave the memory in order and never reach undefined behaviour while allocations succeed;
  errors are final and reported.
  It also shows where it ends: no packet makes a connection ready, the ping has no time, a stopped
  router ends in \<open>ERROR\<close>, and some packets make the library accept or read what it should not.

  Not modelled: what is printed for debugging, beyond the reads it makes; the encryption
  itself (a parameter, as libsodium is; the code leaves decryption open); the sharing of objects
  between threads (the library has none); \<open>test/echo_client.c\<close> and \<open>test/echo_server.c\<close>, which are
  written for libuv and an earlier interface and do not compile against this one, as the tests
  under \<open>test/unit\<close>; and the declarations of the headers.
\<close>

end
